(* ===== verification/Flb_Prelude.thy ===== *)
theory Flb_Prelude
  imports Main "HOL-Library.Word"
begin

text \<open>
  Shared vocabulary of the development: how C strings, linked lists and return codes of the
  Fluent Bit sources are represented, and the generic lemmas the component theories use.

  A C string (a \<^verbatim>\<open>char *\<close>) is the list of the bytes the pointer can reach, without the
  terminating NUL byte; reading at the end of the list reads that NUL (\<open>cs_hd\<close>). A list may
  hold NUL bytes of its own, and then every routine that stops at a NUL stops there, as the
  C library does. A \<^verbatim>\<open>mk_list\<close> is the HOL list of its nodes in order: \<^verbatim>\<open>mk_list_add\<close>
  appends at the tail and \<^verbatim>\<open>mk_list_del\<close> removes the node.
\<close>

section \<open>Collections of rewrite rules\<close>

named_theorems flb_defs \<open>definitions unfolded by functional-behaviour proofs\<close>
named_theorems flb_inv \<open>preservation lemmas of component invariants\<close>

section \<open>C strings\<close>

type_synonym cstr = "char list"
type_synonym addr = nat

abbreviation NUL :: char where
  "NUL \<equiv> CHR 0x00"

definition cs_hd :: "cstr \<Rightarrow> char" where
  "cs_hd s = (case s of [] \<Rightarrow> NUL | c # _ \<Rightarrow> c)"

definition cs_at :: "cstr \<Rightarrow> nat \<Rightarrow> char" where
  "cs_at s i = (if i < length s then s ! i else NUL)"

definition nul_free :: "cstr \<Rightarrow> bool" where
  "nul_free s \<longleftrightarrow> NUL \<notin> set s"

definition strlen :: "cstr \<Rightarrow> nat" where
  "strlen s = length (takeWhile (\<lambda>c. c \<noteq> NUL) s)"

fun strchr :: "cstr \<Rightarrow> char \<Rightarrow> cstr option" where
  "strchr [] c = (if c = NUL then Some [] else None)"
| "strchr (x # xs) c = (if x = c then Some (x # xs) else if x = NUL then None else strchr xs c)"

text \<open>\<open>strncmp_eq n a b\<close> is \<^verbatim>\<open>strncmp(a, b, n) == 0\<close>, \<open>strcmp_eq a b\<close> is
  \<^verbatim>\<open>strcmp(a, b) == 0\<close>.\<close>

fun strncmp_eq :: "nat \<Rightarrow> cstr \<Rightarrow> cstr \<Rightarrow> bool" where
  "strncmp_eq 0 a b = True"
| "strncmp_eq (Suc n) a b =
     (cs_hd a = cs_hd b \<and> (cs_hd a = NUL \<or> strncmp_eq n (tl a) (tl b)))"

definition strcmp_eq :: "cstr \<Rightarrow> cstr \<Rightarrow> bool" where
  "strcmp_eq a b \<longleftrightarrow> takeWhile (\<lambda>c. c \<noteq> NUL) a = takeWhile (\<lambda>c. c \<noteq> NUL) b"

lemma cs_hd_simps [simp]:
  "cs_hd [] = NUL"
  "cs_hd (c # s) = c"
  by (simp_all add: cs_hd_def)

lemma nul_free_simps [simp]:
  "nul_free []"
  "nul_free (c # s) \<longleftrightarrow> c \<noteq> NUL \<and> nul_free s"
  "nul_free (s @ t) \<longleftrightarrow> nul_free s \<and> nul_free t"
  by (auto simp: nul_free_def)

lemma nul_free_take [simp]: "nul_free s \<Longrightarrow> nul_free (take n s)"
  by (auto simp: nul_free_def dest: in_set_takeD)

lemma nul_free_drop [simp]: "nul_free s \<Longrightarrow> nul_free (drop n s)"
  by (auto simp: nul_free_def dest: in_set_dropD)

lemma nul_free_tl [simp]: "nul_free s \<Longrightarrow> nul_free (tl s)"
  by (cases s) auto

lemma takeWhile_nul_free [simp]: "nul_free s \<Longrightarrow> takeWhile (\<lambda>c. c \<noteq> NUL) s = s"
  by (induction s) auto

lemma strlen_nul_free [simp]: "nul_free s \<Longrightarrow> strlen s = length s"
  by (simp add: strlen_def)

lemma strcmp_eq_nul_free [simp]: "nul_free a \<Longrightarrow> nul_free b \<Longrightarrow> strcmp_eq a b \<longleftrightarrow> a = b"
  by (simp add: strcmp_eq_def)

lemma cs_hd_nul_free: "nul_free s \<Longrightarrow> cs_hd s = NUL \<longleftrightarrow> s = []"
  by (cases s) auto

lemma strchr_length: "strchr s c = Some t \<Longrightarrow> length t \<le> length s"
  by (induction s c rule: strchr.induct) (auto split: if_splits)

lemma strchr_Some_cs_hd: "strchr s c = Some t \<Longrightarrow> cs_hd t = c"
  by (induction s c rule: strchr.induct) (auto split: if_splits)

lemma strchr_nul_free: "nul_free s \<Longrightarrow> strchr s c = Some t \<Longrightarrow> nul_free t"
  by (induction s c rule: strchr.induct) (auto split: if_splits)

lemma strncmp_eq_nul_free:
  assumes "nul_free a" "nul_free b"
  shows "strncmp_eq n a b \<longleftrightarrow> take n a = take n b"
  using assms
proof (induction n a b rule: strncmp_eq.induct)
  case (1 a b)
  then show ?case by simp
next
  case (2 n a b)
  then show ?case by (cases a; cases b) auto
qed

lemma strncmp_eq_same_length:
  assumes "nul_free a" "nul_free b" "length a = n" "length b = n"
  shows "strncmp_eq n a b \<longleftrightarrow> a = b"
  using assms by (simp add: strncmp_eq_nul_free)

section \<open>Linked lists\<close>

definition mk_list_add :: "'a \<Rightarrow> 'a list \<Rightarrow> 'a list" where
  "mk_list_add x xs = xs @ [x]"

definition mk_list_del :: "'a \<Rightarrow> 'a list \<Rightarrow> 'a list" where
  "mk_list_del x xs = remove1 x xs"

lemma set_mk_list_add [simp]: "set (mk_list_add x xs) = insert x (set xs)"
  by (simp add: mk_list_add_def)

lemma length_mk_list_add [simp]: "length (mk_list_add x xs) = Suc (length xs)"
  by (simp add: mk_list_add_def)

lemma distinct_mk_list_add [simp]: "distinct (mk_list_add x xs) \<longleftrightarrow> x \<notin> set xs \<and> distinct xs"
  by (auto simp: mk_list_add_def)

lemma filter_mk_list_add [simp]:
  "filter P (mk_list_add x xs) = (if P x then mk_list_add x (filter P xs) else filter P xs)"
  by (simp add: mk_list_add_def)

lemma set_mk_list_del [simp]: "distinct xs \<Longrightarrow> set (mk_list_del x xs) = set xs - {x}"
  by (simp add: mk_list_del_def)

lemma distinct_mk_list_del [simp]: "distinct xs \<Longrightarrow> distinct (mk_list_del x xs)"
  by (simp add: mk_list_del_def)

lemma length_mk_list_del: "x \<in> set xs \<Longrightarrow> length (mk_list_del x xs) = length xs - 1"
  by (simp add: mk_list_del_def length_remove1)

lemma int_length_mk_list_del: "x \<in> set xs \<Longrightarrow> int (length (mk_list_del x xs)) = int (length xs) - 1"
  by (cases xs) (auto simp: length_mk_list_del)

lemma mk_list_del_notin [simp]: "x \<notin> set xs \<Longrightarrow> mk_list_del x xs = xs"
  by (simp add: mk_list_del_def remove1_idem)

lemma filter_mk_list_del:
  "distinct xs \<Longrightarrow> filter P (mk_list_del x xs) = mk_list_del x (filter P xs)"
  by (simp add: mk_list_del_def distinct_remove1_removeAll removeAll_filter_not_eq conj_commute)

text \<open>\<^verbatim>\<open>mk_list_foreach\<close> loops that stop at the first node with a property.\<close>

lemma find_Some_in: "List.find P xs = Some x \<Longrightarrow> x \<in> set xs \<and> P x"
  by (auto simp: find_Some_iff)

lemma find_None_all: "List.find P xs = None \<Longrightarrow> \<forall>x\<in>set xs. \<not> P x"
  by (auto simp: find_None_iff)

lemma find_filter: "List.find P (filter Q xs) = List.find (\<lambda>x. Q x \<and> P x) xs"
  by (induction xs) auto

lemma find_cong_set: "(\<And>x. x \<in> set xs \<Longrightarrow> P x = Q x) \<Longrightarrow> List.find P xs = List.find Q xs"
  by (induction xs) auto

lemma find_mk_list_add:
  "List.find P (mk_list_add x xs) =
     (case List.find P xs of Some y \<Rightarrow> Some y | None \<Rightarrow> if P x then Some x else None)"
  by (induction xs) (auto simp: mk_list_add_def)

lemma find_mk_list_del:
  "distinct xs \<Longrightarrow> \<not> P x \<Longrightarrow> List.find P (mk_list_del x xs) = List.find P xs"
  by (induction xs) (auto simp: mk_list_del_def)

lemma find_inj_on:
  assumes "inj_on f (set xs)" "a \<in> set xs"
  shows "List.find (\<lambda>x. f x = f a) xs = Some a"
  using assms by (induction xs) (auto simp: inj_on_def)

lemma strncmp_eq_take: "strncmp_eq n a b = strncmp_eq n (take n a) (take n b)"
proof (induction n a b rule: strncmp_eq.induct)
  case (1 a b)
  then show ?case by simp
next
  case (2 n a b)
  then show ?case by (cases a; cases b) auto
qed

end
