(* ===== verification/Flb_Config.thy ===== *)
theory Flb_Config
  imports Flb_Prelude
begin

text \<open>
  The parts of \<^verbatim>\<open>struct flb_config\<close>, \<^verbatim>\<open>struct flb_input_instance\<close> and
  \<^verbatim>\<open>struct flb_output_instance\<close> (\<^verbatim>\<open>include/fluent-bit/flb_config.h\<close>,
  \<^verbatim>\<open>flb_input.h\<close>, \<^verbatim>\<open>flb_output.h\<close>) that routing reads and writes. A pointer to an output
  instance is represented by the instance's id, which \<^verbatim>\<open>instance_id\<close> makes unique; a
  compiled regular expression is an opaque handle; a tag pointer is \<open>None\<close> when it is NULL.
\<close>

record flb_output_instance =
  o_id :: int
  o_match :: "cstr option"
  o_match_regex :: "nat option"
  o_event_type :: "32 word"

record flb_input_instance =
  i_p :: bool
  i_tag :: "cstr option"
  i_tag_len :: int
  i_routes :: "int list"
  i_routes_direct :: "int list"

record flb_config =
  inputs :: "flb_input_instance list"
  outputs :: "flb_output_instance list"

text \<open>Event types: \<^verbatim>\<open>FLB_INPUT_LOGS\<close> and its kin, and the bits of an output's mask.\<close>

definition FLB_INPUT_LOGS :: int where "FLB_INPUT_LOGS = 0"
definition FLB_INPUT_METRICS :: int where "FLB_INPUT_METRICS = 1"
definition FLB_INPUT_TRACES :: int where "FLB_INPUT_TRACES = 2"
definition FLB_INPUT_BLOBS :: int where "FLB_INPUT_BLOBS = 3"

definition FLB_OUTPUT_LOGS :: "32 word" where "FLB_OUTPUT_LOGS = 1"
definition FLB_OUTPUT_METRICS :: "32 word" where "FLB_OUTPUT_METRICS = 2"
definition FLB_OUTPUT_TRACES :: "32 word" where "FLB_OUTPUT_TRACES = 4"
definition FLB_OUTPUT_BLOBS :: "32 word" where "FLB_OUTPUT_BLOBS = 8"

lemmas flb_event_type_defs =
  FLB_INPUT_LOGS_def FLB_INPUT_METRICS_def FLB_INPUT_TRACES_def FLB_INPUT_BLOBS_def
  FLB_OUTPUT_LOGS_def FLB_OUTPUT_METRICS_def FLB_OUTPUT_TRACES_def FLB_OUTPUT_BLOBS_def

text \<open>\<^verbatim>\<open>instance_id\<close> of \<^verbatim>\<open>src/flb_output.c\<close>: the id of the next output instance.\<close>

definition instance_id :: "flb_config \<Rightarrow> int" where
  "instance_id config =
     (if outputs config = [] then 0 else o_id (last (outputs config)) + 1)"

text \<open>\<^verbatim>\<open>flb_output_get_instance\<close>: the first output with the given id.\<close>

definition flb_output_get_instance :: "flb_config \<Rightarrow> int \<Rightarrow> flb_output_instance option" where
  "flb_output_get_instance config out_id = List.find (\<lambda>ins. o_id ins = out_id) (outputs config)"

text \<open>Linking a new instance, as \<^verbatim>\<open>flb_output_new\<close> does with the id of \<^verbatim>\<open>instance_id\<close>.\<close>

definition output_link :: "flb_config \<Rightarrow> flb_output_instance \<Rightarrow> flb_config" where
  "output_link config ins =
     config\<lparr>outputs := mk_list_add (ins\<lparr>o_id := instance_id config\<rparr>) (outputs config)\<rparr>"

text \<open>The ids of the outputs grow along the list, so they are unique and none is negative.\<close>

definition output_ids_ok :: "flb_config \<Rightarrow> bool" where
  "output_ids_ok config \<longleftrightarrow>
     sorted_wrt (<) (map o_id (outputs config)) \<and> (\<forall>x\<in>set (outputs config). 0 \<le> o_id x)"

lemma sorted_wrt_less_last: "sorted_wrt (<) (xs :: int list) \<Longrightarrow> x \<in> set xs \<Longrightarrow> x \<le> last xs"
  by (induction xs) (auto split: if_splits, metis last_in_set less_le_not_le)

lemma output_link_ids_ok [flb_inv]:
  assumes "output_ids_ok config"
  shows "output_ids_ok (output_link config ins)"
proof (cases "outputs config = []")
  case True
  then show ?thesis by (simp add: output_ids_ok_def output_link_def instance_id_def mk_list_add_def)
next
  case False
  have "o_id x < o_id (last (outputs config)) + 1" if "x \<in> set (outputs config)" for x
    using assms that sorted_wrt_less_last [of "map o_id (outputs config)" "o_id x"] False
    by (auto simp: output_ids_ok_def last_map)
  moreover have "0 \<le> o_id (last (outputs config))"
    using assms False by (simp add: output_ids_ok_def)
  ultimately show ?thesis
    using assms False
    by (auto simp: output_ids_ok_def output_link_def instance_id_def mk_list_add_def sorted_wrt_append)
qed

lemma output_ids_ok_distinct: "output_ids_ok config \<Longrightarrow> distinct (map o_id (outputs config))"
  by (simp add: output_ids_ok_def strict_sorted_iff)

lemma flb_output_get_instance_unique:
  assumes "output_ids_ok config" "ins \<in> set (outputs config)"
  shows "flb_output_get_instance config (o_id ins) = Some ins"
proof -
  have "List.find (\<lambda>i. o_id i = o_id ins) xs = Some ins"
    if "distinct (map o_id xs)" "ins \<in> set xs" for xs
    using that by (induction xs) (auto simp: rev_image_eqI)
  then show ?thesis
    using assms output_ids_ok_distinct by (simp add: flb_output_get_instance_def)
qed

end
