(* ===== verification/Flb_Router.thy ===== *)
theory Flb_Router
  imports Flb_Prelude Flb_Config
begin

unbundle bit_operations_syntax

text \<open>
  \<^verbatim>\<open>src/flb_router.c\<close> and the inline part of \<^verbatim>\<open>include/fluent-bit/flb_router.h\<close>: the
  matching of a tag against the match rule of an output (wildcard or regular expression), and
  the static routes between input and output instances.

  The regular expression engine (Onigmo) is third-party code: a compiled expression is an opaque
  handle and \<open>onig\<close> is the function that runs it (the return value of \<^verbatim>\<open>onig_match\<close>).
  The tag handed to it is the byte range \<^verbatim>\<open>[tag, tag + tag_len)\<close>.
\<close>

section \<open>Wildcard matching\<close>

text \<open>
  The loop of \<^verbatim>\<open>router_match\<close>, after the regular expression was tried. \<open>wild_loop\<close> is the
  iteration that steps over equal bytes, \<open>star_loop\<close> the inner \<^verbatim>\<open>while ((pos = strchr(...)))\<close>
  with its recursive call. A hit of \<^verbatim>\<open>strchr\<close> at the terminating NUL cannot occur there
  (the byte searched for is not NUL), so the guard \<open>pos = []\<close> only keeps the definition total.
\<close>

function (sequential) wild_loop :: "cstr \<Rightarrow> cstr \<Rightarrow> bool"
  and star_loop :: "cstr \<Rightarrow> cstr \<Rightarrow> bool" where
  "wild_loop tag match =
     (if cs_hd match = CHR ''*'' then
        (let m = dropWhile (\<lambda>c. c = CHR ''*'') match in
         if cs_hd m = NUL then True else star_loop tag m)
      else if cs_hd tag \<noteq> cs_hd match then False
      else if cs_hd tag = NUL then True
      else wild_loop (tl tag) (tl match))"
| "star_loop tag m =
     (case strchr tag (cs_hd m) of
        None \<Rightarrow> False
      | Some pos \<Rightarrow>
          if wild_loop pos m then True
          else if pos = [] then False
          else star_loop (tl pos) m)"
  by pat_completeness auto
termination
proof (relation "measures [\<lambda>p. case p of Inl (t, m) \<Rightarrow> length m | Inr (t, m) \<Rightarrow> length m,
    \<lambda>p. case p of Inl (t, m) \<Rightarrow> length t | Inr (t, m) \<Rightarrow> length t,
    \<lambda>p. case p of Inl _ \<Rightarrow> 0 | Inr _ \<Rightarrow> 1]", goal_cases)
  case 1
  then show ?case by simp
next
  case (2 tag match m)
  then have "match \<noteq> []" "hd match = CHR ''*''"
    by (auto simp: cs_hd_def split: list.splits)
  then obtain r where "match = CHR ''*'' # r" by (cases match) auto
  then have "length m < length match"
    using 2 length_dropWhile_le [of "\<lambda>c. c = CHR ''*''" r] by simp
  then show ?case by simp
next
  case (3 tag match)
  then show ?case by (cases tag; cases match) auto
next
  case (4 tag m pos)
  then have "length pos \<le> length tag" by (auto dest: strchr_length)
  then show ?case by auto
next
  case (5 tag m pos)
  then have "length pos \<le> length tag" "pos \<noteq> []" by (auto dest: strchr_length)
  then have "length (tl pos) < length tag" by (cases pos) auto
  then show ?case by simp
qed

declare wild_loop.simps [simp del] star_loop.simps [simp del]

definition router_match :: "(nat \<Rightarrow> cstr \<Rightarrow> int) \<Rightarrow> cstr \<Rightarrow> int \<Rightarrow> cstr option \<Rightarrow> nat option \<Rightarrow> bool" where
  "router_match onig tag tag_len match match_r =
     (if (case match_r of None \<Rightarrow> False | Some r \<Rightarrow> onig r (take (nat tag_len) tag) > 0) then True
      else case match of None \<Rightarrow> False | Some m \<Rightarrow> wild_loop tag m)"

text \<open>\<open>alloc_ok\<close> is the outcome of \<^verbatim>\<open>flb_sds_create_len\<close>, which copies the first
  \<^verbatim>\<open>tag_len\<close> bytes when the tag is not terminated there.\<close>

definition flb_router_match ::
  "(nat \<Rightarrow> cstr \<Rightarrow> int) \<Rightarrow> bool \<Rightarrow> cstr \<Rightarrow> int \<Rightarrow> cstr option \<Rightarrow> nat option \<Rightarrow> bool" where
  "flb_router_match onig alloc_ok tag tag_len match match_regex =
     (if cs_at tag (nat tag_len) \<noteq> NUL then
        (if \<not> alloc_ok then False
         else router_match onig (take (nat tag_len) tag) tag_len match match_regex)
      else router_match onig tag tag_len match match_regex)"

section \<open>Reference semantics of wildcards\<close>

text \<open>The documented meaning of a match rule: \<open>*\<close> stands for any sequence of bytes, every other
  byte for itself.\<close>

fun glob :: "cstr \<Rightarrow> cstr \<Rightarrow> bool" where
  "glob [] s = (s = [])"
| "glob (c # p) s =
     (if c = CHR ''*'' then (\<exists>k \<le> length s. glob p (drop k s))
      else (case s of [] \<Rightarrow> False | x # xs \<Rightarrow> x = c \<and> glob p xs))"

lemma glob_star_drop: "glob (CHR ''*'' # p) (drop k s) \<Longrightarrow> glob (CHR ''*'' # p) s"
  by (auto simp: drop_drop) (metis drop_all drop_drop nat_le_linear order_refl)

lemma glob_stars: "glob (CHR ''*'' # dropWhile (\<lambda>c. c = CHR ''*'') p) s = glob (CHR ''*'' # p) s"
proof (induction p)
  case Nil
  then show ?case by simp
next
  case (Cons c p)
  show ?case
  proof (cases "c = CHR ''*''")
    case True
    have "glob (CHR ''*'' # CHR ''*'' # p) s = glob (CHR ''*'' # p) s"
    proof
      assume "glob (CHR ''*'' # CHR ''*'' # p) s"
      then obtain k where "glob (CHR ''*'' # p) (drop k s)" by auto
      then show "glob (CHR ''*'' # p) s" by (rule glob_star_drop)
    next
      assume "glob (CHR ''*'' # p) s"
      then have "\<exists>k \<le> length s. glob (CHR ''*'' # p) (drop k s)" by (metis drop0 le0)
      then show "glob (CHR ''*'' # CHR ''*'' # p) s" by (metis glob.simps(2))
    qed
    with Cons True show ?thesis by simp
  next
    case False
    then show ?thesis by simp
  qed
qed

lemma glob_star_strchr_None:
  assumes "strchr s c = None" "c \<noteq> NUL" "c \<noteq> CHR ''*''" "nul_free s"
  shows "\<not> glob (CHR ''*'' # c # p) s"
proof -
  have "c \<notin> set s"
    using assms by (induction s c rule: strchr.induct) (auto split: if_splits)
  then show ?thesis
    using assms(3) by (auto split: list.splits dest: in_set_dropD) (metis in_set_dropD list.set_intros(1))
qed

lemma glob_star_strchr_Some:
  assumes "strchr s c = Some pos" "c \<noteq> NUL" "c \<noteq> CHR ''*''" "nul_free s"
  shows "glob (CHR ''*'' # c # p) s \<longleftrightarrow> glob (c # p) pos \<or> glob (CHR ''*'' # c # p) (tl pos)"
  using assms
proof (induction s c rule: strchr.induct)
  case (1 c)
  then show ?case by simp
next
  case (2 x xs c)
  have split: "glob (CHR ''*'' # c # p) (x # xs) \<longleftrightarrow> glob (c # p) (x # xs) \<or> glob (CHR ''*'' # c # p) xs"
    (is "?L \<longleftrightarrow> ?R")
  proof
    assume ?L
    then obtain k where k: "k \<le> length (x # xs)" "glob (c # p) (drop k (x # xs))" by auto
    then show ?R by (cases k) auto
  next
    assume ?R
    then show ?L using glob_star_drop [of "c # p" 1 "x # xs"] by (auto intro: exI [of _ 0])
  qed
  show ?case
  proof (cases "x = c")
    case True
    with 2 split show ?thesis by auto
  next
    case False
    with 2 have "glob (CHR ''*'' # c # p) xs \<longleftrightarrow> glob (c # p) pos \<or> glob (CHR ''*'' # c # p) (tl pos)"
      by (auto split: if_splits)
    moreover have "\<not> glob (c # p) (x # xs)" using False 2 by simp
    ultimately show ?thesis using split by simp
  qed
qed

lemma dropWhile_star_hd: "cs_hd (dropWhile (\<lambda>c. c = CHR ''*'') m) \<noteq> CHR ''*''"
  by (induction m) auto

lemma nul_free_dropWhile [simp, intro]: "nul_free m \<Longrightarrow> nul_free (dropWhile P m)"
  by (induction m) auto

text \<open>The loop computes the reference semantics; \<open>star_loop\<close> that of a leading \<open>*\<close>.\<close>

lemma wild_star_glob:
  "nul_free tag \<Longrightarrow> nul_free match \<Longrightarrow> wild_loop tag match = glob match tag"
  "nul_free tag \<Longrightarrow> nul_free m \<Longrightarrow> m \<noteq> [] \<Longrightarrow> cs_hd m \<noteq> CHR ''*'' \<Longrightarrow>
     star_loop tag m = glob (CHR ''*'' # m) tag"
proof (induction tag match and tag m rule: wild_loop_star_loop.induct)
  case (1 tag match)
  show ?case
  proof (cases "cs_hd match = CHR ''*''")
    case True
    then obtain r where r: "match = CHR ''*'' # r" by (cases match) auto
    let ?m = "dropWhile (\<lambda>c. c = CHR ''*'') match"
    have hd: "cs_hd ?m \<noteq> CHR ''*''" by (rule dropWhile_star_hd)
    have eq: "glob (CHR ''*'' # ?m) tag = glob match tag"
      using glob_stars [of r tag] r by simp
    show ?thesis
    proof (cases "cs_hd ?m = NUL")
      case True
      then have "?m = []" using 1 by (simp add: cs_hd_nul_free)
      moreover have "glob [CHR ''*''] tag" by (auto intro: exI [of _ "length tag"])
      ultimately have "glob match tag" using eq by metis
      then show ?thesis using True \<open>cs_hd match = _\<close> by (subst wild_loop.simps) simp
    next
      case False
      then have "?m \<noteq> []" by (metis cs_hd_simps(1))
      then have "star_loop tag ?m = glob (CHR ''*'' # ?m) tag"
        using "1.IH"(1) [OF True refl False "1.prems"(1)] "1.prems"(2) hd by blast
      with True False eq show ?thesis by (subst wild_loop.simps) (simp add: Let_def)
    qed
  next
    case False
    show ?thesis
    proof (cases "cs_hd tag = cs_hd match \<and> cs_hd tag \<noteq> NUL")
      case True
      then obtain c t m where "tag = c # t" "match = c # m" by (cases tag; cases match) auto
      with 1 False True show ?thesis by (subst wild_loop.simps) simp
    next
      case no: False
      with 1 False show ?thesis
        by (subst wild_loop.simps) (cases tag; cases match; auto)
    qed
  qed
next
  case (2 tag m)
  then obtain c p where m: "m = c # p" by (cases m) auto
  with 2 have c: "c \<noteq> NUL" "c \<noteq> CHR ''*''" by auto
  show ?case
  proof (cases "strchr tag c")
    case None
    with 2 m c show ?thesis by (subst star_loop.simps) (simp add: glob_star_strchr_None del: glob.simps)
  next
    case (Some pos)
    then have pos: "nul_free pos" "pos \<noteq> []"
      using 2 c by (auto dest: strchr_nul_free strchr_Some_cs_hd)
    have w: "wild_loop pos m = glob m pos" using 2 Some m pos by auto
    have "\<not> wild_loop pos m \<Longrightarrow> star_loop (tl pos) m = glob (CHR ''*'' # m) (tl pos)"
      using 2 Some m pos by auto
    then show ?thesis using Some w pos m glob_star_strchr_Some [OF Some c \<open>nul_free tag\<close>, of p]
      by (subst star_loop.simps) (auto simp del: glob.simps)
  qed
qed

lemma router_match_glob:
  assumes "nul_free tag" "tag_len = int (length tag)" "\<forall>m. match = Some m \<longrightarrow> nul_free m"
  shows "router_match onig tag tag_len match match_r \<longleftrightarrow>
    (\<exists>r. match_r = Some r \<and> onig r tag > 0) \<or> (\<exists>m. match = Some m \<and> glob m tag)"
  using assms by (auto simp: router_match_def wild_star_glob split: option.splits)

section \<open>Event types\<close>

definition flb_router_match_type :: "int \<Rightarrow> flb_output_instance \<Rightarrow> bool" where
  "flb_router_match_type in_event_type o_ins =
     (if in_event_type = FLB_INPUT_LOGS \<and> o_event_type o_ins AND FLB_OUTPUT_LOGS = 0 then False
      else if in_event_type = FLB_INPUT_METRICS \<and> o_event_type o_ins AND FLB_OUTPUT_METRICS = 0
      then False
      else if in_event_type = FLB_INPUT_TRACES \<and> o_event_type o_ins AND FLB_OUTPUT_TRACES = 0
      then False
      else if in_event_type = FLB_INPUT_BLOBS \<and> o_event_type o_ins AND FLB_OUTPUT_BLOBS = 0
      then False
      else True)"

section \<open>Static routes\<close>

text \<open>The route nodes are allocated; \<open>ok\<close> is the outcome of \<^verbatim>\<open>flb_malloc\<close>.\<close>

definition flb_router_connect ::
  "bool \<Rightarrow> flb_input_instance \<Rightarrow> flb_output_instance \<Rightarrow> int \<times> flb_input_instance" where
  "flb_router_connect ok i_ins out =
     (if \<not> ok then (-1, i_ins)
      else (0, i_ins\<lparr>i_routes := mk_list_add (o_id out) (i_routes i_ins)\<rparr>))"

definition flb_router_connect_direct ::
  "bool \<Rightarrow> flb_input_instance \<Rightarrow> flb_output_instance \<Rightarrow> int \<times> flb_input_instance" where
  "flb_router_connect_direct ok i_ins out =
     (if \<not> ok then (-1, i_ins)
      else (0, i_ins\<lparr>i_routes_direct := mk_list_add (o_id out) (i_routes_direct i_ins)\<rparr>))"

text \<open>The inner loop of \<^verbatim>\<open>flb_router_io_set\<close> over the outputs, for an input with a tag.
  \<open>ok\<close> gives the outcome of the allocations made for a pair of instances.\<close>

fun io_set_outputs ::
  "(nat \<Rightarrow> cstr \<Rightarrow> int) \<Rightarrow> (int \<Rightarrow> bool) \<Rightarrow> cstr \<Rightarrow> flb_input_instance \<Rightarrow> flb_output_instance list
   \<Rightarrow> flb_input_instance" where
  "io_set_outputs onig ok tag i_ins [] = i_ins"
| "io_set_outputs onig ok tag i_ins (o_ins # os) =
     (if o_match o_ins = None \<and> o_match_regex o_ins = None then io_set_outputs onig ok tag i_ins os
      else if flb_router_match onig (ok (o_id o_ins)) tag (i_tag_len i_ins) (o_match o_ins)
                (o_match_regex o_ins)
      then io_set_outputs onig ok tag
             (snd (flb_router_connect (ok (o_id o_ins)) i_ins o_ins)) os
      else io_set_outputs onig ok tag i_ins os)"

definition io_set_input ::
  "(nat \<Rightarrow> cstr \<Rightarrow> int) \<Rightarrow> (int \<Rightarrow> bool) \<Rightarrow> flb_output_instance list \<Rightarrow> flb_input_instance
   \<Rightarrow> flb_input_instance" where
  "io_set_input onig ok os i_ins =
     (if \<not> i_p i_ins then i_ins
      else case i_tag i_ins of None \<Rightarrow> i_ins
      | Some tag \<Rightarrow> io_set_outputs onig ok tag i_ins os)"

definition flb_router_io_set ::
  "(nat \<Rightarrow> cstr \<Rightarrow> int) \<Rightarrow> (int \<Rightarrow> bool) \<Rightarrow> flb_config \<Rightarrow> int \<times> flb_config" where
  "flb_router_io_set onig ok config =
     (case (inputs config, outputs config) of
        ([i_ins], [o_ins]) \<Rightarrow>
          (let o' = (if o_match o_ins = None \<and> o_match_regex o_ins = None
                     then o_ins\<lparr>o_match := (if ok (o_id o_ins) then Some ''*'' else None)\<rparr> else o_ins)
           in (0, config\<lparr>inputs := [snd (flb_router_connect (ok (o_id o_ins)) i_ins o')],
                        outputs := [o']\<rparr>))
      | _ \<Rightarrow> (0, config\<lparr>inputs := map (io_set_input onig ok (outputs config)) (inputs config)\<rparr>))"

definition flb_router_exit :: "flb_config \<Rightarrow> flb_config" where
  "flb_router_exit config =
     config\<lparr>inputs := map (\<lambda>i. i\<lparr>i_routes := [], i_routes_direct := []\<rparr>) (inputs config)\<rparr>"

text \<open>Whether the match rule of an output accepts a tag.\<close>

definition accepts :: "(nat \<Rightarrow> cstr \<Rightarrow> int) \<Rightarrow> cstr \<Rightarrow> flb_output_instance \<Rightarrow> bool" where
  "accepts onig tag out \<longleftrightarrow>
     (\<exists>r. o_match_regex out = Some r \<and> onig r tag > 0) \<or> (\<exists>m. o_match out = Some m \<and> glob m tag)"

definition match_nul_free :: "flb_output_instance \<Rightarrow> bool" where
  "match_nul_free out \<longleftrightarrow> (case o_match out of None \<Rightarrow> True | Some m \<Rightarrow> nul_free m)"

lemma flb_router_match_accepts:
  assumes "nul_free tag" "tag_len \<le> int (length tag)" "0 \<le> tag_len" "match_nul_free out"
  shows "flb_router_match onig True tag tag_len (o_match out) (o_match_regex out) \<longleftrightarrow>
    accepts onig (take (nat tag_len) tag) out"
proof -
  have at: "cs_at tag (nat tag_len) \<noteq> NUL \<longleftrightarrow> nat tag_len < length tag"
    using assms by (auto simp: cs_at_def nul_free_def) (metis nth_mem)
  have "\<forall>m. o_match out = Some m \<longrightarrow> nul_free m"
    using assms by (auto simp: match_nul_free_def)
  then show ?thesis
    using assms at router_match_glob [of "take (nat tag_len) tag" tag_len "o_match out" onig "o_match_regex out"]
    by (auto simp: flb_router_match_def accepts_def)
qed

text \<open>A tag that ends where its buffer ends is matched without a copy.\<close>

lemma flb_router_match_whole:
  assumes "nul_free tag" "match_nul_free out"
  shows "flb_router_match onig ok tag (int (length tag)) (o_match out) (o_match_regex out) \<longleftrightarrow> accepts onig tag out"
proof -
  have "flb_router_match onig ok tag (int (length tag)) m r = flb_router_match onig True tag (int (length tag)) m r" for m r
    by (simp add: flb_router_match_def cs_at_def)
  then show ?thesis using flb_router_match_accepts [of tag "int (length tag)" out onig] assms by simp
qed

lemma io_set_outputs_routes:
  assumes "nul_free tag" "i_tag_len i_ins = int (length tag)" "\<forall>x\<in>set os. match_nul_free x"
  shows "io_set_outputs onig ok tag i_ins os =
    i_ins\<lparr>i_routes := i_routes i_ins @ map o_id (filter (\<lambda>x. ok (o_id x) \<and> accepts onig tag x) os)\<rparr>"
  using assms(2,3)
proof (induction os arbitrary: i_ins)
  case (Cons x os)
  have "flb_router_match onig (ok (o_id x)) tag (i_tag_len i_ins) (o_match x) (o_match_regex x) \<longleftrightarrow> accepts onig tag x"
    using Cons.prems flb_router_match_whole [OF assms(1), of x] by simp
  moreover have "o_match x = None \<Longrightarrow> o_match_regex x = None \<Longrightarrow> \<not> accepts onig tag x"
    by (simp add: accepts_def)
  ultimately show ?case
    using Cons by (auto simp: flb_router_connect_def mk_list_add_def)
qed simp

section \<open>Properties\<close>

text \<open>C6: \<^verbatim>\<open>flb_router_match\<close> accepts a tag exactly when the regular expression of the output hits
  it or its wildcard rule matches it in the reference sense (a star stands for any byte
  sequence): the restart loop on \<^verbatim>\<open>strchr\<close> misses no match and invents none. The tag is the
  first \<open>tag_len\<close> bytes of the buffer, whether or not the buffer ends there.\<close>

theorem flb_router_match_correct:
  assumes "nul_free tag" "0 \<le> tag_len" "tag_len \<le> int (length tag)"
    "case match of None \<Rightarrow> True | Some m \<Rightarrow> nul_free m"
  shows "flb_router_match onig True tag tag_len match match_regex \<longleftrightarrow>
    (\<exists>r. match_regex = Some r \<and> onig r (take (nat tag_len) tag) > 0) \<or>
    (\<exists>m. match = Some m \<and> glob m (take (nat tag_len) tag))"
  using assms flb_router_match_accepts [of tag tag_len
      "\<lparr>o_id = 0, o_match = match, o_match_regex = match_regex, o_event_type = 0\<rparr>" onig]
  by (simp add: accepts_def match_nul_free_def)

theorem flb_router_match_correct_witness:
  "flb_router_match (\<lambda>_ _. 0) True ''app.web.log'' 7 (Some ''a*p.*b'') None"
proof -
  have "glob ''a*p.*b'' ''app.web''"
    by code_simp
  then show ?thesis
    using flb_router_match_correct [of "''app.web.log''" 7 "Some ''a*p.*b''" "\<lambda>_ _. 0" None]
    by (simp add: nul_free_def numeral_eq_Suc)
qed

text \<open>C7: the static routes. With one input and one output \<^verbatim>\<open>flb_router_io_set\<close> connects the two whatever their tag and
  rule are, and an output without a rule gets the rule \<open>*\<close>. In every other case each input that has a plugin and
  a tag gets exactly the outputs whose rule accepts its tag, appended to its routes in configuration order; the
  outputs, and the inputs without a tag, stay as they were. An output for which the route cannot be
  allocated is left out. Event types play no part here.\<close>

theorem flb_router_io_set_routes:
  assumes "\<forall>x\<in>set (outputs config). match_nul_free x"
    and "\<forall>i\<in>set (inputs config). case i_tag i of None \<Rightarrow> True
         | Some t \<Rightarrow> nul_free t \<and> i_tag_len i = int (length t)"
  shows "flb_router_io_set onig ok config =
    (0, if length (inputs config) = 1 \<and> length (outputs config) = 1
        then config\<lparr>inputs := map (\<lambda>i. i\<lparr>i_routes := i_routes i @ map o_id (filter (\<lambda>x. ok (o_id x)) (outputs config))\<rparr>) (inputs config),
          outputs := map (\<lambda>x. if o_match x = None \<and> o_match_regex x = None \<and> ok (o_id x) then x\<lparr>o_match := Some ''*''\<rparr> else x) (outputs config)\<rparr>
        else config\<lparr>inputs := map (\<lambda>i. if i_p i \<and> i_tag i \<noteq> None
          then i\<lparr>i_routes := i_routes i @ map o_id (filter (\<lambda>x. ok (o_id x) \<and> accepts onig (the (i_tag i)) x) (outputs config))\<rparr>
          else i) (inputs config)\<rparr>)"
proof (cases "length (inputs config) = 1 \<and> length (outputs config) = 1")
  case True
  then obtain i x where "inputs config = [i]" "outputs config = [x]" by (auto simp: length_Suc_conv)
  then show ?thesis by (simp add: flb_router_io_set_def flb_router_connect_def mk_list_add_def)
next
  case False
  then have "flb_router_io_set onig ok config =
      (0, config\<lparr>inputs := map (io_set_input onig ok (outputs config)) (inputs config)\<rparr>)"
    by (auto simp: flb_router_io_set_def split: list.splits)
  moreover have "io_set_input onig ok (outputs config) i =
      (if i_p i \<and> i_tag i \<noteq> None
       then i\<lparr>i_routes := i_routes i @ map o_id (filter (\<lambda>x. ok (o_id x) \<and> accepts onig (the (i_tag i)) x) (outputs config))\<rparr>
       else i)" if "i \<in> set (inputs config)" for i
    using that assms by (auto simp: io_set_input_def io_set_outputs_routes split: option.splits)
  ultimately show ?thesis unfolding if_not_P [OF False] by (simp cong: map_cong)
qed

definition demo_output :: "int \<Rightarrow> cstr \<Rightarrow> flb_output_instance" where
  "demo_output n m = \<lparr>o_id = n, o_match = Some m, o_match_regex = None, o_event_type = 1\<rparr>"

definition demo_config :: flb_config where
  "demo_config = \<lparr>inputs = [\<lparr>i_p = True, i_tag = Some ''cpu'', i_tag_len = 3, i_routes = [], i_routes_direct = []\<rparr>],
     outputs = [demo_output 0 ''mem'', demo_output 1 ''c*'']\<rparr>"

theorem flb_router_io_set_routes_witness:
  "map i_routes (inputs (snd (flb_router_io_set (\<lambda>_ _. 0) (\<lambda>_. True) demo_config))) = [[1]]"
proof -
  have "accepts (\<lambda>_ _. 0) ''cpu'' (demo_output 1 ''c*'')" "\<not> accepts (\<lambda>_ _. 0) ''cpu'' (demo_output 0 ''mem'')"
    by (auto simp: accepts_def demo_output_def intro: exI [of _ 2])
  then show ?thesis
    using flb_router_io_set_routes [of demo_config "\<lambda>_ _. 0" "\<lambda>_. True"]
    by (simp add: demo_config_def match_nul_free_def demo_output_def)
qed

end
