(* ===== verification/Flb_Routes_Mask.thy ===== *)
theory Flb_Routes_Mask
  imports Flb_Router
begin

unbundle bit_operations_syntax

text \<open>
  \<^verbatim>\<open>src/flb_routes_mask.c\<close>: the bit field of an input chunk that holds, for every output
  instance, whether the chunk is routed to it. The array \<^verbatim>\<open>uint64_t[4]\<close> is a list of four
  64-bit words; \<open>None\<close> is an access outside of the array. The interface the chunk and task code
  relies on is the locale \<open>bit_field\<close>, and the file ends with its interpretation.
\<close>

section \<open>The operations\<close>

type_synonym routes_mask = "64 word list"

definition FLB_ROUTES_MASK_ELEMENTS :: nat where "FLB_ROUTES_MASK_ELEMENTS = 4"
definition FLB_ROUTES_MASK_ELEMENT_BITS :: nat where "FLB_ROUTES_MASK_ELEMENT_BITS = 64"
definition FLB_ROUTES_MASK_MAX_VALUE :: nat where
  "FLB_ROUTES_MASK_MAX_VALUE = FLB_ROUTES_MASK_ELEMENTS * FLB_ROUTES_MASK_ELEMENT_BITS"

lemmas mask_consts [simp] = FLB_ROUTES_MASK_ELEMENTS_def FLB_ROUTES_MASK_ELEMENT_BITS_def
  FLB_ROUTES_MASK_MAX_VALUE_def

definition mask_index :: "int \<Rightarrow> nat" where
  "mask_index value = nat value div FLB_ROUTES_MASK_ELEMENT_BITS"

definition mask_bit :: "int \<Rightarrow> 64 word" where
  "mask_bit value = push_bit (nat value mod FLB_ROUTES_MASK_ELEMENT_BITS) 1"

definition flb_routes_mask_set_bit :: "routes_mask \<Rightarrow> int \<Rightarrow> routes_mask option" where
  "flb_routes_mask_set_bit routes_mask value =
     (if value < 0 \<or> value > int FLB_ROUTES_MASK_MAX_VALUE then Some routes_mask
      else let index = mask_index value in
        if index < length routes_mask
        then Some (routes_mask[index := routes_mask ! index OR mask_bit value])
        else None)"

definition flb_routes_mask_clear_bit :: "routes_mask \<Rightarrow> int \<Rightarrow> routes_mask option" where
  "flb_routes_mask_clear_bit routes_mask value =
     (if value < 0 \<or> value > int FLB_ROUTES_MASK_MAX_VALUE then Some routes_mask
      else let index = mask_index value in
        if index < length routes_mask
        then Some (routes_mask[index := routes_mask ! index AND NOT (mask_bit value)])
        else None)"

definition flb_routes_mask_get_bit :: "routes_mask \<Rightarrow> int \<Rightarrow> bool option" where
  "flb_routes_mask_get_bit routes_mask value =
     (if value < 0 \<or> value > int FLB_ROUTES_MASK_MAX_VALUE then Some False
      else let index = mask_index value in
        if index < length routes_mask
        then Some ((routes_mask ! index) AND mask_bit value \<noteq> 0)
        else None)"

definition mask_zero :: routes_mask where
  "mask_zero = replicate FLB_ROUTES_MASK_ELEMENTS 0"

definition flb_routes_mask_is_empty :: "routes_mask \<Rightarrow> bool" where
  "flb_routes_mask_is_empty routes_mask \<longleftrightarrow> routes_mask = mask_zero"

text \<open>The loop of \<^verbatim>\<open>flb_routes_mask_set_by_tag\<close> over \<^verbatim>\<open>in->config->outputs\<close>.\<close>

fun set_by_tag_loop ::
  "(nat \<Rightarrow> cstr \<Rightarrow> int) \<Rightarrow> (int \<Rightarrow> bool) \<Rightarrow> cstr \<Rightarrow> int \<Rightarrow> flb_output_instance list \<Rightarrow> bool \<times> routes_mask
   \<Rightarrow> (bool \<times> routes_mask) option" where
  "set_by_tag_loop onig ok tag tag_len [] st = Some st"
| "set_by_tag_loop onig ok tag tag_len (o_ins # os) (has_routes, rmask) =
     (if flb_router_match onig (ok (o_id o_ins)) tag tag_len (o_match o_ins) (o_match_regex o_ins)
      then case flb_routes_mask_set_bit rmask (o_id o_ins) of
             None \<Rightarrow> None
           | Some rmask' \<Rightarrow> set_by_tag_loop onig ok tag tag_len os (True, rmask')
      else set_by_tag_loop onig ok tag tag_len os (has_routes, rmask))"

text \<open>The input instance may be NULL; what the function reads of it is the list of outputs.\<close>

definition flb_routes_mask_set_by_tag ::
  "(nat \<Rightarrow> cstr \<Rightarrow> int) \<Rightarrow> (int \<Rightarrow> bool) \<Rightarrow> routes_mask \<Rightarrow> cstr \<Rightarrow> int
   \<Rightarrow> flb_output_instance list option \<Rightarrow> (bool \<times> routes_mask) option" where
  "flb_routes_mask_set_by_tag onig ok routes_mask tag tag_len in_outputs =
     (case in_outputs of
        None \<Rightarrow> Some (False, routes_mask)
      | Some os \<Rightarrow> set_by_tag_loop onig ok tag tag_len os (False, mask_zero))"

section \<open>The interface: a field of bits\<close>

locale bit_field =
  fixes elems :: "'m \<Rightarrow> int set"
    and wf :: "'m \<Rightarrow> bool"
    and valid :: "int \<Rightarrow> bool"
    and set_bit :: "'m \<Rightarrow> int \<Rightarrow> 'm option"
    and clear_bit :: "'m \<Rightarrow> int \<Rightarrow> 'm option"
    and get_bit :: "'m \<Rightarrow> int \<Rightarrow> bool option"
    and zero :: 'm
    and is_empty :: "'m \<Rightarrow> bool"
  assumes elems_zero: "elems zero = {}"
    and wf_zero: "wf zero"
    and set_bit_law: "wf m \<Longrightarrow> valid v \<Longrightarrow>
      \<exists>m'. set_bit m v = Some m' \<and> wf m' \<and> elems m' = insert v (elems m)"
    and clear_bit_law: "wf m \<Longrightarrow> valid v \<Longrightarrow>
      \<exists>m'. clear_bit m v = Some m' \<and> wf m' \<and> elems m' = elems m - {v}"
    and get_bit_law: "wf m \<Longrightarrow> valid v \<Longrightarrow> get_bit m v = Some (v \<in> elems m)"
    and is_empty_law: "wf m \<Longrightarrow> is_empty m \<longleftrightarrow> elems m = {}"
begin

lemma get_after_set:
  assumes "wf m" "valid v" "valid w"
  shows "\<exists>m'. set_bit m v = Some m' \<and> get_bit m' w = Some (w = v \<or> w \<in> elems m)"
  using assms set_bit_law [of m v] get_bit_law by fastforce

lemma get_after_clear:
  assumes "wf m" "valid v" "valid w"
  shows "\<exists>m'. clear_bit m v = Some m' \<and> get_bit m' w = Some (w \<noteq> v \<and> w \<in> elems m)"
  using assms clear_bit_law [of m v] get_bit_law by fastforce

lemma clear_last_empties:
  assumes "wf m" "valid v" "elems m = {v}"
  shows "\<exists>m'. clear_bit m v = Some m' \<and> is_empty m'"
  using assms clear_bit_law [of m v] is_empty_law by fastforce

lemma set_not_empty:
  assumes "wf m" "valid v"
  shows "\<exists>m'. set_bit m v = Some m' \<and> \<not> is_empty m'"
  using assms set_bit_law [of m v] is_empty_law by fastforce

end

section \<open>The array of words is such a field\<close>

definition mask_wf :: "routes_mask \<Rightarrow> bool" where
  "mask_wf m \<longleftrightarrow> length m = FLB_ROUTES_MASK_ELEMENTS"

definition mask_valid :: "int \<Rightarrow> bool" where
  "mask_valid v \<longleftrightarrow> 0 \<le> v \<and> v < int FLB_ROUTES_MASK_MAX_VALUE"

definition mask_elems :: "routes_mask \<Rightarrow> int set" where
  "mask_elems m = {v. mask_valid v \<and> bit (m ! mask_index v) (nat v mod FLB_ROUTES_MASK_ELEMENT_BITS)}"

lemma bit_mask_bit: "bit (mask_bit v) n \<longleftrightarrow> n = nat v mod 64"
  by (auto simp: mask_bit_def bit_exp_iff possible_bit_word)

lemma and_mask_bit: "(w AND mask_bit v \<noteq> 0) \<longleftrightarrow> bit w (nat v mod 64)"
  unfolding bit_eq_iff [of _ "0 :: 64 word"] by (auto simp: bit_and_iff bit_mask_bit)

lemma mask_index_less: "mask_valid v \<Longrightarrow> mask_index v < 4"
  by (auto simp: mask_valid_def mask_index_def)

lemma mask_slot_inj:
  assumes "mask_valid v" "mask_valid w" "mask_index v = mask_index w" "nat v mod 64 = nat w mod 64"
  shows "v = w"
proof -
  have "nat v = nat w"
    using assms(3,4) by (metis FLB_ROUTES_MASK_ELEMENT_BITS_def div_mod_decomp mask_index_def)
  then show ?thesis using assms(1,2) by (auto simp: mask_valid_def)
qed

lemma mask_set_bit_law:
  assumes "mask_wf m" "mask_valid v"
  shows "\<exists>m'. flb_routes_mask_set_bit m v = Some m' \<and> mask_wf m' \<and> mask_elems m' = insert v (mask_elems m)"
proof -
  let ?m = "m[mask_index v := m ! mask_index v OR mask_bit v]"
  have len: "mask_index v < length m" using assms by (simp add: mask_wf_def mask_index_less)
  have "flb_routes_mask_set_bit m v = Some ?m"
    using assms len by (simp add: flb_routes_mask_set_bit_def mask_valid_def Let_def)
  moreover have "w \<in> mask_elems ?m \<longleftrightarrow> w = v \<or> w \<in> mask_elems m" for w
    using len assms(2) mask_slot_inj [of v w]
    by (cases "mask_index w = mask_index v")
      (auto simp: mask_elems_def bit_or_iff bit_mask_bit nth_list_update)
  ultimately show ?thesis using assms by (auto simp: mask_wf_def)
qed

lemma mask_clear_bit_law:
  assumes "mask_wf m" "mask_valid v"
  shows "\<exists>m'. flb_routes_mask_clear_bit m v = Some m' \<and> mask_wf m' \<and> mask_elems m' = mask_elems m - {v}"
proof -
  let ?m = "m[mask_index v := m ! mask_index v AND NOT (mask_bit v)]"
  have len: "mask_index v < length m" using assms by (simp add: mask_wf_def mask_index_less)
  have "flb_routes_mask_clear_bit m v = Some ?m"
    using assms len by (simp add: flb_routes_mask_clear_bit_def mask_valid_def Let_def)
  moreover have "w \<in> mask_elems ?m \<longleftrightarrow> w \<noteq> v \<and> w \<in> mask_elems m" for w
    using len assms(2) mask_slot_inj [of v w]
    by (cases "mask_index w = mask_index v")
      (auto simp: mask_elems_def bit_and_iff bit_not_iff bit_mask_bit nth_list_update)
  ultimately show ?thesis using assms by (auto simp: mask_wf_def)
qed

lemma mask_get_bit_law:
  "mask_wf m \<Longrightarrow> mask_valid v \<Longrightarrow> flb_routes_mask_get_bit m v = Some (v \<in> mask_elems m)"
  by (auto simp: flb_routes_mask_get_bit_def mask_valid_def mask_wf_def mask_elems_def and_mask_bit
      mask_index_less)

lemma mask_is_empty_law:
  assumes "mask_wf m"
  shows "flb_routes_mask_is_empty m \<longleftrightarrow> mask_elems m = {}"
proof
  assume "flb_routes_mask_is_empty m"
  then show "mask_elems m = {}"
    by (auto simp: flb_routes_mask_is_empty_def mask_zero_def mask_elems_def dest: mask_index_less)
next
  assume empty: "mask_elems m = {}"
  have "\<not> bit (m ! i) n" if "i < 4" for i n
  proof (cases "n < 64")
    case True
    have "int (i * 64 + n) \<notin> mask_elems m" using empty by simp
    moreover have "mask_valid (int (i * 64 + n))" using that True by (simp add: mask_valid_def)
    moreover have "mask_index (int (i * 64 + n)) = i" "nat (int (i * 64 + n)) mod 64 = n"
      using True by (simp_all only: mask_index_def nat_int mask_consts) simp_all
    ultimately show ?thesis by (simp add: mask_elems_def)
  next
    case False
    then show ?thesis using bit_imp_le_length [of "m ! i" n] by auto
  qed
  then have "m ! i = 0" if "i < 4" for i
    using that by (simp add: bit_eq_iff)
  then show "flb_routes_mask_is_empty m"
    using assms by (auto simp: flb_routes_mask_is_empty_def mask_zero_def mask_wf_def list_eq_iff_nth_eq)
qed

interpretation rmask: bit_field mask_elems mask_wf mask_valid flb_routes_mask_set_bit
  flb_routes_mask_clear_bit flb_routes_mask_get_bit mask_zero flb_routes_mask_is_empty
proof unfold_locales
  show "mask_elems mask_zero = {}"
    by (auto simp: mask_elems_def mask_zero_def dest: mask_index_less)
  show "mask_wf mask_zero" by (simp add: mask_wf_def mask_zero_def)
qed (simp_all add: mask_set_bit_law mask_clear_bit_law mask_get_bit_law mask_is_empty_law)

section \<open>Properties\<close>

lemma set_by_tag_loop_elems:
  assumes "nul_free tag" "0 \<le> tag_len" "tag_len \<le> int (length tag)"
    "\<forall>x\<in>set os. match_nul_free x \<and> mask_valid (o_id x)" "mask_wf m"
  shows "\<exists>m'. set_by_tag_loop onig (\<lambda>_. True) tag tag_len os (h, m) =
      Some (h \<or> (\<exists>x\<in>set os. accepts onig (take (nat tag_len) tag) x), m') \<and> mask_wf m' \<and>
    mask_elems m' = mask_elems m \<union> o_id ` {x \<in> set os. accepts onig (take (nat tag_len) tag) x}"
  using assms(4,5)
proof (induction os arbitrary: h m)
  case Nil
  then show ?case by simp
next
  case (Cons x os)
  let ?acc = "accepts onig (take (nat tag_len) tag)"
  have acc: "flb_router_match onig True tag tag_len (o_match x) (o_match_regex x) \<longleftrightarrow> ?acc x"
    using assms(1-3) Cons.prems flb_router_match_accepts by simp
  show ?case
  proof (cases "?acc x")
    case True
    obtain m1 where m1: "flb_routes_mask_set_bit m (o_id x) = Some m1" "mask_wf m1"
        "mask_elems m1 = insert (o_id x) (mask_elems m)"
      using rmask.set_bit_law [of m "o_id x"] Cons.prems by auto
    show ?thesis using Cons.IH [of m1 True] Cons.prems m1 True acc by auto
  next
    case False
    have "{y. (y = x \<or> y \<in> set os) \<and> ?acc y} = {y \<in> set os. ?acc y}" using False by auto
    then show ?thesis using Cons.IH [of m h] Cons.prems False acc by auto
  qed
qed

text \<open>C8: \<^verbatim>\<open>flb_routes_mask_set_by_tag\<close> computes, from a cleared field, the bits of exactly the
  outputs that accept the tag, and reports a route exactly when there is one; no access leaves
  the array as long as the output ids are below 256.\<close>

theorem flb_routes_mask_set_by_tag_exact:
  assumes "nul_free tag" "0 \<le> tag_len" "tag_len \<le> int (length tag)"
    and "\<forall>x\<in>set os. match_nul_free x \<and> mask_valid (o_id x)"
  shows "\<exists>m. flb_routes_mask_set_by_tag onig (\<lambda>_. True) m0 tag tag_len (Some os) =
      Some ((\<exists>x\<in>set os. accepts onig (take (nat tag_len) tag) x), m) \<and>
    (\<forall>v. mask_valid v \<longrightarrow> flb_routes_mask_get_bit m v =
       Some (\<exists>x\<in>set os. o_id x = v \<and> accepts onig (take (nat tag_len) tag) x))"
proof -
  let ?acc = "accepts onig (take (nat tag_len) tag)"
  obtain m where m: "set_by_tag_loop onig (\<lambda>_. True) tag tag_len os (False, mask_zero) =
      Some (\<exists>x\<in>set os. ?acc x, m)" "mask_wf m" "mask_elems m = o_id ` {x \<in> set os. ?acc x}"
    using set_by_tag_loop_elems [OF assms rmask.wf_zero, of onig False] rmask.elems_zero by auto
  moreover have "flb_routes_mask_get_bit m v = Some (\<exists>x\<in>set os. o_id x = v \<and> ?acc x)"
    if "mask_valid v" for v
    using rmask.get_bit_law [OF m(2) that] m(3) by auto
  ultimately show ?thesis by (auto simp: flb_routes_mask_set_by_tag_def)
qed

theorem flb_routes_mask_set_by_tag_exact_witness:
  "\<exists>m. flb_routes_mask_set_by_tag (\<lambda>_ _. 0) (\<lambda>_. True) [7, 7, 7, 7] ''cpu'' 3 (Some (outputs demo_config))
     = Some (True, m) \<and> flb_routes_mask_get_bit m 1 = Some True \<and> flb_routes_mask_get_bit m 0 = Some False"
proof -
  have acc: "accepts (\<lambda>_ _. 0) ''cpu'' (demo_output 1 ''c*'')" "\<not> accepts (\<lambda>_ _. 0) ''cpu'' (demo_output 0 ''mem'')"
    by (auto simp: accepts_def demo_output_def intro: exI [of _ 2])
  moreover have "mask_valid 0" "mask_valid 1" by (simp_all add: mask_valid_def)
  moreover have "o_id (demo_output n s) = n" "match_nul_free (demo_output 0 ''mem'')"
      "match_nul_free (demo_output 1 ''c*'')" for n s
    by (simp_all add: demo_output_def match_nul_free_def)
  ultimately show ?thesis
    using flb_routes_mask_set_by_tag_exact
      [of "''cpu''" 3 "outputs demo_config" "\<lambda>_ _. 0" "[7, 7, 7, 7]"]
    by (auto simp: demo_config_def)
qed

text \<open>The bits are independent: after setting bit \<open>v\<close>, bit \<open>w\<close> reads true exactly when it is
  \<open>v\<close> or was set before; after clearing \<open>v\<close>, exactly when it is another bit that was set.\<close>

theorem flb_routes_mask_update_get:
  assumes "mask_wf m" "mask_valid v" "mask_valid w"
  shows "(\<exists>m'. flb_routes_mask_set_bit m v = Some m' \<and>
            flb_routes_mask_get_bit m' w = Some (w = v \<or> flb_routes_mask_get_bit m w = Some True)) \<and>
         (\<exists>m'. flb_routes_mask_clear_bit m v = Some m' \<and>
            flb_routes_mask_get_bit m' w = Some (w \<noteq> v \<and> flb_routes_mask_get_bit m w = Some True))"
  using assms rmask.get_after_set [OF assms] rmask.get_after_clear [OF assms]
  by (auto simp: rmask.get_bit_law)

theorem flb_routes_mask_update_get_witness:
  "\<exists>m'. flb_routes_mask_set_bit mask_zero 65 = Some m' \<and> flb_routes_mask_get_bit m' 65 = Some True"
proof -
  have "mask_valid 65" by (simp add: mask_valid_def)
  then show ?thesis
    using flb_routes_mask_update_get [of mask_zero 65 65] rmask.wf_zero by auto
qed

text \<open>C36: memory safety of the bit field. Of all values, exactly 256 makes
  \<^verbatim>\<open>flb_routes_mask_set_bit\<close> (and the clear and get operations) touch the element behind the
  array: the guard compares with \<^verbatim>\<open>>\<close> where the limit itself is already out of range.\<close>

theorem flb_routes_mask_out_of_bounds_iff:
  assumes "mask_wf m"
  shows "(flb_routes_mask_set_bit m v = None \<longleftrightarrow> v = 256) \<and>
         (flb_routes_mask_clear_bit m v = None \<longleftrightarrow> v = 256) \<and>
         (flb_routes_mask_get_bit m v = None \<longleftrightarrow> v = 256)"
proof -
  have "v < 0 \<or> v > 256 \<or> mask_valid v \<or> v = 256" by (auto simp: mask_valid_def)
  then show ?thesis
    using assms mask_index_less [of v]
    by (auto simp: flb_routes_mask_set_bit_def flb_routes_mask_clear_bit_def
        flb_routes_mask_get_bit_def Let_def mask_wf_def mask_valid_def mask_index_def)
qed

theorem flb_routes_mask_out_of_bounds_iff_witness: "flb_routes_mask_set_bit mask_zero 256 = None"
  using flb_routes_mask_out_of_bounds_iff [OF rmask.wf_zero] by simp

end
