(* ===== verification/Flb_Hash_Table.thy ===== *)
theory Flb_Hash_Table
  imports Flb_Prelude
begin

text \<open>
  \<^verbatim>\<open>src/flb_hash_table.c\<close>: the chained hash table with optional capacity, eviction and time to
  live that holds, among others, the open chunk of every tag of an input instance.

  Entries live in an explicit store (\<open>ht_heap\<close>): the same entry is linked in the chain of its
  bucket and in the list of all entries, and both see its updates. Addresses come from a counter.
  What the code takes from outside is an argument: the hash function \<open>H\<close>
  (\<^verbatim>\<open>cfl_hash_64bits\<close>, xxHash), the clock \<open>now\<close>, the random number of the random eviction
  and the outcome of the allocations of an entry and of its value. The copy of the key is taken to
  succeed: the code does not look at the result of \<^verbatim>\<open>flb_strndup\<close>. A NULL key is \<open>None\<close>; a key pointer is the byte list it
  reaches, of which the first \<open>key_len\<close> bytes are the key. Counters are unbounded integers.
\<close>

section \<open>Data\<close>

text \<open>\<^verbatim>\<open>void *val\<close>: NULL, a copy made by the table, or a reference of the caller.\<close>

datatype hval = HNull | HBuf cstr | HRef addr

record ht_entry =
  e_created :: int
  e_hits :: "64 word"
  e_hash :: "64 word"
  e_key :: cstr
  e_key_len :: nat
  e_val :: hval
  e_val_size :: int
  e_table :: nat

record ht_chain =
  c_count :: int
  c_chains :: "addr list"

record flb_hash_table =
  evict_mode :: nat
  max_entries :: int
  total_count :: int
  cache_ttl :: int
  ht_size :: nat
  ht_entries :: "addr list"
  ht_table :: "ht_chain list"
  ht_heap :: "addr \<Rightarrow> ht_entry option"
  ht_next :: addr

definition FLB_HASH_TABLE_EVICT_NONE :: nat where "FLB_HASH_TABLE_EVICT_NONE = 0"
definition FLB_HASH_TABLE_EVICT_OLDER :: nat where "FLB_HASH_TABLE_EVICT_OLDER = 1"
definition FLB_HASH_TABLE_EVICT_LESS_USED :: nat where "FLB_HASH_TABLE_EVICT_LESS_USED = 2"
definition FLB_HASH_TABLE_EVICT_RANDOM :: nat where "FLB_HASH_TABLE_EVICT_RANDOM = 3"

lemmas evict_consts = FLB_HASH_TABLE_EVICT_NONE_def FLB_HASH_TABLE_EVICT_OLDER_def
  FLB_HASH_TABLE_EVICT_LESS_USED_def FLB_HASH_TABLE_EVICT_RANDOM_def

text \<open>Dereferencing an entry pointer.\<close>

definition ent :: "flb_hash_table \<Rightarrow> addr \<Rightarrow> ht_entry" where
  "ent ht a = the (ht_heap ht a)"

definition ht_bucket :: "(cstr \<Rightarrow> 64 word) \<Rightarrow> flb_hash_table \<Rightarrow> cstr \<Rightarrow> nat" where
  "ht_bucket H ht k = unat (H k) mod ht_size ht"

section \<open>Operations\<close>

definition flb_hash_table_entry_free :: "flb_hash_table \<Rightarrow> addr \<Rightarrow> flb_hash_table" where
  "flb_hash_table_entry_free ht a =
     (let bid = e_table (ent ht a); c = ht_table ht ! bid in
      ht\<lparr>ht_table := (ht_table ht)[bid := \<lparr>c_count = c_count c - 1, c_chains = mk_list_del a (c_chains c)\<rparr>],
         ht_entries := mk_list_del a (ht_entries ht),
         total_count := total_count ht - 1,
         ht_heap := (ht_heap ht)(a := None)\<rparr>)"

definition flb_hash_table_create :: "bool \<Rightarrow> nat \<Rightarrow> nat \<Rightarrow> int \<Rightarrow> flb_hash_table option" where
  "flb_hash_table_create mem_ok mode sz maxe =
     (if sz \<le> 0 then None
      else if \<not> mem_ok then None
      else Some \<lparr>evict_mode = mode, max_entries = maxe, total_count = 0, cache_ttl = 0,
                 ht_size = sz, ht_entries = [],
                 ht_table = replicate sz \<lparr>c_count = 0, c_chains = []\<rparr>,
                 ht_heap = Map.empty, ht_next = 0\<rparr>)"

definition flb_hash_table_create_with_ttl ::
  "bool \<Rightarrow> int \<Rightarrow> nat \<Rightarrow> nat \<Rightarrow> int \<Rightarrow> flb_hash_table option" where
  "flb_hash_table_create_with_ttl mem_ok ttl mode sz maxe =
     map_option (\<lambda>ht. ht\<lparr>cache_ttl := ttl\<rparr>) (flb_hash_table_create mem_ok mode sz maxe)"

definition flb_hash_table_del_ptr ::
  "(cstr \<Rightarrow> 64 word) \<Rightarrow> flb_hash_table \<Rightarrow> cstr \<Rightarrow> int \<Rightarrow> hval \<Rightarrow> int \<times> flb_hash_table" where
  "flb_hash_table_del_ptr H ht key key_len ptr =
     (let bid = ht_bucket H ht (take (nat key_len) key) in
      case List.find (\<lambda>a. strncmp_eq (nat key_len) (e_key (ent ht a)) key \<and> e_val (ent ht a) = ptr)
             (c_chains (ht_table ht ! bid)) of
        None \<Rightarrow> (-1, ht)
      | Some a \<Rightarrow> (0, flb_hash_table_entry_free ht a))"

text \<open>\<^verbatim>\<open>flb_hash_table_destroy\<close> frees the entries bucket by bucket, then the table itself; what
  is left of the store is returned.\<close>

definition flb_hash_table_destroy :: "flb_hash_table \<Rightarrow> addr \<Rightarrow> ht_entry option" where
  "flb_hash_table_destroy ht =
     ht_heap (fold (\<lambda>i h. fold (\<lambda>a h. flb_hash_table_entry_free h a) (c_chains (ht_table h ! i)) h)
                [0..<ht_size ht] ht)"

text \<open>The eviction routines run on a table that has entries; on an empty list the code would
  dereference the list head, which the capacity check excludes.\<close>

definition flb_hash_table_evict_random :: "nat \<Rightarrow> flb_hash_table \<Rightarrow> flb_hash_table" where
  "flb_hash_table_evict_random rnd ht =
     (let bid = rnd mod nat (total_count ht) in
      if bid < length (ht_entries ht) then flb_hash_table_entry_free ht (ht_entries ht ! bid) else ht)"

fun less_used_loop :: "flb_hash_table \<Rightarrow> addr list \<Rightarrow> addr option \<Rightarrow> addr option" where
  "less_used_loop ht [] best = best"
| "less_used_loop ht (a # as) best =
     (case best of
        None \<Rightarrow> less_used_loop ht as (Some a)
      | Some b \<Rightarrow> if e_hits (ent ht a) < e_hits (ent ht b) then less_used_loop ht as (Some a)
                  else less_used_loop ht as (Some b))"

definition flb_hash_table_evict_less_used :: "flb_hash_table \<Rightarrow> flb_hash_table" where
  "flb_hash_table_evict_less_used ht =
     (case less_used_loop ht (ht_entries ht) None of
        None \<Rightarrow> ht
      | Some a \<Rightarrow> flb_hash_table_entry_free ht a)"

definition flb_hash_table_evict_older :: "flb_hash_table \<Rightarrow> flb_hash_table" where
  "flb_hash_table_evict_older ht =
     (case ht_entries ht of [] \<Rightarrow> ht | a # _ \<Rightarrow> flb_hash_table_entry_free ht a)"

text \<open>\<open>key_matches\<close> is the test of \<^verbatim>\<open>hash_get_entry\<close>: equal lengths, then \<^verbatim>\<open>strncmp\<close>.\<close>

definition key_matches :: "flb_hash_table \<Rightarrow> cstr \<Rightarrow> int \<Rightarrow> addr \<Rightarrow> bool" where
  "key_matches ht key key_len a \<longleftrightarrow>
     int (e_key_len (ent ht a)) = key_len \<and> strncmp_eq (nat key_len) (e_key (ent ht a)) key"

definition hash_get_entry ::
  "(cstr \<Rightarrow> 64 word) \<Rightarrow> flb_hash_table \<Rightarrow> cstr option \<Rightarrow> int \<Rightarrow> (addr \<times> nat) option" where
  "hash_get_entry H ht key key_len =
     (case key of None \<Rightarrow> None | Some k \<Rightarrow>
      if key_len \<le> 0 then None
      else let bid = ht_bucket H ht (take (nat key_len) k); c = ht_table ht ! bid in
        if c_count c = 0 then None
        else if c_count c = 1 then
          (case c_chains c of
             [] \<Rightarrow> None
           | a # _ \<Rightarrow> if \<not> key_matches ht k key_len a then None else Some (a, bid))
        else map_option (\<lambda>a. (a, bid)) (List.find (key_matches ht k key_len) (c_chains c)))"

text \<open>\<open>contents\<close> are the bytes at the caller's pointer \<open>ptr\<close>. A failed allocation has already
  released the previous copy and leaves a NULL value behind.\<close>

definition entry_set_value ::
  "bool \<Rightarrow> int \<Rightarrow> ht_entry \<Rightarrow> addr \<Rightarrow> cstr \<Rightarrow> nat \<Rightarrow> int \<times> ht_entry" where
  "entry_set_value mem_ok now entry ptr contents val_size =
     (if val_size > 0 then
        (if \<not> mem_ok then (-1, entry\<lparr>e_val := HNull\<rparr>)
         else (0, entry\<lparr>e_val := HBuf (take val_size contents), e_val_size := int val_size,
                        e_created := now\<rparr>))
      else (0, entry\<lparr>e_val := HRef ptr, e_val_size := -1, e_created := now\<rparr>))"

definition ht_check_capacity :: "nat \<Rightarrow> flb_hash_table \<Rightarrow> flb_hash_table" where
  "ht_check_capacity rnd ht =
     (if max_entries ht > 0 \<and> total_count ht \<ge> max_entries ht then
        (if evict_mode ht = FLB_HASH_TABLE_EVICT_NONE then ht
         else if evict_mode ht = FLB_HASH_TABLE_EVICT_OLDER then flb_hash_table_evict_older ht
         else if evict_mode ht = FLB_HASH_TABLE_EVICT_LESS_USED then flb_hash_table_evict_less_used ht
         else if evict_mode ht = FLB_HASH_TABLE_EVICT_RANDOM then flb_hash_table_evict_random rnd ht
         else ht)
      else ht)"

definition ht_link :: "flb_hash_table \<Rightarrow> nat \<Rightarrow> ht_entry \<Rightarrow> flb_hash_table" where
  "ht_link ht bid entry =
     (let a = ht_next ht; c = ht_table ht ! bid in
      ht\<lparr>ht_table := (ht_table ht)[bid := \<lparr>c_count = c_count c + 1, c_chains = mk_list_add a (c_chains c)\<rparr>],
         ht_entries := mk_list_add a (ht_entries ht),
         total_count := total_count ht + 1,
         ht_heap := (ht_heap ht)(a \<mapsto> entry\<lparr>e_table := bid\<rparr>),
         ht_next := a + 1\<rparr>)"

definition flb_hash_table_add ::
  "(cstr \<Rightarrow> 64 word) \<Rightarrow> int \<Rightarrow> nat \<Rightarrow> bool \<Rightarrow> bool \<Rightarrow> flb_hash_table \<Rightarrow> cstr option \<Rightarrow> int \<Rightarrow> addr \<Rightarrow> cstr
   \<Rightarrow> nat \<Rightarrow> int \<times> flb_hash_table" where
  "flb_hash_table_add H now rnd entry_ok val_ok ht0 key key_len ptr contents val_size =
     (case key of None \<Rightarrow> (-1, ht0) | Some k \<Rightarrow>
      if key_len \<le> 0 then (-1, ht0)
      else let ht = ht_check_capacity rnd ht0 in
        case hash_get_entry H ht (Some k) key_len of
          Some (a, bid) \<Rightarrow>
            (let (ret, e) = entry_set_value val_ok now (ent ht a) ptr contents val_size;
                 ht' = ht\<lparr>ht_heap := (ht_heap ht)(a \<mapsto> e)\<rparr>
             in if ret = -1 then (-1, ht') else (int bid, ht'))
        | None \<Rightarrow>
            (let hash = H (take (nat key_len) k); bid = unat hash mod ht_size ht in
             if \<not> entry_ok then (-1, ht)
             else let (ret, e) = entry_set_value val_ok now
                    \<lparr>e_created = now, e_hits = 0, e_hash = hash, e_key = take (nat key_len) k,
                     e_key_len = nat key_len, e_val = HNull, e_val_size = 0, e_table = 0\<rparr>
                    ptr contents val_size
                  in if ret = -1 then (-1, ht) else (int bid, ht_link ht bid e)))"

text \<open>Results: the return code, the value and its size where the code sets them.\<close>

definition flb_hash_table_get ::
  "(cstr \<Rightarrow> 64 word) \<Rightarrow> int \<Rightarrow> flb_hash_table \<Rightarrow> cstr option \<Rightarrow> int
   \<Rightarrow> int \<times> (hval \<times> int) option \<times> flb_hash_table" where
  "flb_hash_table_get H now ht key key_len =
     (case hash_get_entry H ht key key_len of
        None \<Rightarrow> (-1, None, ht)
      | Some (a, bid) \<Rightarrow>
          (let e = ent ht a in
           if cache_ttl ht > 0 \<and> now > e_created e + cache_ttl ht
           then (-1, None, flb_hash_table_entry_free ht a)
           else (int bid, Some (e_val e, e_val_size e),
                 ht\<lparr>ht_heap := (ht_heap ht)(a \<mapsto> e\<lparr>e_hits := e_hits e + 1\<rparr>)\<rparr>)))"

definition flb_hash_table_exists :: "flb_hash_table \<Rightarrow> 64 word \<Rightarrow> bool" where
  "flb_hash_table_exists ht hash =
     (\<exists>a\<in>set (c_chains (ht_table ht ! (unat hash mod ht_size ht))). e_hash (ent ht a) = hash)"

definition flb_hash_table_get_by_id ::
  "flb_hash_table \<Rightarrow> int \<Rightarrow> cstr \<Rightarrow> int \<times> (hval \<times> int) option" where
  "flb_hash_table_get_by_id ht bid key =
     (if bid < 0 \<or> int (ht_size ht) \<le> bid then (-1, None)
      else let c = ht_table ht ! nat bid in
        if c_count c = 0 then (-1, None)
        else case (if c_count c = 1 then (case c_chains c of [] \<Rightarrow> None | a # _ \<Rightarrow> Some a)
                   else List.find (\<lambda>a. strcmp_eq (e_key (ent ht a)) key) (c_chains c)) of
               None \<Rightarrow> (-1, None)
             | Some a \<Rightarrow> (0, Some (e_val (ent ht a), e_val_size (ent ht a))))"

definition flb_hash_table_get_ptr ::
  "(cstr \<Rightarrow> 64 word) \<Rightarrow> flb_hash_table \<Rightarrow> cstr option \<Rightarrow> int \<Rightarrow> hval \<times> flb_hash_table" where
  "flb_hash_table_get_ptr H ht key key_len =
     (case hash_get_entry H ht key key_len of
        None \<Rightarrow> (HNull, ht)
      | Some (a, bid) \<Rightarrow>
          (e_val (ent ht a),
           ht\<lparr>ht_heap := (ht_heap ht)(a \<mapsto> (ent ht a)\<lparr>e_hits := e_hits (ent ht a) + 1\<rparr>)\<rparr>))"

definition flb_hash_table_del ::
  "(cstr \<Rightarrow> 64 word) \<Rightarrow> flb_hash_table \<Rightarrow> cstr option \<Rightarrow> int \<times> flb_hash_table" where
  "flb_hash_table_del H ht key =
     (case key of None \<Rightarrow> (-1, ht) | Some k \<Rightarrow>
      let len = strlen k in
      if len = 0 then (-1, ht)
      else let c = ht_table ht ! ht_bucket H ht (take len k) in
        case (if c_count c = 1 then
                (case c_chains c of [] \<Rightarrow> None
                 | a # _ \<Rightarrow> if \<not> strcmp_eq (e_key (ent ht a)) k then None else Some a)
              else List.find (\<lambda>a. strcmp_eq (e_key (ent ht a)) k) (c_chains c)) of
          None \<Rightarrow> (-1, ht)
        | Some a \<Rightarrow> (0, flb_hash_table_entry_free ht a))"

section \<open>Invariant and abstraction\<close>

text \<open>Every chain is the list of all entries, restricted to the bucket: both lists are appended to
  and unlinked from together. Keys are not empty, hold no NUL byte and are unique.\<close>

definition ht_inv :: "(cstr \<Rightarrow> 64 word) \<Rightarrow> flb_hash_table \<Rightarrow> bool" where
  "ht_inv H ht \<longleftrightarrow>
     0 < ht_size ht \<and> length (ht_table ht) = ht_size ht \<and>
     distinct (ht_entries ht) \<and> set (ht_entries ht) = dom (ht_heap ht) \<and>
     (\<forall>a\<in>set (ht_entries ht). a < ht_next ht) \<and>
     (\<forall>i<ht_size ht. c_chains (ht_table ht ! i) = filter (\<lambda>a. e_table (ent ht a) = i) (ht_entries ht) \<and>
        c_count (ht_table ht ! i) = int (length (c_chains (ht_table ht ! i)))) \<and>
     (\<forall>a\<in>set (ht_entries ht). let e = ent ht a in
        e_table e = ht_bucket H ht (e_key e) \<and> e_key_len e = length (e_key e) \<and>
        e_key e \<noteq> [] \<and> nul_free (e_key e) \<and> e_hash e = H (e_key e)) \<and>
     inj_on (\<lambda>a. e_key (ent ht a)) (set (ht_entries ht)) \<and>
     total_count ht = int (length (ht_entries ht))"

text \<open>The finite map the table stands for.\<close>

definition ht_abs :: "flb_hash_table \<Rightarrow> cstr \<Rightarrow> hval option" where
  "ht_abs ht k =
     map_option (\<lambda>a. e_val (ent ht a)) (List.find (\<lambda>a. e_key (ent ht a) = k) (ht_entries ht))"

section \<open>Consequences of the invariant\<close>

lemma ht_invI:
  assumes "0 < ht_size ht" "length (ht_table ht) = ht_size ht" "distinct (ht_entries ht)"
    "set (ht_entries ht) = dom (ht_heap ht)" "total_count ht = int (length (ht_entries ht))"
    "\<And>i. i < ht_size ht \<Longrightarrow>
       c_chains (ht_table ht ! i) = filter (\<lambda>a. e_table (ent ht a) = i) (ht_entries ht) \<and>
       c_count (ht_table ht ! i) = int (length (c_chains (ht_table ht ! i)))"
    "\<And>a. a \<in> set (ht_entries ht) \<Longrightarrow> a < ht_next ht \<and>
       e_table (ent ht a) = ht_bucket H ht (e_key (ent ht a)) \<and>
       e_key_len (ent ht a) = length (e_key (ent ht a)) \<and> e_key (ent ht a) \<noteq> [] \<and>
       nul_free (e_key (ent ht a)) \<and> e_hash (ent ht a) = H (e_key (ent ht a))"
    "\<And>a b. a \<in> set (ht_entries ht) \<Longrightarrow> b \<in> set (ht_entries ht) \<Longrightarrow>
       e_key (ent ht a) = e_key (ent ht b) \<Longrightarrow> a = b"
  shows "ht_inv H ht"
  using assms unfolding ht_inv_def Let_def inj_on_def by blast

lemma ht_invD:
  assumes "ht_inv H ht"
  shows "0 < ht_size ht" "length (ht_table ht) = ht_size ht" "distinct (ht_entries ht)"
    "set (ht_entries ht) = dom (ht_heap ht)" "inj_on (\<lambda>a. e_key (ent ht a)) (set (ht_entries ht))"
    "total_count ht = int (length (ht_entries ht))"
  using assms unfolding ht_inv_def by blast+

lemma ht_inv_entry:
  assumes "ht_inv H ht" "a \<in> set (ht_entries ht)"
  shows "e_table (ent ht a) = ht_bucket H ht (e_key (ent ht a))" "e_key_len (ent ht a) = length (e_key (ent ht a))"
    "e_key (ent ht a) \<noteq> []" "nul_free (e_key (ent ht a))" "e_hash (ent ht a) = H (e_key (ent ht a))"
    "a < ht_next ht"
  using assms by (auto simp: ht_inv_def Let_def)

lemma ht_inv_chain:
  assumes "ht_inv H ht" "i < ht_size ht"
  shows "c_chains (ht_table ht ! i) = filter (\<lambda>a. e_table (ent ht a) = i) (ht_entries ht)"
    "c_count (ht_table ht ! i) = int (length (c_chains (ht_table ht ! i)))"
  using assms by (auto simp: ht_inv_def)

lemma ht_bucket_less: "0 < ht_size ht \<Longrightarrow> ht_bucket H ht k < ht_size ht"
  by (simp add: ht_bucket_def)

text \<open>A search of the chain of a key's bucket is a search of all entries.\<close>

lemma find_chain:
  assumes inv: "ht_inv H ht"
    and P: "\<And>a. a \<in> set (ht_entries ht) \<Longrightarrow> P a \<longleftrightarrow> e_key (ent ht a) = k"
  shows "List.find P (c_chains (ht_table ht ! ht_bucket H ht k)) =
    List.find (\<lambda>a. e_key (ent ht a) = k) (ht_entries ht)"
proof -
  have "List.find P (c_chains (ht_table ht ! ht_bucket H ht k)) =
      List.find (\<lambda>a. e_table (ent ht a) = ht_bucket H ht k \<and> P a) (ht_entries ht)"
    using ht_inv_chain(1) [OF inv ht_bucket_less] ht_invD(1) [OF inv] by (simp add: find_filter)
  also have "\<dots> = List.find (\<lambda>a. e_key (ent ht a) = k) (ht_entries ht)"
    using P ht_inv_entry(1) [OF inv] by (intro find_cong_set) auto
  finally show ?thesis .
qed

text \<open>The special case for chains of one entry gives the same answer as the search.\<close>

lemma single_or_find:
  assumes "c_count c = int (length (c_chains c))"
  shows "(if c_count c = 1 then (case c_chains c of [] \<Rightarrow> None | a # _ \<Rightarrow> if \<not> P a then None else Some a)
      else List.find P (c_chains c)) = List.find P (c_chains c)"
  using assms by (cases "c_chains c") auto

lemma key_matches_iff:
  assumes "ht_inv H ht" "a \<in> set (ht_entries ht)" "0 < key_len" "nat key_len \<le> length k"
    "nul_free (take (nat key_len) k)"
  shows "key_matches ht k key_len a \<longleftrightarrow> e_key (ent ht a) = take (nat key_len) k"
proof (cases "int (e_key_len (ent ht a)) = key_len")
  case True
  then have "length (e_key (ent ht a)) = nat key_len" using ht_inv_entry(2) [OF assms(1,2)] by simp
  then show ?thesis
    using True assms ht_inv_entry(4) [OF assms(1,2)] strncmp_eq_take [of "nat key_len" "e_key (ent ht a)" k]
    by (simp add: key_matches_def strncmp_eq_same_length)
next
  case False
  then have "length (e_key (ent ht a)) \<noteq> length (take (nat key_len) k)"
    using ht_inv_entry(2) [OF assms(1,2)] assms(3,4) by auto
  then show ?thesis using False by (auto simp: key_matches_def)
qed

lemma hash_get_entry_spec:
  assumes "ht_inv H ht" "0 < key_len" "nat key_len \<le> length k" "nul_free (take (nat key_len) k)"
  shows "hash_get_entry H ht (Some k) key_len =
    map_option (\<lambda>a. (a, ht_bucket H ht (take (nat key_len) k)))
      (List.find (\<lambda>a. e_key (ent ht a) = take (nat key_len) k) (ht_entries ht))"
proof -
  let ?id = "ht_bucket H ht (take (nat key_len) k)"
  let ?c = "ht_table ht ! ?id"
  have cnt: "c_count ?c = int (length (c_chains ?c))"
    using ht_inv_chain(2) [OF assms(1) ht_bucket_less] ht_invD(1) [OF assms(1)] by simp
  have find: "List.find (key_matches ht k key_len) (c_chains ?c) =
      List.find (\<lambda>a. e_key (ent ht a) = take (nat key_len) k) (ht_entries ht)"
    using key_matches_iff [OF assms(1) _ assms(2-4)] by (intro find_chain [OF assms(1)]) auto
  have "hash_get_entry H ht (Some k) key_len =
      map_option (\<lambda>a. (a, ?id)) (List.find (key_matches ht k key_len) (c_chains ?c))"
    using assms(2) cnt by (cases "c_chains ?c") (auto simp: hash_get_entry_def Let_def)
  then show ?thesis using find by simp
qed

lemma ht_abs_Some_iff:
  assumes "ht_inv H ht"
  shows "ht_abs ht k = Some v \<longleftrightarrow> (\<exists>a\<in>set (ht_entries ht). e_key (ent ht a) = k \<and> e_val (ent ht a) = v)"
proof
  assume "ht_abs ht k = Some v"
  then show "\<exists>a\<in>set (ht_entries ht). e_key (ent ht a) = k \<and> e_val (ent ht a) = v"
    by (auto simp: ht_abs_def dest: find_Some_in)
next
  assume "\<exists>a\<in>set (ht_entries ht). e_key (ent ht a) = k \<and> e_val (ent ht a) = v"
  then obtain a where "a \<in> set (ht_entries ht)" "e_key (ent ht a) = k" "e_val (ent ht a) = v" by auto
  then show "ht_abs ht k = Some v"
    using find_inj_on [OF ht_invD(5) [OF assms], of a] by (simp add: ht_abs_def)
qed

lemma dom_ht_abs: "dom (ht_abs ht) = (\<lambda>a. e_key (ent ht a)) ` set (ht_entries ht)"
proof -
  have "ht_abs ht k = None \<longleftrightarrow> k \<notin> (\<lambda>a. e_key (ent ht a)) ` set (ht_entries ht)" for k
    by (auto simp: ht_abs_def find_None_iff)
  then show ?thesis by (auto simp: dom_def)
qed

section \<open>Preservation\<close>

lemma flb_hash_table_create_inv [flb_inv]:
  "flb_hash_table_create ok mode sz maxe = Some ht \<Longrightarrow> ht_inv H ht \<and> ht_abs ht = Map.empty"
  by (auto simp: flb_hash_table_create_def ht_inv_def ht_abs_def split: if_splits)

lemma ent_entry_free: "ent (flb_hash_table_entry_free ht a) b = (if b = a then the None else ent ht b)"
  by (simp add: ent_def flb_hash_table_entry_free_def Let_def)

lemma entry_free_fields [simp]:
  "ht_size (flb_hash_table_entry_free ht a) = ht_size ht"
  "ht_next (flb_hash_table_entry_free ht a) = ht_next ht"
  "ht_entries (flb_hash_table_entry_free ht a) = mk_list_del a (ht_entries ht)"
  "ht_heap (flb_hash_table_entry_free ht a) = (ht_heap ht)(a := None)"
  "total_count (flb_hash_table_entry_free ht a) = total_count ht - 1"
  "evict_mode (flb_hash_table_entry_free ht a) = evict_mode ht"
  "max_entries (flb_hash_table_entry_free ht a) = max_entries ht"
  "cache_ttl (flb_hash_table_entry_free ht a) = cache_ttl ht"
  "ht_bucket H (flb_hash_table_entry_free ht a) k = ht_bucket H ht k"
  by (simp_all add: flb_hash_table_entry_free_def Let_def ht_bucket_def)

lemma entry_free_inv [flb_inv]:
  assumes inv: "ht_inv H ht" and a: "a \<in> set (ht_entries ht)"
  shows "ht_inv H (flb_hash_table_entry_free ht a)"
proof -
  let ?ht = "flb_hash_table_entry_free ht a"
  have d: "distinct (ht_entries ht)" using ht_invD(3) [OF inv] .
  have ents: "set (ht_entries ?ht) = set (ht_entries ht) - {a}" using d by simp
  have tid: "e_table (ent ht a) < ht_size ht"
    using ht_inv_entry(1) [OF inv a] ht_bucket_less ht_invD(1) [OF inv] by simp
  have "c_chains (ht_table ?ht ! i) = filter (\<lambda>b. e_table (ent ?ht b) = i) (ht_entries ?ht) \<and>
      c_count (ht_table ?ht ! i) = int (length (c_chains (ht_table ?ht ! i)))" if i: "i < ht_size ht" for i
  proof -
    have ch: "c_chains (ht_table ht ! i) = filter (\<lambda>b. e_table (ent ht b) = i) (ht_entries ht)"
        "c_count (ht_table ht ! i) = int (length (c_chains (ht_table ht ! i)))"
      using ht_inv_chain [OF inv i] by auto
    have "filter (\<lambda>b. e_table (ent ?ht b) = i) (ht_entries ?ht) =
        filter (\<lambda>b. e_table (ent ht b) = i) (mk_list_del a (ht_entries ht))"
      using d by (auto simp: ent_entry_free intro!: filter_cong)
    also have "\<dots> = mk_list_del a (c_chains (ht_table ht ! i))"
      using filter_mk_list_del [OF d] ch by simp
    finally have f: "filter (\<lambda>b. e_table (ent ?ht b) = i) (ht_entries ?ht) = mk_list_del a (c_chains (ht_table ht ! i))" .
    show ?thesis
    proof (cases "i = e_table (ent ht a)")
      case True
      have m: "a \<in> set (c_chains (ht_table ht ! i))" using a ch True by simp
      then show ?thesis using True i f ch(2) m ht_invD(2) [OF inv]
        by (simp add: flb_hash_table_entry_free_def Let_def int_length_mk_list_del)
    next
      case False
      then have "a \<notin> set (c_chains (ht_table ht ! i))" using ch by simp
      then show ?thesis using False f ch(2) by (simp add: flb_hash_table_entry_free_def Let_def)
    qed
  qed
  then show ?thesis
  proof (intro ht_invI, goal_cases)
    case 2
    then show ?case using ht_invD(2) [OF inv] by (simp add: flb_hash_table_entry_free_def Let_def)
  next
    case 4
    show ?case using ents ht_invD(4) [OF inv] by auto
  next
    case 5
    show ?case using a ht_invD(6) [OF inv] by (simp add: int_length_mk_list_del)
  next
    case (7 b)
    then show ?case using ents ht_inv_entry [OF inv, of b] by (auto simp: ent_entry_free)
  next
    case (8 b c)
    then show ?case using ents ht_invD(5) [OF inv] by (auto simp: ent_entry_free inj_on_def)
  qed (use ht_invD [OF inv] d in auto)
qed

lemma entry_free_abs:
  assumes inv: "ht_inv H ht" and a: "a \<in> set (ht_entries ht)"
  shows "ht_abs (flb_hash_table_entry_free ht a) = (ht_abs ht)(e_key (ent ht a) := None)"
proof
  fix k
  have inv': "ht_inv H (flb_hash_table_entry_free ht a)" using entry_free_inv [OF assms] .
  have d: "distinct (ht_entries ht)" using ht_invD(3) [OF inv] .
  show "ht_abs (flb_hash_table_entry_free ht a) k = ((ht_abs ht)(e_key (ent ht a) := None)) k"
  proof (cases "k = e_key (ent ht a)")
    case True
    have "List.find (\<lambda>b. e_key (ent (flb_hash_table_entry_free ht a) b) = k) (mk_list_del a (ht_entries ht)) = None"
      using d True a ht_invD(5) [OF inv] by (auto simp: find_None_iff ent_entry_free inj_on_def)
    with True show ?thesis by (simp add: ht_abs_def)
  next
    case False
    have "List.find (\<lambda>b. e_key (ent (flb_hash_table_entry_free ht a) b) = k) (mk_list_del a (ht_entries ht)) =
        List.find (\<lambda>b. e_key (ent ht b) = k) (mk_list_del a (ht_entries ht))"
      using d by (intro find_cong_set) (auto simp: ent_entry_free)
    also have "\<dots> = List.find (\<lambda>b. e_key (ent ht b) = k) (ht_entries ht)"
      using False by (intro find_mk_list_del [OF d]) auto
    finally have f: "List.find (\<lambda>b. e_key (ent (flb_hash_table_entry_free ht a) b) = k) (mk_list_del a (ht_entries ht)) =
        List.find (\<lambda>b. e_key (ent ht b) = k) (ht_entries ht)" .
    show ?thesis
    proof (cases "List.find (\<lambda>b. e_key (ent ht b) = k) (ht_entries ht)")
      case None
      then show ?thesis using f False by (simp add: ht_abs_def)
    next
      case (Some b)
      then have "b \<noteq> a" using False by (auto dest: find_Some_in)
      then show ?thesis using f Some False by (simp add: ht_abs_def ent_entry_free)
    qed
  qed
qed

text \<open>Writing back an entry without changing its key keeps the invariant.\<close>

definition same_slot :: "ht_entry \<Rightarrow> ht_entry \<Rightarrow> bool" where
  "same_slot e e' \<longleftrightarrow> e_key e' = e_key e \<and> e_key_len e' = e_key_len e \<and> e_table e' = e_table e \<and>
     e_hash e' = e_hash e"

lemma ent_upd: "ent (ht\<lparr>ht_heap := (ht_heap ht)(a \<mapsto> e)\<rparr>) b = (if b = a then e else ent ht b)"
  by (simp add: ent_def)

lemma ht_upd_inv [flb_inv]:
  assumes "ht_inv H ht" "a \<in> set (ht_entries ht)" "same_slot (ent ht a) e"
  shows "ht_inv H (ht\<lparr>ht_heap := (ht_heap ht)(a \<mapsto> e)\<rparr>)"
proof -
  let ?ht = "ht\<lparr>ht_heap := (ht_heap ht)(a \<mapsto> e)\<rparr>"
  have eq: "e_table (ent ?ht b) = e_table (ent ht b)" "e_key (ent ?ht b) = e_key (ent ht b)"
      "e_key_len (ent ?ht b) = e_key_len (ent ht b)" "e_hash (ent ?ht b) = e_hash (ent ht b)" for b
    using assms(3) by (auto simp: ent_upd same_slot_def)
  show ?thesis
    using assms(1,2) unfolding ht_inv_def eq Let_def by (auto simp: ht_bucket_def)
qed

lemma ht_upd_abs:
  assumes "ht_inv H ht" "a \<in> set (ht_entries ht)" "same_slot (ent ht a) e"
  shows "ht_abs (ht\<lparr>ht_heap := (ht_heap ht)(a \<mapsto> e)\<rparr>) = (ht_abs ht)(e_key (ent ht a) \<mapsto> e_val e)"
proof
  fix k
  let ?ht = "ht\<lparr>ht_heap := (ht_heap ht)(a \<mapsto> e)\<rparr>"
  have eq: "e_key (ent ?ht b) = e_key (ent ht b)" for b
    using assms(3) by (auto simp: ent_upd same_slot_def)
  have fa: "List.find (\<lambda>b. e_key (ent ht b) = e_key (ent ht a)) (ht_entries ht) = Some a"
    using find_inj_on [OF ht_invD(5) [OF assms(1)] assms(2)] .
  show "ht_abs ?ht k = ((ht_abs ht)(e_key (ent ht a) \<mapsto> e_val e)) k"
  proof (cases "k = e_key (ent ht a)")
    case True
    then show ?thesis using fa unfolding ht_abs_def eq by (simp add: ent_upd)
  next
    case False
    then show ?thesis unfolding ht_abs_def eq
      by (cases "List.find (\<lambda>b. e_key (ent ht b) = k) (ht_entries ht)")
        (auto simp: ent_upd dest: find_Some_in)
  qed
qed

lemma ent_link: "ent (ht_link ht i e) b = (if b = ht_next ht then e\<lparr>e_table := i\<rparr> else ent ht b)"
  by (simp add: ent_def ht_link_def Let_def)

lemma ht_link_fields [simp]:
  "ht_size (ht_link ht i e) = ht_size ht" "ht_next (ht_link ht i e) = ht_next ht + 1"
  "ht_entries (ht_link ht i e) = mk_list_add (ht_next ht) (ht_entries ht)"
  "ht_heap (ht_link ht i e) = (ht_heap ht)(ht_next ht \<mapsto> e\<lparr>e_table := i\<rparr>)"
  "total_count (ht_link ht i e) = total_count ht + 1"
  "evict_mode (ht_link ht i e) = evict_mode ht" "max_entries (ht_link ht i e) = max_entries ht"
  "cache_ttl (ht_link ht i e) = cache_ttl ht" "ht_bucket H (ht_link ht i e) k = ht_bucket H ht k"
  "length (ht_table (ht_link ht i e)) = length (ht_table ht)"
  by (simp_all add: ht_link_def Let_def ht_bucket_def)

lemma ht_link_inv [flb_inv]:
  assumes inv: "ht_inv H ht" and key: "e_key e \<noteq> []" "nul_free (e_key e)" "e_key_len e = length (e_key e)"
    "e_hash e = H (e_key e)" and new: "ht_abs ht (e_key e) = None" and i: "i = ht_bucket H ht (e_key e)"
  shows "ht_inv H (ht_link ht i e)"
proof -
  let ?a = "ht_next ht"
  have fresh: "?a \<notin> set (ht_entries ht)" using ht_inv_entry(6) [OF inv] by blast
  have lt: "i < ht_size ht" using i ht_bucket_less ht_invD(1) [OF inv] by simp
  have newk: "e_key (ent ht b) \<noteq> e_key e" if "b \<in> set (ht_entries ht)" for b
    using new that by (auto simp: ht_abs_def find_None_iff)
  show ?thesis
  proof (intro ht_invI, goal_cases)
    case (6 j)
    have "filter (\<lambda>b. e_table (ent (ht_link ht i e) b) = j) (ht_entries ht) =
        filter (\<lambda>b. e_table (ent ht b) = j) (ht_entries ht)"
      using fresh by (intro filter_cong) (auto simp: ent_link)
    then show ?case
      using 6 ht_inv_chain [OF inv, of j] lt ht_invD(2) [OF inv]
      by (auto simp: ht_link_def ent_link Let_def ent_def nth_list_update)
  next
    case (7 b)
    then show ?case using ht_inv_entry [OF inv, of b] key i by (auto simp: ent_link)
  next
    case (8 b c)
    then show ?case using ht_invD(5) [OF inv] newk fresh
      by (auto simp: ent_link inj_on_def split: if_splits)
  qed (use ht_invD [OF inv] fresh in auto)
qed

lemma ht_link_abs:
  assumes inv: "ht_inv H ht" and new: "ht_abs ht (e_key e) = None"
  shows "ht_abs (ht_link ht i e) = (ht_abs ht)(e_key e \<mapsto> e_val e)"
proof
  fix k
  let ?a = "ht_next ht"
  have fresh: "?a \<notin> set (ht_entries ht)" using ht_inv_entry(6) [OF inv] by blast
  have f: "List.find (\<lambda>b. e_key (ent (ht_link ht i e) b) = k) (ht_entries ht) =
      List.find (\<lambda>b. e_key (ent ht b) = k) (ht_entries ht)"
    using fresh by (intro find_cong_set) (auto simp: ent_link)
  show "ht_abs (ht_link ht i e) k = ((ht_abs ht)(e_key e \<mapsto> e_val e)) k"
  proof (cases "List.find (\<lambda>b. e_key (ent ht b) = k) (ht_entries ht)")
    case None
    then show ?thesis unfolding ht_abs_def ht_link_fields find_mk_list_add f by (simp add: ent_link)
  next
    case (Some b)
    then have "b \<noteq> ?a" "k \<noteq> e_key e" using fresh new by (auto simp: ht_abs_def dest: find_Some_in)
    then show ?thesis using Some unfolding ht_abs_def ht_link_fields find_mk_list_add f by (simp add: ent_link)
  qed
qed

section \<open>Eviction\<close>

lemma less_used_loop_Some:
  "\<exists>a. less_used_loop ht as (Some b) = Some a \<and> a \<in> insert b (set as) \<and>
     (\<forall>x\<in>insert b (set as). e_hits (ent ht a) \<le> e_hits (ent ht x))"
proof (induction as arbitrary: b)
  case Nil
  then show ?case by simp
next
  case (Cons x as)
  let ?y = "if e_hits (ent ht x) < e_hits (ent ht b) then x else b"
  obtain a where a: "less_used_loop ht as (Some ?y) = Some a" "a \<in> insert ?y (set as)"
      "\<forall>z\<in>insert ?y (set as). e_hits (ent ht a) \<le> e_hits (ent ht z)"
    using Cons [of ?y] by blast
  have "e_hits (ent ht ?y) \<le> e_hits (ent ht x)" "e_hits (ent ht ?y) \<le> e_hits (ent ht b)"
    by (auto simp: not_less)
  then have "e_hits (ent ht a) \<le> e_hits (ent ht x)" "e_hits (ent ht a) \<le> e_hits (ent ht b)"
    using a(3) by (meson insertI1 order_trans)+
  then show ?case using a by (auto split: if_splits)
qed

text \<open>With a free slot nothing is evicted; at capacity, an eviction mode removes exactly one entry:
  the oldest, one of the least used, or any.\<close>

lemma ht_check_capacity_cases:
  assumes inv: "ht_inv H ht"
  shows "ht_check_capacity rnd ht = ht \<and>
      (max_entries ht \<le> 0 \<or> total_count ht < max_entries ht \<or> evict_mode ht \<notin> {1, 2, 3}) \<or>
    (\<exists>a\<in>set (ht_entries ht). ht_check_capacity rnd ht = flb_hash_table_entry_free ht a \<and>
      0 < max_entries ht \<and> max_entries ht \<le> total_count ht \<and> evict_mode ht \<in> {1, 2, 3} \<and>
      (evict_mode ht = 1 \<longrightarrow> a = hd (ht_entries ht)) \<and>
      (evict_mode ht = 2 \<longrightarrow> (\<forall>b\<in>set (ht_entries ht). e_hits (ent ht a) \<le> e_hits (ent ht b))))"
proof (cases "0 < max_entries ht \<and> max_entries ht \<le> total_count ht \<and> evict_mode ht \<in> {1, 2, 3}")
  case True
  then have ne: "ht_entries ht \<noteq> []" using ht_invD(6) [OF inv] by auto
  then obtain a as where aas: "ht_entries ht = a # as" by (cases "ht_entries ht") auto
  consider "evict_mode ht = 1" | "evict_mode ht = 2" | "evict_mode ht = 3" using True by auto
  then show ?thesis
  proof cases
    case 1
    then show ?thesis using True aas
      by (intro disjI2 bexI [of _ a]) (auto simp: ht_check_capacity_def evict_consts flb_hash_table_evict_older_def)
  next
    case 2
    obtain b where "less_used_loop ht as (Some a) = Some b" "b \<in> insert a (set as)"
        "\<forall>x\<in>insert a (set as). e_hits (ent ht b) \<le> e_hits (ent ht x)"
      using less_used_loop_Some by blast
    then show ?thesis using True aas 2
      by (intro disjI2 bexI [of _ b]) (auto simp: ht_check_capacity_def evict_consts flb_hash_table_evict_less_used_def)
  next
    case 3
    let ?i = "rnd mod nat (total_count ht)"
    have "?i < length (ht_entries ht)" using ht_invD(6) [OF inv] ne by simp
    then show ?thesis using True 3
      by (intro disjI2 bexI [of _ "ht_entries ht ! ?i"])
        (auto simp: ht_check_capacity_def evict_consts flb_hash_table_evict_random_def Let_def)
  qed
next
  case False
  then show ?thesis by (auto simp: ht_check_capacity_def evict_consts)
qed

lemma ht_check_capacity_inv [flb_inv]: "ht_inv H ht \<Longrightarrow> ht_inv H (ht_check_capacity rnd ht)"
  using ht_check_capacity_cases [of H ht rnd] entry_free_inv by metis

lemma ht_check_capacity_fields [simp]:
  "max_entries (ht_check_capacity rnd ht) = max_entries ht"
  "evict_mode (ht_check_capacity rnd ht) = evict_mode ht"
  "cache_ttl (ht_check_capacity rnd ht) = cache_ttl ht"
  "ht_size (ht_check_capacity rnd ht) = ht_size ht"
  by (auto simp: ht_check_capacity_def flb_hash_table_evict_older_def Let_def
      flb_hash_table_evict_less_used_def flb_hash_table_evict_random_def split: list.splits option.splits)

section \<open>Add, get and delete\<close>

lemma same_slot_set_value: "same_slot e (snd (entry_set_value ok now e ptr contents n))"
  by (auto simp: same_slot_def entry_set_value_def)

text \<open>The value an add stores.\<close>

definition stored :: "addr \<Rightarrow> cstr \<Rightarrow> nat \<Rightarrow> hval" where
  "stored ptr contents val_size = (if val_size > 0 then HBuf (take val_size contents) else HRef ptr)"

lemma entry_set_value_ok:
  "entry_set_value True now e ptr contents n =
     (0, e\<lparr>e_val := stored ptr contents n, e_val_size := (if n > 0 then int n else -1), e_created := now\<rparr>)"
  by (simp add: entry_set_value_def stored_def)

lemma flb_hash_table_add_inv [flb_inv]:
  assumes inv: "ht_inv H ht" and k: "nat key_len \<le> length k" "nul_free (take (nat key_len) k)"
  shows "ht_inv H (snd (flb_hash_table_add H now rnd ok1 ok2 ht (Some k) key_len ptr contents n))"
proof (cases "key_len \<le> 0")
  case True
  then show ?thesis using inv by (simp add: flb_hash_table_add_def)
next
  case False
  let ?ht = "ht_check_capacity rnd ht"
  let ?kk = "take (nat key_len) k"
  have inv': "ht_inv H ?ht" by (rule ht_check_capacity_inv [OF inv])
  have get: "hash_get_entry H ?ht (Some k) key_len =
      map_option (\<lambda>a. (a, ht_bucket H ?ht ?kk)) (List.find (\<lambda>a. e_key (ent ?ht a) = ?kk) (ht_entries ?ht))"
    using hash_get_entry_spec [OF inv' _ k] False by simp
  show ?thesis
  proof (cases "List.find (\<lambda>a. e_key (ent ?ht a) = ?kk) (ht_entries ?ht)")
    case None
    then have new: "ht_abs ?ht ?kk = None" by (simp add: ht_abs_def)
    let ?e0 = "\<lparr>e_created = now, e_hits = 0, e_hash = H ?kk, e_key = ?kk,
        e_key_len = nat key_len, e_val = HNull, e_val_size = 0, e_table = 0\<rparr>"
    have "ht_inv H (ht_link ?ht (ht_bucket H ?ht ?kk) (snd (entry_set_value ok2 now ?e0 ptr contents n)))"
      using same_slot_set_value [of ?e0 ok2 now ptr contents n] new k False
      by (intro ht_link_inv [OF inv']) (auto simp: same_slot_def)
    then show ?thesis using None get inv' False
      by (auto simp: flb_hash_table_add_def Let_def ht_bucket_def split: prod.splits)
  next
    case (Some a)
    then have "a \<in> set (ht_entries ?ht)" by (auto dest: find_Some_in)
    then have "ht_inv H (?ht\<lparr>ht_heap := (ht_heap ?ht)(a \<mapsto> snd (entry_set_value ok2 now (ent ?ht a) ptr contents n))\<rparr>)"
      using ht_upd_inv [OF inv' _ same_slot_set_value] by simp
    then show ?thesis using Some get False
      by (auto simp: flb_hash_table_add_def Let_def split: prod.splits)
  qed
qed

lemma flb_hash_table_add_abs:
  assumes inv: "ht_inv H ht" and k: "0 < key_len" "nat key_len \<le> length k" "nul_free (take (nat key_len) k)"
  shows "ht_abs (snd (flb_hash_table_add H now rnd True True ht (Some k) key_len ptr contents n)) =
      (ht_abs (ht_check_capacity rnd ht))(take (nat key_len) k \<mapsto> stored ptr contents n)"
    and "fst (flb_hash_table_add H now rnd True True ht (Some k) key_len ptr contents n) =
      int (ht_bucket H ht (take (nat key_len) k))"
proof -
  let ?ht = "ht_check_capacity rnd ht"
  let ?kk = "take (nat key_len) k"
  let ?f = "List.find (\<lambda>a. e_key (ent ?ht a) = ?kk) (ht_entries ?ht)"
  have inv': "ht_inv H ?ht" by (rule ht_check_capacity_inv [OF inv])
  have get: "hash_get_entry H ?ht (Some k) key_len = map_option (\<lambda>a. (a, ht_bucket H ?ht ?kk)) ?f"
    using hash_get_entry_spec [OF inv' k] .
  have b: "ht_bucket H ?ht ?kk = ht_bucket H ht ?kk" by (simp add: ht_bucket_def)
  have "ht_abs (snd (flb_hash_table_add H now rnd True True ht (Some k) key_len ptr contents n)) =
      (ht_abs ?ht)(?kk \<mapsto> stored ptr contents n) \<and>
    fst (flb_hash_table_add H now rnd True True ht (Some k) key_len ptr contents n) = int (ht_bucket H ht ?kk)"
  proof (cases ?f)
    case None
    then have new: "ht_abs ?ht ?kk = None" by (simp add: ht_abs_def)
    show ?thesis using None get k(1) new b
      by (simp add: flb_hash_table_add_def Let_def entry_set_value_ok ht_link_abs [OF inv'] ht_bucket_def)
  next
    case (Some a)
    then have a: "a \<in> set (ht_entries ?ht)" "e_key (ent ?ht a) = ?kk" by (auto dest: find_Some_in)
    have "same_slot (ent ?ht a) ((ent ?ht a)\<lparr>e_val := v, e_val_size := s, e_created := now\<rparr>)" for v s
      by (simp add: same_slot_def)
    from ht_upd_abs [OF inv' a(1) this] show ?thesis
      using Some get k(1) a b by (simp add: flb_hash_table_add_def Let_def entry_set_value_ok)
  qed
  then show "ht_abs (snd (flb_hash_table_add H now rnd True True ht (Some k) key_len ptr contents n)) =
      (ht_abs ?ht)(?kk \<mapsto> stored ptr contents n)"
    and "fst (flb_hash_table_add H now rnd True True ht (Some k) key_len ptr contents n) = int (ht_bucket H ht ?kk)"
    by auto
qed

text \<open>A lookup that finds no key fails; an expired entry is removed; otherwise the value is returned
  and only the hit counter of the entry changes.\<close>

definition expired :: "int \<Rightarrow> flb_hash_table \<Rightarrow> addr \<Rightarrow> bool" where
  "expired now ht a \<longleftrightarrow> cache_ttl ht > 0 \<and> now > e_created (ent ht a) + cache_ttl ht"

lemma flb_hash_table_get_cases:
  assumes inv: "ht_inv H ht" and k: "0 < key_len" "nat key_len \<le> length k" "nul_free (take (nat key_len) k)"
  shows "case List.find (\<lambda>a. e_key (ent ht a) = take (nat key_len) k) (ht_entries ht) of
      None \<Rightarrow> ht_abs ht (take (nat key_len) k) = None \<and> flb_hash_table_get H now ht (Some k) key_len = (-1, None, ht)
    | Some a \<Rightarrow> a \<in> set (ht_entries ht) \<and> e_key (ent ht a) = take (nat key_len) k \<and>
        ht_abs ht (take (nat key_len) k) = Some (e_val (ent ht a)) \<and>
        (if expired now ht a
         then flb_hash_table_get H now ht (Some k) key_len = (-1, None, flb_hash_table_entry_free ht a)
         else flb_hash_table_get H now ht (Some k) key_len =
           (int (ht_bucket H ht (take (nat key_len) k)), Some (e_val (ent ht a), e_val_size (ent ht a)),
            ht\<lparr>ht_heap := (ht_heap ht)(a \<mapsto> (ent ht a)\<lparr>e_hits := e_hits (ent ht a) + 1\<rparr>)\<rparr>))"
  using hash_get_entry_spec [OF inv k]
  by (auto simp: flb_hash_table_get_def ht_abs_def expired_def Let_def split: option.splits dest: find_Some_in)

lemma flb_hash_table_get_inv [flb_inv]:
  assumes inv: "ht_inv H ht" and k: "0 < key_len" "nat key_len \<le> length k" "nul_free (take (nat key_len) k)"
  shows "ht_inv H (snd (snd (flb_hash_table_get H now ht (Some k) key_len)))"
  using flb_hash_table_get_cases [OF assms, of now] inv
  by (auto split: option.splits if_splits intro!: entry_free_inv ht_upd_inv simp: same_slot_def)

lemma flb_hash_table_del_spec:
  assumes inv: "ht_inv H ht" and k: "k \<noteq> []" "nul_free k"
  shows "flb_hash_table_del H ht (Some k) =
    (case List.find (\<lambda>a. e_key (ent ht a) = k) (ht_entries ht) of
       None \<Rightarrow> (-1, ht) | Some a \<Rightarrow> (0, flb_hash_table_entry_free ht a))"
proof -
  let ?c = "ht_table ht ! ht_bucket H ht k"
  let ?P = "\<lambda>a. strcmp_eq (e_key (ent ht a)) k"
  have cnt: "c_count ?c = int (length (c_chains ?c))"
    using ht_inv_chain(2) [OF inv ht_bucket_less] ht_invD(1) [OF inv] by simp
  have "List.find ?P (c_chains ?c) = List.find (\<lambda>a. e_key (ent ht a) = k) (ht_entries ht)"
    using k ht_inv_entry(4) [OF inv] by (intro find_chain [OF inv]) auto
  then show ?thesis
    using k single_or_find [OF cnt, of ?P] by (simp add: flb_hash_table_del_def Let_def)
qed

lemma flb_hash_table_del_inv [flb_inv]:
  "ht_inv H ht \<Longrightarrow> k \<noteq> [] \<Longrightarrow> nul_free k \<Longrightarrow> ht_inv H (snd (flb_hash_table_del H ht (Some k)))"
  by (auto simp: flb_hash_table_del_spec split: option.splits dest: find_Some_in intro!: entry_free_inv)

lemma flb_hash_table_del_abs:
  assumes "ht_inv H ht" "k \<noteq> []" "nul_free k"
  shows "ht_abs (snd (flb_hash_table_del H ht (Some k))) = (ht_abs ht)(k := None)"
proof (cases "List.find (\<lambda>a. e_key (ent ht a) = k) (ht_entries ht)")
  case None
  then have "ht_abs ht k = None" by (simp add: ht_abs_def)
  then show ?thesis using None assms by (simp add: flb_hash_table_del_spec fun_upd_idem)
next
  case (Some a)
  then have "a \<in> set (ht_entries ht)" "e_key (ent ht a) = k" by (auto dest: find_Some_in)
  then show ?thesis using Some assms entry_free_abs [OF assms(1), of a]
    by (simp add: flb_hash_table_del_spec)
qed

section \<open>The interface: a map from strings\<close>

text \<open>What the users of the table (environment, open chunks of a tag, record caches) rely on.\<close>

locale string_map =
  fixes inv :: "'t \<Rightarrow> bool"
    and abs :: "'t \<Rightarrow> cstr \<Rightarrow> 'v option"
    and valid :: "cstr \<Rightarrow> bool"
    and storable :: "'v \<Rightarrow> bool"
    and put :: "cstr \<Rightarrow> 'v \<Rightarrow> 't \<Rightarrow> 't"
    and del :: "cstr \<Rightarrow> 't \<Rightarrow> 't"
    and look :: "cstr \<Rightarrow> 't \<Rightarrow> 'v option \<times> 't"
  assumes put_law: "inv t \<Longrightarrow> valid k \<Longrightarrow> storable v \<Longrightarrow>
      inv (put k v t) \<and> abs (put k v t) = (abs t)(k \<mapsto> v)"
    and del_law: "inv t \<Longrightarrow> valid k \<Longrightarrow> inv (del k t) \<and> abs (del k t) = (abs t)(k := None)"
    and look_law: "inv t \<Longrightarrow> valid k \<Longrightarrow>
      fst (look k t) = abs t k \<and> inv (snd (look k t)) \<and> abs (snd (look k t)) = abs t"
begin

lemma look_put:
  "inv t \<Longrightarrow> valid k \<Longrightarrow> valid j \<Longrightarrow> storable v \<Longrightarrow>
     fst (look j (put k v t)) = (if j = k then Some v else fst (look j t))"
  by (simp add: put_law look_law)

lemma look_del:
  "inv t \<Longrightarrow> valid k \<Longrightarrow> valid j \<Longrightarrow> fst (look j (del k t)) = (if j = k then None else fst (look j t))"
  by (simp add: del_law look_law)

lemma puts_law:
  assumes "inv t" "\<forall>(k, v)\<in>set kvs. valid k \<and> storable v"
  shows "inv (fold (\<lambda>(k, v). put k v) kvs t) \<and>
    abs (fold (\<lambda>(k, v). put k v) kvs t) = abs t ++ map_of (rev kvs)"
  using assms
proof (induction kvs arbitrary: t)
  case Nil
  then show ?case by simp
next
  case (Cons kv kvs)
  obtain k v where kv: "kv = (k, v)" by (cases kv)
  have law: "inv (put k v t)" "abs (put k v t) = (abs t)(k \<mapsto> v)" using Cons.prems kv put_law by simp_all
  have upd: "abs t ++ map_of (rev (kv # kvs)) = (abs t)(k \<mapsto> v) ++ map_of (rev kvs)" by (simp add: kv)
  show ?case unfolding upd using Cons.IH [OF law(1)] Cons.prems(2) unfolding law(2) by (simp add: kv del: fun_upd_apply)
qed

lemma look_puts:
  assumes "inv t" "\<forall>(k, v)\<in>set kvs. valid k \<and> storable v" "valid j"
  shows "fst (look j (fold (\<lambda>(k, v). put k v) kvs t)) = (abs t ++ map_of (rev kvs)) j"
  using puts_law [OF assms(1,2)] look_law assms(3) by metis

end

text \<open>A table without capacity and time to live, storing references, is such a map, whatever the hash
  function and the clock.\<close>

definition ht_plain :: "(cstr \<Rightarrow> 64 word) \<Rightarrow> flb_hash_table \<Rightarrow> bool" where
  "ht_plain H ht \<longleftrightarrow> ht_inv H ht \<and> max_entries ht \<le> 0 \<and> cache_ttl ht \<le> 0"

definition ht_valid_key :: "cstr \<Rightarrow> bool" where
  "ht_valid_key k \<longleftrightarrow> k \<noteq> [] \<and> nul_free k"

definition ht_put :: "(cstr \<Rightarrow> 64 word) \<Rightarrow> int \<Rightarrow> cstr \<Rightarrow> hval \<Rightarrow> flb_hash_table \<Rightarrow> flb_hash_table" where
  "ht_put H now k v ht =
     (case v of
        HBuf b \<Rightarrow> snd (flb_hash_table_add H now 0 True True ht (Some k) (int (length k)) 0 b (length b))
      | HRef p \<Rightarrow> snd (flb_hash_table_add H now 0 True True ht (Some k) (int (length k)) p [] 0)
      | HNull \<Rightarrow> ht)"

definition ht_del :: "(cstr \<Rightarrow> 64 word) \<Rightarrow> cstr \<Rightarrow> flb_hash_table \<Rightarrow> flb_hash_table" where
  "ht_del H k ht = snd (flb_hash_table_del H ht (Some k))"

definition ht_look :: "(cstr \<Rightarrow> 64 word) \<Rightarrow> int \<Rightarrow> cstr \<Rightarrow> flb_hash_table \<Rightarrow> hval option \<times> flb_hash_table" where
  "ht_look H now k ht =
     (case flb_hash_table_get H now ht (Some k) (int (length k)) of (_, r, ht') \<Rightarrow> (map_option fst r, ht'))"

definition ht_storable :: "hval \<Rightarrow> bool" where
  "ht_storable v = (case v of HNull \<Rightarrow> False | HBuf b \<Rightarrow> b \<noteq> [] | HRef p \<Rightarrow> True)"

lemma ht_check_capacity_plain: "max_entries ht \<le> 0 \<Longrightarrow> ht_check_capacity rnd ht = ht"
  by (simp add: ht_check_capacity_def)

lemma add_fields [simp]:
  "max_entries (snd (flb_hash_table_add H now rnd ok1 ok2 ht k kl p c n)) = max_entries ht"
  "cache_ttl (snd (flb_hash_table_add H now rnd ok1 ok2 ht k kl p c n)) = cache_ttl ht"
  "evict_mode (snd (flb_hash_table_add H now rnd ok1 ok2 ht k kl p c n)) = evict_mode ht"
  by (auto simp: flb_hash_table_add_def Let_def split: option.splits prod.splits)

lemma del_fields [simp]:
  "max_entries (snd (flb_hash_table_del H ht k)) = max_entries ht"
  "cache_ttl (snd (flb_hash_table_del H ht k)) = cache_ttl ht"
  by (auto simp: flb_hash_table_del_def Let_def split: option.splits list.splits)

lemma get_fields [simp]:
  "max_entries (snd (snd (flb_hash_table_get H now ht k kl))) = max_entries ht"
  "cache_ttl (snd (snd (flb_hash_table_get H now ht k kl))) = cache_ttl ht"
  by (auto simp: flb_hash_table_get_def Let_def split: option.splits)

lemma ht_put_law:
  assumes "ht_plain H t" "ht_valid_key k" "ht_storable v"
  shows "ht_plain H (ht_put H now k v t) \<and> ht_abs (ht_put H now k v t) = (ht_abs t)(k \<mapsto> v)"
proof -
  have k: "(0::int) < int (length k)" "nul_free (take (nat (int (length k))) k)"
    using assms(2) by (simp_all add: ht_valid_key_def)
  have t: "ht_inv H t" "max_entries t \<le> 0" using assms(1) by (simp_all add: ht_plain_def)
  show ?thesis
    using assms(1,3) flb_hash_table_add_abs(1) [OF t(1) k(1) _ k(2)] flb_hash_table_add_inv [OF t(1) _ k(2)] t(2)
    by (auto simp: ht_put_def ht_plain_def ht_storable_def ht_check_capacity_plain stored_def
        split: hval.splits)
qed

lemma ht_look_law:
  assumes "ht_plain H t" "ht_valid_key k"
  shows "fst (ht_look H now k t) = ht_abs t k \<and> ht_plain H (snd (ht_look H now k t)) \<and>
    ht_abs (snd (ht_look H now k t)) = ht_abs t"
proof -
  have k: "(0::int) < int (length k)" "nul_free (take (nat (int (length k))) k)"
    using assms(2) by (simp_all add: ht_valid_key_def)
  have t: "ht_inv H t" using assms(1) by (simp add: ht_plain_def)
  have noexp: "\<not> expired now t a" for a using assms(1) by (simp add: expired_def ht_plain_def)
  have keep: "ht_abs (t\<lparr>ht_heap := (ht_heap t)(a \<mapsto> (ent t a)\<lparr>e_hits := h\<rparr>)\<rparr>) = ht_abs t"
    if "a \<in> set (ht_entries t)" for a h
    using ht_upd_abs [OF t that, of "(ent t a)\<lparr>e_hits := h\<rparr>"] ht_abs_Some_iff [OF t] that
    by (auto simp: same_slot_def intro!: map_upd_triv)
  have inv': "ht_plain H (snd (snd (flb_hash_table_get H now t (Some k) (int (length k)))))"
    using flb_hash_table_get_inv [OF t k(1) _ k(2), of now] assms(1) by (simp add: ht_plain_def)
  then show ?thesis
    using flb_hash_table_get_cases [OF t k(1) _ k(2), of now] noexp keep
    by (auto simp: ht_look_def split: option.splits prod.splits)
qed

interpretation ht: string_map "ht_plain H" ht_abs ht_valid_key ht_storable "ht_put H now" "ht_del H"
  "ht_look H now" for H :: "cstr \<Rightarrow> 64 word" and now :: int
proof unfold_locales
  fix t k
  assume "ht_plain H t" "ht_valid_key k"
  then show "ht_plain H (ht_del H k t) \<and> ht_abs (ht_del H k t) = (ht_abs t)(k := None)"
    by (simp add: ht_plain_def ht_valid_key_def ht_del_def flb_hash_table_del_inv flb_hash_table_del_abs)
qed (simp_all add: ht_put_law ht_look_law)

section \<open>Values with their age\<close>

text \<open>What a lookup reads of the entry of a key: the value, its size and the time it was stored.\<close>

definition ht_view :: "flb_hash_table \<Rightarrow> cstr \<Rightarrow> (hval \<times> int \<times> int) option" where
  "ht_view ht k = map_option (\<lambda>a. (e_val (ent ht a), e_val_size (ent ht a), e_created (ent ht a)))
     (List.find (\<lambda>a. e_key (ent ht a) = k) (ht_entries ht))"

text \<open>The answer of a lookup at a time, given the time to live.\<close>

definition fresh_value :: "int \<Rightarrow> int \<Rightarrow> hval \<times> int \<times> int \<Rightarrow> (hval \<times> int) option" where
  "fresh_value ttl now w = (case w of (v, n, created) \<Rightarrow> if ttl > 0 \<and> now > created + ttl then None else Some (v, n))"

lemma ht_view_Some_iff:
  assumes "ht_inv H ht"
  shows "ht_view ht k = Some w \<longleftrightarrow> (\<exists>a\<in>set (ht_entries ht). e_key (ent ht a) = k \<and>
    w = (e_val (ent ht a), e_val_size (ent ht a), e_created (ent ht a)))"
proof
  assume "ht_view ht k = Some w"
  then show "\<exists>a\<in>set (ht_entries ht). e_key (ent ht a) = k \<and> w = (e_val (ent ht a), e_val_size (ent ht a), e_created (ent ht a))"
    by (auto simp: ht_view_def dest: find_Some_in)
next
  assume "\<exists>a\<in>set (ht_entries ht). e_key (ent ht a) = k \<and> w = (e_val (ent ht a), e_val_size (ent ht a), e_created (ent ht a))"
  then obtain a where "a \<in> set (ht_entries ht)" "e_key (ent ht a) = k" "w = (e_val (ent ht a), e_val_size (ent ht a), e_created (ent ht a))" by auto
  then show "ht_view ht k = Some w" using find_inj_on [OF ht_invD(5) [OF assms], of a] by (simp add: ht_view_def)
qed

lemma ht_view_get:
  assumes "ht_inv H ht" "ht_valid_key k"
  shows "fst (snd (flb_hash_table_get H now ht (Some k) (int (length k)))) = Option.bind (ht_view ht k) (fresh_value (cache_ttl ht) now)"
  using flb_hash_table_get_cases [OF assms(1), of "int (length k)" k now] assms(2)
  by (auto simp: ht_valid_key_def ht_view_def fresh_value_def expired_def split: option.splits if_splits)

lemma option_eq_iff: "(\<And>w. x = Some w \<longleftrightarrow> y = Some w) \<Longrightarrow> x = y"
  by (cases x; cases y) auto

lemma ht_view_entry_free:
  assumes "ht_inv H ht" "a \<in> set (ht_entries ht)"
  shows "ht_view (flb_hash_table_entry_free ht a) k = (if k = e_key (ent ht a) then None else ht_view ht k)"
proof (rule option_eq_iff)
  fix w
  have "set (ht_entries (flb_hash_table_entry_free ht a)) = set (ht_entries ht) - {a}" using ht_invD(3) [OF assms(1)] by simp
  moreover have "b = a" if "b \<in> set (ht_entries ht)" "e_key (ent ht b) = e_key (ent ht a)" for b
    using ht_invD(5) [OF assms(1)] that assms(2) by (simp add: inj_on_def)
  ultimately show "ht_view (flb_hash_table_entry_free ht a) k = Some w \<longleftrightarrow> (if k = e_key (ent ht a) then None else ht_view ht k) = Some w"
    using ht_view_Some_iff [OF entry_free_inv [OF assms], of k w] ht_view_Some_iff [OF assms(1), of k w] by (auto simp: ent_entry_free)
qed

lemma ht_view_upd:
  assumes "ht_inv H ht" "a \<in> set (ht_entries ht)" "same_slot (ent ht a) e"
  shows "ht_view (ht\<lparr>ht_heap := (ht_heap ht)(a \<mapsto> e)\<rparr>) k =
    (if k = e_key (ent ht a) then Some (e_val e, e_val_size e, e_created e) else ht_view ht k)"
proof -
  have eq: "e_key (ent (ht\<lparr>ht_heap := (ht_heap ht)(a \<mapsto> e)\<rparr>) b) = e_key (ent ht b)" for b
    using assms(3) by (auto simp: ent_upd same_slot_def)
  show ?thesis
  proof (cases "k = e_key (ent ht a)")
    case True
    then show ?thesis using find_inj_on [OF ht_invD(5) [OF assms(1)] assms(2)] unfolding ht_view_def eq by (simp add: ent_upd)
  next
    case False
    then show ?thesis unfolding ht_view_def eq
      by (cases "List.find (\<lambda>b. e_key (ent ht b) = k) (ht_entries ht)") (auto simp: ent_upd dest: find_Some_in)
  qed
qed

lemma ht_view_link:
  assumes "ht_inv H ht" "ht_inv H (ht_link ht i e)"
  shows "ht_view (ht_link ht i e) k = (if k = e_key e then Some (e_val e, e_val_size e, e_created e) else ht_view ht k)"
proof (rule option_eq_iff)
  fix w
  have fresh: "ht_next ht \<notin> set (ht_entries ht)" using ht_inv_entry(6) [OF assms(1)] by blast
  have new: "ht_next ht \<in> set (ht_entries (ht_link ht i e))" by simp
  have inj: "e_key (ent ht b) \<noteq> e_key e" if "b \<in> set (ht_entries ht)" for b
    using ht_invD(5) [OF assms(2)] that fresh by (auto simp: inj_on_def ent_link)
  then show "ht_view (ht_link ht i e) k = Some w \<longleftrightarrow>
      (if k = e_key e then Some (e_val e, e_val_size e, e_created e) else ht_view ht k) = Some w"
    using ht_view_Some_iff [OF assms(2), of k w] ht_view_Some_iff [OF assms(1), of k w] fresh
    by (auto simp: ent_link split: if_splits)
qed

text \<open>An add stores the value with the time, after the entry that was evicted is gone.\<close>

lemma ht_view_add:
  assumes "ht_inv H ht" "ht_valid_key k"
  shows "ht_view (snd (flb_hash_table_add H now rnd True True ht (Some k) (int (length k)) ptr contents n)) j =
    (if j = k then Some (stored ptr contents n, if n > 0 then int n else -1, now) else ht_view (ht_check_capacity rnd ht) j)"
proof -
  let ?ht = "ht_check_capacity rnd ht" and ?v = "stored ptr contents n" and ?s = "if n > 0 then int n else -1"
  have kk: "(0::int) < int (length k)" "nat (int (length k)) \<le> length k" "nul_free (take (nat (int (length k))) k)"
    using assms(2) by (simp_all add: ht_valid_key_def)
  have inv: "ht_inv H ?ht" by (rule ht_check_capacity_inv [OF assms(1)])
  note get = hash_get_entry_spec [OF inv kk]
  have inv': "ht_inv H (snd (flb_hash_table_add H now rnd True True ht (Some k) (int (length k)) ptr contents n))"
    by (rule flb_hash_table_add_inv [OF assms(1) kk(2,3)])
  show ?thesis
  proof (cases "List.find (\<lambda>a. e_key (ent ?ht a) = k) (ht_entries ?ht)")
    case None
    define e where "e = \<lparr>e_created = now, e_hits = 0, e_hash = H k, e_key = k, e_key_len = length k, e_val = ?v, e_val_size = ?s, e_table = 0\<rparr>"
    have "snd (flb_hash_table_add H now rnd True True ht (Some k) (int (length k)) ptr contents n) = ht_link ?ht (unat (H k) mod ht_size ht) e"
      using None get kk(1) by (simp add: flb_hash_table_add_def Let_def entry_set_value_ok e_def)
    then show ?thesis using ht_view_link [OF inv, of "unat (H k) mod ht_size ht" e j] inv' by (simp add: e_def)
  next
    case (Some a)
    then have a: "a \<in> set (ht_entries ?ht)" "e_key (ent ?ht a) = k" by (auto dest: find_Some_in)
    define e where "e = (ent ?ht a)\<lparr>e_val := ?v, e_val_size := ?s, e_created := now\<rparr>"
    have "snd (flb_hash_table_add H now rnd True True ht (Some k) (int (length k)) ptr contents n) = ?ht\<lparr>ht_heap := (ht_heap ?ht)(a \<mapsto> e)\<rparr>"
      using Some get kk(1) by (simp add: flb_hash_table_add_def Let_def entry_set_value_ok e_def)
    moreover have "same_slot (ent ?ht a) e" by (simp add: same_slot_def e_def)
    ultimately show ?thesis using ht_view_upd [OF inv a(1), of e j] a(2) by (simp add: e_def)
  qed
qed

section \<open>Destroy\<close>

lemma fold_entry_free:
  assumes "ht_inv H ht" "distinct xs" "set xs \<subseteq> set (ht_entries ht)"
  shows "ht_inv H (fold (\<lambda>a h. flb_hash_table_entry_free h a) xs ht) \<and>
    set (ht_entries (fold (\<lambda>a h. flb_hash_table_entry_free h a) xs ht)) = set (ht_entries ht) - set xs \<and>
    ht_size (fold (\<lambda>a h. flb_hash_table_entry_free h a) xs ht) = ht_size ht \<and>
    (\<forall>b. b \<notin> set xs \<longrightarrow> ent (fold (\<lambda>a h. flb_hash_table_entry_free h a) xs ht) b = ent ht b)"
  using assms
proof (induction xs arbitrary: ht)
  case Nil
  then show ?case by simp
next
  case (Cons a xs)
  let ?ht = "flb_hash_table_entry_free ht a"
  have inv: "ht_inv H ?ht" using Cons.prems entry_free_inv by simp
  have set': "set (ht_entries ?ht) = set (ht_entries ht) - {a}" using Cons.prems ht_invD(3) by simp
  have "distinct xs" "set xs \<subseteq> set (ht_entries ?ht)" using Cons.prems set' by auto
  from Cons.IH [OF inv this] show ?case using set' by (auto simp: ent_entry_free)
qed

lemma destroy_prefix:
  assumes "ht_inv H ht" "n \<le> ht_size ht"
  shows "let h = fold (\<lambda>i h. fold (\<lambda>a h. flb_hash_table_entry_free h a) (c_chains (ht_table h ! i)) h) [0..<n] ht
    in ht_inv H h \<and> ht_size h = ht_size ht \<and> (\<forall>a\<in>set (ht_entries h). n \<le> e_table (ent h a))"
  using assms(2)
proof (induction n)
  case 0
  then show ?case using assms(1) by (simp add: Let_def)
next
  case (Suc n)
  let ?h = "fold (\<lambda>i h. fold (\<lambda>a h. flb_hash_table_entry_free h a) (c_chains (ht_table h ! i)) h) [0..<n] ht"
  let ?xs = "c_chains (ht_table ?h ! n)"
  have h: "ht_inv H ?h" "ht_size ?h = ht_size ht" "\<forall>a\<in>set (ht_entries ?h). n \<le> e_table (ent ?h a)"
    using Suc by (simp_all add: Let_def)
  have xs: "?xs = filter (\<lambda>a. e_table (ent ?h a) = n) (ht_entries ?h)"
    using ht_inv_chain(1) [OF h(1)] h(2) Suc.prems by simp
  have d: "distinct ?xs" "set ?xs \<subseteq> set (ht_entries ?h)"
    using ht_invD(3) [OF h(1)] unfolding xs by auto
  show ?case using fold_entry_free [OF h(1) d] h xs
    by (auto simp: Let_def Suc_le_eq le_less)
qed

section \<open>Properties\<close>

text \<open>A table without capacity and time to live is a map: a lookup after an add gives the value just stored
  for that key and the former value for every other key.\<close>

lemma get_after_add_plain:
  assumes "ht_plain H ht" "ht_valid_key k" "ht_valid_key j"
  shows "map_option fst (fst (snd (flb_hash_table_get H now'
      (snd (flb_hash_table_add H now 0 True True ht (Some k) (int (length k)) ptr [] 0))
      (Some j) (int (length j))))) = (if j = k then Some (HRef ptr) else ht_abs ht j)"
proof -
  have v: "ht_storable (HRef ptr)" by (simp add: ht_storable_def)
  have "fst (ht_look H now' j (ht_put H now k (HRef ptr) ht)) = (if j = k then Some (HRef ptr) else ht_abs ht j)"
    using ht.put_law [OF assms(1,2) v] ht.look_law [OF _ assms(3)] by simp
  then show ?thesis by (simp add: ht_look_def ht_put_def case_prod_beta del: map_option_eq_Some)
qed

text \<open>C10: a lookup after an add, in any table, whatever the hash function and however the keys collide. The key that was added gives
  the value just stored, a copy of the given size or the reference, until its time to live has passed. Every other
  key gives what it gave before the add, except for at most one, which is gone: and one is gone only when the
  table was at its capacity and has an eviction mode.\<close>

theorem flb_hash_table_get_after_add:
  assumes "ht_inv H ht" "ht_valid_key k"
    and res: "flb_hash_table_add H now rnd True True ht (Some k) (int (length k)) ptr contents n = (ret, ht')"
  shows "ret = int (ht_bucket H ht k) \<and> (\<exists>gone. card gone \<le> 1 \<and> finite gone \<and>
    (gone \<noteq> {} \<longrightarrow> 0 < max_entries ht \<and> max_entries ht \<le> total_count ht \<and> evict_mode ht \<in> {1, 2, 3}) \<and>
    (\<forall>j now'. ht_valid_key j \<longrightarrow> fst (snd (flb_hash_table_get H now' ht' (Some j) (int (length j)))) =
       (if j = k then (if cache_ttl ht > 0 \<and> now' > now + cache_ttl ht then None
                       else if n > 0 then Some (HBuf (take n contents), int n) else Some (HRef ptr, -1))
        else if j \<in> gone then None
        else fst (snd (flb_hash_table_get H now' ht (Some j) (int (length j)))))))"
proof -
  have kk: "(0::int) < int (length k)" "nat (int (length k)) \<le> length k" "nul_free (take (nat (int (length k))) k)"
    using assms(2) by (simp_all add: ht_valid_key_def)
  have ret: "ret = int (ht_bucket H ht k)" using flb_hash_table_add_abs(2) [OF assms(1) kk, of now rnd ptr contents n] res by simp
  have inv: "ht_inv H ht'" "cache_ttl ht' = cache_ttl ht"
    using flb_hash_table_add_inv [OF assms(1) kk(2,3), of now rnd True True ptr contents n] res add_fields(2) [of H now rnd True True ht] by (auto, metis snd_conv)
  note view = ht_view_add [OF assms(1,2), of now rnd ptr contents n, unfolded res snd_conv]
  obtain gone where g: "card gone \<le> 1" "finite gone"
    "gone \<noteq> {} \<longrightarrow> 0 < max_entries ht \<and> max_entries ht \<le> total_count ht \<and> evict_mode ht \<in> {1, 2, 3}"
    "\<And>j. ht_view (ht_check_capacity rnd ht) j = (if j \<in> gone then None else ht_view ht j)"
  proof (cases "ht_check_capacity rnd ht = ht")
    case True
    then show ?thesis using that [of "{}"] by simp
  next
    case False
    then obtain a where "a \<in> set (ht_entries ht)" "ht_check_capacity rnd ht = flb_hash_table_entry_free ht a" "0 < max_entries ht"
      "max_entries ht \<le> total_count ht" "evict_mode ht \<in> {1, 2, 3}" using ht_check_capacity_cases [OF assms(1), of rnd] by auto
    then show ?thesis using that [of "{e_key (ent ht a)}"] ht_view_entry_free [OF assms(1)] by simp
  qed
  have "fst (snd (flb_hash_table_get H now' ht' (Some j) (int (length j)))) =
       (if j = k then (if cache_ttl ht > 0 \<and> now' > now + cache_ttl ht then None
                       else if n > 0 then Some (HBuf (take n contents), int n) else Some (HRef ptr, -1))
        else if j \<in> gone then None
        else fst (snd (flb_hash_table_get H now' ht (Some j) (int (length j)))))" if "ht_valid_key j" for j now'
    unfolding ht_view_get [OF inv(1) that] ht_view_get [OF assms(1) that] inv(2) view g(4)
    by (simp add: fresh_value_def stored_def)
  then show ?thesis using ret g(1-3) by blast
qed

definition demo_ht :: flb_hash_table where
  "demo_ht = the (flb_hash_table_create True 0 4 0)"

lemma demo_ht_plain: "ht_plain H demo_ht"
  using flb_hash_table_create_inv [of True 0 4 0 demo_ht H]
  by (simp add: ht_plain_def demo_ht_def flb_hash_table_create_def)

theorem flb_hash_table_get_after_add_witness:
  "fst (snd (flb_hash_table_get (\<lambda>_. 7) 10
      (snd (flb_hash_table_add (\<lambda>_. 7) 5 0 True True demo_ht (Some ''cpu'') 3 42 ''value'' 3)) (Some ''cpu'') 3)) = Some (HBuf ''val'', 3) \<and>
   fst (snd (flb_hash_table_get (\<lambda>_. 7) 10
      (snd (flb_hash_table_add (\<lambda>_. 7) 5 0 True True demo_ht (Some ''cpu'') 3 42 ''value'' 3)) (Some ''mem'') 3)) = None"
proof -
  have inv: "ht_inv (\<lambda>_. 7) demo_ht" using demo_ht_plain by (simp add: ht_plain_def)
  have v: "ht_valid_key ''cpu''" "ht_valid_key ''mem''" by (simp_all add: ht_valid_key_def)
  have f: "cache_ttl demo_ht = 0" "fst (snd (flb_hash_table_get (\<lambda>_. 7) 10 demo_ht (Some ''mem'') 3)) = None"
    by (simp_all add: demo_ht_def flb_hash_table_create_def flb_hash_table_get_def hash_get_entry_def ht_bucket_def)
  obtain ret ht' where r: "flb_hash_table_add (\<lambda>_. 7) 5 0 True True demo_ht (Some ''cpu'') (int (length ''cpu'')) 42 ''value'' 3 = (ret, ht')" by fastforce
  from flb_hash_table_get_after_add [OF inv v(1) r] obtain gone where g: "\<forall>j now'. ht_valid_key j \<longrightarrow>
      fst (snd (flb_hash_table_get (\<lambda>_. 7) now' ht' (Some j) (int (length j)))) =
      (if j = ''cpu'' then (if cache_ttl demo_ht > 0 \<and> now' > 5 + cache_ttl demo_ht then None
                       else if (3::nat) > 0 then Some (HBuf (take 3 ''value''), int 3) else Some (HRef 42, -1))
       else if j \<in> gone then None
       else fst (snd (flb_hash_table_get (\<lambda>_. 7) now' demo_ht (Some j) (int (length j)))))" by blast
  show ?thesis using g [rule_format, OF v(1), of 10] g [rule_format, OF v(2), of 10] r f by (auto split: if_splits)
qed

text \<open>C26: a table with a capacity never holds more entries than that. When an eviction mode is set and
  the table is within its capacity, it still is after an add; the new key is present, and no key
  but that of at most one evicted entry disappears: the oldest entry in mode OLDER, an entry with
  the fewest hits in mode LESS USED.\<close>

theorem flb_hash_table_add_capacity:
  assumes inv: "ht_inv H ht" and cap: "0 < max_entries ht" "total_count ht \<le> max_entries ht"
    and mode: "evict_mode ht \<in> {1, 2, 3}" and k: "ht_valid_key k"
    and res: "snd (flb_hash_table_add H now rnd True True ht (Some k) (int (length k)) ptr contents n) = ht'"
  shows "ht_inv H ht' \<and> total_count ht' \<le> max_entries ht' \<and> ht_abs ht' k = Some (stored ptr contents n) \<and>
    (ht_abs ht' = (ht_abs ht)(k \<mapsto> stored ptr contents n) \<or>
     (\<exists>a\<in>set (ht_entries ht). ht_abs ht' = (ht_abs ht)(e_key (ent ht a) := None, k \<mapsto> stored ptr contents n) \<and>
       (evict_mode ht = 1 \<longrightarrow> a = hd (ht_entries ht)) \<and>
       (evict_mode ht = 2 \<longrightarrow> (\<forall>b\<in>set (ht_entries ht). e_hits (ent ht a) \<le> e_hits (ent ht b)))))"
proof -
  let ?c = "ht_check_capacity rnd ht"
  have kk: "(0::int) < int (length k)" "nat (int (length k)) \<le> length k" "nul_free (take (nat (int (length k))) k)"
    using k by (simp_all add: ht_valid_key_def)
  have inv': "ht_inv H ht'" using flb_hash_table_add_inv [OF inv kk(2,3)] res by blast
  have abs: "ht_abs ht' = (ht_abs ?c)(k \<mapsto> stored ptr contents n)"
    using flb_hash_table_add_abs(1) [OF inv kk, of now rnd ptr contents n] res by simp
  have invc: "ht_inv H ?c" by (rule ht_check_capacity_inv [OF inv])
  have "int (length (ht_entries ht')) \<le> int (length (ht_entries ?c)) + 1"
    using res kk(1) by (auto simp: flb_hash_table_add_def Let_def split: option.splits prod.splits if_splits)
  moreover have "total_count ?c < max_entries ht"
    using ht_check_capacity_cases [OF inv, of rnd] cap mode by auto
  moreover have "max_entries ht' = max_entries ht" using res by (metis add_fields(1))
  ultimately have "total_count ht' \<le> max_entries ht'"
    using ht_invD(6) [OF inv'] ht_invD(6) [OF invc] by simp
  moreover have "ht_abs ht' = (ht_abs ht)(k \<mapsto> stored ptr contents n) \<or>
     (\<exists>a\<in>set (ht_entries ht). ht_abs ht' = (ht_abs ht)(e_key (ent ht a) := None, k \<mapsto> stored ptr contents n) \<and>
       (evict_mode ht = 1 \<longrightarrow> a = hd (ht_entries ht)) \<and>
       (evict_mode ht = 2 \<longrightarrow> (\<forall>b\<in>set (ht_entries ht). e_hits (ent ht a) \<le> e_hits (ent ht b))))"
    using ht_check_capacity_cases [OF inv, of rnd] entry_free_abs [OF inv] abs by metis
  ultimately show ?thesis using inv' abs by simp
qed

theorem flb_hash_table_add_capacity_witness:
  "\<exists>ht1 ht2. flb_hash_table_create True 1 2 1 = Some ht1 \<and>
     ht2 = snd (flb_hash_table_add (\<lambda>_. 0) 1 0 True True ht1 (Some ''a'') 1 5 [] 0) \<and>
     total_count (snd (flb_hash_table_add (\<lambda>_. 0) 2 0 True True ht2 (Some ''b'') 1 6 [] 0)) \<le> 1 \<and>
     ht_abs (snd (flb_hash_table_add (\<lambda>_. 0) 2 0 True True ht2 (Some ''b'') 1 6 [] 0)) ''b'' = Some (HRef 6)"
proof -
  let ?ht1 = "the (flb_hash_table_create True 1 2 1)"
  let ?ht2 = "snd (flb_hash_table_add (\<lambda>_. 0) 1 0 True True ?ht1 (Some ''a'') 1 5 [] 0)"
  have ht1: "flb_hash_table_create True 1 2 1 = Some ?ht1" by (simp add: flb_hash_table_create_def)
  then have inv1: "ht_inv (\<lambda>_. 0) ?ht1" using flb_hash_table_create_inv by blast
  have inv2: "ht_inv (\<lambda>_. 0) ?ht2"
    using flb_hash_table_add_inv [OF inv1, of 1 "''a''"] by simp
  have f: "max_entries ?ht2 = 1" "evict_mode ?ht2 = 1" by (simp_all add: flb_hash_table_create_def)
  have "total_count ?ht2 = 1"
    by (simp add: flb_hash_table_create_def flb_hash_table_add_def ht_check_capacity_def
        hash_get_entry_def ht_bucket_def entry_set_value_def ht_link_def Let_def)
  then have "total_count (snd (flb_hash_table_add (\<lambda>_. 0) 2 0 True True ?ht2 (Some ''b'') 1 6 [] 0)) \<le> 1 \<and>
      ht_abs (snd (flb_hash_table_add (\<lambda>_. 0) 2 0 True True ?ht2 (Some ''b'') 1 6 [] 0)) ''b'' = Some (HRef 6)"
    using flb_hash_table_add_capacity [OF inv2 _ _ _ _ refl, of "''b''" 2 0 6 "[]" 0] f
    by (simp add: ht_valid_key_def stored_def del: One_nat_def)
  then show ?thesis using ht1 by blast
qed

text \<open>With a time to live, a lookup returns the value of a key that is present and not older than
  the limit and touches only its hit counter; a key older than the limit is not returned and is
  gone afterwards; a missing key is reported and the table is unchanged.\<close>

theorem flb_hash_table_get_ttl:
  assumes inv: "ht_inv H ht" and k: "ht_valid_key k"
    and res: "flb_hash_table_get H now ht (Some k) (int (length k)) = (ret, out, ht')"
  shows "ht_inv H ht' \<and>
    (case ht_abs ht k of
       None \<Rightarrow> ret = -1 \<and> out = None \<and> ht' = ht
     | Some v \<Rightarrow> \<exists>a\<in>set (ht_entries ht). e_key (ent ht a) = k \<and>
         (if cache_ttl ht > 0 \<and> now > e_created (ent ht a) + cache_ttl ht
          then ret = -1 \<and> out = None \<and> ht_abs ht' = (ht_abs ht)(k := None)
          else ret = int (ht_bucket H ht k) \<and> out = Some (v, e_val_size (ent ht a)) \<and> ht_abs ht' = ht_abs ht))"
proof -
  have kk: "(0::int) < int (length k)" "nat (int (length k)) \<le> length k" "nul_free (take (nat (int (length k))) k)"
    using k by (simp_all add: ht_valid_key_def)
  have inv': "ht_inv H ht'" using flb_hash_table_get_inv [OF inv kk, of now] res by simp
  have keep: "ht_abs (ht\<lparr>ht_heap := (ht_heap ht)(a \<mapsto> (ent ht a)\<lparr>e_hits := h\<rparr>)\<rparr>) = ht_abs ht"
    if "a \<in> set (ht_entries ht)" for a h
    using ht_upd_abs [OF inv that, of "(ent ht a)\<lparr>e_hits := h\<rparr>"] ht_abs_Some_iff [OF inv] that
    by (auto simp: same_slot_def intro!: map_upd_triv)
  show ?thesis
  proof (cases "List.find (\<lambda>a. e_key (ent ht a) = k) (ht_entries ht)")
    case None
    then show ?thesis using flb_hash_table_get_cases [OF inv kk, of now] res inv' by simp
  next
    case (Some a)
    then have "a \<in> set (ht_entries ht)" "e_key (ent ht a) = k" "ht_abs ht k = Some (e_val (ent ht a))"
      using flb_hash_table_get_cases [OF inv kk, of now] by simp_all
    then show ?thesis
      using flb_hash_table_get_cases [OF inv kk, of now] res inv' Some keep [of a] entry_free_abs [OF inv, of a]
      by (auto simp: expired_def split: if_splits)
  qed
qed

definition demo_ht_ttl :: flb_hash_table where
  "demo_ht_ttl = the (flb_hash_table_create_with_ttl True 60 0 4 0)"

theorem flb_hash_table_get_ttl_witness:
  "fst (flb_hash_table_get (\<lambda>_. 7) 100
      (snd (flb_hash_table_add (\<lambda>_. 7) 5 0 True True demo_ht_ttl (Some ''cpu'') 3 42 [] 0)) (Some ''mem'') 3) = -1"
proof -
  let ?ht = "snd (flb_hash_table_add (\<lambda>_. 7) 5 0 True True demo_ht_ttl (Some ''cpu'') 3 42 [] 0)"
  have "ht_inv (\<lambda>_. 7) (the (flb_hash_table_create True 0 4 0))"
    using demo_ht_plain [of "\<lambda>_. 7"] by (simp add: demo_ht_def ht_plain_def)
  then have inv0: "ht_inv (\<lambda>_. 7) demo_ht_ttl"
    by (simp add: demo_ht_ttl_def flb_hash_table_create_with_ttl_def flb_hash_table_create_def
        ht_inv_def ht_bucket_def ent_def)
  have inv: "ht_inv (\<lambda>_. 7) ?ht" using flb_hash_table_add_inv [OF inv0, of 3 "''cpu''"] by simp
  have "ht_abs ?ht ''mem'' = ht_abs demo_ht_ttl ''mem''"
    using flb_hash_table_add_abs(1) [OF inv0, of 3 "''cpu''" 5 0 42 "[]" 0]
    by (simp add: demo_ht_ttl_def flb_hash_table_create_with_ttl_def flb_hash_table_create_def
        ht_check_capacity_def)
  then have "ht_abs ?ht ''mem'' = None"
    by (simp add: demo_ht_ttl_def flb_hash_table_create_with_ttl_def flb_hash_table_create_def ht_abs_def)
  then show ?thesis
    using flb_hash_table_get_ttl [OF inv, of "''mem''" 100] by (simp add: ht_valid_key_def) (metis prod_cases3 fst_conv)
qed

text \<open>Deleting a key removes exactly that key, reports whether it was there, and keeps the
  invariant.\<close>

theorem flb_hash_table_del_exact:
  assumes "ht_inv H ht" "ht_valid_key k"
  shows "ht_inv H (snd (flb_hash_table_del H ht (Some k))) \<and>
    ht_abs (snd (flb_hash_table_del H ht (Some k))) = (ht_abs ht)(k := None) \<and>
    (fst (flb_hash_table_del H ht (Some k)) = 0 \<longleftrightarrow> ht_abs ht k \<noteq> None)"
proof -
  have "fst (flb_hash_table_del H ht (Some k)) = 0 \<longleftrightarrow> ht_abs ht k \<noteq> None"
    using assms by (auto simp: ht_valid_key_def flb_hash_table_del_spec ht_abs_def split: option.splits)
  then show ?thesis
    using assms by (simp add: ht_valid_key_def flb_hash_table_del_inv flb_hash_table_del_abs)
qed

theorem flb_hash_table_del_exact_witness: "fst (flb_hash_table_del (\<lambda>_. 3) demo_ht (Some ''k'')) \<noteq> 0"
proof -
  have "ht_inv (\<lambda>_. 3) demo_ht" using demo_ht_plain by (simp add: ht_plain_def)
  then show ?thesis
    using flb_hash_table_del_exact [of "\<lambda>_. 3" demo_ht "''k''"]
    by (simp add: ht_valid_key_def ht_abs_def demo_ht_def flb_hash_table_create_def)
qed

text \<open>\<^verbatim>\<open>flb_hash_table_destroy\<close> releases every entry.\<close>

theorem flb_hash_table_destroy_releases:
  assumes "ht_inv H ht"
  shows "flb_hash_table_destroy ht = Map.empty"
proof -
  define h where "h = fold (\<lambda>i h. fold (\<lambda>a h. flb_hash_table_entry_free h a) (c_chains (ht_table h ! i)) h) [0..<ht_size ht] ht"
  have h: "ht_inv H h" "ht_size h = ht_size ht" "\<forall>a\<in>set (ht_entries h). ht_size ht \<le> e_table (ent h a)"
    using destroy_prefix [OF assms order_refl] unfolding h_def by (simp_all add: Let_def)
  have "e_table (ent h a) < ht_size ht" if "a \<in> set (ht_entries h)" for a
    using ht_inv_entry(1) [OF h(1) that] ht_bucket_less [of h H] ht_invD(1) [OF h(1)] h(2) by simp
  then have "set (ht_entries h) = {}" using h(3) by (meson equals0I leD)
  then have "dom (ht_heap h) = {}" using ht_invD(4) [OF h(1)] by simp
  then show ?thesis by (simp add: flb_hash_table_destroy_def h_def)
qed

theorem flb_hash_table_destroy_releases_witness:
  "flb_hash_table_destroy (snd (flb_hash_table_add (\<lambda>_. 7) 5 0 True True demo_ht (Some ''cpu'') 3 42 [] 0)) = Map.empty"
proof -
  have "ht_inv (\<lambda>_. 7) demo_ht" using demo_ht_plain by (simp add: ht_plain_def)
  then have "ht_inv (\<lambda>_. 7) (snd (flb_hash_table_add (\<lambda>_. 7) 5 0 True True demo_ht (Some ''cpu'') 3 42 [] 0))"
    by (intro flb_hash_table_add_inv) simp_all
  then show ?thesis by (rule flb_hash_table_destroy_releases)
qed

text \<open>\<^verbatim>\<open>flb_hash_table_get_by_id\<close> does not look at the key when the bucket holds one entry:
  whatever key is asked for, the single entry is returned. Its comment asks for an exact match.\<close>

theorem flb_hash_table_get_by_id_ignores_key:
  assumes "ht_inv H ht" "bid < ht_size ht" "c_chains (ht_table ht ! bid) = [a]"
  shows "flb_hash_table_get_by_id ht (int bid) key = (0, Some (e_val (ent ht a), e_val_size (ent ht a)))"
  using assms ht_inv_chain(2) [OF assms(1,2)] by (simp add: flb_hash_table_get_by_id_def Let_def)

theorem flb_hash_table_get_by_id_ignores_key_witness:
  "flb_hash_table_get_by_id
     (snd (flb_hash_table_add (\<lambda>_. 1) 5 0 True True demo_ht (Some ''cpu'') 3 42 [] 0)) 1 ''other'' = (0, Some (HRef 42, -1))"
proof -
  let ?ht = "snd (flb_hash_table_add (\<lambda>_. 1) 5 0 True True demo_ht (Some ''cpu'') 3 42 [] 0)"
  have "ht_inv (\<lambda>_. 1) demo_ht" using demo_ht_plain by (simp add: ht_plain_def)
  then have inv: "ht_inv (\<lambda>_. 1) ?ht" by (intro flb_hash_table_add_inv) simp_all
  have f: "ht_size ?ht = 4" "c_chains (ht_table ?ht ! 1) = [0]" "e_val (ent ?ht 0) = HRef 42" "e_val_size (ent ?ht 0) = -1"
    by (simp_all add: demo_ht_def flb_hash_table_create_def flb_hash_table_add_def ht_check_capacity_def
        hash_get_entry_def ht_bucket_def entry_set_value_def ht_link_def Let_def mk_list_add_def ent_def)
  show ?thesis using flb_hash_table_get_by_id_ignores_key [OF inv, of 1 0 "''other''"] f by simp
qed

end
