(* ===== verification/Flb_Base64.thy ===== *)
theory Flb_Base64
  imports Flb_Prelude "HOL-Library.Word"
begin

text \<open>
  The base64 encoder and decoder: \<^verbatim>\<open>src/flb_base64.c\<close>.

  A byte is an \<open>8 word\<close> and the C integers \<^verbatim>\<open>C1\<close> to \<^verbatim>\<open>C3\<close>, \<^verbatim>\<open>j\<close> and \<^verbatim>\<open>x\<close> are
  32 bits wide. Lengths are natural numbers; the comparison with the largest \<^verbatim>\<open>size_t\<close> is written out.
\<close>

unbundle bit_operations_syntax

type_synonym byte = "8 word"

definition byte_of :: "char \<Rightarrow> byte" where "byte_of c = of_char c"

definition FLB_BASE64_ERR_BUFFER_TOO_SMALL :: int where "FLB_BASE64_ERR_BUFFER_TOO_SMALL = - 42"
definition FLB_BASE64_ERR_INVALID_CHARACTER :: int where "FLB_BASE64_ERR_INVALID_CHARACTER = - 44"
definition BASE64_SIZE_T_MAX :: nat where "BASE64_SIZE_T_MAX = 2 ^ 64 - 1"

definition base64_enc_map :: "byte list" where
  "base64_enc_map = map byte_of ''ABCDEFGHIJKLMNOPQRSTUVWXYZabcdefghijklmnopqrstuvwxyz0123456789+/''"

definition base64_dec_map :: "byte list" where
  "base64_dec_map =
    [127, 127, 127, 127, 127, 127, 127, 127, 127, 127,
     127, 127, 127, 127, 127, 127, 127, 127, 127, 127,
     127, 127, 127, 127, 127, 127, 127, 127, 127, 127,
     127, 127, 127, 127, 127, 127, 127, 127, 127, 127,
     127, 127, 127,  62, 127, 127, 127,  63,  52,  53,
      54,  55,  56,  57,  58,  59,  60,  61, 127, 127,
     127,  64, 127, 127, 127,   0,   1,   2,   3,   4,
       5,   6,   7,   8,   9,  10,  11,  12,  13,  14,
      15,  16,  17,  18,  19,  20,  21,  22,  23,  24,
      25, 127, 127, 127, 127, 127, 127,  26,  27,  28,
      29,  30,  31,  32,  33,  34,  35,  36,  37,  38,
      39,  40,  41,  42,  43,  44,  45,  46,  47,  48,
      49,  50,  51, 127, 127, 127, 127, 127]"

section \<open>Encoding\<close>

definition enc_char :: "32 word \<Rightarrow> byte" where
  "enc_char i = base64_enc_map ! unat (i AND 0x3F)"

abbreviation "pad \<equiv> byte_of (CHR ''='')"

fun enc_groups :: "byte list \<Rightarrow> byte list" where
  "enc_groups (c1 # c2 # c3 # cs) =
     (let C1 = ucast c1; C2 = ucast c2; C3 = ucast c3 in
      enc_char (drop_bit 2 C1) # enc_char (push_bit 4 (C1 AND 3) + drop_bit 4 C2) #
      enc_char (push_bit 2 (C2 AND 15) + drop_bit 6 C3) # enc_char C3 # enc_groups cs)"
| "enc_groups [c1, c2] =
     (let C1 = ucast c1; C2 = ucast c2 in
      [enc_char (drop_bit 2 C1), enc_char (push_bit 4 (C1 AND 3) + drop_bit 4 C2), enc_char (push_bit 2 (C2 AND 15)), pad])"
| "enc_groups [c1] =
     (let C1 = ucast c1; C2 = 0 in
      [enc_char (drop_bit 2 C1), enc_char (push_bit 4 (C1 AND 3) + drop_bit 4 C2), pad, pad])"
| "enc_groups [] = []"

text \<open>Results: the value returned, \<^verbatim>\<open>*olen\<close> and the bytes written to \<^verbatim>\<open>dst\<close>; \<open>dst\<close> tells
  whether the destination is not \<^verbatim>\<open>NULL\<close>.\<close>

definition flb_base64_encode :: "bool \<Rightarrow> nat \<Rightarrow> byte list \<Rightarrow> int \<times> nat \<times> byte list" where
  "flb_base64_encode dst dlen src =
     (let slen = length src in
      if slen = 0 then (0, 0, [])
      else let n = slen div 3 + (if slen mod 3 \<noteq> 0 then 1 else 0) in
        if n > (BASE64_SIZE_T_MAX - 1) div 4 then (FLB_BASE64_ERR_BUFFER_TOO_SMALL, BASE64_SIZE_T_MAX, [])
        else let n = n * 4 in
          if dlen < n + 1 \<or> \<not> dst then (FLB_BASE64_ERR_BUFFER_TOO_SMALL, n + 1, [])
          else let p = enc_groups src in (0, length p, p @ [0]))"

section \<open>Decoding\<close>

text \<open>The first pass counts the characters that are not white space in \<open>n\<close> and the padding in \<open>j\<close>;
  \<open>x\<close> counts the spaces skipped before a character.\<close>

function dec_check :: "byte list \<Rightarrow> nat \<Rightarrow> nat \<Rightarrow> (nat \<times> nat) option" where
  "dec_check src n j =
     (let x = word_of_nat (length (takeWhile (\<lambda>c. c = 32) src)) :: 32 word in
      case dropWhile (\<lambda>c. c = 32) src of
        [] \<Rightarrow> Some (n, j)
      | c # cs \<Rightarrow>
          if c = 13 \<and> cs \<noteq> [] \<and> hd cs = 10 then dec_check cs n j
          else if c = 10 then dec_check cs n j
          else if x \<noteq> 0 then None
          else let j = (if c = pad then j + 1 else j) in
            if c = pad \<and> j > 2 then None
            else if c > 127 \<or> base64_dec_map ! unat c = 127 then None
            else if base64_dec_map ! unat c < 64 \<and> j \<noteq> 0 then None
            else dec_check cs (n + 1) j)"
  by pat_completeness auto
termination
proof (relation "measure (\<lambda>(src, n, j). length src)", goal_cases)
  case (2 src n j x c cs)
  then show ?case using length_dropWhile_le [of "\<lambda>c. c = 32" src] by simp
next
  case (3 src n j x c cs)
  then show ?case using length_dropWhile_le [of "\<lambda>c. c = 32" src] by simp
next
  case (4 src n j x c cs xa)
  then show ?case using length_dropWhile_le [of "\<lambda>c. c = 32" src] by simp
qed simp

declare dec_check.simps [simp del]

fun dec_loop :: "byte list \<Rightarrow> 32 word \<Rightarrow> 32 word \<Rightarrow> nat \<Rightarrow> byte list" where
  "dec_loop [] j x n = []"
| "dec_loop (c # cs) j x n =
     (if c = 13 \<or> c = 10 \<or> c = 32 then dec_loop cs j x n
      else let v = ucast (base64_dec_map ! unat c) :: 32 word;
               j = j - (if v = 64 then 1 else 0); x = push_bit 6 x OR (v AND 0x3F)
           in if n + 1 = 4
              then (if j > 0 then [ucast (drop_bit 16 x)] else []) @ (if j > 1 then [ucast (drop_bit 8 x)] else []) @
                   (if j > 2 then [ucast x] else []) @ dec_loop cs j x 0
              else dec_loop cs j x (n + 1))"

definition dec_length :: "nat \<Rightarrow> nat" where
  "dec_length n = 6 * (n div 8) + ((6 * (n mod 8) + 7) div 8)"

text \<open>\<^verbatim>\<open>*olen\<close> is not written when a character is invalid.\<close>

definition flb_base64_decode :: "bool \<Rightarrow> nat \<Rightarrow> byte list \<Rightarrow> int \<times> nat option \<times> byte list" where
  "flb_base64_decode dst dlen src =
     (case dec_check src 0 0 of
        None \<Rightarrow> (FLB_BASE64_ERR_INVALID_CHARACTER, None, [])
      | Some (n, j) \<Rightarrow>
          if n = 0 then (0, Some 0, [])
          else let n = dec_length n - j in
            if \<not> dst \<or> dlen < n then (FLB_BASE64_ERR_BUFFER_TOO_SMALL, Some n, [])
            else let p = dec_loop src 3 0 0 in (0, Some (length p), p))"

section \<open>One group\<close>

lemma enc_and: "i AND 0x3F = take_bit 6 i" for i :: "32 word"
  by (simp add: take_bit_eq_mask mask_eq_exp_minus_1)

lemma enc_map_length: "length base64_enc_map = 64"
  by (simp add: base64_enc_map_def)

lemma enc_map_decoded: "map (\<lambda>e. base64_dec_map ! unat e) base64_enc_map = map word_of_nat [0..<64]"
  by (simp add: base64_enc_map_def base64_dec_map_def byte_of_def upt_rec)

lemma enc_map_chars: "list_all (\<lambda>e. e \<le> 127 \<and> e \<noteq> 10 \<and> e \<noteq> 13 \<and> e \<noteq> 32 \<and> e \<noteq> 61) base64_enc_map"
  by (simp add: base64_enc_map_def byte_of_def)

lemma pad_eq: "pad = 61" by (simp add: byte_of_def)

lemma dec_enc:
  fixes i :: "32 word"
  shows "base64_dec_map ! unat (enc_char i) = ucast (take_bit 6 i)" "enc_char i \<le> 127" "enc_char i \<notin> {10, 13, 32, pad}"
proof -
  define k where "k = unat (take_bit 6 i)"
  have k: "k < 64" using take_bit_nat_less_exp [of 6 "unat i"] by (simp add: k_def unsigned_take_bit_eq)
  have e: "enc_char i = base64_enc_map ! k" by (simp add: enc_char_def enc_and k_def)
  have "map (\<lambda>e. base64_dec_map ! unat e) base64_enc_map ! k = map word_of_nat [0..<64] ! k" by (simp only: enc_map_decoded)
  then have "base64_dec_map ! unat (base64_enc_map ! k) = word_of_nat k" using k by (simp add: enc_map_length)
  also have "(word_of_nat k :: byte) = ucast (take_bit 6 i)" by (simp add: k_def)
  finally show "base64_dec_map ! unat (enc_char i) = ucast (take_bit 6 i)" by (simp add: e)
  have "base64_enc_map ! k \<in> set base64_enc_map" using k by (simp add: enc_map_length)
  then have "base64_enc_map ! k \<le> 127 \<and> base64_enc_map ! k \<noteq> 10 \<and> base64_enc_map ! k \<noteq> 13 \<and> base64_enc_map ! k \<noteq> 32 \<and> base64_enc_map ! k \<noteq> 61"
    using enc_map_chars unfolding list_all_iff by blast
  then show "enc_char i \<le> 127" "enc_char i \<notin> {10, 13, 32, pad}" by (simp_all add: e pad_eq)
qed

text \<open>What the decoder adds to \<open>x\<close> for a character of the encoder.\<close>

lemma dec_value:
  fixes i :: "32 word"
  shows "ucast (base64_dec_map ! unat (enc_char i)) AND 0x3F = take_bit 6 i" "ucast (base64_dec_map ! unat (enc_char i)) \<noteq> (64 :: 32 word)"
    "base64_dec_map ! unat (enc_char i) < 64"
proof -
  have u: "(ucast (ucast (take_bit 6 i) :: byte) :: 32 word) = take_bit 6 i" by (rule bit_word_eqI) (auto simp: bit_simps)
  then show "ucast (base64_dec_map ! unat (enc_char i)) AND 0x3F = take_bit 6 i" by (simp add: dec_enc enc_and)
  have l: "take_bit 6 i < 64" using take_bit_nat_less_exp [of 6 "unat i"] by (simp add: word_less_nat_alt unsigned_take_bit_eq)
  then show "ucast (base64_dec_map ! unat (enc_char i)) \<noteq> (64 :: 32 word)" using u by (auto simp: dec_enc)
  have "unat (ucast (take_bit 6 i) :: byte) < 64" using take_bit_nat_less_exp [of 6 "unat i"] by (simp add: unsigned_ucast_eq unsigned_take_bit_eq)
  then show "base64_dec_map ! unat (enc_char i) < 64" by (simp add: dec_enc word_less_nat_alt)
qed

lemma group_bits:
  fixes c1 c2 c3 :: byte and x :: "32 word"
  defines "C1 \<equiv> ucast c1 :: 32 word" and "C2 \<equiv> ucast c2 :: 32 word" and "C3 \<equiv> ucast c3 :: 32 word"
  defines "x4 \<equiv> push_bit 6 (push_bit 6 (push_bit 6 (push_bit 6 x OR take_bit 6 (drop_bit 2 C1)) OR take_bit 6 (push_bit 4 (C1 AND 3) + drop_bit 4 C2))
    OR take_bit 6 (push_bit 2 (C2 AND 15) + drop_bit 6 C3)) OR take_bit 6 C3"
  shows "ucast (drop_bit 16 x4) = c1" "ucast (drop_bit 8 x4) = c2" "ucast x4 = c3"
proof -
  have m: "w AND 3 = take_bit 2 w" "w AND 15 = take_bit 4 w" for w :: "32 word"
    by (simp_all add: take_bit_eq_mask mask_eq_exp_minus_1)
  have a: "push_bit 4 (take_bit 2 C1) + drop_bit 4 C2 = push_bit 4 (take_bit 2 C1) OR drop_bit 4 C2"
    by (rule disjunctive_add_eq_or, rule bit_word_eqI) (auto simp: bit_simps C2_def dest: bit_imp_le_length)
  have b: "push_bit 2 (take_bit 4 C2) + drop_bit 6 C3 = push_bit 2 (take_bit 4 C2) OR drop_bit 6 C3"
    by (rule disjunctive_add_eq_or, rule bit_word_eqI) (auto simp: bit_simps C3_def dest: bit_imp_le_length)
  note d = x4_def [unfolded m a b]
  have over: "\<not> bit c n" if "8 \<le> n" for c :: byte and n using that by (auto dest: bit_imp_le_length)
  have byteI: "v = w" if "bit v 0 = bit w 0" "bit v 1 = bit w 1" "bit v 2 = bit w 2" "bit v 3 = bit w 3" "bit v 4 = bit w 4"
      "bit v 5 = bit w 5" "bit v 6 = bit w 6" "bit v 7 = bit w 7" for v w :: byte
  proof (rule bit_word_eqI)
    fix n :: nat
    assume "n < LENGTH(8)"
    then consider "n = 0" | "n = 1" | "n = 2" | "n = 3" | "n = 4" | "n = 5" | "n = 6" | "n = 7" by fastforce
    then show "bit v n = bit w n" using that by cases simp_all
  qed
  show "ucast (drop_bit 16 x4) = c1" unfolding d by (rule byteI) (simp_all add: bit_simps C1_def C2_def C3_def over)
  show "ucast (drop_bit 8 x4) = c2" unfolding d by (rule byteI) (simp_all add: bit_simps C1_def C2_def C3_def over)
  show "ucast x4 = c3" unfolding d by (rule byteI) (simp_all add: bit_simps C1_def C2_def C3_def over)
qed

section \<open>Decoding what was encoded\<close>

declare dec_loop.simps(2) [simp del]

lemma pad_value: "base64_dec_map ! unat pad = 64" unfolding pad_eq by (simp add: base64_dec_map_def)

lemma dec_loop_char:
  "dec_loop (enc_char i # cs) j x n =
     (let x = push_bit 6 x OR take_bit 6 i in
      if n + 1 = 4 then (if j > 0 then [ucast (drop_bit 16 x)] else []) @ (if j > 1 then [ucast (drop_bit 8 x)] else []) @
        (if j > 2 then [ucast x] else []) @ dec_loop cs j x 0
      else dec_loop cs j x (n + 1))"
  using dec_enc(3) [of i] dec_value [of i] by (simp add: dec_loop.simps(2) Let_def)

lemma dec_loop_pad:
  "dec_loop (pad # cs) j x n =
     (let j = j - 1; x = push_bit 6 x in
      if n + 1 = 4 then (if j > 0 then [ucast (drop_bit 16 x)] else []) @ (if j > 1 then [ucast (drop_bit 8 x)] else []) @
        (if j > 2 then [ucast x] else []) @ dec_loop cs j x 0
      else dec_loop cs j x (n + 1))"
  using pad_value by (simp add: dec_loop.simps(2) Let_def pad_eq)

lemma dec_loop_group:
  fixes x i1 i2 i3 i4 :: "32 word"
  defines "x4 \<equiv> push_bit 6 (push_bit 6 (push_bit 6 (push_bit 6 x OR take_bit 6 i1) OR take_bit 6 i2) OR take_bit 6 i3) OR take_bit 6 i4"
  shows "dec_loop (enc_char i1 # enc_char i2 # enc_char i3 # enc_char i4 # cs) 3 x 0 =
      ucast (drop_bit 16 x4) # ucast (drop_bit 8 x4) # ucast x4 # dec_loop cs 3 x4 0"
    "i4 = 0 \<Longrightarrow> dec_loop [enc_char i1, enc_char i2, enc_char i3, pad] 3 x 0 = [ucast (drop_bit 16 x4), ucast (drop_bit 8 x4)]"
    "i3 = 0 \<Longrightarrow> i4 = 0 \<Longrightarrow> dec_loop [enc_char i1, enc_char i2, pad, pad] 3 x 0 = [ucast (drop_bit 16 x4)]"
  by (simp_all add: dec_loop_char dec_loop_pad x4_def Let_def)

lemma enc_groups_tail:
  "enc_groups [c1, c2] =
     (let C1 = ucast c1; C2 = ucast c2; C3 = ucast (0 :: byte) in
      [enc_char (drop_bit 2 C1), enc_char (push_bit 4 (C1 AND 3) + drop_bit 4 C2), enc_char (push_bit 2 (C2 AND 15) + drop_bit 6 C3), pad])"
  "enc_groups [c1] =
     (let C1 = ucast c1; C2 = ucast (0 :: byte) in [enc_char (drop_bit 2 C1), enc_char (push_bit 4 (C1 AND 3) + drop_bit 4 C2), pad, pad])"
  by (simp_all add: Let_def)

lemma dec_loop_groups: "dec_loop (enc_groups src) 3 x 0 = src"
proof (induction src arbitrary: x rule: enc_groups.induct)
  case (1 c1 c2 c3 cs)
  then show ?case unfolding enc_groups.simps(1) Let_def dec_loop_group group_bits by simp
next
  case (2 c1 c2)
  show ?case unfolding enc_groups_tail(1) Let_def
    by (subst dec_loop_group(2) [where ?i4.0 = "ucast (0 :: byte)"]) (simp, simp only: group_bits)
next
  case (3 c1)
  show ?case unfolding enc_groups_tail(2) Let_def
    by (subst dec_loop_group(3) [where ?i4.0 = "ucast (0 :: byte)" and ?i3.0 = "push_bit 2 (ucast (0 :: byte) AND 15) + drop_bit 6 (ucast (0 :: byte))"])
      (simp, simp, simp only: group_bits)
qed simp

lemma dec_check_nil: "dec_check [] n j = Some (n, j)"
  by (simp add: dec_check.simps)

lemma dec_check_char: "dec_check (enc_char i # cs) n 0 = dec_check cs (n + 1) 0"
proof -
  have "base64_dec_map ! unat (enc_char i) \<noteq> 127" using dec_value(3) [of i] by auto
  then show ?thesis using dec_enc(2) [of i, THEN leD] dec_enc(3) [of i] by (subst dec_check.simps) (simp add: Let_def)
qed

lemma dec_check_pad: "j < 2 \<Longrightarrow> dec_check (pad # cs) n j = dec_check cs (n + 1) (j + 1)"
  using pad_value by (subst dec_check.simps) (simp add: Let_def pad_eq)

definition pads :: "byte list \<Rightarrow> nat" where
  "pads src = (if length src mod 3 = 1 then 2 else if length src mod 3 = 2 then 1 else 0)"

lemma enc_groups_length: "length (enc_groups src) = 4 * (length src div 3 + (if length src mod 3 \<noteq> 0 then 1 else 0))"
proof (induction src rule: enc_groups.induct)
  case (1 c1 c2 c3 cs)
  have "(3 + n) div 3 = Suc (n div 3)" for n :: nat by simp
  then show ?case using 1 by (simp add: Let_def)
qed (simp_all add: Let_def)

lemma dec_check_groups: "dec_check (enc_groups src) n 0 = Some (n + length (enc_groups src), pads src)"
proof (induction src arbitrary: n rule: enc_groups.induct)
  case (1 c1 c2 c3 cs)
  then show ?case by (simp add: Let_def dec_check_char pads_def)
qed (simp_all add: Let_def dec_check_char dec_check_pad dec_check_nil pads_def)

lemma dec_length_eq: "dec_length n = (6 * n + 7) div 8"
proof -
  have "6 * n + 7 = (6 * (n mod 8) + 7) + 8 * (6 * (n div 8))" using mult_div_mod_eq [of 8 n] by linarith
  then show ?thesis by (simp add: dec_length_def)
qed

lemma dec_length_groups: "dec_length (length (enc_groups src)) - pads src = length src"
proof -
  have "(6 * (4 * (n div 3 + (if n mod 3 \<noteq> 0 then 1 else 0))) + 7) div 8 - (if n mod 3 = 1 then 2 else if n mod 3 = 2 then 1 else 0) = n" for n :: nat
  proof -
    define q where "q = n div 3"
    have n: "n = 3 * q + n mod 3" by (simp add: q_def)
    have d: "(24 * k + 7) div 8 = 3 * k" for k :: nat by linarith
    consider "n mod 3 = 0" | "n mod 3 = 1" | "n mod 3 = 2" by linarith
    then show ?thesis
    proof cases
      case 1
      show ?thesis unfolding q_def [symmetric] 1 using n 1 d [of q] by simp
    next
      case 2
      show ?thesis unfolding q_def [symmetric] 2 using n 2 d [of "q + 1"] by simp
    next
      case 3
      show ?thesis unfolding q_def [symmetric] 3 using n 3 d [of "q + 1"] by simp
    qed
  qed
  then show ?thesis by (simp only: dec_length_eq enc_groups_length pads_def)
qed

section \<open>Bounds\<close>

definition visible :: "byte \<Rightarrow> bool" where
  "visible c \<longleftrightarrow> c \<noteq> 13 \<and> c \<noteq> 10 \<and> c \<noteq> 32"

lemma dec_loop_visible: "dec_loop src j x n = dec_loop (filter visible src) j x n"
  by (induction src arbitrary: j x n) (simp_all add: dec_loop.simps(2) visible_def Let_def)

lemma dec_map_values: "c \<le> 127 \<Longrightarrow> base64_dec_map ! unat c = 127 \<or> base64_dec_map ! unat c < 64 \<or> c = pad"
proof -
  assume "c \<le> 127"
  then have "unat c < 128" by (simp add: word_le_nat_alt)
  moreover have "list_all (\<lambda>i. base64_dec_map ! i = 127 \<or> base64_dec_map ! i < 64 \<or> i = 61) [0..<128]"
    by (simp add: base64_dec_map_def upt_rec)
  ultimately have "base64_dec_map ! unat c = 127 \<or> base64_dec_map ! unat c < 64 \<or> unat c = 61" by (simp add: list_all_iff)
  then show ?thesis by (auto simp: pad_eq word_unat_eq_iff)
qed

lemma filter_visible_spaces: "filter visible (dropWhile (\<lambda>c. c = 32) src) = filter visible src"
  by (induction src) (simp_all add: visible_def)

text \<open>What the first pass accepts: characters of the alphabet followed by at most two paddings, apart from
  white space.\<close>

lemma dec_check_shape:
  assumes "dec_check src n j = Some (n', j')" "j \<le> 2"
  shows "\<exists>data. filter visible src = data @ replicate (j' - j) pad \<and> n' = n + length (filter visible src) \<and> j \<le> j' \<and> j' \<le> 2 \<and>
    (\<forall>c\<in>set data. visible c \<and> base64_dec_map ! unat c < 64) \<and> (j \<noteq> 0 \<longrightarrow> data = [])"
  using assms
proof (induction src n j rule: dec_check.induct)
  case (1 src n j)
  note f = filter_visible_spaces [of src]
  show ?case
  proof (cases "dropWhile (\<lambda>c. c = 32) src")
    case Nil
    have "Some (n, j) = Some (n', j')" using 1(4) unfolding dec_check.simps [of src] Let_def Nil list.case .
    then show ?thesis using 1(5) f [unfolded Nil] by simp
  next
    case (Cons c cs)
    have sp: "c \<noteq> 32" using hd_dropWhile [of "\<lambda>c. c = 32" src] Cons by auto
    show ?thesis
    proof (cases "c = 13 \<and> cs \<noteq> [] \<and> hd cs = 10 \<or> c = 10")
      case True
      then have "dec_check cs n j = Some (n', j')" using 1(4) Cons by (auto simp: dec_check.simps [of src] Let_def split: if_splits)
      moreover have "filter visible src = filter visible cs" using f Cons True by (auto simp: visible_def)
      ultimately show ?thesis using 1(1,2) [OF refl Cons] True 1(5) by auto
    next
      case False
      define k where "k = (if c = pad then j + 1 else j)"
      have a: "word_of_nat (length (takeWhile (\<lambda>c. c = 32) src)) = (0 :: 32 word)" "\<not> (c = pad \<and> k > 2)"
          "c \<le> 127" "base64_dec_map ! unat c \<noteq> 127" "\<not> (base64_dec_map ! unat c < 64 \<and> k \<noteq> 0)" "dec_check cs (n + 1) k = Some (n', j')"
        using 1(4) Cons False by (auto simp: dec_check.simps [of src] Let_def k_def not_less split: if_splits)
      have v: "visible c" using a(4) sp False by (auto simp: visible_def base64_dec_map_def)
      have e: "filter visible src = c # filter visible cs" using f Cons v by simp
      have ih: "\<exists>data. filter visible cs = data @ replicate (j' - k) pad \<and> n' = n + 1 + length (filter visible cs) \<and> k \<le> j' \<and> j' \<le> 2 \<and>
          (\<forall>c\<in>set data. visible c \<and> base64_dec_map ! unat c < 64) \<and> (k \<noteq> 0 \<longrightarrow> data = [])"
        by (rule 1(3) [OF refl Cons _ _ _ k_def]) (use a False 1(5) in \<open>auto simp: k_def not_less split: if_splits\<close>)
      then obtain data where d: "filter visible cs = data @ replicate (j' - k) pad" "n' = n + 1 + length (filter visible cs)" "k \<le> j'" "j' \<le> 2"
        "\<forall>c\<in>set data. visible c \<and> base64_dec_map ! unat c < 64" "k \<noteq> 0 \<longrightarrow> data = []" by blast
      show ?thesis
      proof (cases "c = pad")
        case True
        then have "data = []" "k = j + 1" using d(6) by (simp_all add: k_def)
        then have "c # data @ replicate (j' - k) pad = replicate (j' - j) pad" using d(3) True by (simp add: Suc_diff_Suc [symmetric])
        then show ?thesis using d e \<open>k = j + 1\<close> by (intro exI [of _ "[]"]) simp
      next
        case False
        then have "base64_dec_map ! unat c < 64" "k = j" using dec_map_values [OF a(3)] a(4) by (auto simp: k_def)
        then show ?thesis using d e v a(5) by (intro exI [of _ "c # data"]) auto
      qed
    qed
  qed
qed

lemma dec_loop_data:
  assumes "\<forall>c\<in>set data. visible c \<and> base64_dec_map ! unat c < 64" "k < 4"
  shows "\<exists>x'. length (dec_loop (data @ rest) 3 x k) = 3 * ((k + length data) div 4) + length (dec_loop rest 3 x' ((k + length data) mod 4))"
  using assms
proof (induction data arbitrary: x k)
  case Nil
  then show ?case by auto
next
  case (Cons c data)
  define v :: "32 word" where "v = ucast (base64_dec_map ! unat c)"
  have "v \<noteq> 64"
  proof
    assume "v = 64"
    moreover have "unat (base64_dec_map ! unat c) < 2 ^ 32" by (rule less_trans [OF unsigned_less]) simp
    ultimately have "unat (base64_dec_map ! unat c) = 64" by (simp add: v_def word_unat_eq_iff unsigned_ucast_eq take_bit_nat_eq_self)
    then show False using Cons.prems(1) by (simp add: word_less_nat_alt)
  qed
  define x1 where "x1 = push_bit 6 x OR (v AND 0x3F)"
  have step: "dec_loop ((c # data) @ rest) 3 x k =
      (if k + 1 = 4 then ucast (drop_bit 16 x1) # ucast (drop_bit 8 x1) # ucast x1 # dec_loop (data @ rest) 3 x1 0
       else dec_loop (data @ rest) 3 x1 (k + 1))"
    using Cons.prems(1) \<open>v \<noteq> 64\<close> by (simp add: dec_loop.simps(2) visible_def Let_def v_def [symmetric] x1_def)
  show ?case
  proof (cases "k + 1 = 4")
    case True
    obtain x' where "length (dec_loop (data @ rest) 3 x1 0) = 3 * ((0 + length data) div 4) + length (dec_loop rest 3 x' ((0 + length data) mod 4))"
      using Cons.IH [of 0 x1] Cons.prems(1) by auto
    moreover have "k + length (c # data) = 4 + length data" using True by simp
    then have "(k + length (c # data)) div 4 = Suc (length data div 4)" "(k + length (c # data)) mod 4 = length data mod 4" by simp_all
    ultimately show ?thesis unfolding step if_P [OF True] by (intro exI [of _ x']) simp
  next
    case False
    obtain x' where "length (dec_loop (data @ rest) 3 x1 (k + 1)) = 3 * ((k + 1 + length data) div 4) + length (dec_loop rest 3 x' ((k + 1 + length data) mod 4))"
      using Cons.IH [of "k + 1" x1] Cons.prems False by auto
    moreover have "k + length (c # data) = k + 1 + length data" by simp
    ultimately show ?thesis unfolding step if_not_P [OF False] by (intro exI [of _ x']) (simp only:)
  qed
qed

lemma dec_loop_pads:
  assumes "p \<le> 2" "k < 4"
  shows "length (dec_loop (replicate p pad) 3 x k) = (if p = 1 \<and> k = 3 \<or> p = 2 \<and> k = 3 then 2 else if p = 2 \<and> k = 2 then 1 else 0)"
proof -
  have "p = 0 \<or> p = 1 \<or> p = 2" "k = 0 \<or> k = 1 \<or> k = 2 \<or> k = 3" using assms by auto
  then show ?thesis by (elim disjE) (simp_all add: dec_loop_pad numeral_2_eq_2 Let_def)
qed

lemma dec_loop_length:
  assumes "dec_check src 0 0 = Some (n, j)"
  shows "length (dec_loop src 3 0 0) \<le> dec_length n - j"
proof -
  obtain data where d: "filter visible src = data @ replicate j pad" "n = length (filter visible src)" "j \<le> 2"
      "\<forall>c\<in>set data. visible c \<and> base64_dec_map ! unat c < 64"
    using dec_check_shape [OF assms] by auto
  define a r where "a = length data div 4" and "r = length data mod 4"
  obtain x' where "length (dec_loop (data @ replicate j pad) 3 0 0) = 3 * a + length (dec_loop (replicate j pad) 3 x' r)"
    using dec_loop_data [OF d(4), of 0 "replicate j pad" 0] by (auto simp: a_def r_def)
  then have l: "length (dec_loop src 3 0 0) = 3 * a + (if j = 1 \<and> r = 3 \<or> j = 2 \<and> r = 3 then 2 else if j = 2 \<and> r = 2 then 1 else 0)"
    using dec_loop_pads [OF d(3), of r x'] by (simp add: dec_loop_visible [of src] d(1) r_def)
  have n: "n = 4 * a + r + j" "r < 4" using d(1,2) by (simp_all add: a_def r_def)
  have "j = 0 \<or> j = 1 \<or> j = 2" "r = 0 \<or> r = 1 \<or> r = 2 \<or> r = 3" using d(3) n(2) by auto
  then show ?thesis unfolding l dec_length_eq n(1) by (elim disjE) simp_all
qed

section \<open>Properties\<close>

text \<open>C27: what \<^verbatim>\<open>flb_base64_encode\<close> wrote decodes to the bytes that were encoded, whenever both buffers are large
  enough: four characters for every three bytes begun and a terminating zero for the encoder, the
  number of bytes for the decoder.\<close>

theorem flb_base64_roundtrip:
  assumes "src \<noteq> []" "length src < 2 ^ 62" "4 * (length src div 3 + (if length src mod 3 \<noteq> 0 then 1 else 0)) + 1 \<le> dlen" "length src \<le> dlen'"
  shows "\<exists>out. flb_base64_encode True dlen src = (0, length out, out @ [0]) \<and>
    length out = 4 * (length src div 3 + (if length src mod 3 \<noteq> 0 then 1 else 0)) \<and>
    flb_base64_decode True dlen' out = (0, Some (length src), src)"
proof (intro exI conjI)
  have "length src div 3 + (if length src mod 3 \<noteq> 0 then 1 else 0) \<le> (BASE64_SIZE_T_MAX - 1) div 4"
  proof -
    have "length src \<noteq> 0" using assms(1) by simp
    then have "length src div 3 + (if length src mod 3 \<noteq> 0 then 1 else 0) \<le> length src" by (auto; linarith)
    moreover have "length src \<le> (BASE64_SIZE_T_MAX - 1) div 4" using assms(2) by (simp add: BASE64_SIZE_T_MAX_def)
    ultimately show ?thesis by linarith
  qed
  then show "flb_base64_encode True dlen src = (0, length (enc_groups src), enc_groups src @ [0])"
    using assms(1,3) by (simp add: flb_base64_encode_def Let_def)
  show "length (enc_groups src) = 4 * (length src div 3 + (if length src mod 3 \<noteq> 0 then 1 else 0))" by (rule enc_groups_length)
  have "length (enc_groups src) \<noteq> 0" using assms(1) by (cases src rule: enc_groups.cases) (simp_all add: Let_def)
  then show "flb_base64_decode True dlen' (enc_groups src) = (0, Some (length src), src)"
    using assms(4) by (simp add: flb_base64_decode_def dec_check_groups dec_length_groups dec_loop_groups Let_def)
qed

theorem flb_base64_roundtrip_witness:
  "\<exists>out. flb_base64_encode True 100 (map byte_of ''flb!'') = (0, length out, out @ [0]) \<and> flb_base64_decode True 4 out = (0, Some 4, map byte_of ''flb!'')"
proof -
  have l: "length (map byte_of ''flb!'') = 4" by simp
  have "\<exists>out. flb_base64_encode True 100 (map byte_of ''flb!'') = (0, length out, out @ [0]) \<and>
      length out = 4 * (length (map byte_of ''flb!'') div 3 + (if length (map byte_of ''flb!'') mod 3 \<noteq> 0 then 1 else 0)) \<and>
      flb_base64_decode True 4 out = (0, Some (length (map byte_of ''flb!'')), map byte_of ''flb!'')"
    by (rule flb_base64_roundtrip) simp_all
  then show ?thesis unfolding l by blast
qed

text \<open>C28: the decoder never writes past its buffer. For any input, valid or not and with white space anywhere, it writes at most
  as many bytes as the destination has, and when it asks for a larger buffer the length it reports is
  enough for a second call.\<close>

theorem flb_base64_decode_in_bounds:
  assumes "flb_base64_decode dst dlen src = (ret, olen, out)"
  shows "length out \<le> dlen \<and> (ret = 0 \<longrightarrow> olen = Some (length out)) \<and>
    (ret = FLB_BASE64_ERR_BUFFER_TOO_SMALL \<longrightarrow> (\<exists>n. olen = Some n \<and> fst (flb_base64_decode True n src) = 0))"
proof (cases "dec_check src 0 0")
  case None
  then show ?thesis using assms by (auto simp: flb_base64_decode_def FLB_BASE64_ERR_INVALID_CHARACTER_def FLB_BASE64_ERR_BUFFER_TOO_SMALL_def)
next
  case (Some p)
  then obtain n j where nj: "dec_check src 0 0 = Some (n, j)" by (cases p) auto
  show ?thesis using assms dec_loop_length [OF nj]
    by (auto simp: flb_base64_decode_def nj Let_def FLB_BASE64_ERR_BUFFER_TOO_SMALL_def split: if_splits)
qed

theorem flb_base64_decode_in_bounds_witness:
  "flb_base64_decode True 2 (map byte_of ''ZmxiIQ=='') = (FLB_BASE64_ERR_BUFFER_TOO_SMALL, Some 4, []) \<and>
   fst (flb_base64_decode True 4 (map byte_of ''ZmxiIQ=='')) = 0"
proof -
  have e: "flb_base64_decode True 2 (map byte_of ''ZmxiIQ=='') = (FLB_BASE64_ERR_BUFFER_TOO_SMALL, Some 4, [])" by code_simp
  from flb_base64_decode_in_bounds [OF e] e show ?thesis by simp
qed

end
