(* ===== verification/Flb_Bucket_Queue.thy ===== *)
theory Flb_Bucket_Queue
  imports Flb_Prelude "HOL-Library.Word" "HOL-Library.Multiset"
begin

text \<open>
  The priority queue of the event loop: \<^verbatim>\<open>include/fluent-bit/flb_bucket_queue.h\<close>, and the macro of
  \<^verbatim>\<open>include/fluent-bit/flb_event_loop.h\<close> that hands the events of a loop out by priority.

  A bucket is the list of its items. The pointer \<open>top\<close> into the array of buckets is an index;
  \<open>n_buckets\<close> is one past the last bucket.
\<close>

section \<open>The bucket queue\<close>

record 'a flb_bucket_queue =
  buckets :: "'a list list"
  n_buckets :: nat
  top_bucket :: nat
  n_items :: "64 word"

definition flb_bucket_queue_create :: "bool \<Rightarrow> bool \<Rightarrow> nat \<Rightarrow> 'a flb_bucket_queue option" where
  "flb_bucket_queue_create queue_ok buckets_ok priorities =
     (if queue_ok \<and> buckets_ok
      then Some \<lparr>buckets = replicate priorities [], n_buckets = priorities, top_bucket = priorities, n_items = 0\<rparr>
      else None)"

definition flb_bucket_queue_is_empty :: "'a flb_bucket_queue \<Rightarrow> bool" where
  "flb_bucket_queue_is_empty q \<longleftrightarrow> top_bucket q = n_buckets q"

function flb_bucket_queue_seek :: "'a flb_bucket_queue \<Rightarrow> 'a flb_bucket_queue" where
  "flb_bucket_queue_seek q =
     (if top_bucket q < n_buckets q \<and> buckets q ! top_bucket q = []
      then flb_bucket_queue_seek (q\<lparr>top_bucket := top_bucket q + 1\<rparr>) else q)"
  by pat_completeness auto
termination
  by (relation "measure (\<lambda>q. n_buckets q - top_bucket q)") auto

declare flb_bucket_queue_seek.simps [simp del]

definition flb_bucket_queue_add :: "'a \<Rightarrow> nat \<Rightarrow> 'a flb_bucket_queue \<Rightarrow> int \<times> 'a flb_bucket_queue" where
  "flb_bucket_queue_add item priority q =
     (if priority \<ge> n_buckets q then (-1, q)
      else let q1 = flb_bucket_queue_seek q;
               q2 = q1\<lparr>buckets := (buckets q1)[priority := mk_list_add item (buckets q1 ! priority)]\<rparr>;
               q3 = (if priority < top_bucket q2 then q2\<lparr>top_bucket := priority\<rparr> else q2)
           in (0, q3\<lparr>n_items := n_items q3 + 1\<rparr>))"

definition flb_bucket_queue_find_min :: "'a flb_bucket_queue \<Rightarrow> 'a option \<times> 'a flb_bucket_queue" where
  "flb_bucket_queue_find_min q =
     (let q1 = flb_bucket_queue_seek q in
      if flb_bucket_queue_is_empty q1 then (None, q1) else (Some (hd (buckets q1 ! top_bucket q1)), q1))"

definition flb_bucket_queue_delete_min :: "'a flb_bucket_queue \<Rightarrow> 'a flb_bucket_queue" where
  "flb_bucket_queue_delete_min q =
     (let q1 = flb_bucket_queue_seek q in
      if flb_bucket_queue_is_empty q1 then q1
      else let q2 = q1\<lparr>buckets := (buckets q1)[top_bucket q1 := tl (buckets q1 ! top_bucket q1)]\<rparr>;
               q3 = flb_bucket_queue_seek q2
           in q3\<lparr>n_items := n_items q3 - 1\<rparr>)"

definition flb_bucket_queue_pop_min :: "'a flb_bucket_queue \<Rightarrow> 'a option \<times> 'a flb_bucket_queue" where
  "flb_bucket_queue_pop_min q =
     (let (item, q1) = flb_bucket_queue_find_min q in (item, flb_bucket_queue_delete_min q1))"

definition flb_bucket_queue_destroy :: "'a flb_bucket_queue \<Rightarrow> int \<times> 'a flb_bucket_queue" where
  "flb_bucket_queue_destroy q =
     (let q1 = flb_bucket_queue_seek q in (if flb_bucket_queue_is_empty q1 then 0 else -1, q1))"

section \<open>Loading events\<close>

text \<open>An event is a number; \<open>prio\<close> gives its priority and \<open>live\<close> whether its status is not
  \<^verbatim>\<open>MK_EVENT_NONE\<close>. \<^verbatim>\<open>_priority_head.prev\<close> is \<^verbatim>\<open>NULL\<close> exactly when the event
  is in no bucket. \<open>ready\<close> is the list of events the loop reported.\<close>

definition flb_event_load_bucket_queue_event :: "(nat \<Rightarrow> nat) \<Rightarrow> nat \<Rightarrow> nat flb_bucket_queue \<Rightarrow> nat flb_bucket_queue" where
  "flb_event_load_bucket_queue_event prio e q =
     (if e \<in> set (concat (buckets q)) then q else snd (flb_bucket_queue_add e (prio e) q))"

definition flb_event_load_bucket_queue ::
  "(nat \<Rightarrow> nat) \<Rightarrow> (nat \<Rightarrow> bool) \<Rightarrow> nat list \<Rightarrow> nat flb_bucket_queue \<Rightarrow> nat flb_bucket_queue" where
  "flb_event_load_bucket_queue prio live ready q =
     fold (\<lambda>e q. if live e then flb_event_load_bucket_queue_event prio e q else q) ready q"

definition flb_event_load_injected_events ::
  "(nat \<Rightarrow> nat) \<Rightarrow> nat list \<Rightarrow> nat \<Rightarrow> nat flb_bucket_queue \<Rightarrow> nat flb_bucket_queue" where
  "flb_event_load_injected_events prio ready n_events_initial q =
     (if length ready < n_events_initial then q
      else fold (flb_event_load_bucket_queue_event prio) (drop n_events_initial ready) q)"

text \<open>The macro \<^verbatim>\<open>flb_event_priority_live_foreach\<close>. \<open>'s\<close> is everything the body of the loop works on:
  \<open>body\<close> runs it for an event, \<open>wait\<close> is \<^verbatim>\<open>mk_event_wait_2\<close>, \<open>ready\<close> reads the list of reported
  events, \<open>live\<close> their status and \<open>unlinked\<close> the events the body took out of the queue with
  \<^verbatim>\<open>mk_event_del\<close>. \<open>k\<close> is the number of iterations left, for a \<open>max_iter\<close> other than \<open>-1\<close>. The results are the
  events the body ran for, the event in hand when the loop ended, and the states.\<close>

record 's loop_ops =
  lp_body :: "nat \<Rightarrow> 's \<Rightarrow> 's"
  lp_wait :: "'s \<Rightarrow> 's"
  lp_ready :: "'s \<Rightarrow> nat list"
  lp_live :: "'s \<Rightarrow> nat \<Rightarrow> bool"
  lp_unlinked :: "'s \<Rightarrow> nat \<Rightarrow> bool"

definition bucket_queue_unlink :: "(nat \<Rightarrow> bool) \<Rightarrow> nat flb_bucket_queue \<Rightarrow> nat flb_bucket_queue" where
  "bucket_queue_unlink gone q = q\<lparr>buckets := map (filter (\<lambda>e. \<not> gone e)) (buckets q)\<rparr>"

definition next_event :: "nat flb_bucket_queue \<Rightarrow> nat option \<times> nat flb_bucket_queue" where
  "next_event q =
     (case flb_bucket_queue_find_min q of (None, q1) \<Rightarrow> (None, q1) | (Some e, q1) \<Rightarrow> flb_bucket_queue_pop_min q1)"

fun priority_live_loop ::
  "'s loop_ops \<Rightarrow> (nat \<Rightarrow> nat) \<Rightarrow> nat \<Rightarrow> nat \<Rightarrow> nat option \<Rightarrow> nat flb_bucket_queue \<Rightarrow> 's
   \<Rightarrow> nat list \<times> nat option \<times> nat flb_bucket_queue \<times> 's" where
  "priority_live_loop ops prio k n_events None q s = ([], None, q, s)"
| "priority_live_loop ops prio 0 n_events (Some e) q s = ([], Some e, q, s)"
| "priority_live_loop ops prio (Suc k) n_events (Some e) q s =
     (let s1 = lp_body ops e s;
          q1 = bucket_queue_unlink (lp_unlinked ops s1) q;
          q2 = flb_event_load_injected_events prio (lp_ready ops s1) n_events q1;
          s2 = lp_wait ops s1;
          q3 = flb_event_load_bucket_queue prio (lp_live ops s2) (lp_ready ops s2) q2;
          (event, q4) = next_event q3;
          (done, rest) = priority_live_loop ops prio k (length (lp_ready ops s2)) event q4 s2
      in (e # done, rest))"

definition flb_event_priority_live_foreach ::
  "'s loop_ops \<Rightarrow> (nat \<Rightarrow> nat) \<Rightarrow> nat \<Rightarrow> nat flb_bucket_queue \<Rightarrow> 's
   \<Rightarrow> nat list \<times> nat option \<times> nat flb_bucket_queue \<times> 's" where
  "flb_event_priority_live_foreach ops prio max_iter q s =
     (let q1 = flb_event_load_bucket_queue prio (lp_live ops s) (lp_ready ops s) q; (event, q2) = next_event q1
      in priority_live_loop ops prio max_iter (length (lp_ready ops s)) event q2 s)"

section \<open>Invariant and abstraction\<close>

definition bq_inv :: "'a flb_bucket_queue \<Rightarrow> bool" where
  "bq_inv q \<longleftrightarrow> length (buckets q) = n_buckets q \<and> top_bucket q \<le> n_buckets q \<and> (\<forall>i<top_bucket q. buckets q ! i = [])"

text \<open>The items in the order in which they leave the queue, with their priorities.\<close>

definition tagged :: "nat \<Rightarrow> 'a list list \<Rightarrow> (nat \<times> 'a) list" where
  "tagged k bs = concat (map (\<lambda>(p, xs). map (Pair p) xs) (enumerate k bs))"

definition bq_abs :: "'a flb_bucket_queue \<Rightarrow> (nat \<times> 'a) list" where
  "bq_abs q = tagged 0 (buckets q)"

lemma tagged_simps [simp]: "tagged k [] = []" "tagged k (xs # bs) = map (Pair k) xs @ tagged (Suc k) bs"
  by (simp_all add: tagged_def)

lemma tagged_ge: "x \<in> set (tagged k bs) \<Longrightarrow> k \<le> fst x"
  by (induction bs arbitrary: k) (auto dest: Suc_leD)

text \<open>Insertion behind everything of the same or a smaller priority.\<close>

definition put_fifo :: "nat \<Rightarrow> 'a \<Rightarrow> (nat \<times> 'a) list \<Rightarrow> (nat \<times> 'a) list" where
  "put_fifo p x l = takeWhile (\<lambda>y. fst y \<le> p) l @ (p, x) # dropWhile (\<lambda>y. fst y \<le> p) l"

lemma put_fifo_append: "\<forall>y\<in>set l. fst y \<le> p \<Longrightarrow> put_fifo p x (l @ m) = l @ put_fifo p x m"
  by (simp add: put_fifo_def takeWhile_append2 dropWhile_append2)

lemma put_fifo_first: "\<forall>y\<in>set l. p < fst y \<Longrightarrow> put_fifo p x l = (p, x) # l"
  by (cases l) (auto simp: put_fifo_def)

lemma tagged_add: "i < length bs \<Longrightarrow> tagged k (bs[i := mk_list_add x (bs ! i)]) = put_fifo (k + i) x (tagged k bs)"
proof (induction bs arbitrary: k i)
  case (Cons xs bs)
  show ?case
  proof (cases i)
    case 0
    have "\<forall>y\<in>set (tagged (Suc k) bs). k < fst y" using tagged_ge by fastforce
    then show ?thesis using 0 by (simp add: put_fifo_append put_fifo_first mk_list_add_def)
  next
    case (Suc j)
    then show ?thesis using Cons by (simp add: put_fifo_append)
  qed
qed simp

lemma tagged_replicate: "tagged k (replicate n []) = []"
  by (induction n arbitrary: k) simp_all

lemma tagged_skip: "\<forall>i<n. bs ! i = [] \<Longrightarrow> n \<le> length bs \<Longrightarrow> tagged k bs = tagged (k + n) (drop n bs)"
proof (induction n arbitrary: k bs)
  case (Suc n)
  then obtain xs bs' where bs: "bs = xs # bs'" by (cases bs) auto
  then have "xs = []" "\<forall>i<n. bs' ! i = []" using Suc.prems(1) by (auto dest: spec [of _ "Suc _"])
  then show ?case using Suc bs by simp
qed simp

lemma tagged_sorted: "sorted (map fst (tagged k bs))"
proof (induction bs arbitrary: k)
  case (Cons xs bs)
  have "\<forall>y\<in>set (tagged (Suc k) bs). k \<le> fst y" using tagged_ge by fastforce
  moreover have "sorted (map (\<lambda>x. k) xs)" by (induction xs) auto
  ultimately show ?case using Cons by (auto simp: sorted_append comp_def)
qed simp

lemma seek_fields [simp]:
  "buckets (flb_bucket_queue_seek q) = buckets q" "n_buckets (flb_bucket_queue_seek q) = n_buckets q"
  "n_items (flb_bucket_queue_seek q) = n_items q"
  by (induction q rule: flb_bucket_queue_seek.induct; subst flb_bucket_queue_seek.simps; simp)+

lemma seek_inv: "bq_inv q \<Longrightarrow> bq_inv (flb_bucket_queue_seek q)"
proof (induction q rule: flb_bucket_queue_seek.induct)
  case (1 q)
  show ?case
  proof (cases "top_bucket q < n_buckets q \<and> buckets q ! top_bucket q = []")
    case True
    then have "bq_inv (q\<lparr>top_bucket := top_bucket q + 1\<rparr>)" using 1(2) by (auto simp: bq_inv_def less_Suc_eq)
    then show ?thesis using 1(1) [OF True] True by (subst flb_bucket_queue_seek.simps) simp
  next
    case False
    then have "flb_bucket_queue_seek q = q" by (subst flb_bucket_queue_seek.simps) (simp only: if_False)
    then show ?thesis using 1(2) by simp
  qed
qed

lemma seek_stops: "top_bucket (flb_bucket_queue_seek q) < n_buckets q \<Longrightarrow> buckets q ! top_bucket (flb_bucket_queue_seek q) \<noteq> []"
proof (induction q rule: flb_bucket_queue_seek.induct)
  case (1 q)
  then show ?case
    by (cases "top_bucket q < n_buckets q \<and> buckets q ! top_bucket q = []") (simp_all add: flb_bucket_queue_seek.simps [of q])
qed

lemma seek_abs [simp]: "bq_abs (flb_bucket_queue_seek q) = bq_abs q"
  by (simp add: bq_abs_def)

lemma seek_cases:
  assumes "bq_inv q"
  defines "q1 \<equiv> flb_bucket_queue_seek q"
  obtains (empty) "flb_bucket_queue_is_empty q1" "bq_abs q = []"
  | (item) x xs where "\<not> flb_bucket_queue_is_empty q1" "top_bucket q1 < length (buckets q)" "buckets q ! top_bucket q1 = x # xs"
      "bq_abs q = (top_bucket q1, x) # map (Pair (top_bucket q1)) xs @ tagged (Suc (top_bucket q1)) (drop (Suc (top_bucket q1)) (buckets q))"
proof -
  have i: "bq_inv q1" "buckets q1 = buckets q" "n_buckets q1 = n_buckets q" using seek_inv [OF assms(1)] by (simp_all add: q1_def)
  note t = i(1) [unfolded bq_inv_def i(2,3)]
  have a: "bq_abs q = tagged (top_bucket q1) (drop (top_bucket q1) (buckets q))"
    using tagged_skip [of "top_bucket q1" "buckets q" 0] t by (simp add: bq_abs_def)
  show thesis
  proof (cases "top_bucket q1 = n_buckets q")
    case True
    then show ?thesis using empty a i(3) t by (simp add: flb_bucket_queue_is_empty_def)
  next
    case False
    then have l: "top_bucket q1 < length (buckets q)" using t by simp
    moreover obtain x xs where x: "buckets q ! top_bucket q1 = x # xs" using seek_stops [of q] l t by (cases "buckets q ! top_bucket q1") (auto simp: q1_def)
    ultimately show ?thesis
      using item [OF _ l x] a False i(3) Cons_nth_drop_Suc [OF l, symmetric] by (simp add: flb_bucket_queue_is_empty_def)
  qed
qed

lemma bq_add:
  assumes "bq_inv q" "flb_bucket_queue_add x p q = (r, q')"
  shows "bq_inv q'" "n_buckets q' = n_buckets q"
    "if p < n_buckets q then r = 0 \<and> bq_abs q' = put_fifo p x (bq_abs q) \<and> n_items q' = n_items q + 1 else r = -1 \<and> q' = q"
proof -
  define q1 where "q1 = flb_bucket_queue_seek q"
  have i: "bq_inv q1" "buckets q1 = buckets q" "n_buckets q1 = n_buckets q" "n_items q1 = n_items q"
    using seek_inv [OF assms(1)] by (simp_all add: q1_def)
  show "n_buckets q' = n_buckets q"
    using assms(2) i by (auto simp: flb_bucket_queue_add_def Let_def q1_def split: if_splits)
  show "bq_inv q'"
    using assms i by (auto simp: flb_bucket_queue_add_def Let_def bq_inv_def q1_def [symmetric] nth_list_update split: if_splits)
  show "if p < n_buckets q then r = 0 \<and> bq_abs q' = put_fifo p x (bq_abs q) \<and> n_items q' = n_items q + 1 else r = -1 \<and> q' = q"
    using assms i(4) tagged_add [of p "buckets q" 0 x]
    by (auto simp: flb_bucket_queue_add_def Let_def bq_abs_def bq_inv_def q1_def split: if_splits)
qed

lemma bq_delete_min:
  assumes "bq_inv q"
  shows "bq_inv (flb_bucket_queue_delete_min q)" "n_buckets (flb_bucket_queue_delete_min q) = n_buckets q"
    "bq_abs (flb_bucket_queue_delete_min q) = tl (bq_abs q)"
proof -
  define q1 where "q1 = flb_bucket_queue_seek q"
  have i: "bq_inv q1" "buckets q1 = buckets q" "n_buckets q1 = n_buckets q" "bq_abs q1 = bq_abs q"
    using seek_inv [OF assms(1)] by (simp_all add: q1_def)
  have "bq_inv (flb_bucket_queue_delete_min q) \<and> n_buckets (flb_bucket_queue_delete_min q) = n_buckets q \<and>
      bq_abs (flb_bucket_queue_delete_min q) = tl (bq_abs q)"
  proof (cases rule: seek_cases [OF assms])
    case 1
    note empty = this
    then show ?thesis using i by (simp add: flb_bucket_queue_delete_min_def Let_def q1_def [symmetric])
  next
    case (2 x xs)
    note item = this
    define t where "t = top_bucket q1"
    define q2 where "q2 = q1\<lparr>buckets := (buckets q)[t := xs]\<rparr>"
    have d: "flb_bucket_queue_delete_min q = flb_bucket_queue_seek q2\<lparr>n_items := n_items q2 - 1\<rparr>"
      using item by (simp add: flb_bucket_queue_delete_min_def Let_def q1_def [symmetric] t_def q2_def i(2))
    have "bq_inv q2" using i(1) item(2) by (auto simp: bq_inv_def q2_def i t_def q1_def nth_list_update)
    then have "bq_inv (flb_bucket_queue_seek q2)" by (rule seek_inv)
    then have 1: "bq_inv (flb_bucket_queue_delete_min q)" by (simp add: d bq_inv_def)
    have "\<forall>j<t. (buckets q)[t := xs] ! j = []" using i(1) by (simp add: bq_inv_def i t_def)
    then have "bq_abs q2 = tagged t (drop t ((buckets q)[t := xs]))"
      using tagged_skip [of t "(buckets q)[t := xs]" 0] item(2) by (simp add: bq_abs_def q2_def t_def q1_def)
    also have "drop t ((buckets q)[t := xs]) = xs # drop (Suc t) (buckets q)"
      using item(2) by (simp add: t_def q1_def upd_conv_take_nth_drop)
    finally have "bq_abs q2 = tl (bq_abs q)" using item(4) by (simp add: t_def q1_def)
    then have "bq_abs (flb_bucket_queue_delete_min q) = tl (bq_abs q)" by (simp add: d bq_abs_def)
    then show ?thesis using 1 by (simp add: d q2_def i)
  qed
  then show "bq_inv (flb_bucket_queue_delete_min q)" "n_buckets (flb_bucket_queue_delete_min q) = n_buckets q"
    "bq_abs (flb_bucket_queue_delete_min q) = tl (bq_abs q)" by blast+
qed

definition hd_item :: "(nat \<times> 'a) list \<Rightarrow> 'a option" where
  "hd_item l = (case l of [] \<Rightarrow> None | y # ys \<Rightarrow> Some (snd y))"

lemma bq_find_min:
  assumes "bq_inv q" "flb_bucket_queue_find_min q = (r, q')"
  shows "bq_inv q'" "n_buckets q' = n_buckets q" "bq_abs q' = bq_abs q" "r = hd_item (bq_abs q)"
proof -
  have q': "q' = flb_bucket_queue_seek q" using assms(2) by (auto simp: flb_bucket_queue_find_min_def Let_def split: if_splits)
  show "bq_inv q'" "n_buckets q' = n_buckets q" "bq_abs q' = bq_abs q" using seek_inv [OF assms(1)] by (simp_all add: q')
  show "r = hd_item (bq_abs q)"
    using assms(2) by (cases rule: seek_cases [OF assms(1)]) (auto simp: flb_bucket_queue_find_min_def Let_def hd_item_def)
qed

lemma bq_pop_min:
  assumes "bq_inv q" "flb_bucket_queue_pop_min q = (r, q')"
  shows "bq_inv q'" "n_buckets q' = n_buckets q" "bq_abs q' = tl (bq_abs q)" "r = hd_item (bq_abs q)"
proof -
  obtain x q1 where f: "flb_bucket_queue_find_min q = (x, q1)" by fastforce
  note f' = bq_find_min [OF assms(1) f] and d = bq_delete_min [OF bq_find_min(1) [OF assms(1) f]]
  show "bq_inv q'" "n_buckets q' = n_buckets q" "bq_abs q' = tl (bq_abs q)" "r = hd_item (bq_abs q)"
    using assms(2) f f' d by (auto simp: flb_bucket_queue_pop_min_def)
qed

section \<open>The contract of a priority queue\<close>

fun drain :: "('q \<Rightarrow> 'a option \<times> 'q) \<Rightarrow> nat \<Rightarrow> 'q \<Rightarrow> 'a list" where
  "drain pop 0 q = []"
| "drain pop (Suc n) q = (case pop q of (None, q') \<Rightarrow> [] | (Some x, q') \<Rightarrow> x # drain pop n q')"

lemma put_fifo_sort: "sorted (map fst l) \<Longrightarrow> put_fifo p x l = sort_key fst (l @ [(p, x)])"
proof (induction l)
  case Nil
  then show ?case by (simp add: put_fifo_def)
next
  case (Cons a l)
  have s: "sort_key fst ((a # l) @ [(p, x)]) = insort_key fst a (put_fifo p x l)" using Cons by simp
  have g: "\<forall>y\<in>set l. fst a \<le> fst y" using Cons.prems by auto
  show ?case
  proof (cases "fst a \<le> p")
    case True
    have "set (put_fifo p x l) = insert (p, x) (set l)"
      unfolding put_fifo_def by (metis Un_insert_right list.simps(15) set_append takeWhile_dropWhile_id)
    then have "insort_key fst a (put_fifo p x l) = a # put_fifo p x l" using True g by (intro insort_is_Cons) auto
    then show ?thesis unfolding s using True by (simp add: put_fifo_def)
  next
    case False
    then have "put_fifo p x l = (p, x) # l" using g by (intro put_fifo_first) fastforce
    moreover have "insort_key fst a l = a # l" using g by (intro insort_is_Cons) auto
    ultimately show ?thesis unfolding s using False by (simp add: put_fifo_def)
  qed
qed

lemma sort_key_sorted_append: "sort_key f (sort_key f l @ m) = sort_key f (l @ m)"
proof (rule properties_for_sort_key)
  have *: "filter (\<lambda>x. f k = f x) (sort_key f xs) = filter (\<lambda>x. f k = f x) xs" for k xs
    using sort_key_stable [of f "f k" xs] by (simp only: eq_commute)
  show "filter (\<lambda>x. f k = f x) (sort_key f (l @ m)) = filter (\<lambda>x. f k = f x) (sort_key f l @ m)" for k
    by (simp only: * filter_append)
qed simp_all

locale prio_fifo =
  fixes inv :: "'q \<Rightarrow> bool" and levels :: "'q \<Rightarrow> nat" and items :: "'q \<Rightarrow> (nat \<times> 'a) list"
    and put :: "'a \<Rightarrow> nat \<Rightarrow> 'q \<Rightarrow> int \<times> 'q" and pop :: "'q \<Rightarrow> 'a option \<times> 'q"
  assumes put: "inv q \<Longrightarrow> put x p q = (r, q') \<Longrightarrow> inv q' \<and> levels q' = levels q \<and>
      (if p < levels q then r = 0 \<and> items q' = put_fifo p x (items q) else r = -1 \<and> items q' = items q)"
    and pop: "inv q \<Longrightarrow> pop q = (v, q') \<Longrightarrow> inv q' \<and> levels q' = levels q \<and> items q' = tl (items q) \<and> v = hd_item (items q)"
    and in_order: "inv q \<Longrightarrow> sorted (map fst (items q))"
begin

lemma drained: "inv q \<Longrightarrow> drain pop n q = map snd (take n (items q))"
proof (induction n arbitrary: q)
  case (Suc n)
  obtain r q' where p: "pop q = (r, q')" by fastforce
  note l = pop [OF Suc.prems p]
  then show ?case using Suc.IH [of q'] p by (cases "items q") (auto simp: hd_item_def)
qed simp

lemma put_all:
  "inv q \<Longrightarrow> inv (fold (\<lambda>(p, x) q. snd (put x p q)) ps q) \<and>
     items (fold (\<lambda>(p, x) q. snd (put x p q)) ps q) = sort_key fst (items q @ filter (\<lambda>y. fst y < levels q) ps)"
proof (induction ps arbitrary: q)
  case Nil
  then show ?case using in_order by (simp add: sort_key_id_if_sorted)
next
  case (Cons y ps)
  obtain p x where y: "y = (p, x)" by (cases y)
  obtain r q' where e: "put x p q = (r, q')" by fastforce
  note l = put [OF Cons.prems e]
  have "items q' = (if p < levels q then sort_key fst (items q @ [y]) else items q)"
    using l put_fifo_sort [OF in_order [OF Cons.prems], of p x] by (simp add: y)
  then show ?case using Cons.IH [of q'] l e by (simp add: y sort_key_sorted_append del: sort_key_simps)
qed

text \<open>Whatever is added, items leave by priority, and in the order of their arrival within a priority.\<close>

lemma leave_in_order:
  assumes "inv q"
  shows "drain pop n (fold (\<lambda>(p, x) q. snd (put x p q)) ps q) =
    map snd (take n (sort_key fst (items q @ filter (\<lambda>y. fst y < levels q) ps)))"
  using put_all [OF assms, of ps] drained by simp

end

interpretation bq: prio_fifo bq_inv n_buckets bq_abs flb_bucket_queue_add flb_bucket_queue_pop_min
proof (unfold_locales, goal_cases)
  case (1 q x p r q')
  then show ?case using bq_add [OF 1] by auto
next
  case (2 q r q')
  then show ?case using bq_pop_min [OF 2] by simp
next
  case (3 q)
  then show ?case by (simp add: bq_abs_def tagged_sorted)
qed

text \<open>C25: the priority queue of the event loop is a stable priority queue. Whatever items with a valid priority are added to
  a queue, they and what it held leave it by priority, and in the order of their arrival within a
  priority; items with a priority out of range are refused.\<close>

theorem flb_bucket_queue_order:
  assumes "bq_inv q"
  shows "drain flb_bucket_queue_pop_min n (fold (\<lambda>(p, x) q. snd (flb_bucket_queue_add x p q)) ps q) =
    map snd (take n (sort_key fst (bq_abs q @ filter (\<lambda>y. fst y < n_buckets q) ps)))"
  by (rule bq.leave_in_order [OF assms])

theorem flb_bucket_queue_order_witness:
  "drain flb_bucket_queue_pop_min 3 (fold (\<lambda>(p, x) q. snd (flb_bucket_queue_add x p q)) [(2, CHR ''a''), (0, CHR ''b''), (9, CHR ''c''), (2, CHR ''d'')]
     \<lparr>buckets = [[], [], []], n_buckets = 3, top_bucket = 3, n_items = 0\<rparr>) = ''bad''"
proof -
  have "bq_inv \<lparr>buckets = [[], [], []], n_buckets = 3, top_bucket = 3, n_items = 0\<rparr>" by (auto simp: bq_inv_def less_Suc_eq eval_nat_numeral)
  from flb_bucket_queue_order [OF this, of 3 "[(2, CHR ''a''), (0, CHR ''b''), (9, CHR ''c''), (2, CHR ''d'')]"] show ?thesis
    by (simp add: bq_abs_def)
qed

section \<open>The loop over the events\<close>

definition evq_inv :: "nat flb_bucket_queue \<Rightarrow> bool" where
  "evq_inv q \<longleftrightarrow> bq_inv q \<and> distinct (concat (buckets q))"

lemma bq_items: "map snd (bq_abs q) = concat (buckets q)"
proof -
  have "map snd (tagged k bs) = concat bs" for k and bs :: "'a list list" by (induction bs arbitrary: k) (simp_all add: comp_def)
  then show ?thesis by (simp add: bq_abs_def)
qed

lemma load_event_inv: "evq_inv q \<Longrightarrow> evq_inv (flb_event_load_bucket_queue_event prio e q)"
proof -
  assume i: "evq_inv q"
  obtain r q' where a: "flb_bucket_queue_add e (prio e) q = (r, q')" by fastforce
  note l = bq_add [OF _ a]
  have "evq_inv q'" if n: "e \<notin> set (concat (buckets q))"
  proof (cases "prio e < n_buckets q")
    case True
    then have "bq_abs q' = put_fifo (prio e) e (bq_abs q)" using l(3) i by (simp add: evq_inv_def)
    then have "mset (bq_abs q') = add_mset (prio e, e) (mset (bq_abs q))"
      by (simp add: put_fifo_def) (metis mset_append takeWhile_dropWhile_id)
    then have "mset (concat (buckets q')) = mset (e # concat (buckets q))"
      unfolding bq_items [symmetric] by simp
    then have "distinct (concat (buckets q'))" using i n by (metis distinct.simps(2) evq_inv_def mset_eq_imp_distinct_iff)
    then show ?thesis using l(1) i by (simp add: evq_inv_def)
  qed (use l(3) i in \<open>simp add: evq_inv_def\<close>)
  then show ?thesis using i by (simp add: flb_event_load_bucket_queue_event_def a)
qed

lemma load_inv: "evq_inv q \<Longrightarrow> evq_inv (flb_event_load_bucket_queue prio lv ready q)"
  unfolding flb_event_load_bucket_queue_def by (induction ready arbitrary: q) (simp_all add: load_event_inv)

lemma injected_inv: "evq_inv q \<Longrightarrow> evq_inv (flb_event_load_injected_events prio ready n q)"
proof -
  have "evq_inv q \<Longrightarrow> evq_inv (fold (flb_event_load_bucket_queue_event prio) es q)" for es
    by (induction es arbitrary: q) (simp_all add: load_event_inv)
  then show "evq_inv q \<Longrightarrow> evq_inv (flb_event_load_injected_events prio ready n q)" by (simp add: flb_event_load_injected_events_def)
qed

lemma unlink_inv: "evq_inv q \<Longrightarrow> evq_inv (bucket_queue_unlink gone q)"
  by (auto simp: evq_inv_def bq_inv_def bucket_queue_unlink_def filter_concat [symmetric])

lemma next_event_inv:
  assumes "evq_inv q" "next_event q = (r, q')"
  shows "evq_inv q' \<and> (\<forall>e. r = Some e \<longrightarrow> e \<notin> set (concat (buckets q')))"
proof -
  obtain x q1 where f: "flb_bucket_queue_find_min q = (x, q1)" by fastforce
  have b: "bq_inv q" using assms(1) by (simp add: evq_inv_def)
  note f' = bq_find_min [OF b f]
  have d: "distinct (map snd (bq_abs q1))" using assms(1) f'(3) by (simp add: evq_inv_def bq_items)
  show ?thesis
  proof (cases x)
    case None
    then show ?thesis using assms(2) f f' d by (auto simp: next_event_def evq_inv_def bq_items [symmetric])
  next
    case (Some e)
    then have p: "flb_bucket_queue_pop_min q1 = (r, q')" using assms(2) f by (simp add: next_event_def)
    note l = bq_pop_min [OF f'(1) p]
    show ?thesis using l d by (cases "bq_abs q1") (auto simp: evq_inv_def bq_items [symmetric] hd_item_def)
  qed
qed

lemma live_loop_inv:
  assumes "priority_live_loop ops prio k n r q s = (done, left, q', s')" "evq_inv q" "\<forall>e. r = Some e \<longrightarrow> e \<notin> set (concat (buckets q))"
  shows "evq_inv q' \<and> length done \<le> k \<and> (\<forall>e. left = Some e \<longrightarrow> length done = k \<and> e \<notin> set (concat (buckets q')))"
  using assms
proof (induction ops prio k n r q s arbitrary: "done" rule: priority_live_loop.induct)
  case (3 ops prio k n e q s)
  define s1 where "s1 = lp_body ops e s"
  define s2 where "s2 = lp_wait ops s1"
  define q3 where "q3 = flb_event_load_bucket_queue prio (lp_live ops s2) (lp_ready ops s2)
    (flb_event_load_injected_events prio (lp_ready ops s1) n (bucket_queue_unlink (lp_unlinked ops s1) q))"
  obtain ev q4 where n: "next_event q3 = (ev, q4)" by fastforce
  obtain dn where r: "priority_live_loop ops prio k (length (lp_ready ops s2)) ev q4 s2 = (dn, left, q', s')" "done = e # dn"
    using 3(2) by (auto simp: Let_def s1_def [symmetric] s2_def [symmetric] q3_def [symmetric] n split: prod.splits)
  have "evq_inv q3" unfolding q3_def by (intro load_inv injected_inv unlink_inv 3(3))
  note nx = next_event_inv [OF this n]
  have "evq_inv q' \<and> length dn \<le> k \<and> (\<forall>e. left = Some e \<longrightarrow> length dn = k \<and> e \<notin> set (concat (buckets q')))"
    by (rule 3(1) [OF s1_def refl refl s2_def _ _ refl r(1)]) (use q3_def n nx in auto)
  then show ?case using r(2) by simp
qed auto

text \<open>One round of the event loop runs its body at most as often as its limit says. The event in hand when the limit is
  reached has been taken out of the queue and is neither handled nor put back: it is
  handled only if the event loop reports it again.\<close>

theorem flb_event_priority_live_foreach_limit:
  assumes "evq_inv q" "flb_event_priority_live_foreach ops prio max_iter q s = (done, left, q', s')"
  shows "evq_inv q' \<and> length done \<le> max_iter \<and> (\<forall>e. left = Some e \<longrightarrow> length done = max_iter \<and> e \<notin> set (concat (buckets q')))"
proof -
  define q1 where "q1 = flb_event_load_bucket_queue prio (lp_live ops s) (lp_ready ops s) q"
  obtain ev q2 where n: "next_event q1 = (ev, q2)" by fastforce
  have "evq_inv q1" unfolding q1_def by (rule load_inv [OF assms(1)])
  note nx = next_event_inv [OF this n]
  have "priority_live_loop ops prio max_iter (length (lp_ready ops s)) ev q2 s = (done, left, q', s')"
    using assms(2) n by (simp add: flb_event_priority_live_foreach_def q1_def Let_def)
  then show ?thesis by (rule live_loop_inv) (use nx in auto)
qed

text \<open>Three events are ready and two may be handled: the third one is lost.\<close>

definition demo_ops :: "nat list loop_ops" where
  "demo_ops = \<lparr>lp_body = (\<lambda>e s. remove1 e s), lp_wait = (\<lambda>s. s), lp_ready = (\<lambda>s. s), lp_live = (\<lambda>_ _. True), lp_unlinked = (\<lambda>_ _. False)\<rparr>"

definition demo_bq :: "nat flb_bucket_queue" where
  "demo_bq = \<lparr>buckets = [[], []], n_buckets = 2, top_bucket = 2, n_items = 0\<rparr>"

theorem flb_event_priority_live_foreach_limit_witness:
  "\<exists>q'. flb_event_priority_live_foreach demo_ops (\<lambda>_. 1) 2 demo_bq [4, 5, 6] = ([4, 5], Some 6, q', [6]) \<and> 6 \<notin> set (concat (buckets q'))"
proof -
  have i: "evq_inv demo_bq" by (auto simp: evq_inv_def bq_inv_def demo_bq_def less_Suc_eq eval_nat_numeral)
  have "flb_event_priority_live_foreach demo_ops (\<lambda>_. 1) 2 demo_bq [4, 5, 6] =
      ([4, 5], Some 6, \<lparr>buckets = [[], []], n_buckets = 2, top_bucket = 2, n_items = 0\<rparr>, [6])" by code_simp
  from flb_event_priority_live_foreach_limit [OF i this] this show ?thesis by blast
qed

end
