(* ===== verification/Flb_Scheduler.thy ===== *)
theory Flb_Scheduler
  imports Flb_Prelude "HOL-Library.Signed_Division" "HOL-Library.Multiset"
begin

text \<open>
  \<^verbatim>\<open>src/flb_scheduler.c\<close>: the retry requests of the engine, their wait times and the timers of
  the event loop.

  Timers, requests and the contexts of timer coroutines live in explicit stores, since a request
  and its timer point at each other and a timer moves between lists. Arguments stand for what comes
  from outside: \<open>now\<close> is \<^verbatim>\<open>time(NULL)\<close>, \<open>fd\<close> the result of
  \<^verbatim>\<open>mk_event_timeout_create\<close> (minus one on failure), \<open>rand\<close> the sequence of values that
  \<^verbatim>\<open>rand()\<close> gives after \<^verbatim>\<open>srand\<close>, booleans the outcome of allocations. Times and wait times
  are unbounded integers. \<^verbatim>\<open>flb_sched_event_handler\<close> is in the theory of the engine, which it
  calls.
\<close>

section \<open>Data\<close>

definition FLB_SCHED_REQUEST_FRAME :: int where "FLB_SCHED_REQUEST_FRAME = 10"
definition FLB_SCHED_TIMER_REQUEST :: int where "FLB_SCHED_TIMER_REQUEST = 1"
definition FLB_SCHED_TIMER_FRAME :: int where "FLB_SCHED_TIMER_FRAME = 2"
definition FLB_SCHED_TIMER_CB_ONESHOT :: int where "FLB_SCHED_TIMER_CB_ONESHOT = 3"
definition FLB_SCHED_TIMER_CB_PERM :: int where "FLB_SCHED_TIMER_CB_PERM = 4"

lemmas sched_consts = FLB_SCHED_REQUEST_FRAME_def FLB_SCHED_TIMER_REQUEST_def
  FLB_SCHED_TIMER_FRAME_def FLB_SCHED_TIMER_CB_ONESHOT_def FLB_SCHED_TIMER_CB_PERM_def

text \<open>\<^verbatim>\<open>void *data\<close> of a timer: NULL, a request, the scheduler itself, or a pointer of the
  creator of the timer.\<close>

datatype tdata = TNull | TRequest addr | TSched | TUser addr

record flb_sched_timer =
  t_active :: bool
  t_type :: int
  t_coro :: bool
  t_data :: tdata
  t_timer_fd :: int
  t_secs :: int
  t_cb :: nat

record flb_sched_request =
  r_fd :: int
  r_created :: int
  r_timeout :: int
  r_data :: addr
  r_timer :: addr

record flb_sched_timer_coro =
  s_id :: "32 word"
  s_timer :: addr
  s_data :: tdata

record flb_sched =
  requests :: "addr list"
  requests_wait :: "addr list"
  timers :: "addr list"
  timers_drop :: "addr list"
  timer_coro_list :: "addr list"
  timer_coro_list_drop :: "addr list"
  frame_fd :: int
  req_heap :: "addr \<Rightarrow> flb_sched_request option"
  tm_heap :: "addr \<Rightarrow> flb_sched_timer option"
  stc_heap :: "addr \<Rightarrow> flb_sched_timer_coro option"
  sched_next :: addr

definition rq :: "flb_sched \<Rightarrow> addr \<Rightarrow> flb_sched_request" where
  "rq s a = the (req_heap s a)"

definition tm :: "flb_sched \<Rightarrow> addr \<Rightarrow> flb_sched_timer" where
  "tm s a = the (tm_heap s a)"

definition tm_upd :: "addr \<Rightarrow> (flb_sched_timer \<Rightarrow> flb_sched_timer) \<Rightarrow> flb_sched \<Rightarrow> flb_sched" where
  "tm_upd t f s = s\<lparr>tm_heap := (tm_heap s)(t \<mapsto> f (tm s t))\<rparr>"

definition rq_upd :: "addr \<Rightarrow> (flb_sched_request \<Rightarrow> flb_sched_request) \<Rightarrow> flb_sched \<Rightarrow> flb_sched" where
  "rq_upd a f s = s\<lparr>req_heap := (req_heap s)(a \<mapsto> f (rq s a))\<rparr>"

section \<open>Wait times\<close>

text \<open>\<^verbatim>\<open>xmin\<close> and \<^verbatim>\<open>ipow\<close> compute on doubles that hold integers: an integer times a power of
  two is exact, or infinite when too large, and then \<^verbatim>\<open>xmin\<close> yields the cap. They are modelled
  on integers. \<^verbatim>\<open>tries\<close> is never negative.\<close>

definition xmin :: "int \<Rightarrow> int \<Rightarrow> int" where
  "xmin a b = (if a < b then a else b)"

fun ipow_loop :: "int \<Rightarrow> nat \<Rightarrow> int \<Rightarrow> int" where
  "ipow_loop base e result =
     (let result' = (if odd e then result * base else result); e' = e div 2 in
      if e' = 0 then result' else ipow_loop (base * base) e' result')"

declare ipow_loop.simps [simp del]

definition ipow :: "int \<Rightarrow> nat \<Rightarrow> int" where
  "ipow base e = ipow_loop base e 1"

definition RAND_MAX :: int where "RAND_MAX = 2147483647"

text \<open>The rejection loop of \<^verbatim>\<open>random_uniform\<close>: the first value of \<^verbatim>\<open>rand()\<close> below the limit;
  \<open>None\<close> when there is none. A zero range is a division by zero, which does not return either.\<close>

partial_function (option) rand_loop :: "int \<Rightarrow> (nat \<Rightarrow> int) \<Rightarrow> nat \<Rightarrow> int \<Rightarrow> int option" where
  "rand_loop limit rand i ra =
     (if ra < 0 \<or> ra \<ge> limit then rand_loop limit rand (Suc i) (rand i) else Some ra)"

definition random_uniform :: "(nat \<Rightarrow> int) \<Rightarrow> int \<Rightarrow> int \<Rightarrow> int option" where
  "random_uniform rand min_v max_v =
     (let range = max_v - min_v + 1 in
      if range = 0 then None
      else let copies = RAND_MAX sdiv range; limit = range * copies in
        case rand_loop limit rand 0 (-1) of
          None \<Rightarrow> None
        | Some ra \<Rightarrow> Some (ra sdiv copies + min_v))"

definition backoff_full_jitter :: "(nat \<Rightarrow> int) \<Rightarrow> int \<Rightarrow> int \<Rightarrow> nat \<Rightarrow> int option" where
  "backoff_full_jitter rand base cap n =
     (let temp = xmin cap (base * ipow 2 n) in random_uniform rand base temp)"

section \<open>Timers\<close>

definition flb_sched_timer_create :: "bool \<Rightarrow> flb_sched \<Rightarrow> addr option \<times> flb_sched" where
  "flb_sched_timer_create mem_ok s =
     (if \<not> mem_ok then (None, s)
      else let t = sched_next s in
        (Some t, s\<lparr>timers := mk_list_add t (timers s),
                   tm_heap := (tm_heap s)(t \<mapsto> \<lparr>t_active = True, t_type = 0, t_coro = False,
                                               t_data = TNull, t_timer_fd = -1, t_secs = 0, t_cb = 0\<rparr>),
                   sched_next := t + 1\<rparr>))"

definition flb_sched_timer_cb_disable :: "addr \<Rightarrow> flb_sched \<Rightarrow> flb_sched" where
  "flb_sched_timer_cb_disable t s =
     (if t_timer_fd (tm s t) \<noteq> -1 then tm_upd t (\<lambda>x. x\<lparr>t_timer_fd := -1\<rparr>) s else s)"

text \<open>The list a timer is unlinked from is the one it is in: unlinking is tried on both.\<close>

definition tm_unlink :: "addr \<Rightarrow> flb_sched \<Rightarrow> flb_sched" where
  "tm_unlink t s = s\<lparr>timers := mk_list_del t (timers s), timers_drop := mk_list_del t (timers_drop s)\<rparr>"

definition flb_sched_timer_invalidate :: "addr \<Rightarrow> flb_sched \<Rightarrow> flb_sched" where
  "flb_sched_timer_invalidate t s =
     (let s1 = flb_sched_timer_cb_disable t s;
          s2 = tm_upd t (\<lambda>x. x\<lparr>t_active := False\<rparr>) s1;
          s3 = tm_unlink t s2
      in s3\<lparr>timers_drop := mk_list_add t (timers_drop s3)\<rparr>)"

definition flb_sched_timer_destroy :: "addr \<Rightarrow> flb_sched \<Rightarrow> flb_sched" where
  "flb_sched_timer_destroy t s =
     (let s1 = tm_unlink t (flb_sched_timer_cb_disable t s)
      in s1\<lparr>tm_heap := (tm_heap s1)(t := None)\<rparr>)"

definition flb_sched_timer_cb_destroy :: "addr \<Rightarrow> flb_sched \<Rightarrow> flb_sched" where
  "flb_sched_timer_cb_destroy t s = flb_sched_timer_destroy t s"

definition flb_sched_timer_cb_create ::
  "bool \<Rightarrow> int \<Rightarrow> flb_sched \<Rightarrow> int \<Rightarrow> int \<Rightarrow> nat \<Rightarrow> addr \<Rightarrow> int \<times> addr option \<times> flb_sched" where
  "flb_sched_timer_cb_create mem_ok fd s type ms cb data =
     (if type \<noteq> FLB_SCHED_TIMER_CB_ONESHOT \<and> type \<noteq> FLB_SCHED_TIMER_CB_PERM then (-1, None, s)
      else case flb_sched_timer_create mem_ok s of
        (None, s1) \<Rightarrow> (-1, None, s1)
      | (Some t, s1) \<Rightarrow>
          (let s2 = tm_upd t (\<lambda>x. x\<lparr>t_type := type, t_data := TUser data, t_cb := cb\<rparr>) s1 in
           if fd = -1 then (-1, None, flb_sched_timer_destroy t s2)
           else (0, Some t, tm_upd t (\<lambda>x. x\<lparr>t_timer_fd := fd\<rparr>) s2)))"

definition flb_sched_timer_coro_cb_create ::
  "bool \<Rightarrow> int \<Rightarrow> flb_sched \<Rightarrow> int \<Rightarrow> int \<Rightarrow> nat \<Rightarrow> addr \<Rightarrow> int \<times> flb_sched" where
  "flb_sched_timer_coro_cb_create mem_ok fd s type ms cb data =
     (case flb_sched_timer_cb_create mem_ok fd s type ms cb data of
        (ret, None, s1) \<Rightarrow> (ret, s1)
      | (ret, Some t, s1) \<Rightarrow>
          if ret = -1 then (-1, s1) else (0, tm_upd t (\<lambda>x. x\<lparr>t_coro := True\<rparr>) s1))"

section \<open>Requests\<close>

text \<open>\<open>t_secs\<close> is the number of seconds the event of the timer was registered with.\<close>

definition schedule_request_now :: "int \<Rightarrow> int \<Rightarrow> addr \<Rightarrow> addr \<Rightarrow> flb_sched \<Rightarrow> int \<times> flb_sched" where
  "schedule_request_now fd seconds timer request s =
     (if fd = -1 then (-1, s)
      else let s1 = rq_upd request (\<lambda>r. r\<lparr>r_fd := fd\<rparr>) s;
               s2 = tm_upd timer (\<lambda>x. x\<lparr>t_timer_fd := fd, t_secs := seconds\<rparr>) s1
           in (0, s2\<lparr>requests := mk_list_add request (requests s2)\<rparr>))"

definition schedule_request_wait :: "addr \<Rightarrow> flb_sched \<Rightarrow> int \<times> flb_sched" where
  "schedule_request_wait request s =
     (0, s\<lparr>requests_wait := mk_list_add request (requests_wait s)\<rparr>)"

text \<open>The loop of \<^verbatim>\<open>schedule_request_promote\<close>; \<open>fds\<close> is the outcome of the timer creation for
  each request. \<open>promote_seconds\<close> is the time the timer of a request is armed for, if it is.\<close>

definition promote_seconds :: "int \<Rightarrow> flb_sched_request \<Rightarrow> int option" where
  "promote_seconds now r =
     (let passed = now - r_created r in
      if passed > r_timeout r then Some 1
      else if passed + FLB_SCHED_REQUEST_FRAME \<ge> r_timeout r then Some \<bar>passed - r_timeout r\<bar>
      else None)"

fun promote_loop ::
  "int \<Rightarrow> (addr \<Rightarrow> int) \<Rightarrow> addr list \<Rightarrow> addr list \<Rightarrow> flb_sched \<Rightarrow> addr list \<times> flb_sched" where
  "promote_loop now fds [] failed s = (failed, s)"
| "promote_loop now fds (a # as) failed s =
     (case promote_seconds now (rq s a) of
        None \<Rightarrow> promote_loop now fds as failed s
      | Some sec \<Rightarrow>
          (let s1 = s\<lparr>requests_wait := mk_list_del a (requests_wait s)\<rparr>;
               (ret, s2) = schedule_request_now (fds a) sec (r_timer (rq s1 a)) a s1
           in if ret \<noteq> 0 then promote_loop now fds as (mk_list_add a failed) s2
              else promote_loop now fds as failed s2))"

definition schedule_request_promote :: "int \<Rightarrow> (addr \<Rightarrow> int) \<Rightarrow> flb_sched \<Rightarrow> int \<times> flb_sched" where
  "schedule_request_promote now fds s =
     (let (failed, s1) = promote_loop now fds (requests_wait s) [] s
      in (0, s1\<lparr>requests_wait := fold mk_list_add failed (requests_wait s1)\<rparr>))"

text \<open>\<open>None\<close> is the case in which the wait time is not computed. When the request node cannot be
  allocated the timer stays linked.\<close>

definition request_new :: "int \<Rightarrow> int \<Rightarrow> addr \<Rightarrow> addr \<Rightarrow> flb_sched \<Rightarrow> addr \<times> flb_sched" where
  "request_new now seconds data t s =
     (let a = sched_next s;
          s1 = tm_upd t (\<lambda>x. x\<lparr>t_type := FLB_SCHED_TIMER_REQUEST, t_data := TRequest a\<rparr>) s
      in (a, s1\<lparr>req_heap := (req_heap s1)(a \<mapsto> \<lparr>r_fd = -1, r_created = now, r_timeout = seconds,
                                           r_data = data, r_timer = t\<rparr>),
                sched_next := a + 1\<rparr>))"

definition request_free :: "addr \<Rightarrow> flb_sched \<Rightarrow> flb_sched" where
  "request_free a s = s\<lparr>req_heap := (req_heap s)(a := None)\<rparr>"

definition flb_sched_request_create ::
  "bool \<Rightarrow> bool \<Rightarrow> (nat \<Rightarrow> int) \<Rightarrow> int \<Rightarrow> int \<Rightarrow> bool \<Rightarrow> int \<Rightarrow> int \<Rightarrow> flb_sched \<Rightarrow> addr \<Rightarrow> nat
   \<Rightarrow> (int \<times> flb_sched) option" where
  "flb_sched_request_create timer_ok req_ok rand now fd is_shutting_down sched_base sched_cap s data tries =
     (case flb_sched_timer_create timer_ok s of
        (None, s1) \<Rightarrow> Some (-1, s1)
      | (Some t, s1) \<Rightarrow>
          if \<not> req_ok then Some (-1, s1)
          else case (if is_shutting_down then Some 0
                     else backoff_full_jitter rand sched_base sched_cap tries) of
            None \<Rightarrow> None
          | Some secs \<Rightarrow>
              (let seconds = secs + 1; (a, s2) = request_new now seconds data t s1 in
               if seconds > FLB_SCHED_REQUEST_FRAME then Some (seconds, snd (schedule_request_wait a s2))
               else let (ret, s3) = schedule_request_now fd seconds t a s2 in
                 if ret = -1 then Some (-1, request_free a (flb_sched_timer_destroy t s3))
                 else Some (seconds, s3)))"

definition flb_sched_retry_now ::
  "bool \<Rightarrow> bool \<Rightarrow> int \<Rightarrow> int \<Rightarrow> flb_sched \<Rightarrow> addr \<Rightarrow> int \<times> flb_sched" where
  "flb_sched_retry_now timer_ok req_ok now fd s retry =
     (case flb_sched_timer_create timer_ok s of
        (None, s1) \<Rightarrow> (-1, s1)
      | (Some t, s1) \<Rightarrow>
          if \<not> req_ok then (-1, flb_sched_timer_destroy t s1)
          else let (a, s2) = request_new now 0 retry t s1; (ret, s3) = schedule_request_now fd 0 t a s2 in
            if ret = -1 then (-1, request_free a (flb_sched_timer_destroy t s3)) else (0, s3))"

text \<open>As for timers, a request is in one of the two lists.\<close>

definition flb_sched_request_destroy :: "addr \<Rightarrow> flb_sched \<Rightarrow> flb_sched" where
  "flb_sched_request_destroy a s =
     (let s1 = s\<lparr>requests := mk_list_del a (requests s), requests_wait := mk_list_del a (requests_wait s)\<rparr>;
          s2 = flb_sched_timer_invalidate (r_timer (rq s1 a)) s1
      in request_free a s2)"

definition flb_sched_request_invalidate :: "flb_sched \<Rightarrow> addr \<Rightarrow> int \<times> flb_sched" where
  "flb_sched_request_invalidate s data =
     (case List.find (\<lambda>a. r_data (rq s a) = data) (requests s) of
        Some a \<Rightarrow> (0, flb_sched_request_destroy a s)
      | None \<Rightarrow>
          (case List.find (\<lambda>a. r_data (rq s a) = data) (requests_wait s) of
             Some a \<Rightarrow> (0, flb_sched_request_destroy a s)
           | None \<Rightarrow> (-1, s)))"

section \<open>Timer coroutines\<close>

definition stc :: "flb_sched \<Rightarrow> addr \<Rightarrow> flb_sched_timer_coro" where
  "stc s a = the (stc_heap s a)"

function get_id_loop :: "flb_sched \<Rightarrow> 32 word \<Rightarrow> 32 word" where
  "get_id_loop s i =
     (if i < - 1 then
        (if \<exists>a\<in>set (timer_coro_list s). s_id (stc s a) = i then get_id_loop s (i + 1) else i)
      else i)"
  by pat_completeness auto
termination
proof (relation "measure (\<lambda>(s, i). 2 ^ 32 - unat i)", goal_cases)
  case 1
  then show ?case by simp
next
  case (2 s i)
  then have "1 + i \<noteq> 0" by (metis add_eq_0_iff less_irrefl)
  then have i: "unat (i + 1) = Suc (unat i)" unfolding add.commute [of i 1] by (rule unatSuc)
  have "unat (i + 1) < 2 ^ 32" using unsigned_less [of "i + 1"] by simp
  then show ?case unfolding in_measure prod.case i by linarith
qed

declare get_id_loop.simps [simp del]

definition sched_timer_coro_get_id :: "flb_sched \<Rightarrow> 32 word" where
  "sched_timer_coro_get_id s = get_id_loop s 0"

definition sched_timer_coro_get_by_id :: "flb_sched \<Rightarrow> 32 word \<Rightarrow> addr option" where
  "sched_timer_coro_get_by_id s i = List.find (\<lambda>a. s_id (stc s a) = i) (timer_coro_list s)"

definition flb_sched_timer_coro_get :: "flb_sched \<Rightarrow> 32 word \<Rightarrow> addr option" where
  "flb_sched_timer_coro_get s i = List.find (\<lambda>a. s_id (stc s a) = i) (timer_coro_list s)"

text \<open>\<open>ctx\<close> tells whether the thread has a scheduler context, \<open>coro_ok\<close> whether
  \<^verbatim>\<open>flb_coro_create\<close> succeeded; the coroutine itself (libco) is not part of the state.\<close>

definition flb_sched_timer_coro_create ::
  "bool \<Rightarrow> bool \<Rightarrow> bool \<Rightarrow> addr \<Rightarrow> tdata \<Rightarrow> flb_sched \<Rightarrow> addr option \<times> flb_sched" where
  "flb_sched_timer_coro_create ctx mem_ok coro_ok timer data s =
     (if \<not> ctx then (None, s)
      else if \<not> mem_ok then (None, s)
      else let a = sched_next s; i = sched_timer_coro_get_id s in
        if \<not> coro_ok then (None, s)
        else (Some a, s\<lparr>timer_coro_list := mk_list_add a (timer_coro_list s),
                        stc_heap := (stc_heap s)(a \<mapsto> \<lparr>s_id = i, s_timer = timer, s_data = data\<rparr>),
                        sched_next := a + 1\<rparr>))"

definition flb_sched_timer_coro_destroy :: "addr \<Rightarrow> flb_sched \<Rightarrow> flb_sched" where
  "flb_sched_timer_coro_destroy a s =
     s\<lparr>timer_coro_list := mk_list_del a (timer_coro_list s),
       timer_coro_list_drop := mk_list_del a (timer_coro_list_drop s),
       stc_heap := (stc_heap s)(a := None)\<rparr>"

text \<open>The branch of \<^verbatim>\<open>flb_sched_event_handler\<close> for a notification of a coroutine: \<open>val\<close> is what
  was read from the channel, \<open>None\<close> when the read failed.\<close>

definition sched_coro_event :: "64 word option \<Rightarrow> flb_sched \<Rightarrow> int \<times> flb_sched" where
  "sched_coro_event val s =
     (case val of None \<Rightarrow> (-1, s) | Some v \<Rightarrow>
      let oper = ucast (drop_bit 32 v) :: 32 word; i = ucast v :: 32 word in
      case sched_timer_coro_get_by_id s i of
        None \<Rightarrow> (-1, s)
      | Some a \<Rightarrow>
          (0, if oper = 1
              then s\<lparr>timer_coro_list := mk_list_del a (timer_coro_list s),
                     timer_coro_list_drop := mk_list_add a (timer_coro_list_drop s)\<rparr>
              else s))"

definition flb_sched_timer_coro_cleanup :: "flb_sched \<Rightarrow> int \<times> flb_sched" where
  "flb_sched_timer_coro_cleanup s =
     (int (length (timer_coro_list_drop s)),
      fold flb_sched_timer_coro_destroy (timer_coro_list_drop s) s)"

definition flb_sched_timer_cleanup :: "flb_sched \<Rightarrow> int \<times> flb_sched" where
  "flb_sched_timer_cleanup s =
     (let s1 = fold flb_sched_timer_destroy (timers_drop s) s;
          (n, s2) = flb_sched_timer_coro_cleanup s1
      in (int (length (timers_drop s)) + n, s2))"

section \<open>Life cycle\<close>

definition sched_empty :: flb_sched where
  "sched_empty = \<lparr>requests = [], requests_wait = [], timers = [], timers_drop = [],
     timer_coro_list = [], timer_coro_list_drop = [], frame_fd = 0, req_heap = Map.empty,
     tm_heap = Map.empty, stc_heap = Map.empty, sched_next = 0\<rparr>"

text \<open>\<^verbatim>\<open>flb_sched_destroy\<close> returns the count of released nodes and what is left of the stores.\<close>

definition flb_sched_destroy :: "flb_sched \<Rightarrow> int \<times> flb_sched" where
  "flb_sched_destroy s =
     (let s1 = fold flb_sched_request_destroy (requests s) s;
          s2 = fold flb_sched_request_destroy (requests_wait s1) s1;
          s3 = fold flb_sched_timer_destroy (timers s2) s2;
          s4 = fold flb_sched_timer_destroy (timers_drop s3) s3
      in (int (length (requests s)) + int (length (requests_wait s1)) + int (length (timers s2)) +
          int (length (timers_drop s3)), s4))"

text \<open>\<open>ch\<close> is the result of \<^verbatim>\<open>mk_event_channel_create\<close>.\<close>

definition flb_sched_create :: "bool \<Rightarrow> bool \<Rightarrow> int \<Rightarrow> int \<Rightarrow> flb_sched option" where
  "flb_sched_create mem_ok timer_ok fd ch =
     (if \<not> mem_ok then None
      else case flb_sched_timer_create timer_ok sched_empty of
        (None, s1) \<Rightarrow> None
      | (Some t, s1) \<Rightarrow>
          (let s2 = tm_upd t (\<lambda>x. x\<lparr>t_type := FLB_SCHED_TIMER_FRAME, t_data := TSched\<rparr>) s1 in
           if fd = -1 then None
           else if ch = -1 then None
           else Some (s2\<lparr>frame_fd := fd\<rparr>)))"

section \<open>Invariant\<close>

text \<open>Lists hold allocated nodes, once; every pending request is the data of its own active timer,
  and the file descriptor of that timer is armed exactly for the requests that are not waiting; the
  ids of the running coroutines are unique.\<close>

definition req_linked :: "flb_sched \<Rightarrow> addr \<Rightarrow> bool" where
  "req_linked s a \<longleftrightarrow>
     r_timer (rq s a) \<in> set (timers s) \<and>
     t_type (tm s (r_timer (rq s a))) = FLB_SCHED_TIMER_REQUEST \<and>
     t_data (tm s (r_timer (rq s a))) = TRequest a \<and>
     t_timer_fd (tm s (r_timer (rq s a))) = r_fd (rq s a)"

definition timer_ok :: "flb_sched \<Rightarrow> addr \<Rightarrow> bool" where
  "timer_ok s t \<longleftrightarrow>
     t_active (tm s t) \<and>
     (t_type (tm s t) = FLB_SCHED_TIMER_REQUEST \<longrightarrow>
        (\<exists>a \<in> set (requests s) \<union> set (requests_wait s). t_data (tm s t) = TRequest a \<and> r_timer (rq s a) = t))"

definition timer_dropped :: "flb_sched \<Rightarrow> addr \<Rightarrow> bool" where
  "timer_dropped s t \<longleftrightarrow> \<not> t_active (tm s t) \<and> t_timer_fd (tm s t) = -1"

text \<open>The nodes of a kind are exactly those of two lists, once each, below the next address.\<close>

definition node_lists :: "addr list \<Rightarrow> addr list \<Rightarrow> (addr \<Rightarrow> 'a option) \<Rightarrow> addr \<Rightarrow> bool" where
  "node_lists xs ys h nx \<longleftrightarrow>
     distinct xs \<and> distinct ys \<and> set xs \<inter> set ys = {} \<and> dom h = set xs \<union> set ys \<and>
     (\<forall>a \<in> set xs \<union> set ys. a < nx)"

definition sched_inv :: "flb_sched \<Rightarrow> bool" where
  "sched_inv s \<longleftrightarrow>
     node_lists (requests s) (requests_wait s) (req_heap s) (sched_next s) \<and>
     node_lists (timers s) (timers_drop s) (tm_heap s) (sched_next s) \<and>
     node_lists (timer_coro_list s) (timer_coro_list_drop s) (stc_heap s) (sched_next s) \<and>
     (\<forall>a \<in> set (requests s). req_linked s a \<and> r_fd (rq s a) \<noteq> -1) \<and>
     (\<forall>a \<in> set (requests_wait s). req_linked s a \<and> r_fd (rq s a) = -1) \<and>
     (\<forall>t \<in> set (timers s). timer_ok s t) \<and>
     (\<forall>t \<in> set (timers_drop s). timer_dropped s t)"

definition coro_ids_ok :: "flb_sched \<Rightarrow> bool" where
  "coro_ids_ok s \<longleftrightarrow> inj_on (\<lambda>a. s_id (stc s a)) (set (timer_coro_list s))"

section \<open>Wait times: correctness\<close>

lemma ipow_loop_power: "ipow_loop b e r = r * b ^ e"
proof (induction b e r rule: ipow_loop.induct)
  case (1 b e r)
  have "b ^ e = b ^ (2 * (e div 2) + e mod 2)" by simp
  also have "\<dots> = (b * b) ^ (e div 2) * (if odd e then b else 1)"
    unfolding power_add power_mult power2_eq_square by (simp add: odd_iff_mod_2_eq_one)
  finally have e: "b ^ e = (b * b) ^ (e div 2) * (if odd e then b else 1)" .
  show ?case
  proof (cases "e div 2 = 0")
    case True
    then show ?thesis using e by (simp add: ipow_loop.simps [of b e r] Let_def)
  next
    case False
    then show ?thesis using 1 [OF refl refl] e by (simp add: ipow_loop.simps [of b e r] Let_def)
  qed
qed

lemma ipow_eq: "ipow b e = b ^ e"
  by (simp add: ipow_def ipow_loop_power)

lemma rand_loop_None_or:
  assumes "rand_loop limit rand i ra = Some v"
  shows "0 \<le> v \<and> v < limit"
  by (rule rand_loop.raw_induct [where P = "\<lambda>limit rand i ra v. 0 \<le> v \<and> v < limit", OF _ assms])
    (auto split: if_splits)

lemma rand_loop_total:
  assumes "0 \<le> rand (i + k)" "rand (i + k) < limit"
  shows "\<exists>v. rand_loop limit rand i ra = Some v"
  using assms
proof (induction k arbitrary: i ra)
  case 0
  then show ?case by (subst rand_loop.simps, subst rand_loop.simps) auto
next
  case (Suc k)
  then have "\<exists>v. rand_loop limit rand (Suc i) (rand i) = Some v" by simp
  then show ?case by (subst rand_loop.simps) auto
qed

lemma sdiv_pos: "0 \<le> a \<Longrightarrow> 0 < b \<Longrightarrow> (a :: int) sdiv b = a div b"
  by (simp add: signed_divide_int_def sgn_if)

lemma random_uniform_range:
  assumes "lo \<le> hi" "hi - lo < RAND_MAX"
    and "random_uniform rand lo hi = Some v"
  shows "lo \<le> v \<and> v \<le> hi"
proof -
  define range where "range = hi - lo + 1"
  define copies where "copies = RAND_MAX div range"
  have r: "0 < range" "range \<le> RAND_MAX" using assms by (auto simp: range_def)
  then have c: "0 < copies" by (simp add: copies_def pos_imp_zdiv_pos_iff)
  obtain ra where ra: "rand_loop (range * copies) rand 0 (-1) = Some ra" "v = ra sdiv copies + lo"
    using assms(3) r
    by (auto simp: random_uniform_def Let_def sdiv_pos RAND_MAX_def copies_def
        simp flip: range_def split: option.splits)
  then have "0 \<le> ra" "ra < range * copies" using rand_loop_None_or by blast+
  moreover have "(ra div copies) * copies \<le> ra"
    using c by (simp add: minus_mod_eq_div_mult [symmetric])
  ultimately have "(ra div copies) * copies < range * copies" by linarith
  then have "0 \<le> ra div copies" "ra div copies < range"
    using c \<open>0 \<le> ra\<close> by (auto simp: pos_imp_zdiv_nonneg_iff)
  then show ?thesis using ra c \<open>0 \<le> ra\<close> by (simp add: sdiv_pos range_def)
qed

section \<open>Nodes in lists\<close>

lemma node_lists_add:
  assumes "node_lists xs ys h nx" "nx < nx'"
  shows "node_lists (mk_list_add nx xs) ys (h(nx \<mapsto> v)) nx'"
    "node_lists xs (mk_list_add nx ys) (h(nx \<mapsto> v)) nx'"
  using assms unfolding node_lists_def by (auto dest: less_trans)

lemma node_lists_next: "node_lists xs ys h nx \<Longrightarrow> nx \<le> nx' \<Longrightarrow> node_lists xs ys h nx'"
  unfolding node_lists_def by (meson order_less_le_trans)

lemma node_lists_upd:
  "node_lists xs ys h nx \<Longrightarrow> a \<in> set xs \<union> set ys \<Longrightarrow> node_lists xs ys (h(a \<mapsto> v)) nx"
  unfolding node_lists_def by auto

lemma node_lists_del:
  "node_lists xs ys h nx \<Longrightarrow> node_lists (mk_list_del a xs) (mk_list_del a ys) (h(a := None)) nx"
  unfolding node_lists_def by auto

lemma node_lists_drop:
  "node_lists xs ys h nx \<Longrightarrow> a \<in> set xs \<Longrightarrow>
   node_lists (mk_list_del a xs) (mk_list_add a (mk_list_del a ys)) h nx"
  unfolding node_lists_def by auto

lemma node_lists_raise:
  "node_lists xs ys h nx \<Longrightarrow> a \<in> set ys \<Longrightarrow> node_lists (mk_list_add a xs) (mk_list_del a ys) h nx"
  unfolding node_lists_def by auto

lemma node_listsD:
  assumes "node_lists xs ys h nx"
  shows "distinct xs" "distinct ys" "dom h = set xs \<union> set ys" "nx \<notin> set xs" "nx \<notin> set ys"
    "a \<in> set xs \<Longrightarrow> a \<notin> set ys" "a \<in> set ys \<Longrightarrow> a \<notin> set xs" "a \<in> set xs \<union> set ys \<Longrightarrow> a < nx"
  using assms unfolding node_lists_def by auto

section \<open>The stores\<close>

lemma tm_upd_simps [simp]:
  "requests (tm_upd t f s) = requests s" "requests_wait (tm_upd t f s) = requests_wait s"
  "timers (tm_upd t f s) = timers s" "timers_drop (tm_upd t f s) = timers_drop s"
  "timer_coro_list (tm_upd t f s) = timer_coro_list s"
  "timer_coro_list_drop (tm_upd t f s) = timer_coro_list_drop s"
  "req_heap (tm_upd t f s) = req_heap s" "stc_heap (tm_upd t f s) = stc_heap s"
  "sched_next (tm_upd t f s) = sched_next s" "rq (tm_upd t f s) = rq s"
  "tm_heap (tm_upd t f s) = (tm_heap s)(t \<mapsto> f (tm s t))"
  "tm (tm_upd t f s) u = (if u = t then f (tm s t) else tm s u)"
  by (auto simp: tm_upd_def rq_def tm_def fun_eq_iff)

lemma rq_upd_simps [simp]:
  "requests (rq_upd a f s) = requests s" "requests_wait (rq_upd a f s) = requests_wait s"
  "timers (rq_upd a f s) = timers s" "timers_drop (rq_upd a f s) = timers_drop s"
  "timer_coro_list (rq_upd a f s) = timer_coro_list s"
  "timer_coro_list_drop (rq_upd a f s) = timer_coro_list_drop s"
  "tm_heap (rq_upd a f s) = tm_heap s" "stc_heap (rq_upd a f s) = stc_heap s"
  "sched_next (rq_upd a f s) = sched_next s" "tm (rq_upd a f s) = tm s"
  "req_heap (rq_upd a f s) = (req_heap s)(a \<mapsto> f (rq s a))"
  "rq (rq_upd a f s) b = (if b = a then f (rq s a) else rq s b)"
  by (auto simp: rq_upd_def rq_def tm_def fun_eq_iff)

lemma tm_rq_more [simp]:
  "tm (s\<lparr>requests := xs\<rparr>) = tm s" "tm (s\<lparr>requests_wait := xs\<rparr>) = tm s"
  "tm (s\<lparr>timers := xs\<rparr>) = tm s" "tm (s\<lparr>timers_drop := xs\<rparr>) = tm s"
  "rq (s\<lparr>requests := xs\<rparr>) = rq s" "rq (s\<lparr>requests_wait := xs\<rparr>) = rq s"
  "rq (s\<lparr>timers := xs\<rparr>) = rq s" "rq (s\<lparr>timers_drop := xs\<rparr>) = rq s"
  "rq (s\<lparr>tm_heap := h\<rparr>) = rq s" "tm (s\<lparr>req_heap := g\<rparr>) = tm s"
  "rq (s\<lparr>sched_next := n\<rparr>) = rq s" "tm (s\<lparr>sched_next := n\<rparr>) = tm s"
  "tm (s\<lparr>tm_heap := h\<rparr>) t = the (h t)" "rq (s\<lparr>req_heap := g\<rparr>) a = the (g a)"
  by (auto simp: rq_def tm_def fun_eq_iff)

section \<open>Consequences of the invariant\<close>

lemma sched_invD:
  assumes "sched_inv s"
  shows "node_lists (requests s) (requests_wait s) (req_heap s) (sched_next s)"
    "node_lists (timers s) (timers_drop s) (tm_heap s) (sched_next s)"
    "node_lists (timer_coro_list s) (timer_coro_list_drop s) (stc_heap s) (sched_next s)"
    "a \<in> set (requests s) \<Longrightarrow> req_linked s a \<and> r_fd (rq s a) \<noteq> -1"
    "a \<in> set (requests_wait s) \<Longrightarrow> req_linked s a \<and> r_fd (rq s a) = -1"
    "t \<in> set (timers s) \<Longrightarrow> timer_ok s t" "t \<in> set (timers_drop s) \<Longrightarrow> timer_dropped s t"
  using assms unfolding sched_inv_def by blast+

lemma sched_invI:
  assumes "node_lists (requests s) (requests_wait s) (req_heap s) (sched_next s)"
    "node_lists (timers s) (timers_drop s) (tm_heap s) (sched_next s)"
    "node_lists (timer_coro_list s) (timer_coro_list_drop s) (stc_heap s) (sched_next s)"
    "\<And>a. a \<in> set (requests s) \<Longrightarrow> req_linked s a \<and> r_fd (rq s a) \<noteq> -1"
    "\<And>a. a \<in> set (requests_wait s) \<Longrightarrow> req_linked s a \<and> r_fd (rq s a) = -1"
    "\<And>t. t \<in> set (timers s) \<Longrightarrow> timer_ok s t" "\<And>t. t \<in> set (timers_drop s) \<Longrightarrow> timer_dropped s t"
  shows "sched_inv s"
  using assms unfolding sched_inv_def by blast

lemma sched_inv_req:
  assumes "sched_inv s" "a \<in> set (requests s) \<union> set (requests_wait s)"
  shows "req_linked s a" "r_timer (rq s a) \<in> set (timers s)" "r_timer (rq s a) \<noteq> sched_next s"
    "r_timer (rq s a) \<notin> set (timers_drop s)" "t_data (tm s (r_timer (rq s a))) = TRequest a"
    "a \<noteq> sched_next s"
proof -
  show l: "req_linked s a" using assms sched_invD(4,5) [OF assms(1)] by blast
  show t: "r_timer (rq s a) \<in> set (timers s)" "t_data (tm s (r_timer (rq s a))) = TRequest a"
    using l unfolding req_linked_def by simp_all
  show "r_timer (rq s a) \<notin> set (timers_drop s)"
    by (rule node_listsD(6) [OF sched_invD(2) [OF assms(1)] t(1)])
  show "r_timer (rq s a) \<noteq> sched_next s"
    using node_listsD(4) [OF sched_invD(2) [OF assms(1)]] t(1) by auto
  show "a \<noteq> sched_next s"
    using node_listsD(8) [OF sched_invD(1) [OF assms(1)] assms(2)] by simp
qed

lemma sched_inv_timer_inj:
  assumes "sched_inv s" "a \<in> set (requests s) \<union> set (requests_wait s)"
    "b \<in> set (requests s) \<union> set (requests_wait s)" "r_timer (rq s a) = r_timer (rq s b)"
  shows "a = b"
  using sched_inv_req(5) [OF assms(1,2)] sched_inv_req(5) [OF assms(1,3)] assms(4)
  by (metis tdata.inject(1))

text \<open>What an operation that leaves a request, a timer and their nodes alone keeps of them.\<close>

lemma req_linked_cong:
  assumes "req_linked s a" "rq s' a = rq s a" "tm s' (r_timer (rq s a)) = tm s (r_timer (rq s a))"
    "r_timer (rq s a) \<in> set (timers s')"
  shows "req_linked s' a"
  using assms unfolding req_linked_def by simp

section \<open>Preservation\<close>

lemma flb_sched_timer_create_inv [flb_inv]:
  assumes "sched_inv s"
  shows "sched_inv (snd (flb_sched_timer_create ok s))"
proof (cases ok)
  case True
  note inv = sched_invD [OF assms] and req = sched_inv_req [OF assms]
  define s' where "s' = snd (flb_sched_timer_create ok s)"
  have s': "s' = s\<lparr>timers := mk_list_add (sched_next s) (timers s), tm_heap := (tm_heap s)(sched_next s \<mapsto>
      \<lparr>t_active = True, t_type = 0, t_coro = False, t_data = TNull, t_timer_fd = -1, t_secs = 0, t_cb = 0\<rparr>),
      sched_next := sched_next s + 1\<rparr>"
    using True by (simp add: s'_def flb_sched_timer_create_def Let_def)
  have f: "requests s' = requests s" "requests_wait s' = requests_wait s" "timers_drop s' = timers_drop s"
    "timers s' = mk_list_add (sched_next s) (timers s)" "rq s' = rq s"
    "t_active (tm s' (sched_next s))" "t_type (tm s' (sched_next s)) = 0"
    by (simp_all add: s' rq_def tm_def fun_eq_iff)
  have tm': "tm s' t = tm s t" if "t \<noteq> sched_next s" for t
    using that by (simp add: s' tm_def)
  have lk: "req_linked s' a" if "a \<in> set (requests s) \<union> set (requests_wait s)" for a
    using req_linked_cong [OF req(1) [OF that], of s'] req(2,3) [OF that] by (simp add: f tm')
  have "sched_inv s'"
  proof (rule sched_invI, goal_cases)
    case (4 a)
    then show ?case using inv(4) [of a] lk [of a] by (simp add: f)
  next
    case (5 a)
    then show ?case using inv(5) [of a] lk [of a] by (simp add: f)
  next
    case (6 t)
    then show ?case using inv(6) [of t] tm' [of t]
      by (cases "t = sched_next s") (simp_all add: f timer_ok_def sched_consts)
  next
    case (7 t)
    then show ?case using inv(7) [of t] tm' [of t] node_listsD(5) [OF inv(2)]
      by (cases "t = sched_next s") (simp_all add: f timer_dropped_def)
  qed (simp_all add: s' node_lists_add node_lists_next [OF inv(1)] node_lists_next [OF inv(3)] inv(2))
  then show ?thesis by (simp add: s'_def)
qed (use assms in \<open>simp add: flb_sched_timer_create_def\<close>)

lemma sched_inv_next: "sched_inv s \<Longrightarrow> sched_next s \<le> n \<Longrightarrow> sched_inv (s\<lparr>sched_next := n\<rparr>)"
  unfolding sched_inv_def req_linked_def timer_ok_def timer_dropped_def by (auto intro: node_lists_next)

text \<open>Linking a new request with the timer just created for it, in one list or the other.\<close>

lemma request_link_inv:
  assumes "sched_inv s" "t = sched_next s" "a = Suc t"
    and l: "requests s' = (if r_fd r = -1 then requests s else mk_list_add a (requests s))"
      "requests_wait s' = (if r_fd r = -1 then mk_list_add a (requests_wait s) else requests_wait s)"
      "timers s' = mk_list_add t (timers s)" "timers_drop s' = timers_drop s"
      "timer_coro_list s' = timer_coro_list s" "timer_coro_list_drop s' = timer_coro_list_drop s"
      "stc_heap s' = stc_heap s" "sched_next s' = Suc a"
      "tm_heap s' = (tm_heap s)(t \<mapsto> x)" "req_heap s' = (req_heap s)(a \<mapsto> r)"
    and x: "t_active x" "t_type x = FLB_SCHED_TIMER_REQUEST" "t_data x = TRequest a"
      "t_timer_fd x = r_fd r" "r_timer r = t"
  shows "sched_inv s'"
proof -
  note inv = sched_invD [OF assms(1)] and req = sched_inv_req [OF assms(1)]
  have fr: "t \<notin> set (timers s)" "t \<notin> set (timers_drop s)" "a \<notin> set (requests s)" "a \<notin> set (requests_wait s)"
    using node_listsD(4,5) [OF inv(2)] node_listsD(8) [OF inv(1), of a] by (auto simp: assms(2,3))
  have nl: "node_lists (requests s) (requests_wait s) (req_heap s) a"
    "node_lists (timers s) (timers_drop s) (tm_heap s) t"
    "node_lists (timer_coro_list s) (timer_coro_list_drop s) (stc_heap s) (Suc a)"
    using node_lists_next [OF inv(1), of a] inv(2) node_lists_next [OF inv(3), of "Suc a"]
    by (simp_all add: assms(2,3))
  have new: "rq s' a = r" "tm s' t = x" by (simp_all add: rq_def tm_def l)
  have oldr: "rq s' b = rq s b" if "b \<noteq> a" for b using that by (simp add: rq_def l)
  have oldt: "tm s' u = tm s u" if "u \<noteq> t" for u using that by (simp add: tm_def l)
  have lk: "req_linked s' b" if "b \<in> set (requests s) \<union> set (requests_wait s)" for b
    using that req(1-3) [OF that] fr(3,4) req_linked_cong [of s b s'] oldr [of b] oldt [of "r_timer (rq s b)"]
    by (auto simp: l assms(2))
  have lka: "req_linked s' a" by (simp add: req_linked_def new x l)
  show ?thesis
  proof (rule sched_invI, goal_cases)
    case 1
    then show ?case using node_lists_add [OF nl(1), of "Suc a" r] by (simp add: l)
  next
    case 2
    then show ?case
      using node_lists_next [OF node_lists_add(1) [OF nl(2), of "Suc t" x], of "Suc a"] by (simp add: l assms(3))
  next
    case 3
    then show ?case using nl(3) by (simp add: l)
  next
    case (4 b)
    then show ?case using inv(4) [of b] lk [of b] lka oldr [of b] new
      by (cases "b = a") (auto simp: l fr split: if_splits)
  next
    case (5 b)
    then show ?case using inv(5) [of b] lk [of b] lka oldr [of b] new
      by (cases "b = a") (auto simp: l fr split: if_splits)
  next
    case (6 u)
    show ?case
    proof (cases "u = t")
      case True
      then show ?thesis by (auto simp: timer_ok_def new x l)
    next
      case False
      then have "timer_ok s u" using 6 inv(6) [of u] by (simp add: l)
      moreover have "set (requests s) \<union> set (requests_wait s) \<subseteq> set (requests s') \<union> set (requests_wait s')"
        by (auto simp: l)
      moreover have "rq s' b = rq s b" if "b \<in> set (requests s) \<union> set (requests_wait s)" for b
        using that fr(3,4) oldr [of b] by auto
      ultimately show ?thesis unfolding timer_ok_def oldt [OF False] by (metis subsetD)
    qed
  next
    case (7 u)
    then show ?case using inv(7) [of u] oldt [of u] fr(2) by (cases "u = t") (auto simp: l timer_dropped_def)
  qed
qed

lemma mk_list_del_add [simp]: "x \<notin> set xs \<Longrightarrow> mk_list_del x (mk_list_add x xs) = xs"
  by (simp add: mk_list_del_def mk_list_add_def remove1_append)

text \<open>A timer, and a request, that were created and released at once leave nothing behind.\<close>

lemma timer_create_destroy:
  assumes "sched_inv s" "flb_sched_timer_create True s = (Some t, s1)"
  shows "flb_sched_timer_destroy t (tm_upd t f s1) = s\<lparr>sched_next := Suc (sched_next s)\<rparr>"
proof -
  have "sched_next s \<notin> set (timers s)" "sched_next s \<notin> set (timers_drop s)" "tm_heap s (sched_next s) = None"
    using node_listsD(3,4,5) [OF sched_invD(2) [OF assms(1)]] by auto
  then show ?thesis
    using assms(2)
    by (auto simp: flb_sched_timer_create_def flb_sched_timer_destroy_def Let_def tm_upd_def
        flb_sched_timer_cb_disable_def tm_unlink_def fun_upd_idem)
qed

lemma request_destroy_fields:
  assumes "sched_inv s" "a \<in> set (requests s) \<union> set (requests_wait s)"
  defines "t \<equiv> r_timer (rq s a)" and "s' \<equiv> flb_sched_request_destroy a s"
  shows "requests s' = mk_list_del a (requests s)" "requests_wait s' = mk_list_del a (requests_wait s)"
    "timers s' = mk_list_del t (timers s)" "timers_drop s' = mk_list_add t (timers_drop s)"
    "timer_coro_list s' = timer_coro_list s" "timer_coro_list_drop s' = timer_coro_list_drop s"
    "stc_heap s' = stc_heap s" "sched_next s' = sched_next s" "req_heap s' = (req_heap s)(a := None)"
    "tm_heap s' = (tm_heap s)(t \<mapsto> (tm s t)\<lparr>t_timer_fd := -1, t_active := False\<rparr>)"
  using sched_inv_req(4) [OF assms(1,2)]
  by (auto simp: s'_def t_def flb_sched_request_destroy_def Let_def flb_sched_timer_invalidate_def
      flb_sched_timer_cb_disable_def tm_unlink_def request_free_def)

lemma flb_sched_request_destroy_inv [flb_inv]:
  assumes "sched_inv s" "a \<in> set (requests s) \<union> set (requests_wait s)"
  shows "sched_inv (flb_sched_request_destroy a s)"
proof -
  define s' where "s' = flb_sched_request_destroy a s"
  define t where "t = r_timer (rq s a)"
  note f = request_destroy_fields [OF assms, folded s'_def t_def]
  note inv = sched_invD [OF assms(1)] and req = sched_inv_req [OF assms(1)]
  have t: "t \<in> set (timers s)" "t \<notin> set (timers_drop s)" using req [OF assms(2)] by (auto simp: t_def)
  have d: "distinct (requests s)" "distinct (requests_wait s)" "distinct (timers s)"
    using node_listsD(1,2) [OF inv(1)] node_listsD(1) [OF inv(2)] by auto
  have oldr: "rq s' b = rq s b" if "b \<noteq> a" for b using that by (simp add: rq_def f)
  have oldt: "tm s' u = tm s u" if "u \<noteq> t" for u using that by (simp add: tm_def f)
  have lk: "req_linked s' b" if "b \<in> set (requests s) \<union> set (requests_wait s)" "b \<noteq> a" for b
  proof -
    have "r_timer (rq s b) \<noteq> t" using sched_inv_timer_inj [OF assms(1) that(1) assms(2)] that(2) t_def by auto
    then show ?thesis
      using req_linked_cong [OF req(1) [OF that(1)], of s'] req(2) [OF that(1)] oldr [OF that(2)] oldt d
      by (simp add: f)
  qed
  have "sched_inv s'"
  proof (rule sched_invI, goal_cases)
    case 1
    then show ?case using node_lists_del [OF inv(1)] by (simp add: f)
  next
    case 2
    then show ?case using node_lists_drop [OF node_lists_upd [OF inv(2), of t] t(1)] t by (simp add: f)
  next
    case 3
    then show ?case using inv(3) by (simp add: f)
  next
    case (4 b)
    then show ?case using inv(4) [of b] lk [of b] oldr [of b] d by (simp add: f)
  next
    case (5 b)
    then show ?case using inv(5) [of b] lk [of b] oldr [of b] d by (simp add: f)
  next
    case (6 u)
    then have u: "u \<noteq> t" "u \<in> set (timers s)" using d by (simp_all add: f)
    then have "timer_ok s u" using inv(6) by simp
    moreover have "b \<in> set (requests s') \<union> set (requests_wait s') \<and> rq s' b = rq s b"
      if "b \<in> set (requests s) \<union> set (requests_wait s)" "r_timer (rq s b) = u" for b
      using that u(1) d oldr [of b] by (auto simp: f t_def)
    ultimately show ?case unfolding timer_ok_def oldt [OF u(1)] by metis
  next
    case (7 u)
    then show ?case using inv(7) [of u] oldt [of u] t(2)
      by (cases "u = t") (auto simp: f timer_dropped_def tm_def)
  qed
  then show ?thesis by (simp add: s'_def)
qed

section \<open>The bag of pending retries\<close>

definition pending :: "flb_sched \<Rightarrow> addr multiset" where
  "pending s = mset (map (\<lambda>a. r_data (rq s a)) (requests s @ requests_wait s))"

lemma mset_map_cong: "(\<And>x. x \<in> set xs \<Longrightarrow> f x = g x) \<Longrightarrow> mset (map f xs) = mset (map g xs)"
  by (metis map_cong)

lemma request_destroy_pending:
  assumes "sched_inv s" "a \<in> set (requests s) \<union> set (requests_wait s)"
  shows "pending (flb_sched_request_destroy a s) = pending s - {#r_data (rq s a)#}"
proof -
  define s' where "s' = flb_sched_request_destroy a s"
  note f = request_destroy_fields [OF assms, folded s'_def] and nl = sched_invD(1) [OF assms(1)]
  let ?xs = "requests s @ requests_wait s"
  have xs: "requests s' @ requests_wait s' = remove1 a ?xs"
    using assms(2) node_listsD(6) [OF nl] by (auto simp: f mk_list_del_def remove1_append remove1_idem)
  have "distinct ?xs" using nl by (simp add: node_lists_def)
  then have "a \<notin> set (remove1 a ?xs)" by (simp only: set_remove1_eq) simp
  then have "map (\<lambda>b. r_data (rq s' b)) (remove1 a ?xs) = map (\<lambda>b. r_data (rq s b)) (remove1 a ?xs)"
    by (intro map_cong [OF refl]) (auto simp only: rq_def f fun_upd_apply split: if_splits)
  then have "pending s' = image_mset (\<lambda>b. r_data (rq s b)) (mset ?xs - {#a#})"
    unfolding pending_def xs by (simp only: mset_map mset_remove1)
  also have "\<dots> = pending s - {#r_data (rq s a)#}"
    using assms(2) by (simp add: pending_def image_mset_Diff)
  finally show ?thesis by (simp add: s'_def)
qed

lemma request_link_pending:
  assumes "node_lists (requests s) (requests_wait s) (req_heap s) (sched_next s)" "sched_next s \<le> a"
    "requests s' = (if w then requests s else mk_list_add a (requests s))"
    "requests_wait s' = (if w then mk_list_add a (requests_wait s) else requests_wait s)"
    "req_heap s' = (req_heap s)(a \<mapsto> r)"
  shows "pending s' = add_mset (r_data r) (pending s)"
proof -
  have "b \<noteq> a" if "b \<in> set (requests s) \<union> set (requests_wait s)" for b
    using node_listsD(8) [OF assms(1) that] assms(2) by auto
  then have "rq s' b = rq s b" if "b \<in> set (requests s) \<union> set (requests_wait s)" for b
    using that by (simp add: rq_def assms(5))
  then have "image_mset (\<lambda>b. r_data (rq s' b)) (mset xs) = image_mset (\<lambda>b. r_data (rq s b)) (mset xs)"
    if "set xs \<subseteq> set (requests s) \<union> set (requests_wait s)" for xs
    using that by (auto intro!: image_mset_cong)
  moreover have "rq s' a = r" by (simp add: rq_def assms(5))
  ultimately show ?thesis by (simp add: pending_def assms(3,4) mk_list_add_def)
qed

text \<open>The three outcomes of the creation of a request for \<open>data\<close> that is due in \<open>seconds\<close>.\<close>

lemma request_enqueue:
  assumes "sched_inv s" "flb_sched_timer_create True s = (Some t, s1)"
    "request_new now seconds data t s1 = (a, s2)"
  shows "sched_inv (snd (schedule_request_wait a s2))"
    "pending (snd (schedule_request_wait a s2)) = add_mset data (pending s)"
    "requests (snd (schedule_request_wait a s2)) = requests s"
    "schedule_request_now fd sec t a s2 = (ret, s3) \<Longrightarrow> ret \<noteq> -1 \<Longrightarrow>
       ret = 0 \<and> sched_inv s3 \<and> pending s3 = add_mset data (pending s) \<and> requests s3 = requests s @ [a] \<and>
       requests_wait s3 = requests_wait s"
    "schedule_request_now fd sec t a s2 = (-1, s3) \<Longrightarrow>
       sched_inv (request_free a (flb_sched_timer_destroy t s3)) \<and>
       pending (request_free a (flb_sched_timer_destroy t s3)) = pending s"
proof -
  note nl = sched_invD(1) [OF assms(1)]
  have ta: "t = sched_next s" "a = Suc (sched_next s)"
    using assms(2,3) by (auto simp: flb_sched_timer_create_def request_new_def Let_def)
  have f: "requests s2 = requests s" "requests_wait s2 = requests_wait s" "timers_drop s2 = timers_drop s"
    "timers s2 = mk_list_add t (timers s)" "sched_next s2 = Suc a" "stc_heap s2 = stc_heap s"
    "timer_coro_list s2 = timer_coro_list s" "timer_coro_list_drop s2 = timer_coro_list_drop s"
    "tm_heap s2 = (tm_heap s)(t \<mapsto> \<lparr>t_active = True, t_type = 1, t_coro = False, t_data = TRequest a,
       t_timer_fd = -1, t_secs = 0, t_cb = 0\<rparr>)"
    "req_heap s2 = (req_heap s)(a \<mapsto> \<lparr>r_fd = -1, r_created = now, r_timeout = seconds, r_data = data, r_timer = t\<rparr>)"
    using assms(2,3) by (auto simp: flb_sched_timer_create_def request_new_def Let_def tm_def sched_consts)
  show "sched_inv (snd (schedule_request_wait a s2))"
    by (rule request_link_inv [OF assms(1), where t = t and a = a and x = "tm s2 t" and r = "rq s2 a"])
      (simp_all add: ta schedule_request_wait_def f rq_def tm_def sched_consts)
  show "pending (snd (schedule_request_wait a s2)) = add_mset data (pending s)"
    by (subst request_link_pending [OF nl, where a = a and w = True and r = "rq s2 a"])
      (simp_all add: ta schedule_request_wait_def f rq_def)
  show "requests (snd (schedule_request_wait a s2)) = requests s" by (simp add: schedule_request_wait_def f)
  show "ret = 0 \<and> sched_inv s3 \<and> pending s3 = add_mset data (pending s) \<and> requests s3 = requests s @ [a] \<and>
       requests_wait s3 = requests_wait s" if now: "schedule_request_now fd sec t a s2 = (ret, s3)" "ret \<noteq> -1"
  proof -
    have g: "ret = 0" "fd \<noteq> -1" "s3 = snd (schedule_request_now fd sec t a s2)"
      using now by (auto simp: schedule_request_now_def Let_def split: if_splits)
    have "sched_inv s3"
      by (rule request_link_inv [OF assms(1), where t = t and a = a and x = "tm s3 t" and r = "rq s3 a"])
        (use g in \<open>simp_all add: ta schedule_request_now_def Let_def f rq_def tm_def sched_consts\<close>)
    moreover have "pending s3 = add_mset data (pending s)"
      by (subst request_link_pending [OF nl, where a = a and w = False and r = "rq s3 a"])
        (use g in \<open>simp_all add: ta schedule_request_now_def Let_def f rq_def\<close>)
    ultimately show ?thesis using g by (simp add: schedule_request_now_def Let_def f mk_list_add_def)
  qed
  show "sched_inv (request_free a (flb_sched_timer_destroy t s3)) \<and>
       pending (request_free a (flb_sched_timer_destroy t s3)) = pending s"
    if now: "schedule_request_now fd sec t a s2 = (-1, s3)"
  proof -
    have s3: "s3 = s2" using now by (auto simp: schedule_request_now_def Let_def split: if_splits)
    have fr: "t \<notin> set (timers s)" "t \<notin> set (timers_drop s)" "tm_heap s t = None" "req_heap s a = None"
      using node_listsD(3,4,5) [OF sched_invD(2) [OF assms(1)]]
        node_listsD(3) [OF nl] node_listsD(8) [OF nl, of a] by (auto simp: ta)
    have "request_free a (flb_sched_timer_destroy t s3) = s\<lparr>sched_next := Suc a\<rparr>"
      using assms(2,3) fr unfolding s3
      by (auto simp: flb_sched_timer_create_def request_new_def request_free_def flb_sched_timer_destroy_def
          Let_def tm_upd_def flb_sched_timer_cb_disable_def tm_unlink_def fun_upd_idem tm_def)
    then show ?thesis using sched_inv_next [OF assms(1), of "Suc a"]
      by (simp add: ta pending_def)
  qed
qed

section \<open>Promotion\<close>

lemma sched_inv_wait_perm:
  assumes "sched_inv s" "mset ws = mset (requests_wait s)"
  shows "sched_inv (s\<lparr>requests_wait := ws\<rparr>)"
proof -
  have "set ws = set (requests_wait s)" "distinct ws = distinct (requests_wait s)"
    using assms(2) by (metis mset_eq_setD, metis mset_eq_imp_distinct_iff)
  then show ?thesis
    using assms(1) unfolding sched_inv_def node_lists_def req_linked_def timer_ok_def timer_dropped_def by simp
qed

lemma promote_one_inv:
  fixes sec :: int
  assumes "sched_inv s" "a \<in> set (requests_wait s)" "fd \<noteq> -1"
  defines "s' \<equiv> snd (schedule_request_now fd sec (r_timer (rq s a)) a
    (s\<lparr>requests_wait := mk_list_del a (requests_wait s)\<rparr>))"
  shows "sched_inv s'"
proof -
  define t where "t = r_timer (rq s a)"
  have f: "requests s' = mk_list_add a (requests s)" "requests_wait s' = mk_list_del a (requests_wait s)"
    "timers s' = timers s" "timers_drop s' = timers_drop s" "timer_coro_list s' = timer_coro_list s"
    "timer_coro_list_drop s' = timer_coro_list_drop s" "stc_heap s' = stc_heap s" "sched_next s' = sched_next s"
    "req_heap s' = (req_heap s)(a \<mapsto> (rq s a)\<lparr>r_fd := fd\<rparr>)"
    "tm_heap s' = (tm_heap s)(t \<mapsto> (tm s t)\<lparr>t_timer_fd := fd, t_secs := sec\<rparr>)"
    using assms(3) by (simp_all add: s'_def t_def schedule_request_now_def Let_def)
  note inv = sched_invD [OF assms(1)] and req = sched_inv_req [OF assms(1)]
  have a: "a \<in> set (requests s) \<union> set (requests_wait s)" "a \<notin> set (requests s)"
    using assms(2) node_listsD(7) [OF inv(1) assms(2)] by auto
  have t: "t \<in> set (timers s)" "t \<notin> set (timers_drop s)" using req [OF a(1)] by (auto simp: t_def)
  have d: "distinct (requests_wait s)" using node_listsD(2) [OF inv(1)] .
  have oldr: "rq s' b = rq s b" if "b \<noteq> a" for b using that by (simp add: rq_def f)
  have oldt: "tm s' u = tm s u" if "u \<noteq> t" for u using that by (simp add: tm_def f)
  have new: "rq s' a = (rq s a)\<lparr>r_fd := fd\<rparr>" "tm s' t = (tm s t)\<lparr>t_timer_fd := fd, t_secs := sec\<rparr>" by (simp_all add: rq_def tm_def f)
  have lk: "req_linked s' b" if "b \<in> set (requests s) \<union> set (requests_wait s)" "b \<noteq> a" for b
  proof -
    have "r_timer (rq s b) \<noteq> t" using sched_inv_timer_inj [OF assms(1) that(1) a(1)] that(2) t_def by auto
    then show ?thesis
      using req_linked_cong [OF req(1) [OF that(1)], of s'] req(2) [OF that(1)] oldr [OF that(2)] oldt
      by (simp add: f)
  qed
  have lka: "req_linked s' a" using req(1) [OF a(1)] new by (simp add: req_linked_def f t_def)
  show ?thesis
  proof (rule sched_invI, goal_cases)
    case 1
    then show ?case using node_lists_raise [OF node_lists_upd [OF inv(1) a(1)] assms(2)] by (simp add: f)
  next
    case 2
    then show ?case using node_lists_upd [OF inv(2), of t] t by (simp add: f)
  next
    case 3
    then show ?case using inv(3) by (simp add: f)
  next
    case (4 b)
    then show ?case using inv(4) [of b] lk [of b] lka oldr [of b] new assms(3) by (cases "b = a") (auto simp: f)
  next
    case (5 b)
    then show ?case using inv(5) [of b] lk [of b] oldr [of b] d by (simp add: f)
  next
    case (6 u)
    have "set (requests s') \<union> set (requests_wait s') = set (requests s) \<union> set (requests_wait s)"
      using a d by (auto simp: f)
    moreover have "r_timer (rq s' b) = r_timer (rq s b)" for b using oldr [of b] new by (cases "b = a") auto
    moreover have "t_active (tm s' u) = t_active (tm s u)" "t_type (tm s' u) = t_type (tm s u)"
      "t_data (tm s' u) = t_data (tm s u)" using oldt [of u] new by (cases "u = t"; simp)+
    ultimately show ?case using inv(6) [of u] 6 unfolding timer_ok_def by (simp add: f)
  next
    case (7 u)
    then show ?case using inv(7) [of u] oldt [of u] t(2) by (cases "u = t") (auto simp: f timer_dropped_def)
  qed
qed

lemma fold_mk_list_add: "fold mk_list_add xs ys = ys @ xs"
  by (induction xs arbitrary: ys) (auto simp: mk_list_add_def)

lemma promote_loop_inv:
  assumes "promote_loop now fds as failed s = (failed', s')"
    "sched_inv (s\<lparr>requests_wait := requests_wait s @ failed\<rparr>)" "distinct as" "set as \<subseteq> set (requests_wait s)"
  shows "sched_inv (s'\<lparr>requests_wait := requests_wait s' @ failed'\<rparr>)"
  using assms
proof (induction as arbitrary: failed s)
  case (Cons a as)
  define s1 where "s1 = s\<lparr>requests_wait := mk_list_del a (requests_wait s)\<rparr>"
  have d: "distinct (requests_wait s)" "a \<in> set (requests_wait s)" "a \<notin> set failed"
    using node_listsD(2) [OF sched_invD(1) [OF Cons.prems(2)]] Cons.prems(4) by auto
  show ?case
  proof (cases "promote_seconds now (rq s a)")
    case None
    then show ?thesis using Cons by simp
  next
    case (Some sec)
    define s2 where "s2 = snd (schedule_request_now (fds a) sec (r_timer (rq s1 a)) a s1)"
    show ?thesis
    proof (cases "fds a = -1")
      case True
      then have "promote_loop now fds as (mk_list_add a failed) s1 = (failed', s')"
        using Cons.prems(1) Some by (simp add: s1_def schedule_request_now_def Let_def)
      moreover have "sched_inv (s1\<lparr>requests_wait := requests_wait s1 @ mk_list_add a failed\<rparr>)"
        using sched_inv_wait_perm [OF Cons.prems(2), of "requests_wait s1 @ mk_list_add a failed"] d
        by (simp add: s1_def mk_list_add_def mk_list_del_def)
      moreover have "set as \<subseteq> set (requests_wait s1)" using Cons.prems(3,4) d by (auto simp: s1_def)
      ultimately show ?thesis
        using Cons.IH Cons.prems(3) by simp
    next
      case False
      have s2': "s2\<lparr>requests_wait := requests_wait s2 @ failed\<rparr> =
        snd (schedule_request_now (fds a) sec (r_timer (rq (s\<lparr>requests_wait := requests_wait s @ failed\<rparr>) a)) a
          (s\<lparr>requests_wait := requests_wait s @ failed,
             requests_wait := mk_list_del a (requests_wait s @ failed)\<rparr>))"
        by (rule flb_sched.equality)
          (use False d in \<open>simp_all add: s2_def s1_def schedule_request_now_def Let_def rq_upd_def tm_upd_def
            mk_list_del_def remove1_append rq_def tm_def\<close>)
      have "sched_inv (s2\<lparr>requests_wait := requests_wait s2 @ failed\<rparr>)"
        unfolding s2' using promote_one_inv [OF Cons.prems(2), of a "fds a" sec] d False by simp
      moreover have "promote_loop now fds as failed s2 = (failed', s')"
        using Cons.prems(1) Some False by (simp add: s1_def s2_def schedule_request_now_def Let_def)
      moreover have "set as \<subseteq> set (requests_wait s2)"
        using Cons.prems(3,4) d False by (auto simp: s2_def s1_def schedule_request_now_def Let_def)
      ultimately show ?thesis
        using Cons.IH Cons.prems(3) by simp
    qed
  qed
qed auto

lemma schedule_request_now_keeps:
  assumes "schedule_request_now fd sec t a s = (ret, s')"
  shows "r_data (rq s' b) = r_data (rq s b) \<and> r_created (rq s' b) = r_created (rq s b) \<and>
    r_timeout (rq s' b) = r_timeout (rq s b) \<and> r_timer (rq s' b) = r_timer (rq s b)"
  using assms by (auto simp: schedule_request_now_def Let_def split: if_splits)

definition promotable :: "int \<Rightarrow> flb_sched \<Rightarrow> addr \<Rightarrow> bool" where
  "promotable now s a \<longleftrightarrow> now - r_created (rq s a) + FLB_SCHED_REQUEST_FRAME \<ge> r_timeout (rq s a)"

lemma promote_seconds_None: "promote_seconds now (rq s a) = None \<longleftrightarrow> \<not> promotable now s a"
  by (auto simp: promote_seconds_def promotable_def Let_def sched_consts)

lemma promote_loop_lists:
  assumes "promote_loop now fds as failed s = (failed', s')" "distinct as"
  shows "failed' = failed @ filter (\<lambda>a. promotable now s a \<and> fds a = -1) as \<and>
    requests s' = requests s @ filter (\<lambda>a. promotable now s a \<and> fds a \<noteq> -1) as \<and>
    requests_wait s' = fold mk_list_del (filter (promotable now s) as) (requests_wait s) \<and>
    (\<forall>b. r_data (rq s' b) = r_data (rq s b) \<and> r_created (rq s' b) = r_created (rq s b) \<and>
         r_timeout (rq s' b) = r_timeout (rq s b) \<and> r_timer (rq s' b) = r_timer (rq s b))"
  using assms
proof (induction as arbitrary: failed s)
  case (Cons a as)
  define s1 where "s1 = s\<lparr>requests_wait := mk_list_del a (requests_wait s)\<rparr>"
  show ?case
  proof (cases "promotable now s a")
    case False
    then have "promote_seconds now (rq s a) = None" by (simp add: promote_seconds_None)
    then show ?thesis using Cons False by simp
  next
    case True
    then obtain sec where sec: "promote_seconds now (rq s a) = Some sec"
      by (metis not_Some_eq promote_seconds_None)
    obtain ret s2 where s2: "schedule_request_now (fds a) sec (r_timer (rq s1 a)) a s1 = (ret, s2)" by fastforce
    have keep: "\<forall>b. r_data (rq s2 b) = r_data (rq s b) \<and> r_created (rq s2 b) = r_created (rq s b) \<and>
         r_timeout (rq s2 b) = r_timeout (rq s b) \<and> r_timer (rq s2 b) = r_timer (rq s b)"
      using schedule_request_now_keeps [OF s2] by (simp add: s1_def)
    then have p: "promotable now s2 = promotable now s" by (simp add: promotable_def fun_eq_iff)
    have r: "ret = (if fds a = -1 then -1 else 0)" "requests_wait s2 = mk_list_del a (requests_wait s)"
      "requests s2 = (if fds a = -1 then requests s else mk_list_add a (requests s))"
      using s2 by (auto simp: s1_def schedule_request_now_def Let_def split: if_splits)
    have "promote_loop now fds as (if fds a = -1 then mk_list_add a failed else failed) s2 = (failed', s')"
      using Cons.prems(1) sec s2 r(1) by (simp add: s1_def split: if_splits)
    from Cons.IH [OF this] Cons.prems(2) show ?thesis using True keep r
      by (simp add: p mk_list_add_def)
  qed
qed simp

text \<open>The timers of the promoted requests are armed, and no other timer changes.\<close>

lemma promote_loop_armed:
  assumes "promote_loop now fds as failed s = (failed', s')" "distinct as"
    "inj_on (\<lambda>a. r_timer (rq s a)) (set as)"
  shows "(\<forall>a\<in>set as. promotable now s a \<and> fds a \<noteq> -1 \<longrightarrow>
      Some (t_secs (tm s' (r_timer (rq s a)))) = promote_seconds now (rq s a)) \<and>
    (\<forall>t. t \<notin> (\<lambda>a. r_timer (rq s a)) ` set as \<longrightarrow> tm s' t = tm s t)"
  using assms
proof (induction as arbitrary: failed s)
  case (Cons a as)
  define s1 where "s1 = s\<lparr>requests_wait := mk_list_del a (requests_wait s)\<rparr>"
  show ?case
  proof (cases "promotable now s a")
    case False
    then have "promote_seconds now (rq s a) = None" by (simp add: promote_seconds_None)
    then show ?thesis using Cons False by auto
  next
    case True
    then obtain sec where sec: "promote_seconds now (rq s a) = Some sec"
      by (metis not_Some_eq promote_seconds_None)
    obtain ret s2 where s2: "schedule_request_now (fds a) sec (r_timer (rq s1 a)) a s1 = (ret, s2)" by fastforce
    have keep: "\<forall>b. r_created (rq s2 b) = r_created (rq s b) \<and>
         r_timeout (rq s2 b) = r_timeout (rq s b) \<and> r_timer (rq s2 b) = r_timer (rq s b)"
      using schedule_request_now_keeps [OF s2] by (simp add: s1_def)
    then have p: "promotable now s2 = promotable now s" "(\<lambda>b. r_timer (rq s2 b)) = (\<lambda>b. r_timer (rq s b))"
      "\<And>b. promote_seconds now (rq s2 b) = promote_seconds now (rq s b)"
      by (simp_all add: promotable_def promote_seconds_def Let_def fun_eq_iff)
    have r: "ret = (if fds a = -1 then -1 else 0)"
      "\<And>u. tm s2 u = (if u = r_timer (rq s a) \<and> fds a \<noteq> -1
         then (tm s u)\<lparr>t_timer_fd := fds a, t_secs := sec\<rparr> else tm s u)"
      using s2 by (auto simp: s1_def schedule_request_now_def Let_def split: if_splits)
    have "promote_loop now fds as (if fds a = -1 then mk_list_add a failed else failed) s2 = (failed', s')"
      using Cons.prems(1) sec s2 r(1) by (simp add: s1_def split: if_splits)
    note ih = Cons.IH [OF this, unfolded p(2)]
    have na: "r_timer (rq s a) \<notin> (\<lambda>b. r_timer (rq s b)) ` set as" using Cons.prems(2,3) by auto
    have inj: "inj_on (\<lambda>b. r_timer (rq s b)) (set as)" using Cons.prems(3) by (simp add: inj_on_def)
    have ih1: "Some (t_secs (tm s' (r_timer (rq s b)))) = promote_seconds now (rq s b)"
      if "b \<in> set as" "promotable now s b" "fds b \<noteq> -1" for b
      using ih inj Cons.prems(2) that keep p(1,3) by simp
    have ih2: "tm s' t = tm s2 t" if "t \<notin> (\<lambda>b. r_timer (rq s b)) ` set as" for t
      using ih inj Cons.prems(2) that by simp
    have "Some (t_secs (tm s' (r_timer (rq s a)))) = promote_seconds now (rq s a)" if "fds a \<noteq> -1"
      using ih2 [OF na] r(2) sec that by simp
    moreover have "tm s' t = tm s t" if "t \<notin> (\<lambda>b. r_timer (rq s b)) ` set (a # as)" for t
      using ih2 [of t] r(2) [of t] that by simp
    ultimately show ?thesis using ih1 by auto
  qed
qed simp

lemma fold_mk_list_del: "distinct ys \<Longrightarrow> fold mk_list_del xs ys = filter (\<lambda>y. y \<notin> set xs) ys"
proof (induction xs arbitrary: ys)
  case (Cons x xs)
  then show ?case
    by (auto simp: mk_list_del_def distinct_remove1_removeAll removeAll_filter_not_eq intro!: filter_cong)
qed simp

lemma promote_lists:
  assumes "sched_inv s" "schedule_request_promote now fds s = (ret, s')"
  shows "sched_inv s'"
    "requests s' = requests s @ filter (\<lambda>a. promotable now s a \<and> fds a \<noteq> -1) (requests_wait s)"
    "requests_wait s' = filter (\<lambda>a. \<not> promotable now s a) (requests_wait s) @
       filter (\<lambda>a. promotable now s a \<and> fds a = -1) (requests_wait s)"
    "r_data (rq s' b) = r_data (rq s b)" "r_created (rq s' b) = r_created (rq s b)"
    "r_timeout (rq s' b) = r_timeout (rq s b)" "r_timer (rq s' b) = r_timer (rq s b)"
    "a \<in> set (requests_wait s) \<Longrightarrow> promotable now s a \<Longrightarrow> fds a \<noteq> -1 \<Longrightarrow>
       promote_seconds now (rq s a) = Some (t_secs (tm s' (r_timer (rq s a))))"
proof -
  obtain failed s1 where s1: "promote_loop now fds (requests_wait s) [] s = (failed, s1)" by fastforce
  have d: "distinct (requests_wait s)" using node_listsD(2) [OF sched_invD(1) [OF assms(1)]] .
  note l = promote_loop_lists [OF s1 d]
  have s': "s' = s1\<lparr>requests_wait := requests_wait s1 @ failed\<rparr>"
    using assms(2) s1 by (simp add: schedule_request_promote_def fold_mk_list_add)
  have "sched_inv (s\<lparr>requests_wait := requests_wait s @ []\<rparr>)" using assms(1) by simp
  from promote_loop_inv [OF s1 this d] show "sched_inv s'" by (simp add: s')
  show "requests s' = requests s @ filter (\<lambda>a. promotable now s a \<and> fds a \<noteq> -1) (requests_wait s)"
    using l by (simp add: s')
  have "filter (\<lambda>y. y \<notin> set (filter (promotable now s) (requests_wait s))) (requests_wait s) =
      filter (\<lambda>a. \<not> promotable now s a) (requests_wait s)"
    by (rule filter_cong) auto
  then show "requests_wait s' = filter (\<lambda>a. \<not> promotable now s a) (requests_wait s) @
       filter (\<lambda>a. promotable now s a \<and> fds a = -1) (requests_wait s)"
    using l by (simp add: s' fold_mk_list_del [OF d])
  have "inj_on (\<lambda>a. r_timer (rq s a)) (set (requests_wait s))"
    using sched_inv_timer_inj [OF assms(1)] by (simp add: inj_on_def)
  then show "promote_seconds now (rq s a) = Some (t_secs (tm s' (r_timer (rq s a))))"
    if "a \<in> set (requests_wait s)" "promotable now s a" "fds a \<noteq> -1"
    using promote_loop_armed [OF s1 d] that by (simp add: s')
qed (use promote_loop_lists [OF _ node_listsD(2) [OF sched_invD(1) [OF assms(1)]]] assms(2) in
      \<open>auto simp: schedule_request_promote_def split: prod.splits\<close>)

lemma promote_pending:
  assumes "sched_inv s" "schedule_request_promote now fds s = (ret, s')"
  shows "pending s' = pending s"
proof -
  note l = promote_lists [OF assms]
  let ?f = "\<lambda>a. r_data (rq s a)" and ?p = "promotable now s"
  have "mset (map ?f (filter (\<lambda>a. ?p a \<and> fds a \<noteq> -1) xs)) + (mset (map ?f (filter (\<lambda>a. \<not> ?p a) xs)) +
      mset (map ?f (filter (\<lambda>a. ?p a \<and> fds a = -1) xs))) = mset (map ?f xs)" for xs
    by (induction xs) auto
  then show ?thesis unfolding pending_def l(2,3) by (simp add: l(4) add.assoc)
qed

text \<open>The wait time of a request before the second that is added to it; \<open>None\<close> when it is not computed.\<close>

definition request_backoff :: "(nat \<Rightarrow> int) \<Rightarrow> bool \<Rightarrow> int \<Rightarrow> int \<Rightarrow> nat \<Rightarrow> int option" where
  "request_backoff rand down base cap n = (if down then Some 0 else backoff_full_jitter rand base cap n)"

text \<open>When a request is refused: an allocation fails, or it is due within the frame and its timer cannot be created.\<close>

definition request_refused :: "bool \<Rightarrow> bool \<Rightarrow> int \<Rightarrow> int option \<Rightarrow> bool" where
  "request_refused tok rok fd wait \<longleftrightarrow> \<not> tok \<or> \<not> rok \<or> (\<exists>w. wait = Some w \<and> w + 1 \<le> FLB_SCHED_REQUEST_FRAME) \<and> fd = -1"

lemma request_backoff_range:
  assumes "request_backoff rand down base cap n = Some w" "0 < base" "base \<le> cap" "cap < RAND_MAX"
  shows "if down then w = 0 else base \<le> w \<and> w \<le> min cap (base * 2 ^ n)"
proof (cases down)
  case False
  have "base \<le> base * 2 ^ n" using assms(2) by simp
  moreover have "xmin cap (base * ipow 2 n) = min cap (base * 2 ^ n)" by (simp add: xmin_def ipow_eq min_def)
  ultimately show ?thesis
    using assms False random_uniform_range [of base "min cap (base * 2 ^ n)" rand w]
    by (auto simp: request_backoff_def backoff_full_jitter_def Let_def)
qed (use assms(1) in \<open>simp add: request_backoff_def\<close>)

lemma request_create_cases:
  assumes "sched_inv s" "0 < base" "base \<le> cap" "cap < RAND_MAX"
    and c: "flb_sched_request_create tok rok rand now fd down base cap s data n = Some (ret, s')"
  shows "sched_inv s' \<and>
    (if ret = -1 then pending s' = pending s
     else pending s' = add_mset data (pending s) \<and>
       (if down then ret = 1 else base + 1 \<le> ret \<and> ret \<le> min cap (base * 2 ^ n) + 1) \<and>
       (if ret > FLB_SCHED_REQUEST_FRAME then requests s' = requests s
        else requests_wait s' = requests_wait s))"
proof (cases "tok \<and> rok")
  case False
  have p: "pending (snd (flb_sched_timer_create tok s)) = pending s"
    by (simp add: flb_sched_timer_create_def Let_def pending_def)
  have "ret = -1 \<and> s' = snd (flb_sched_timer_create tok s)"
    using c False by (auto simp: flb_sched_request_create_def flb_sched_timer_create_def Let_def split: if_splits)
  then show ?thesis using p flb_sched_timer_create_inv [OF assms(1), of tok] by simp
next
  case True
  obtain t s1 where s1: "flb_sched_timer_create True s = (Some t, s1)"
    by (simp add: flb_sched_timer_create_def Let_def)
  obtain secs where secs: "(if down then Some 0 else backoff_full_jitter rand base cap n) = Some secs"
    using c True s1 by (auto simp: flb_sched_request_create_def split: option.splits)
  obtain a s2 where s2: "request_new now (secs + 1) data t s1 = (a, s2)" by fastforce
  obtain r s3 where s3: "schedule_request_now fd (secs + 1) t a s2 = (r, s3)" by fastforce
  note q = request_enqueue [OF assms(1) s1 s2]
  have bnd: "if down then secs = 0 else base \<le> secs \<and> secs \<le> min cap (base * 2 ^ n)"
    by (rule request_backoff_range [OF _ assms(2-4)]) (use secs in \<open>simp add: request_backoff_def\<close>)
  have e: "Some (ret, s') = (if secs + 1 > FLB_SCHED_REQUEST_FRAME then Some (secs + 1, snd (schedule_request_wait a s2))
      else if r = -1 then Some (-1, request_free a (flb_sched_timer_destroy t s3)) else Some (secs + 1, s3))"
    using c True s1 secs s2 s3 by (simp add: flb_sched_request_create_def Let_def split: if_splits)
  have "0 \<le> secs" using bnd assms(2) by (auto split: if_splits)
  then show ?thesis
    using e bnd q(1,2,3) q(4) [OF s3] q(5) [of fd _ s3] s3 by (auto split: if_splits)
qed

text \<open>What a new request \<open>a\<close> with its timer \<open>t\<close> adds: the wait time is stored, request and timer refer to each other, and the
  timer is armed for the wait time when that is within the frame.\<close>

definition request_placed :: "addr \<Rightarrow> addr \<Rightarrow> int \<Rightarrow> int \<Rightarrow> int \<Rightarrow> addr \<Rightarrow> flb_sched \<Rightarrow> flb_sched \<Rightarrow> bool" where
  "request_placed a t now fd seconds data s s' \<longleftrightarrow> a \<notin> dom (req_heap s) \<and> t \<notin> dom (tm_heap s) \<and>
     (let near = (seconds \<le> FLB_SCHED_REQUEST_FRAME); fd' = (if near then fd else -1) in
      req_heap s' = (req_heap s)(a \<mapsto> \<lparr>r_fd = fd', r_created = now, r_timeout = seconds, r_data = data, r_timer = t\<rparr>) \<and>
      tm_heap s' = (tm_heap s)(t \<mapsto> \<lparr>t_active = True, t_type = FLB_SCHED_TIMER_REQUEST, t_coro = False, t_data = TRequest a,
        t_timer_fd = fd', t_secs = (if near then seconds else 0), t_cb = 0\<rparr>) \<and>
      requests s' = (if near then requests s @ [a] else requests s) \<and>
      requests_wait s' = (if near then requests_wait s else requests_wait s @ [a]))"

lemma request_create_stored:
  assumes "sched_inv s" "0 < base" "base \<le> cap" "cap < RAND_MAX"
    and c: "flb_sched_request_create tok rok rand now fd down base cap s data n = Some (ret, s')"
  shows "ret = -1 \<longleftrightarrow> request_refused tok rok fd (request_backoff rand down base cap n)"
    "ret \<noteq> -1 \<Longrightarrow> request_backoff rand down base cap n = Some (ret - 1)"
    "ret \<noteq> -1 \<Longrightarrow> request_placed (Suc (sched_next s)) (sched_next s) now fd ret data s s'"
proof -
  have pos: "0 \<le> w" if "request_backoff rand down base cap n = Some w" for w
    using request_backoff_range [OF that assms(2-4)] assms(2) by (auto split: if_splits)
  have "\<forall>a\<in>dom (req_heap s). a < sched_next s" "\<forall>t\<in>dom (tm_heap s). t < sched_next s"
    using assms(1) by (auto simp: sched_inv_def node_lists_def)
  then have fresh: "Suc (sched_next s) \<notin> dom (req_heap s)" "sched_next s \<notin> dom (tm_heap s)"
    using not_less_iff_gr_or_eq Suc_lessD by blast+
  note unf = c [unfolded flb_sched_request_create_def flb_sched_timer_create_def Let_def request_new_def
      schedule_request_wait_def schedule_request_now_def request_backoff_def [symmetric]]
  show "ret = -1 \<longleftrightarrow> request_refused tok rok fd (request_backoff rand down base cap n)"
    using unf pos by (auto simp: request_refused_def split: if_splits option.splits)
  show "ret \<noteq> -1 \<Longrightarrow> request_backoff rand down base cap n = Some (ret - 1)"
    using unf pos by (auto split: if_splits option.splits)
  show "ret \<noteq> -1 \<Longrightarrow> request_placed (Suc (sched_next s)) (sched_next s) now fd ret data s s'"
    using unf pos fresh
    by (auto simp: request_placed_def Let_def rq_upd_def tm_upd_def rq_def tm_def mk_list_add_def split: if_splits option.splits)
qed

lemma request_invalidate_cases:
  assumes "sched_inv s" "flb_sched_request_invalidate s data = (ret, s')"
  shows "sched_inv s' \<and> pending s' = pending s - {#data#} \<and> (ret = 0 \<longleftrightarrow> data \<in># pending s) \<and>
    (ret = 0 \<or> ret = -1 \<and> s' = s)"
proof -
  let ?P = "\<lambda>a. r_data (rq s a) = data"
  have mem: "data \<in># pending s \<longleftrightarrow> (\<exists>a \<in> set (requests s) \<union> set (requests_wait s). ?P a)"
    by (auto simp: pending_def image_iff)
  consider a where "a \<in> set (requests s) \<union> set (requests_wait s)" "?P a" "ret = 0"
      "s' = flb_sched_request_destroy a s"
    | "\<forall>a \<in> set (requests s) \<union> set (requests_wait s). \<not> ?P a" "ret = -1" "s' = s"
  proof (cases "List.find ?P (requests s)")
    case None
    show ?thesis
    proof (cases "List.find ?P (requests_wait s)")
      case None': None
      have "ret = -1" "s' = s" using None None' assms(2) by (simp_all add: flb_sched_request_invalidate_def)
      moreover have "\<forall>a \<in> set (requests s) \<union> set (requests_wait s). \<not> ?P a"
        using find_None_all [OF None] find_None_all [OF None'] by blast
      ultimately show ?thesis using that(2) by blast
    next
      case (Some a)
      then show ?thesis
        using that(1) [of a] None assms(2) find_Some_in [OF Some] by (simp add: flb_sched_request_invalidate_def)
    qed
  next
    case (Some a)
    then show ?thesis
      using that(1) [of a] assms(2) find_Some_in [OF Some] by (simp add: flb_sched_request_invalidate_def)
  qed
  then show ?thesis
  proof cases
    case 1
    then show ?thesis
      using flb_sched_request_destroy_inv [OF assms(1)] request_destroy_pending [OF assms(1)] mem by blast
  next
    case 2
    then have "data \<notin># pending s" using mem by blast
    then show ?thesis using 2 assms(1) by simp
  qed
qed

section \<open>The contract of the scheduler\<close>

text \<open>What the engine relies on: the scheduler is a bag of pending retries. Adding may fail and
  then changes nothing, cancelling removes one occurrence and tells whether there was one, and the
  passing of time loses nothing.\<close>

locale retry_bag =
  fixes inv :: "'s \<Rightarrow> bool" and bag :: "'s \<Rightarrow> addr multiset"
    and valid :: "'e \<Rightarrow> bool"
    and enq :: "'e \<Rightarrow> addr \<Rightarrow> 's \<Rightarrow> bool \<times> 's"
    and cancel :: "addr \<Rightarrow> 's \<Rightarrow> bool \<times> 's"
    and tick :: "'e \<Rightarrow> 's \<Rightarrow> 's"
  assumes enq: "inv s \<Longrightarrow> valid e \<Longrightarrow> enq e d s = (ok, s') \<Longrightarrow>
      inv s' \<and> bag s' = (if ok then add_mset d (bag s) else bag s)"
    and cancel: "inv s \<Longrightarrow> cancel d s = (ok, s') \<Longrightarrow>
      inv s' \<and> bag s' = bag s - {#d#} \<and> (ok \<longleftrightarrow> d \<in># bag s)"
    and tick: "inv s \<Longrightarrow> inv (tick e s) \<and> bag (tick e s) = bag s"
begin

lemma enq_cancel:
  assumes "inv s" "valid e" "enq e d s = (True, s1)"
  shows "\<exists>s2. cancel d s1 = (True, s2) \<and> inv s2 \<and> bag s2 = bag s"
proof -
  obtain ok s2 where c: "cancel d s1 = (ok, s2)" by fastforce
  have "inv s1" "bag s1 = add_mset d (bag s)" using enq [OF assms] by auto
  then show ?thesis using cancel [OF _ c] c by auto
qed

lemma ticks: "inv s \<Longrightarrow> inv (fold tick es s) \<and> bag (fold tick es s) = bag s"
  by (induction es arbitrary: s) (auto simp: tick)

text \<open>A retry stays pending, whatever else is added and however often time passes.\<close>

lemma enq_stays:
  assumes "inv s" "valid e" "enq e d s = (True, s1)"
  shows "fst (cancel d (fold tick es s1))"
proof -
  have "inv (fold tick es s1)" "d \<in># bag (fold tick es s1)"
    using ticks [of s1 es] enq [OF assms] by auto
  then show ?thesis using cancel by (metis prod.collapse)
qed

end

record sched_env =
  x_timer_ok :: bool
  x_req_ok :: bool
  x_rand :: "nat \<Rightarrow> int"
  x_now :: int
  x_fd :: int
  x_shutting_down :: bool
  x_base :: int
  x_cap :: int
  x_tries :: nat
  x_fds :: "addr \<Rightarrow> int"

definition env_valid :: "sched_env \<Rightarrow> bool" where
  "env_valid e \<longleftrightarrow> 0 < x_base e \<and> x_base e \<le> x_cap e \<and> x_cap e < RAND_MAX"

definition sched_enq :: "sched_env \<Rightarrow> addr \<Rightarrow> flb_sched \<Rightarrow> bool \<times> flb_sched" where
  "sched_enq e d s =
     (case flb_sched_request_create (x_timer_ok e) (x_req_ok e) (x_rand e) (x_now e) (x_fd e)
             (x_shutting_down e) (x_base e) (x_cap e) s d (x_tries e) of
        None \<Rightarrow> (False, s) | Some (ret, s') \<Rightarrow> (ret \<noteq> -1, s'))"

definition sched_cancel :: "addr \<Rightarrow> flb_sched \<Rightarrow> bool \<times> flb_sched" where
  "sched_cancel d s = (case flb_sched_request_invalidate s d of (ret, s') \<Rightarrow> (ret = 0, s'))"

definition sched_tick :: "sched_env \<Rightarrow> flb_sched \<Rightarrow> flb_sched" where
  "sched_tick e s = snd (schedule_request_promote (x_now e) (x_fds e) s)"

interpretation sched: retry_bag sched_inv pending env_valid sched_enq sched_cancel sched_tick
proof (unfold_locales, goal_cases)
  case (1 s e d ok s')
  define r where "r = flb_sched_request_create (x_timer_ok e) (x_req_ok e) (x_rand e) (x_now e) (x_fd e)
             (x_shutting_down e) (x_base e) (x_cap e) s d (x_tries e)"
  have e: "sched_enq e d s = (case r of None \<Rightarrow> (False, s) | Some (ret, s') \<Rightarrow> (ret \<noteq> -1, s'))"
    by (simp add: sched_enq_def r_def)
  show ?case
  proof (cases r)
    case None
    then show ?thesis using 1 e by simp
  next
    case (Some p)
    then have "r = Some (fst p, snd p)" by simp
    from request_create_cases [OF 1(1) _ _ _ this [unfolded r_def]] 1(2,3) show ?thesis
      unfolding e Some env_valid_def by (auto simp: case_prod_beta split: if_splits)
  qed
next
  case (2 s d ok s')
  obtain ret s2 where "flb_sched_request_invalidate s d = (ret, s2)" by fastforce
  then show ?case using 2 request_invalidate_cases [OF 2(1)] by (auto simp: sched_cancel_def)
next
  case (3 s e)
  obtain ret s2 where "schedule_request_promote (x_now e) (x_fds e) s = (ret, s2)" by fastforce
  then show ?case using promote_lists(1) [OF 3] promote_pending [OF 3] by (simp add: sched_tick_def)
qed

section \<open>Release\<close>

lemma fold_request_destroy:
  assumes "sched_inv s" "distinct as" "set as \<subseteq> set (requests s) \<union> set (requests_wait s)"
  shows "sched_inv (fold flb_sched_request_destroy as s) \<and>
    set (requests (fold flb_sched_request_destroy as s)) = set (requests s) - set as \<and>
    set (requests_wait (fold flb_sched_request_destroy as s)) = set (requests_wait s) - set as \<and>
    length (timers (fold flb_sched_request_destroy as s)) + length (timers_drop (fold flb_sched_request_destroy as s))
      = length (timers s) + length (timers_drop s) \<and>
    stc_heap (fold flb_sched_request_destroy as s) = stc_heap s"
  using assms
proof (induction as arbitrary: s)
  case (Cons a as)
  define s1 where "s1 = flb_sched_request_destroy a s"
  have a: "a \<in> set (requests s) \<union> set (requests_wait s)" using Cons.prems(3) by simp
  note f = request_destroy_fields [OF Cons.prems(1) a, folded s1_def]
  have inv1: "sched_inv s1" using flb_sched_request_destroy_inv [OF Cons.prems(1) a] by (simp add: s1_def)
  have d: "distinct (requests s)" "distinct (requests_wait s)"
    using node_listsD(1,2) [OF sched_invD(1) [OF Cons.prems(1)]] by auto
  have len: "length (timers s1) + length (timers_drop s1) = length (timers s) + length (timers_drop s)"
    using sched_inv_req(2) [OF Cons.prems(1) a] by (cases "timers s") (auto simp: f length_mk_list_del)
  have "set as \<subseteq> set (requests s1) \<union> set (requests_wait s1)" using Cons.prems(2,3) d by (auto simp: f)
  from Cons.IH [OF inv1 _ this] Cons.prems(2) show ?case
    using d len by (auto simp: f simp flip: s1_def)
qed simp

lemma timer_destroy_fields:
  assumes "t \<in> set (timers s) \<union> set (timers_drop s)"
  shows "timers (flb_sched_timer_destroy t s) = mk_list_del t (timers s)"
    "timers_drop (flb_sched_timer_destroy t s) = mk_list_del t (timers_drop s)"
    "tm_heap (flb_sched_timer_destroy t s) = (tm_heap s)(t := None)"
    "req_heap (flb_sched_timer_destroy t s) = req_heap s"
    "stc_heap (flb_sched_timer_destroy t s) = stc_heap s"
    "requests (flb_sched_timer_destroy t s) = requests s"
    "requests_wait (flb_sched_timer_destroy t s) = requests_wait s"
  by (auto simp: flb_sched_timer_destroy_def flb_sched_timer_cb_disable_def tm_unlink_def Let_def fun_eq_iff)

lemma fold_timer_destroy:
  assumes "set ts \<subseteq> set (timers s) \<union> set (timers_drop s)" "distinct ts" "distinct (timers s)" "distinct (timers_drop s)"
  shows "timers (fold flb_sched_timer_destroy ts s) = filter (\<lambda>t. t \<notin> set ts) (timers s) \<and>
    timers_drop (fold flb_sched_timer_destroy ts s) = filter (\<lambda>t. t \<notin> set ts) (timers_drop s) \<and>
    tm_heap (fold flb_sched_timer_destroy ts s) = (\<lambda>t. if t \<in> set ts then None else tm_heap s t) \<and>
    req_heap (fold flb_sched_timer_destroy ts s) = req_heap s \<and>
    stc_heap (fold flb_sched_timer_destroy ts s) = stc_heap s"
  using assms
proof (induction ts arbitrary: s)
  case (Cons t ts)
  have t: "t \<in> set (timers s) \<union> set (timers_drop s)" using Cons.prems(1) by simp
  note f = timer_destroy_fields [OF t]
  have sub: "set ts \<subseteq> set (timers (flb_sched_timer_destroy t s)) \<union> set (timers_drop (flb_sched_timer_destroy t s))"
    using Cons.prems by (auto simp: f)
  have flt: "filter (\<lambda>u. u \<notin> set ts) (mk_list_del t xs) = filter (\<lambda>u. u \<notin> set (t # ts)) xs" if "distinct xs" for xs
    using fold_mk_list_del [OF that, of "t # ts"] fold_mk_list_del [of "mk_list_del t xs" ts] that by simp
  from Cons.IH [OF sub] Cons.prems show ?case by (auto simp: f flt fun_eq_iff)
qed simp

lemma sched_destroy_all:
  assumes "sched_inv s" "flb_sched_destroy s = (c, s')"
  shows "req_heap s' = Map.empty" "tm_heap s' = Map.empty" "stc_heap s' = stc_heap s"
    "c = int (length (requests s)) + int (length (requests_wait s)) + int (length (timers s)) +
         int (length (timers_drop s))"
proof -
  define s1 where "s1 = fold flb_sched_request_destroy (requests s) s"
  define s2 where "s2 = fold flb_sched_request_destroy (requests_wait s1) s1"
  define s3 where "s3 = fold flb_sched_timer_destroy (timers s2) s2"
  have s': "s' = fold flb_sched_timer_destroy (timers_drop s3) s3"
    and c: "c = int (length (requests s)) + int (length (requests_wait s1)) + int (length (timers s2)) +
          int (length (timers_drop s3))"
    using assms(2) by (simp_all add: flb_sched_destroy_def Let_def s1_def s2_def s3_def)
  have d: "distinct (requests s)" using node_listsD(1) [OF sched_invD(1) [OF assms(1)]] .
  have "set (requests s) \<inter> set (requests_wait s) = {}"
    using sched_invD(1) [OF assms(1)] by (simp add: node_lists_def)
  then have 1: "sched_inv s1" "requests s1 = []" "set (requests_wait s1) = set (requests_wait s)"
    "length (timers s1) + length (timers_drop s1) = length (timers s) + length (timers_drop s)"
    "stc_heap s1 = stc_heap s"
    using fold_request_destroy [OF assms(1) d] by (auto simp: s1_def)
  have d1: "distinct (requests_wait s1)" using node_listsD(2) [OF sched_invD(1) [OF 1(1)]] .
  have len: "length (requests_wait s1) = length (requests_wait s)"
    using 1(3) d1 node_listsD(2) [OF sched_invD(1) [OF assms(1)]] by (metis distinct_card)
  have 2: "sched_inv s2" "requests s2 = []" "requests_wait s2 = []"
    "length (timers s2) + length (timers_drop s2) = length (timers s) + length (timers_drop s)"
    "stc_heap s2 = stc_heap s"
    using fold_request_destroy [OF 1(1) d1] 1 by (auto simp: s2_def)
  note nt = node_listsD [OF sched_invD(2) [OF 2(1)]]
  have 3: "timers s3 = []" "timers_drop s3 = timers_drop s2" "req_heap s3 = req_heap s2" "stc_heap s3 = stc_heap s2"
    "tm_heap s3 = (\<lambda>t. if t \<in> set (timers s2) then None else tm_heap s2 t)"
    using fold_timer_destroy [of "timers s2" s2] nt(1,2,7) by (auto simp: s3_def filter_id_conv)
  have 4: "req_heap s' = req_heap s3" "stc_heap s' = stc_heap s3"
    "tm_heap s' = (\<lambda>t. if t \<in> set (timers_drop s3) then None else tm_heap s3 t)"
    using fold_timer_destroy [of "timers_drop s3" s3] 3(1,2) nt(2) by (auto simp: s')
  have "dom (req_heap s2) = {}" using node_listsD(3) [OF sched_invD(1) [OF 2(1)]] 2(2,3) by simp
  then show "req_heap s' = Map.empty" using 3 4 by simp
  show "tm_heap s' = Map.empty"
    unfolding 4 3 using nt(3) by (auto simp: fun_eq_iff dom_def)
  show "stc_heap s' = stc_heap s" using 2 3 4 by simp
  show "c = int (length (requests s)) + int (length (requests_wait s)) + int (length (timers s)) +
         int (length (timers_drop s))"
    unfolding c using len 2(4) 3(2) by simp
qed

section \<open>Random wait times\<close>

lemma rand_loop_stream:
  assumes "rand_loop limit rand i ra = Some v"
  shows "v = ra \<or> (\<exists>k. v = rand k)"
  by (rule rand_loop.raw_induct [where P = "\<lambda>limit rand i ra v. v = ra \<or> (\<exists>k. v = rand k)", OF _ assms])
    (fastforce split: if_splits)

text \<open>The arithmetic of \<^verbatim>\<open>random_uniform\<close> on a proper range.\<close>

lemma random_uniform_arith:
  assumes "lo \<le> hi" "hi - lo < RAND_MAX"
  defines "rng \<equiv> hi - lo + 1" and "copies \<equiv> RAND_MAX div (hi - lo + 1)"
  shows "0 < rng" "0 < copies" "RAND_MAX sdiv rng = copies" "2 ^ 30 \<le> rng * copies"
    "rng * copies \<le> RAND_MAX"
proof -
  show r: "0 < rng" using assms by simp
  have r2: "rng \<le> RAND_MAX" using assms by simp
  show c: "0 < copies" using r r2 by (simp add: copies_def pos_imp_zdiv_pos_iff flip: rng_def)
  show "RAND_MAX sdiv rng = copies" using r by (simp add: sdiv_pos RAND_MAX_def copies_def rng_def)
  have half: "2 ^ 30 \<le> p \<and> p \<le> RAND_MAX" if "q < r" "0 \<le> q" "r \<le> p" "p + q = RAND_MAX" for p q r
    using that by (simp add: RAND_MAX_def)
  have m: "rng * copies + RAND_MAX mod rng = RAND_MAX" by (simp add: copies_def flip: rng_def)
  have "RAND_MAX mod rng < rng" "0 \<le> RAND_MAX mod rng" using r by simp_all
  moreover have "rng \<le> rng * copies" using c r by (simp add: mult_le_cancel_left1)
  ultimately have "2 ^ 30 \<le> rng * copies \<and> rng * copies \<le> RAND_MAX"
    using m half by blast
  then show "2 ^ 30 \<le> rng * copies" "rng * copies \<le> RAND_MAX" by simp_all
qed

lemma random_uniform_const:
  assumes "lo \<le> hi" "hi - lo < RAND_MAX" "0 \<le> ra"
  defines "copies \<equiv> RAND_MAX div (hi - lo + 1)"
  shows "random_uniform (\<lambda>_. ra) lo hi =
    (if ra < (hi - lo + 1) * copies then Some (ra div copies + lo) else None)"
proof -
  note ar = random_uniform_arith [OF assms(1,2)]
  have "rand_loop ((hi - lo + 1) * copies) (\<lambda>_. ra) 0 (-1) = (if ra < (hi - lo + 1) * copies then Some ra else None)"
  proof (cases "ra < (hi - lo + 1) * copies")
    case True
    then show ?thesis using assms(3) by (subst rand_loop.simps, subst rand_loop.simps) auto
  next
    case False
    then have "rand_loop ((hi - lo + 1) * copies) (\<lambda>_. ra) 0 (-1) \<noteq> Some v" for v
      using rand_loop_None_or [of _ "\<lambda>_. ra" 0 "-1" v] rand_loop_stream [of _ "\<lambda>_. ra" 0 "-1" v] by fastforce
    then show ?thesis using False by auto
  qed
  then show ?thesis
    using ar assms(3) by (simp add: random_uniform_def Let_def sdiv_pos copies_def)
qed

lemma random_uniform_total:
  assumes "lo \<le> hi" "hi - lo < RAND_MAX" "0 \<le> rand k" "rand k < 2 ^ 30"
  shows "\<exists>v. random_uniform rand lo hi = Some v"
proof -
  note ar = random_uniform_arith [OF assms(1,2)]
  have "\<exists>v. rand_loop ((hi - lo + 1) * (RAND_MAX div (hi - lo + 1))) rand 0 (-1) = Some v"
    using rand_loop_total [of rand 0 k] assms(3,4) ar(4) by simp
  then show ?thesis using ar by (auto simp: random_uniform_def Let_def)
qed

lemma backoff_wait:
  assumes "0 < base" "base \<le> cap" "cap < RAND_MAX" "0 \<le> rand k" "rand k < 2 ^ 30"
  shows "\<exists>w. backoff_full_jitter rand base cap n = Some w \<and> base \<le> w \<and> w \<le> min cap (base * 2 ^ n)"
proof -
  define m where "m = min cap (base * 2 ^ n)"
  have "base \<le> base * 2 ^ n" using assms(1) by simp
  then have m: "base \<le> m" "m - base < RAND_MAX" using assms by (auto simp: m_def)
  have "backoff_full_jitter rand base cap n = random_uniform rand base m"
    by (simp add: backoff_full_jitter_def xmin_def ipow_eq m_def min_def Let_def)
  moreover obtain w where "random_uniform rand base m = Some w"
    using random_uniform_total [where rand = rand and k = k, OF m assms(4,5)] by blast
  ultimately show ?thesis using random_uniform_range [OF m] unfolding m_def by metis
qed

section \<open>Coroutine ids\<close>

lemma get_id_loop_free:
  "(\<forall>a\<in>set (timer_coro_list s). s_id (stc s a) \<noteq> get_id_loop s i) \<or>
   (get_id_loop s i = -1 \<and> (\<forall>j. i \<le> j \<and> j < -1 \<longrightarrow> (\<exists>a\<in>set (timer_coro_list s). s_id (stc s a) = j)))"
proof (induction s i rule: get_id_loop.induct)
  case (1 s i)
  show ?case
  proof (cases "i < -1 \<and> (\<exists>a\<in>set (timer_coro_list s). s_id (stc s a) = i)")
    case True
    then have e: "get_id_loop s i = get_id_loop s (i + 1)" by (simp add: get_id_loop.simps [of s i])
    have "i + 1 \<le> j" if "i \<le> j" "j \<noteq> i" for j using that by (metis inc_le le_less)
    then show ?thesis using 1 True unfolding e by metis
  next
    case False
    then have e: "get_id_loop s i = i" by (auto simp: get_id_loop.simps [of s i])
    show ?thesis
    proof (cases "i < -1")
      case True
      then show ?thesis using False unfolding e by blast
    next
      case f: False
      have "i = -1" using f word_order.not_eq_extremum by blast
      then show ?thesis using f unfolding e by auto
    qed
  qed
qed

lemma get_id_unused:
  assumes "length (timer_coro_list s) < 2 ^ 32 - 1"
  shows "\<forall>a\<in>set (timer_coro_list s). s_id (stc s a) \<noteq> sched_timer_coro_get_id s"
proof (rule ccontr)
  assume "\<not> ?thesis"
  then have "\<forall>j < -1. \<exists>a\<in>set (timer_coro_list s). s_id (stc s a) = j"
    using get_id_loop_free [of s 0] by (auto simp: sched_timer_coro_get_id_def)
  then have "{..< -1 :: 32 word} \<subseteq> (\<lambda>a. s_id (stc s a)) ` set (timer_coro_list s)" by force
  then have "card {..< -1 :: 32 word} \<le> length (timer_coro_list s)"
    by (meson List.finite_set card_image_le card_length card_mono finite_imageI le_trans)
  moreover have "{..< -1 :: 32 word} = UNIV - {-1}"
    using word_order.not_eq_extremum by blast
  then have "card {..< -1 :: 32 word} = 2 ^ 32 - 1" by (simp add: card_Diff_singleton card_word)
  ultimately show False using assms by simp
qed

section \<open>Properties\<close>

text \<open>C23: the wait time of a retry. With \<open>0 < base \<le> cap\<close> the backoff returns, as soon as
  \<^verbatim>\<open>rand\<close> gives one value in the lower half of its range, and the number of seconds lies between
  \<open>base\<close> and the smaller of \<open>cap\<close> and \<open>base\<close> doubled once per attempt.\<close>

theorem backoff_full_jitter_bounds:
  assumes "0 < base" "base \<le> cap" "cap < RAND_MAX" "0 \<le> rand k" "rand k < 2 ^ 30"
  shows "\<exists>w. backoff_full_jitter rand base cap n = Some w \<and> base \<le> w \<and> w \<le> min cap (base * 2 ^ n)"
  by (rule backoff_wait [where rand = rand and k = k, OF assms])

theorem backoff_full_jitter_bounds_witness:
  "\<exists>w. backoff_full_jitter (\<lambda>_. 1000) 5 2000 3 = Some w \<and> 5 \<le> w \<and> w \<le> 40"
  using backoff_full_jitter_bounds [of 5 2000 "\<lambda>_. 1000" 0 3] by (simp add: RAND_MAX_def)

text \<open>\<^verbatim>\<open>random_uniform\<close> is fair: every value of the range is hit by the same number of values
  of \<^verbatim>\<open>rand()\<close>, the number of copies of the range that fit below \<^verbatim>\<open>RAND_MAX\<close>; the others are
  drawn again.\<close>

theorem random_uniform_fair:
  assumes "lo \<le> hi" "hi - lo < RAND_MAX" "lo \<le> v" "v \<le> hi"
  shows "card {ra. 0 \<le> ra \<and> random_uniform (\<lambda>_. ra) lo hi = Some v} = nat (RAND_MAX div (hi - lo + 1))"
proof -
  define copies where "copies = RAND_MAX div (hi - lo + 1)"
  have c: "0 < copies" using random_uniform_arith(2) [OF assms(1,2)] by (simp add: copies_def)
  have "ra div copies + lo = v \<longleftrightarrow> (v - lo) * copies \<le> ra \<and> ra < (v - lo + 1) * copies" for ra
  proof -
    have "ra div copies = q \<longleftrightarrow> q * copies \<le> ra \<and> ra < (q + 1) * copies" for q
      using c div_pos_pos_trivial [of "ra - q * copies" copies]
        div_mult_self1 [of copies "ra - q * copies" q] minus_mod_eq_div_mult [of ra copies]
        pos_mod_bound [OF c, of ra] pos_mod_sign [OF c, of ra] by (auto simp: algebra_simps)
    from this [of "v - lo"] show ?thesis by auto
  qed
  moreover have "(v - lo + 1) * copies \<le> (hi - lo + 1) * copies" "0 \<le> (v - lo) * copies"
    using c assms by (auto intro: mult_right_mono)
  ultimately have "{ra. 0 \<le> ra \<and> random_uniform (\<lambda>_. ra) lo hi = Some v} =
      {(v - lo) * copies ..< (v - lo + 1) * copies}"
    using random_uniform_const [OF assms(1,2)] by (auto simp flip: copies_def split: if_splits)
  moreover have "(v - lo + 1) * copies - (v - lo) * copies = copies" by (simp add: algebra_simps)
  ultimately show ?thesis by (simp add: copies_def)
qed

theorem random_uniform_fair_witness:
  "card {ra. 0 \<le> ra \<and> random_uniform (\<lambda>_. ra) 5 10 = Some 7} = 357913941"
  using random_uniform_fair [of 5 10 7] by (simp add: RAND_MAX_def)

text \<open>C22: creating a retry request. It is refused exactly when an allocation fails, or when it is due within the frame
  of ten seconds and its timer cannot be created; then minus one is returned and the pending retries are as before.
  Otherwise the wait time is one second more than the backoff (one second when the engine shuts down); a new
  request stores the time of its creation, this wait time and its retry, and it and a new timer refer to
  each other. Within the frame the timer is armed for the wait time and the request is added to the armed ones, else
  it is added to the waiting ones. No other request or timer changes, and the links between requests and
  timers hold in every case.\<close>

theorem flb_sched_request_create_correct:
  assumes "sched_inv s" "0 < base" "base \<le> cap" "cap < RAND_MAX"
    and "flb_sched_request_create tok rok rand now fd down base cap s data n = Some (ret, s')"
  shows "sched_inv s' \<and> (ret = -1 \<longleftrightarrow> request_refused tok rok fd (request_backoff rand down base cap n)) \<and>
    (if ret = -1 then pending s' = pending s
     else pending s' = add_mset data (pending s) \<and> request_backoff rand down base cap n = Some (ret - 1) \<and>
       (if down then ret = 1 else base + 1 \<le> ret \<and> ret \<le> min cap (base * 2 ^ n) + 1) \<and>
       (\<exists>a t. request_placed a t now fd ret data s s'))"
  using request_create_cases [OF assms] request_create_stored [OF assms] by (cases "ret = -1") (simp, metis)

definition demo_sched :: flb_sched where
  "demo_sched = the (flb_sched_create True True 3 0)"

lemma demo_sched_inv: "sched_inv demo_sched"
  by (simp add: demo_sched_def flb_sched_create_def flb_sched_timer_create_def sched_empty_def Let_def
      sched_inv_def node_lists_def timer_ok_def tm_upd_def tm_def sched_consts mk_list_add_def)

theorem flb_sched_request_create_correct_witness:
  "\<exists>s' a t. flb_sched_request_create True True (\<lambda>_. 0) 100 7 False 11 2000 demo_sched 42 2 = Some (12, s') \<and>
     pending s' = add_mset 42 (pending demo_sched) \<and> r_timeout (rq s' a) = 12 \<and> requests_wait s' = requests_wait demo_sched @ [a]"
proof -
  have "\<exists>s'. flb_sched_request_create True True (\<lambda>_. 0) 100 7 False 11 2000 demo_sched 42 2 = Some (12, s')"
    by (simp add: flb_sched_request_create_def flb_sched_timer_create_def request_new_def Let_def backoff_full_jitter_def
        random_uniform_def rand_loop.simps xmin_def ipow_eq RAND_MAX_def sched_consts)
  then obtain s' where s': "flb_sched_request_create True True (\<lambda>_. 0) 100 7 False 11 2000 demo_sched 42 2 = Some (12, s')"
    by blast
  from flb_sched_request_create_correct [OF demo_sched_inv _ _ _ s'] obtain a t where
    "pending s' = add_mset 42 (pending demo_sched)" "request_placed a t 100 7 12 42 demo_sched s'" by (auto simp: RAND_MAX_def)
  with s' show ?thesis by (auto simp: request_placed_def Let_def rq_def sched_consts)
qed

text \<open>C24: the promotion of waiting requests. A frame moves, in order, the requests due within the
  next ten seconds to the armed ones, keeps the others and those whose timer could not be created,
  and loses none. A timer is armed for the time that remains, or for one second when that has passed;
  and if the previous frame, at most ten seconds ago, left the request waiting because it was not due, the timer
  fires exactly at the creation of the request plus its wait time.\<close>

theorem schedule_request_promote_on_time:
  assumes "sched_inv s" "schedule_request_promote now fds s = (ret, s')"
  shows "sched_inv s' \<and> pending s' = pending s \<and>
    requests s' = requests s @ filter (\<lambda>a. promotable now s a \<and> fds a \<noteq> -1) (requests_wait s) \<and>
    requests_wait s' = filter (\<lambda>a. \<not> promotable now s a) (requests_wait s) @
       filter (\<lambda>a. promotable now s a \<and> fds a = -1) (requests_wait s) \<and>
    (\<forall>a \<in> set (requests_wait s). promotable now s a \<and> fds a \<noteq> -1 \<longrightarrow>
       (let due = r_created (rq s a) + r_timeout (rq s a); secs = t_secs (tm s' (r_timer (rq s a))) in
        secs = (if now > due then 1 else due - now) \<and>
        (\<forall>prev. \<not> promotable prev s a \<and> now \<le> prev + FLB_SCHED_REQUEST_FRAME \<longrightarrow> now + secs = due)))"
proof -
  note l = promote_lists [OF assms]
  have "let due = r_created (rq s a) + r_timeout (rq s a); secs = t_secs (tm s' (r_timer (rq s a))) in
      secs = (if now > due then 1 else due - now) \<and>
      (\<forall>prev. \<not> promotable prev s a \<and> now \<le> prev + FLB_SCHED_REQUEST_FRAME \<longrightarrow> now + secs = due)"
    if "a \<in> set (requests_wait s)" "promotable now s a" "fds a \<noteq> -1" for a
    using l(8) [OF that] that(2) by (auto simp: promote_seconds_def promotable_def Let_def split: if_splits)
  then show ?thesis using l(1-3) promote_pending [OF assms] by blast
qed

definition demo_waiting :: flb_sched where
  "demo_waiting = snd (schedule_request_wait 2 (snd (request_new 100 25 42 1 (snd (flb_sched_timer_create True demo_sched)))))"

lemma demo_waiting_inv: "sched_inv demo_waiting"
proof -
  have 1: "flb_sched_timer_create True demo_sched = (Some 1, snd (flb_sched_timer_create True demo_sched))"
    by (simp add: demo_sched_def flb_sched_create_def flb_sched_timer_create_def sched_empty_def Let_def tm_upd_def)
  have 2: "request_new 100 25 42 1 (snd (flb_sched_timer_create True demo_sched)) =
     (2, snd (request_new 100 25 42 1 (snd (flb_sched_timer_create True demo_sched))))"
    by (simp add: request_new_def demo_sched_def flb_sched_create_def flb_sched_timer_create_def sched_empty_def Let_def tm_upd_def)
  show ?thesis unfolding demo_waiting_def by (rule request_enqueue(1) [OF demo_sched_inv 1 2])
qed

theorem schedule_request_promote_on_time_witness:
  "requests (snd (schedule_request_promote 120 (\<lambda>_. 9) demo_waiting)) = [2]"
proof -
  obtain s' where s': "schedule_request_promote 120 (\<lambda>_. 9) demo_waiting = (0, s')"
    by (cases "schedule_request_promote 120 (\<lambda>_. 9) demo_waiting")
      (auto simp: schedule_request_promote_def split: prod.splits)
  have "requests demo_waiting = []" "requests_wait demo_waiting = [2]" "promotable 120 demo_waiting 2"
    by (simp_all add: demo_waiting_def demo_sched_def flb_sched_create_def flb_sched_timer_create_def
        sched_empty_def Let_def tm_upd_def request_new_def schedule_request_wait_def promotable_def rq_def
        sched_consts mk_list_add_def)
  with schedule_request_promote_on_time [OF demo_waiting_inv s'] show ?thesis by (simp add: s')
qed

text \<open>C29: a retry that was scheduled can be cancelled at any later time, however many frames pass in
  between, and cancelling reports that it was pending.\<close>

theorem flb_sched_retry_cancellable:
  assumes "sched_inv s" "env_valid e" "sched_enq e retry s = (True, s1)"
  shows "fst (flb_sched_request_invalidate
      (fold (\<lambda>e s. snd (schedule_request_promote (x_now e) (x_fds e) s)) (frames :: sched_env list) s1) retry) = 0"
proof -
  have "fst (sched_cancel retry (fold sched_tick frames s1))" by (rule sched.enq_stays [OF assms])
  moreover have "sched_tick = (\<lambda>e s. snd (schedule_request_promote (x_now e) (x_fds e) s))"
    by (simp add: fun_eq_iff sched_tick_def)
  ultimately show ?thesis by (simp add: sched_cancel_def case_prod_beta)
qed

definition demo_env :: sched_env where
  "demo_env = \<lparr>x_timer_ok = True, x_req_ok = True, x_rand = (\<lambda>_. 0), x_now = 100, x_fd = 7, x_shutting_down = True,
     x_base = 5, x_cap = 2000, x_tries = 1, x_fds = (\<lambda>_. 9)\<rparr>"

theorem flb_sched_retry_cancellable_witness:
  "fst (flb_sched_request_invalidate (snd (schedule_request_promote 100 (\<lambda>_. 9) (snd (sched_enq demo_env 42 demo_sched)))) 42) = 0"
proof -
  have "env_valid demo_env" by (simp add: env_valid_def demo_env_def RAND_MAX_def)
  moreover have "sched_enq demo_env 42 demo_sched = (True, snd (sched_enq demo_env 42 demo_sched))"
    by (simp add: sched_enq_def demo_env_def flb_sched_request_create_def flb_sched_timer_create_def request_new_def
        Let_def schedule_request_now_def sched_consts)
  ultimately show ?thesis
    using flb_sched_retry_cancellable [OF demo_sched_inv, of demo_env 42 _ "[demo_env]"] by (simp add: demo_env_def)
qed

text \<open>destroying the scheduler releases every request and every timer, and counts each once.\<close>

theorem flb_sched_destroy_releases:
  assumes "sched_inv s" "flb_sched_destroy s = (c, s')"
  shows "req_heap s' = Map.empty \<and> tm_heap s' = Map.empty \<and>
    c = int (length (requests s) + length (requests_wait s) + length (timers s) + length (timers_drop s))"
  using sched_destroy_all [OF assms] by simp

theorem flb_sched_destroy_releases_witness: "fst (flb_sched_destroy demo_waiting) = 3"
proof -
  have "requests demo_waiting = []" "requests_wait demo_waiting = [2]" "timers demo_waiting = [0, 1]"
    "timers_drop demo_waiting = []"
    by (simp_all add: demo_waiting_def demo_sched_def flb_sched_create_def flb_sched_timer_create_def
        sched_empty_def Let_def tm_upd_def request_new_def schedule_request_wait_def mk_list_add_def)
  then show ?thesis
    using flb_sched_destroy_releases [OF demo_waiting_inv, of "fst (flb_sched_destroy demo_waiting)" "snd (flb_sched_destroy demo_waiting)"]
    by simp
qed

text \<open>With fewer than \<^verbatim>\<open>UINT32_MAX\<close> running coroutines a new one gets an id no other has,
  so that a notification finds the coroutine it belongs to.\<close>

theorem flb_sched_timer_coro_ids:
  assumes "sched_inv s" "coro_ids_ok s" "length (timer_coro_list s) < 2 ^ 32 - 1"
    and c: "flb_sched_timer_coro_create ctx mem_ok coro_ok timer data s = (Some a, s')"
  shows "coro_ids_ok s' \<and>
    (\<forall>b. b \<in> set (timer_coro_list s') \<longrightarrow> sched_timer_coro_get_by_id s' (s_id (stc s' b)) = Some b)"
proof -
  have s': "a = sched_next s" "timer_coro_list s' = mk_list_add a (timer_coro_list s)"
    "s_id (stc s' a) = sched_timer_coro_get_id s" "\<And>b. b \<noteq> a \<Longrightarrow> stc s' b = stc s b"
    using c by (auto simp: flb_sched_timer_coro_create_def Let_def stc_def split: if_splits)
  have fr: "a \<notin> set (timer_coro_list s)" using node_listsD(4) [OF sched_invD(3) [OF assms(1)]] s'(1) by simp
  have old: "stc s' b = stc s b" if "b \<in> set (timer_coro_list s)" for b using that fr s'(4) by metis
  then have "inj_on (\<lambda>b. s_id (stc s' b)) (set (timer_coro_list s))"
    using assms(2) inj_on_cong [of "set (timer_coro_list s)" "\<lambda>b. s_id (stc s' b)" "\<lambda>b. s_id (stc s b)"]
    by (simp add: coro_ids_ok_def)
  moreover have "s_id (stc s' a) \<notin> (\<lambda>b. s_id (stc s' b)) ` set (timer_coro_list s)"
    using get_id_unused [OF assms(3)] old unfolding s'(3) by force
  ultimately have "coro_ids_ok s'"
    using fr by (simp add: coro_ids_ok_def s'(2))
  then show ?thesis
    using find_inj_on [of "\<lambda>b. s_id (stc s' b)" "timer_coro_list s'"]
    by (simp add: coro_ids_ok_def sched_timer_coro_get_by_id_def)
qed

theorem flb_sched_timer_coro_ids_witness:
  "coro_ids_ok (snd (flb_sched_timer_coro_create True True True 0 TNull demo_sched))"
proof -
  have "timer_coro_list demo_sched = []"
    by (simp add: demo_sched_def flb_sched_create_def flb_sched_timer_create_def sched_empty_def Let_def tm_upd_def)
  moreover have "flb_sched_timer_coro_create True True True 0 TNull demo_sched =
      (Some (sched_next demo_sched), snd (flb_sched_timer_coro_create True True True 0 TNull demo_sched))"
    by (simp add: flb_sched_timer_coro_create_def Let_def)
  ultimately show ?thesis
    using flb_sched_timer_coro_ids [OF demo_sched_inv, of True True True 0 TNull "sched_next demo_sched"]
    by (simp add: coro_ids_ok_def)
qed

end
