(* ===== verification/Flb_Engine_State.thy ===== *)
theory Flb_Engine_State
  imports Flb_Config Flb_Routes_Mask Flb_Hash_Table Flb_Scheduler
begin

text \<open>
  The state the chunk and task code shares: the structs of \<^verbatim>\<open>flb_input_chunk.h\<close>,
  \<^verbatim>\<open>flb_task.h\<close> and the parts of \<^verbatim>\<open>flb_input.h\<close>, \<^verbatim>\<open>flb_output.h\<close> and
  \<^verbatim>\<open>flb_config.h\<close> that those files read and write.

  Chunks, tasks and retries live in stores indexed by address, because chunks and tasks refer to
  each other and several lists hold them. An input instance is its position in
  \<open>e_inputs\<close>, an output instance its id. Byte counters are unbounded integers; the unlimited
  size \<^verbatim>\<open>(size_t) -1\<close> is \<open>-1\<close>.

  Chunk I/O (\<^verbatim>\<open>lib/chunkio\<close>) is a vendored library: its handle is the type parameter
  \<open>'c\<close> and the operations used of it are the record \<open>cio_api\<close>, an argument of every
  definition that calls them. No property assumes anything about it beyond what it states.
\<close>

section \<open>Chunk I/O\<close>

record 'c cio_api =
  cio_is_up :: "'c \<Rightarrow> bool"
  cio_up :: "'c \<Rightarrow> int \<times> 'c"
  cio_up_force :: "'c \<Rightarrow> int \<times> 'c"
  cio_down :: "'c \<Rightarrow> int \<times> 'c"
  cio_content_size :: "'c \<Rightarrow> int"
  cio_real_size :: "'c \<Rightarrow> int"
  cio_meta_size :: "'c \<Rightarrow> int"
  cio_meta_read :: "'c \<Rightarrow> cstr option"
  cio_meta_write :: "'c \<Rightarrow> cstr \<Rightarrow> int \<times> 'c"
  cio_lock :: "'c \<Rightarrow> 'c"
  cio_is_locked :: "'c \<Rightarrow> bool"
  cio_get_content :: "'c \<Rightarrow> cstr option option"
  cio_write :: "'c \<Rightarrow> cstr \<Rightarrow> int \<times> 'c"
  cio_truncate :: "'c \<Rightarrow> int \<Rightarrow> int \<times> 'c"
  cio_tx_rollback :: "'c \<Rightarrow> 'c"
  cio_error_get :: "'c \<Rightarrow> int"
  cio_total_chunks_up :: int
  cio_max_chunks_up :: int

text \<open>\<open>cio_get_content\<close> is \<open>None\<close> on error and \<open>Some None\<close> for a NULL buffer;
  \<open>cio_meta_read\<close> is \<open>None\<close> when \<^verbatim>\<open>cio_meta_read\<close> returns minus one.
  \<open>cio_truncate ch offset\<close> is \<^verbatim>\<open>cio_chunk_write_at(ch, offset, NULL, 0)\<close>.\<close>

section \<open>Chunks, tasks and retries\<close>

record 'c flb_input_chunk =
  ic_event_type :: int
  ic_fs_counted :: bool
  ic_busy :: bool
  ic_fs_backlog :: bool
  ic_total_records :: int
  ic_added_records :: int
  ic_chunk :: 'c
  ic_in :: nat
  ic_task :: "addr option"
  ic_routes_mask :: routes_mask

definition FLB_TASK_NEW :: int where "FLB_TASK_NEW = 0"
definition FLB_TASK_RUNNING :: int where "FLB_TASK_RUNNING = 1"
definition FLB_TASK_ROUTE_INACTIVE :: int where "FLB_TASK_ROUTE_INACTIVE = 0"
definition FLB_TASK_ROUTE_ACTIVE :: int where "FLB_TASK_ROUTE_ACTIVE = 1"
definition FLB_TASK_ROUTE_DROPPED :: int where "FLB_TASK_ROUTE_DROPPED = 2"

lemmas task_consts = FLB_TASK_NEW_def FLB_TASK_RUNNING_def FLB_TASK_ROUTE_INACTIVE_def
  FLB_TASK_ROUTE_ACTIVE_def FLB_TASK_ROUTE_DROPPED_def

record flb_task_route =
  tr_status :: int
  tr_out :: int

record flb_task_retry =
  rt_attempts :: int
  rt_o_ins :: int
  rt_parent :: addr

record flb_task =
  tk_id :: nat
  tk_ref_id :: "64 word"
  tk_status :: int
  tk_users :: int
  tk_ic :: addr
  tk_records :: int
  tk_routes :: "flb_task_route list"
  tk_retries :: "addr list"
  tk_i_ins :: nat

section \<open>Instances and the engine\<close>

definition FLB_STORAGE_FS :: int where "FLB_STORAGE_FS = 0"
definition FLB_STORAGE_MEM :: int where "FLB_STORAGE_MEM = 1"
definition FLB_STORAGE_MEMRB :: int where "FLB_STORAGE_MEMRB = 10"

lemmas storage_consts = FLB_STORAGE_FS_def FLB_STORAGE_MEM_def FLB_STORAGE_MEMRB_def

text \<open>\<open>in_resumes\<close> counts the calls of \<^verbatim>\<open>flb_input_resume\<close>, which happen only for a plugin
  with a resume callback, and \<open>in_pauses\<close> those of \<^verbatim>\<open>flb_input_pause\<close> that are not refused
  because the instance is paused already. \<open>in_storage_type\<close> is the configured type,
  \<open>in_stream_type\<close> that of the storage context, where the memory ring buffer is plain memory.\<close>

record input_state =
  in_chunks :: "addr list"
  in_tasks :: "addr list"
  in_mem_chunks_size :: int
  in_mem_buf_limit :: int
  in_mem_buf_paused :: bool
  in_storage_buf_paused :: bool
  in_storage_type :: int
  in_stream_type :: int
  in_pause_on_chunks_overlimit :: bool
  in_cb_resume :: bool
  in_resumes :: nat
  in_pauses :: nat
  in_ht_log_chunks :: flb_hash_table
  in_ht_metric_chunks :: flb_hash_table
  in_ht_trace_chunks :: flb_hash_table
  in_routes_direct :: "int list"
  in_name :: cstr
  in_tag :: "cstr option"
  in_routable :: bool
  in_threaded :: bool
  in_cmt_records :: int
  in_cmt_bytes :: int
  in_cmt_memrb_dropped_chunks :: int
  in_cmt_memrb_dropped_bytes :: int

record out_state = flb_output_instance +
  o_total_limit_size :: int
  o_fs_chunks_size :: int
  o_fs_backlog_chunks_size :: int
  o_retry_limit :: int
  o_flags :: "32 word"

record 'c flb_engine =
  e_inputs :: "input_state list"
  e_outputs :: "out_state list"
  e_chunk_heap :: "addr \<Rightarrow> 'c flb_input_chunk option"
  e_task_heap :: "addr \<Rightarrow> flb_task option"
  e_retry_heap :: "addr \<Rightarrow> flb_task_retry option"
  e_tasks_map :: "addr option list"
  e_sched :: flb_sched
  e_next :: addr
  e_is_running :: bool
  e_is_ingestion_active :: bool

definition ic :: "'c flb_engine \<Rightarrow> addr \<Rightarrow> 'c flb_input_chunk" where
  "ic s a = the (e_chunk_heap s a)"

definition tk :: "'c flb_engine \<Rightarrow> addr \<Rightarrow> flb_task" where
  "tk s a = the (e_task_heap s a)"

definition rt :: "'c flb_engine \<Rightarrow> addr \<Rightarrow> flb_task_retry" where
  "rt s a = the (e_retry_heap s a)"

definition ic_upd :: "addr \<Rightarrow> ('c flb_input_chunk \<Rightarrow> 'c flb_input_chunk) \<Rightarrow> 'c flb_engine \<Rightarrow> 'c flb_engine" where
  "ic_upd a f s = s\<lparr>e_chunk_heap := (e_chunk_heap s)(a \<mapsto> f (ic s a))\<rparr>"

definition tk_upd :: "addr \<Rightarrow> (flb_task \<Rightarrow> flb_task) \<Rightarrow> 'c flb_engine \<Rightarrow> 'c flb_engine" where
  "tk_upd a f s = s\<lparr>e_task_heap := (e_task_heap s)(a \<mapsto> f (tk s a))\<rparr>"

definition rt_upd :: "addr \<Rightarrow> (flb_task_retry \<Rightarrow> flb_task_retry) \<Rightarrow> 'c flb_engine \<Rightarrow> 'c flb_engine" where
  "rt_upd a f s = s\<lparr>e_retry_heap := (e_retry_heap s)(a \<mapsto> f (rt s a))\<rparr>"

definition in_upd :: "nat \<Rightarrow> (input_state \<Rightarrow> input_state) \<Rightarrow> 'c flb_engine \<Rightarrow> 'c flb_engine" where
  "in_upd i f s = s\<lparr>e_inputs := (e_inputs s)[i := f (e_inputs s ! i)]\<rparr>"

text \<open>\<^verbatim>\<open>flb_routes_mask_get_bit(...) != 0\<close>.\<close>

definition route_bit :: "routes_mask \<Rightarrow> int \<Rightarrow> bool" where
  "route_bit m i \<longleftrightarrow> flb_routes_mask_get_bit m i = Some True"

section \<open>Stores: reading after writing\<close>

lemma ic_upd_simps [simp]:
  "e_inputs (ic_upd a f s) = e_inputs s" "e_outputs (ic_upd a f s) = e_outputs s"
  "e_task_heap (ic_upd a f s) = e_task_heap s" "e_retry_heap (ic_upd a f s) = e_retry_heap s"
  "e_tasks_map (ic_upd a f s) = e_tasks_map s" "e_sched (ic_upd a f s) = e_sched s"
  "e_next (ic_upd a f s) = e_next s" "tk (ic_upd a f s) = tk s" "rt (ic_upd a f s) = rt s"
  "e_is_running (ic_upd a f s) = e_is_running s"
  "e_is_ingestion_active (ic_upd a f s) = e_is_ingestion_active s"
  "ic (ic_upd a f s) b = (if b = a then f (ic s a) else ic s b)"
  "e_chunk_heap (ic_upd a f s) = (e_chunk_heap s)(a \<mapsto> f (ic s a))"
  by (auto simp: ic_upd_def ic_def tk_def rt_def fun_eq_iff)

lemma tk_upd_simps [simp]:
  "e_inputs (tk_upd a f s) = e_inputs s" "e_outputs (tk_upd a f s) = e_outputs s"
  "e_chunk_heap (tk_upd a f s) = e_chunk_heap s" "e_retry_heap (tk_upd a f s) = e_retry_heap s"
  "e_tasks_map (tk_upd a f s) = e_tasks_map s" "e_sched (tk_upd a f s) = e_sched s"
  "e_next (tk_upd a f s) = e_next s" "ic (tk_upd a f s) = ic s" "rt (tk_upd a f s) = rt s"
  "e_is_running (tk_upd a f s) = e_is_running s"
  "e_is_ingestion_active (tk_upd a f s) = e_is_ingestion_active s"
  "tk (tk_upd a f s) b = (if b = a then f (tk s a) else tk s b)"
  "e_task_heap (tk_upd a f s) = (e_task_heap s)(a \<mapsto> f (tk s a))"
  by (auto simp: tk_upd_def ic_def tk_def rt_def fun_eq_iff)

lemma in_upd_simps [simp]:
  "e_chunk_heap (in_upd i g s) = e_chunk_heap s" "e_outputs (in_upd i g s) = e_outputs s"
  "e_task_heap (in_upd i g s) = e_task_heap s" "e_retry_heap (in_upd i g s) = e_retry_heap s"
  "e_tasks_map (in_upd i g s) = e_tasks_map s" "e_sched (in_upd i g s) = e_sched s"
  "e_next (in_upd i g s) = e_next s" "tk (in_upd i g s) = tk s" "rt (in_upd i g s) = rt s"
  "ic (in_upd i g s) = ic s" "length (e_inputs (in_upd i g s)) = length (e_inputs s)"
  "e_is_running (in_upd i g s) = e_is_running s"
  "e_is_ingestion_active (in_upd i g s) = e_is_ingestion_active s"
  by (auto simp: in_upd_def ic_def tk_def rt_def fun_eq_iff)

lemma in_upd_nth [simp]:
  "i < length (e_inputs s) \<Longrightarrow> e_inputs (in_upd i g s) ! j = (if j = i then g (e_inputs s ! i) else e_inputs s ! j)"
  by (simp add: in_upd_def nth_list_update)

lemma store_reads [simp]:
  "ic (s\<lparr>e_task_heap := th\<rparr>) = ic s" "ic (s\<lparr>e_retry_heap := rh\<rparr>) = ic s" "ic (s\<lparr>e_sched := sc\<rparr>) = ic s"
  "ic (s\<lparr>e_tasks_map := m\<rparr>) = ic s" "ic (s\<lparr>e_outputs := os\<rparr>) = ic s" "ic (s\<lparr>e_next := n\<rparr>) = ic s"
  "tk (s\<lparr>e_chunk_heap := ch\<rparr>) = tk s" "tk (s\<lparr>e_retry_heap := rh\<rparr>) = tk s" "tk (s\<lparr>e_sched := sc\<rparr>) = tk s"
  "tk (s\<lparr>e_tasks_map := m\<rparr>) = tk s" "tk (s\<lparr>e_outputs := os\<rparr>) = tk s" "tk (s\<lparr>e_next := n\<rparr>) = tk s"
  "rt (s\<lparr>e_chunk_heap := ch\<rparr>) = rt s" "rt (s\<lparr>e_task_heap := th\<rparr>) = rt s" "rt (s\<lparr>e_sched := sc\<rparr>) = rt s"
  "rt (s\<lparr>e_tasks_map := m\<rparr>) = rt s" "rt (s\<lparr>e_outputs := os\<rparr>) = rt s" "rt (s\<lparr>e_next := n\<rparr>) = rt s"
  by (auto simp: ic_def tk_def rt_def fun_eq_iff)

end
