(* ===== verification/Flb_Input_Chunk.thy ===== *)
theory Flb_Input_Chunk
  imports Flb_Engine_State
begin

text \<open>
  \<^verbatim>\<open>src/flb_input_chunk.c\<close>, the part that does not call back into the task code: the
  metadata header of a chunk, creation and destruction, the byte accounting of the outputs a chunk
  is routed to, and the memory limits of an input.

  \<open>io\<close> is the Chunk I/O library, \<open>H\<close> the hash function of the chunk tables, \<open>onig\<close> the
  regular expression engine.
\<close>

section \<open>Metadata header\<close>

definition FLB_INPUT_CHUNK_META_HEADER :: nat where "FLB_INPUT_CHUNK_META_HEADER = 4"
definition FLB_INPUT_CHUNK_TAG_MAX :: int where "FLB_INPUT_CHUNK_TAG_MAX = 65531"
definition MAGIC_BYTE_0 :: char where "MAGIC_BYTE_0 = CHR 0xF1"
definition MAGIC_BYTE_1 :: char where "MAGIC_BYTE_1 = CHR 0x77"

lemmas meta_consts = FLB_INPUT_CHUNK_META_HEADER_def FLB_INPUT_CHUNK_TAG_MAX_def
  MAGIC_BYTE_0_def MAGIC_BYTE_1_def

text \<open>The type byte: the buffer comes zeroed from \<^verbatim>\<open>calloc\<close>, and only three event types are
  stored.\<close>

definition meta_type_byte :: "int \<Rightarrow> char" where
  "meta_type_byte event_type =
     (if event_type = FLB_INPUT_LOGS then CHR 0x00
      else if event_type = FLB_INPUT_METRICS then CHR 0x01
      else if event_type = FLB_INPUT_TRACES then CHR 0x02
      else CHR 0x00)"

definition input_chunk_write_header ::
  "'c cio_api \<Rightarrow> bool \<Rightarrow> 'c \<Rightarrow> int \<Rightarrow> cstr \<Rightarrow> int \<Rightarrow> int \<times> 'c" where
  "input_chunk_write_header io mem_ok chunk event_type tag tag_len =
     (let tag_len = (if tag_len > FLB_INPUT_CHUNK_TAG_MAX then FLB_INPUT_CHUNK_TAG_MAX else tag_len);
          meta = [MAGIC_BYTE_0, MAGIC_BYTE_1, meta_type_byte event_type, CHR 0x00] @ take (nat tag_len) tag
      in if \<not> mem_ok then (-1, chunk)
         else case cio_meta_write io chunk meta of
           (ret, chunk') \<Rightarrow> if ret = -1 then (-1, chunk') else (0, chunk'))"

definition input_chunk_has_magic_bytes :: "cstr \<Rightarrow> bool" where
  "input_chunk_has_magic_bytes buf =
     (if length buf < FLB_INPUT_CHUNK_META_HEADER then False
      else buf ! 0 = MAGIC_BYTE_0 \<and> buf ! 1 = MAGIC_BYTE_1 \<and> buf ! 3 = CHR 0x00)"

definition flb_input_chunk_get_event_type :: "'c cio_api \<Rightarrow> 'c \<Rightarrow> int" where
  "flb_input_chunk_get_event_type io chunk =
     (case cio_meta_read io chunk of
        None \<Rightarrow> -1
      | Some buf \<Rightarrow>
          if input_chunk_has_magic_bytes buf then
            (if buf ! 2 = CHR 0x00 then FLB_INPUT_LOGS
             else if buf ! 2 = CHR 0x01 then FLB_INPUT_METRICS
             else if buf ! 2 = CHR 0x02 then FLB_INPUT_TRACES
             else if buf ! 2 = CHR 0x03 then FLB_INPUT_BLOBS
             else -1)
          else FLB_INPUT_LOGS)"

text \<open>Result: the return code and the tag, \<open>None\<close> for a NULL tag.\<close>

definition flb_input_chunk_get_tag :: "'c cio_api \<Rightarrow> 'c \<Rightarrow> int \<times> cstr option" where
  "flb_input_chunk_get_tag io chunk =
     (case cio_meta_read io chunk of
        None \<Rightarrow> (-1, None)
      | Some buf \<Rightarrow>
          if input_chunk_has_magic_bytes buf then (0, Some (drop FLB_INPUT_CHUNK_META_HEADER buf))
          else (0, Some buf))"

section \<open>Sizes and accounting\<close>

definition flb_input_chunk_get_size :: "'c cio_api \<Rightarrow> 'c flb_input_chunk \<Rightarrow> int" where
  "flb_input_chunk_get_size io c = cio_content_size io (ic_chunk c)"

definition flb_input_chunk_get_real_size :: "'c cio_api \<Rightarrow> 'c flb_input_chunk \<Rightarrow> int" where
  "flb_input_chunk_get_real_size io c =
     (let sz = cio_real_size io (ic_chunk c) in
      if sz \<noteq> 0 then sz
      else let sz = flb_input_chunk_get_size io c in
        if sz = 0 then -1
        else sz + cio_meta_size io (ic_chunk c) + 2 + 4 + 16 + 2)"

definition flb_input_chunk_update_output_instances ::
  "addr \<Rightarrow> int \<Rightarrow> 'c flb_engine \<Rightarrow> 'c flb_engine" where
  "flb_input_chunk_update_output_instances a chunk_size s =
     (let m = ic_routes_mask (ic s a);
          hit = (\<lambda>x. o_total_limit_size x \<noteq> -1 \<and> route_bit m (o_id x));
          s1 = s\<lparr>e_outputs := map (\<lambda>x. if hit x then x\<lparr>o_fs_chunks_size := o_fs_chunks_size x + chunk_size\<rparr> else x)
                               (e_outputs s)\<rparr>
      in if \<exists>x\<in>set (e_outputs s). hit x then ic_upd a (\<lambda>c. c\<lparr>ic_fs_counted := True\<rparr>) s1 else s1)"

text \<open>The bit of an output in the mask of outputs over their limit, an \<^verbatim>\<open>int\<close>.\<close>

definition overlimit_bit :: "int \<Rightarrow> 32 word" where
  "overlimit_bit i = push_bit (nat i) 1"

definition flb_input_chunk_has_overlimit_routes :: "'c flb_engine \<Rightarrow> addr \<Rightarrow> int \<Rightarrow> 32 word" where
  "flb_input_chunk_has_overlimit_routes s a chunk_size =
     fold (\<lambda>x acc.
         if o_total_limit_size x = -1 \<or> \<not> route_bit (ic_routes_mask (ic s a)) (o_id x) then acc
         else if o_fs_chunks_size x + o_fs_backlog_chunks_size x + chunk_size > o_total_limit_size x
         then acc OR overlimit_bit (o_id x) else acc)
       (e_outputs s) 0"

section \<open>Up and down\<close>

definition flb_input_chunk_is_up :: "'c cio_api \<Rightarrow> 'c flb_engine \<Rightarrow> addr \<Rightarrow> bool" where
  "flb_input_chunk_is_up io s a = cio_is_up io (ic_chunk (ic s a))"

definition chunk_call :: "('c \<Rightarrow> int \<times> 'c) \<Rightarrow> addr \<Rightarrow> 'c flb_engine \<Rightarrow> int \<times> 'c flb_engine" where
  "chunk_call f a s =
     (case f (ic_chunk (ic s a)) of (ret, ch) \<Rightarrow> (ret, ic_upd a (\<lambda>c. c\<lparr>ic_chunk := ch\<rparr>) s))"

definition flb_input_chunk_down :: "'c cio_api \<Rightarrow> addr \<Rightarrow> 'c flb_engine \<Rightarrow> int \<times> 'c flb_engine" where
  "flb_input_chunk_down io a s =
     (if flb_input_chunk_is_up io s a then chunk_call (cio_down io) a s else (0, s))"

definition flb_input_chunk_set_up :: "'c cio_api \<Rightarrow> addr \<Rightarrow> 'c flb_engine \<Rightarrow> int \<times> 'c flb_engine" where
  "flb_input_chunk_set_up io a s =
     (if \<not> flb_input_chunk_is_up io s a then chunk_call (cio_up io) a s else (0, s))"

section \<open>Memory limits\<close>

definition flb_input_chunk_total_size :: "'c cio_api \<Rightarrow> 'c flb_engine \<Rightarrow> nat \<Rightarrow> int" where
  "flb_input_chunk_total_size io s i =
     sum_list (map (\<lambda>a. let b = flb_input_chunk_get_size io (ic s a) in if b \<le> 0 then 0 else b)
       (filter (flb_input_chunk_is_up io s) (in_chunks (e_inputs s ! i))))"

definition flb_input_chunk_is_mem_overlimit :: "input_state \<Rightarrow> bool" where
  "flb_input_chunk_is_mem_overlimit i =
     (if in_mem_buf_limit i \<le> 0 then False
      else if in_mem_chunks_size i \<ge> in_mem_buf_limit i then True else False)"

definition flb_input_chunk_is_storage_overlimit :: "'c cio_api \<Rightarrow> input_state \<Rightarrow> bool" where
  "flb_input_chunk_is_storage_overlimit io i =
     (in_stream_type i = FLB_STORAGE_FS \<and> in_pause_on_chunks_overlimit i \<and>
      cio_total_chunks_up io \<ge> cio_max_chunks_up io)"

definition flb_input_buf_paused :: "input_state \<Rightarrow> bool" where
  "flb_input_buf_paused i = (in_mem_buf_paused i \<or> in_storage_buf_paused i)"

definition in_resume :: "input_state \<Rightarrow> input_state" where
  "in_resume i = (if in_cb_resume i then i\<lparr>in_resumes := in_resumes i + 1\<rparr> else i)"

definition flb_input_pause :: "input_state \<Rightarrow> input_state" where
  "flb_input_pause i = (if flb_input_buf_paused i then i else i\<lparr>in_pauses := in_pauses i + 1\<rparr>)"

definition flb_input_chunk_set_limits :: "'c cio_api \<Rightarrow> nat \<Rightarrow> 'c flb_engine \<Rightarrow> 'c flb_engine" where
  "flb_input_chunk_set_limits io n s =
     (let total = flb_input_chunk_total_size io s n; active = e_is_running s \<and> e_is_ingestion_active s in
      in_upd n (\<lambda>i0.
        let i = i0\<lparr>in_mem_chunks_size := total\<rparr>;
            i1 = (if \<not> flb_input_chunk_is_mem_overlimit i \<and> active \<and> in_mem_buf_paused i
                  then in_resume (i\<lparr>in_mem_buf_paused := False\<rparr>) else i)
        in (if \<not> flb_input_chunk_is_storage_overlimit io i1 \<and> active \<and> in_storage_buf_paused i1
            then in_resume (i1\<lparr>in_storage_buf_paused := False\<rparr>) else i1)) s)"

definition flb_input_chunk_protect :: "'c cio_api \<Rightarrow> nat \<Rightarrow> 'c flb_engine \<Rightarrow> bool \<times> 'c flb_engine" where
  "flb_input_chunk_protect io n s =
     (let i = e_inputs s ! n in
      if flb_input_chunk_is_storage_overlimit io i
      then (True, in_upd n (\<lambda>i. (flb_input_pause i)\<lparr>in_storage_buf_paused := True\<rparr>) s)
      else if in_stream_type i = FLB_STORAGE_FS then (False, s)
      else if flb_input_chunk_is_mem_overlimit i then
        (if in_storage_type i = FLB_STORAGE_MEMRB then (False, s)
         else (True, in_upd n (\<lambda>i. (flb_input_pause i)\<lparr>in_mem_buf_paused := True\<rparr>) s))
      else (False, s))"

definition flb_input_chunk_set_up_down :: "'c cio_api \<Rightarrow> addr \<Rightarrow> 'c flb_engine \<Rightarrow> bool \<times> 'c flb_engine" where
  "flb_input_chunk_set_up_down io a s =
     (let n = ic_in (ic s a);
          s1 = in_upd n (\<lambda>i. i\<lparr>in_mem_chunks_size := flb_input_chunk_total_size io s n\<rparr>) s
      in if flb_input_chunk_is_mem_overlimit (e_inputs s1 ! n) \<and> flb_input_chunk_is_up io s1 a
         then let s2 = snd (chunk_call (cio_down io) a s1)
              in (False, in_upd n (\<lambda>i. i\<lparr>in_mem_chunks_size := flb_input_chunk_total_size io s2 n\<rparr>) s2)
         else (True, s1))"

section \<open>Creation and destruction\<close>

text \<open>The hash table of the chunks of an event type; blobs have none.\<close>

definition ht_of_type ::
  "int \<Rightarrow> (flb_hash_table \<Rightarrow> flb_hash_table) \<Rightarrow> input_state \<Rightarrow> input_state" where
  "ht_of_type event_type f i =
     (if event_type = FLB_INPUT_LOGS then i\<lparr>in_ht_log_chunks := f (in_ht_log_chunks i)\<rparr>
      else if event_type = FLB_INPUT_METRICS then i\<lparr>in_ht_metric_chunks := f (in_ht_metric_chunks i)\<rparr>
      else if event_type = FLB_INPUT_TRACES then i\<lparr>in_ht_trace_chunks := f (in_ht_trace_chunks i)\<rparr>
      else i)"

text \<open>\<open>opened\<close> is the result of \<^verbatim>\<open>cio_chunk_open\<close> under a fresh name. The result is
  \<open>None\<close> when the routes mask is written out of its bounds.\<close>

definition flb_input_chunk_create ::
  "'c cio_api \<Rightarrow> (cstr \<Rightarrow> 64 word) \<Rightarrow> (nat \<Rightarrow> cstr \<Rightarrow> int) \<Rightarrow> (int \<Rightarrow> bool) \<Rightarrow> int \<Rightarrow> bool \<Rightarrow> bool \<Rightarrow> 'c option
   \<Rightarrow> nat \<Rightarrow> int \<Rightarrow> cstr \<Rightarrow> int \<Rightarrow> 'c flb_engine \<Rightarrow> (addr option \<times> 'c flb_engine) option" where
  "flb_input_chunk_create io H onig sds_ok now meta_ok mem_ok opened n event_type tag tag_len s =
     (case opened of None \<Rightarrow> Some (None, s) | Some ch0 \<Rightarrow>
      case (if cio_is_up io ch0 then (0, ch0, False) else case cio_up_force io ch0 of (r, c) \<Rightarrow> (r, c, True)) of
        (r, ch1, set_down) \<Rightarrow>
          if r = -1 then Some (None, s)
          else case input_chunk_write_header io meta_ok ch1 event_type tag tag_len of (ret, ch2) \<Rightarrow>
            if ret = -1 then Some (None, s)
            else if \<not> mem_ok then Some (None, s)
            else case flb_routes_mask_set_by_tag onig sds_ok mask_zero tag tag_len
                        (Some (map flb_output_instance.truncate (e_outputs s))) of
              None \<Rightarrow> None
            | Some (has_routes, m) \<Rightarrow>
                (let a = e_next s;
                     ch3 = (if set_down then snd (cio_down io ch2) else ch2);
                     c = \<lparr>ic_event_type = event_type, ic_fs_counted = False, ic_busy = False,
                          ic_fs_backlog = False, ic_total_records = 0, ic_added_records = 0, ic_chunk = ch3, ic_in = n,
                          ic_task = None, ic_routes_mask = m\<rparr>;
                     s1 = s\<lparr>e_chunk_heap := (e_chunk_heap s)(a \<mapsto> c), e_next := a + 1\<rparr>
                 in Some (Some a, in_upd n (\<lambda>i. ht_of_type event_type
                        (\<lambda>ht. snd (flb_hash_table_add H now 0 True True ht (Some tag) tag_len a [] 0))
                        (i\<lparr>in_chunks := mk_list_add a (in_chunks i)\<rparr>)) s1)))"

text \<open>The accounting of \<^verbatim>\<open>flb_input_chunk_destroy\<close>, then the rest of it, which
  \<^verbatim>\<open>flb_input_chunk_destroy_corrupted\<close> shares.\<close>

definition chunk_uncount :: "'c cio_api \<Rightarrow> addr \<Rightarrow> 'c flb_engine \<Rightarrow> 'c flb_engine" where
  "chunk_uncount io a s =
     (let c = ic s a; bytes = flb_input_chunk_get_real_size io c in
      s\<lparr>e_outputs := map (\<lambda>x.
          if o_total_limit_size x = -1 then x
          else if bytes = -1 then x
          else if route_bit (ic_routes_mask c) (o_id x) then
            (if ic_fs_counted c then x\<lparr>o_fs_chunks_size := o_fs_chunks_size x - bytes\<rparr> else x)
          else x) (e_outputs s)\<rparr>)"

definition chunk_release ::
  "(cstr \<Rightarrow> 64 word) \<Rightarrow> addr \<Rightarrow> bool \<Rightarrow> cstr option \<Rightarrow> 'c flb_engine \<Rightarrow> 'c flb_engine" where
  "chunk_release H a del tag_buf s =
     (let c = ic s a; n = ic_in c;
          s1 = (case tag_buf of
                  Some tag \<Rightarrow> if del then in_upd n (ht_of_type (ic_event_type c)
                      (\<lambda>ht. snd (flb_hash_table_del_ptr H ht tag (int (length tag)) (HRef a)))) s else s
                | None \<Rightarrow> s);
          s2 = in_upd n (\<lambda>i. i\<lparr>in_chunks := mk_list_del a (in_chunks i)\<rparr>) s1
      in s2\<lparr>e_chunk_heap := (e_chunk_heap s2)(a := None)\<rparr>)"

definition flb_input_chunk_destroy ::
  "'c cio_api \<Rightarrow> (cstr \<Rightarrow> 64 word) \<Rightarrow> addr \<Rightarrow> bool \<Rightarrow> 'c flb_engine \<Rightarrow> 'c flb_engine" where
  "flb_input_chunk_destroy io H a del s =
     (let s1 = (if \<not> flb_input_chunk_is_up io s a then snd (flb_input_chunk_set_up io a s) else s);
          s2 = chunk_uncount io a s1;
          s3 = (if \<not> flb_input_chunk_is_up io s2 a then snd (chunk_call (cio_up_force io) a s2) else s2);
          (ret, tag_buf) = flb_input_chunk_get_tag io (ic_chunk (ic s3 a))
      in chunk_release H a del tag_buf s3)"

definition flb_input_chunk_destroy_corrupted ::
  "'c cio_api \<Rightarrow> (cstr \<Rightarrow> 64 word) \<Rightarrow> addr \<Rightarrow> cstr option \<Rightarrow> bool \<Rightarrow> 'c flb_engine \<Rightarrow> 'c flb_engine" where
  "flb_input_chunk_destroy_corrupted io H a tag_buf del s =
     chunk_release H a del tag_buf (chunk_uncount io a s)"

section \<open>Flush\<close>

text \<open>Result: the content, \<open>None\<close> for NULL, and its size where the code sets it.\<close>

definition flb_input_chunk_flush ::
  "'c cio_api \<Rightarrow> addr \<Rightarrow> 'c flb_engine \<Rightarrow> (cstr option \<times> nat) \<times> 'c flb_engine" where
  "flb_input_chunk_flush io a s =
     (let pre_size = flb_input_chunk_get_real_size io (ic s a);
          (ret, s1) = (if \<not> flb_input_chunk_is_up io s a then chunk_call (cio_up io) a s else (0, s))
      in if ret = -1 then ((None, 0), s1)
         else let s2 = ic_upd a (\<lambda>c. c\<lparr>ic_chunk := cio_lock io (ic_chunk c)\<rparr>) s1 in
           case cio_get_content io (ic_chunk (ic s2 a)) of
             None \<Rightarrow> ((None, 0), s2)
           | Some None \<Rightarrow> ((None, 0), s2)
           | Some (Some buf) \<Rightarrow>
               (let s3 = ic_upd a (\<lambda>c. c\<lparr>ic_busy := True\<rparr>) s2;
                    post_size = flb_input_chunk_get_real_size io (ic s3 a)
                in ((Some buf, length buf),
                    if post_size \<noteq> pre_size
                    then flb_input_chunk_update_output_instances a (post_size - pre_size) s3 else s3)))"

definition flb_input_chunk_release_lock :: "addr \<Rightarrow> 'c flb_engine \<Rightarrow> int \<times> 'c flb_engine" where
  "flb_input_chunk_release_lock a s =
     (if \<not> ic_busy (ic s a) then (-1, s) else (0, ic_upd a (\<lambda>c. c\<lparr>ic_busy := False\<rparr>) s))"

section \<open>Deletion guards\<close>

definition flb_input_chunk_safe_delete :: "'c flb_engine \<Rightarrow> addr \<Rightarrow> addr \<Rightarrow> int \<Rightarrow> bool" where
  "flb_input_chunk_safe_delete s new_ic old_ic out_id =
     (if new_ic = old_ic then False
      else if \<not> route_bit (ic_routes_mask (ic s old_ic)) out_id then False
      else True)"

definition flb_input_chunk_is_task_safe_delete :: "'c flb_engine \<Rightarrow> addr option \<Rightarrow> bool" where
  "flb_input_chunk_is_task_safe_delete s task =
     (case task of None \<Rightarrow> True | Some t \<Rightarrow> if tk_users (tk s t) \<noteq> 0 then False else True)"

section \<open>The metadata header\<close>

text \<open>Documented behaviour of Chunk I/O: a write of metadata returns minus one, or zero and then the
  metadata is what is read afterwards.\<close>

definition meta_faithful :: "'c cio_api \<Rightarrow> bool" where
  "meta_faithful io \<longleftrightarrow>
     (\<forall>ch m. case cio_meta_write io ch m of (r, ch') \<Rightarrow> r = -1 \<or> r = 0 \<and> cio_meta_read io ch' = Some m)"

lemma write_header_meta:
  assumes "meta_faithful io"
    "input_chunk_write_header io mem_ok chunk event_type tag tag_len = (0, chunk')"
  shows "cio_meta_read io chunk' = Some ([MAGIC_BYTE_0, MAGIC_BYTE_1, meta_type_byte event_type, CHR 0x00] @
    take (nat (min tag_len FLB_INPUT_CHUNK_TAG_MAX)) tag)"
proof -
  define meta where "meta = [MAGIC_BYTE_0, MAGIC_BYTE_1, meta_type_byte event_type, CHR 0x00] @
    take (nat (min tag_len FLB_INPUT_CHUNK_TAG_MAX)) tag"
  obtain r ch where w: "cio_meta_write io chunk meta = (r, ch)" by fastforce
  have "(if tag_len > FLB_INPUT_CHUNK_TAG_MAX then FLB_INPUT_CHUNK_TAG_MAX else tag_len) =
      min tag_len FLB_INPUT_CHUNK_TAG_MAX" by simp
  then have "r \<noteq> -1" "ch = chunk'"
    using assms(2) w by (auto simp: input_chunk_write_header_def Let_def meta_def split: if_splits)
  moreover have "case cio_meta_write io chunk meta of (r, ch') \<Rightarrow> r = -1 \<or> r = 0 \<and> cio_meta_read io ch' = Some meta"
    using assms(1) by (simp add: meta_faithful_def)
  then have "r = -1 \<or> r = 0 \<and> cio_meta_read io ch = Some meta" using w by simp
  ultimately show ?thesis by (auto simp: meta_def)
qed

section \<open>Accounting\<close>

text \<open>What a chunk contributes to an output.\<close>

definition chunk_bytes :: "'c cio_api \<Rightarrow> 'c flb_input_chunk \<Rightarrow> int \<Rightarrow> int" where
  "chunk_bytes io c i =
     (if ic_fs_counted c \<and> route_bit (ic_routes_mask c) i \<and> flb_input_chunk_get_real_size io c \<noteq> -1
      then flb_input_chunk_get_real_size io c else 0)"

definition fs_accounted :: "'c cio_api \<Rightarrow> 'c flb_engine \<Rightarrow> bool" where
  "fs_accounted io s \<longleftrightarrow>
     finite (dom (e_chunk_heap s)) \<and>
     (\<forall>x\<in>set (e_outputs s). o_total_limit_size x \<noteq> -1 \<longrightarrow>
        o_fs_chunks_size x = (\<Sum>a\<in>dom (e_chunk_heap s). chunk_bytes io (ic s a) (o_id x)))"

lemma chunk_bytes_sum_upd:
  assumes "finite (dom (e_chunk_heap s))" "a \<in> dom (e_chunk_heap s)"
    "dom (e_chunk_heap s') = dom (e_chunk_heap s)" "\<And>b. b \<noteq> a \<Longrightarrow> ic s' b = ic s b"
  shows "(\<Sum>b\<in>dom (e_chunk_heap s'). chunk_bytes io (ic s' b) i) =
    (\<Sum>b\<in>dom (e_chunk_heap s). chunk_bytes io (ic s b) i) - chunk_bytes io (ic s a) i + chunk_bytes io (ic s' a) i"
proof -
  have "(\<Sum>b\<in>dom (e_chunk_heap s) - {a}. chunk_bytes io (ic s' b) i) =
      (\<Sum>b\<in>dom (e_chunk_heap s) - {a}. chunk_bytes io (ic s b) i)"
    using assms(4) by (intro sum.cong) auto
  then show ?thesis
    using sum.remove [OF assms(1,2), of "\<lambda>b. chunk_bytes io (ic s b) i"]
      sum.remove [OF assms(1,2), of "\<lambda>b. chunk_bytes io (ic s' b) i"] assms(3) by simp
qed

text \<open>After the handle of a chunk changed, the outputs are updated by the difference of what the
  chunk contributes.\<close>

lemma update_accounted:
  assumes "fs_accounted io s" "a \<in> dom (e_chunk_heap s)"
    and s1: "s1 = ic_upd a (\<lambda>c. c\<lparr>ic_chunk := ch\<rparr>) s"
    and new: "flb_input_chunk_get_real_size io (ic s1 a) \<noteq> -1"
    and old: "ic_fs_counted (ic s a) \<Longrightarrow> flb_input_chunk_get_real_size io (ic s a) \<noteq> -1"
    and d: "d = flb_input_chunk_get_real_size io (ic s1 a) -
      (if ic_fs_counted (ic s a) then flb_input_chunk_get_real_size io (ic s a) else 0)"
  shows "fs_accounted io (flb_input_chunk_update_output_instances a d s1)"
proof -
  define s2 where "s2 = flb_input_chunk_update_output_instances a d s1"
  define m where "m = ic_routes_mask (ic s a)"
  define hit :: "out_state \<Rightarrow> bool" where "hit = (\<lambda>x. o_total_limit_size x \<noteq> -1 \<and> route_bit m (o_id x))"
  have m1: "ic_routes_mask (ic s1 a) = m" by (simp add: s1 m_def)
  have outs: "e_outputs s2 = map (\<lambda>x. if hit x then x\<lparr>o_fs_chunks_size := o_fs_chunks_size x + d\<rparr> else x) (e_outputs s)"
    by (simp add: s2_def flb_input_chunk_update_output_instances_def Let_def hit_def s1 m_def)
  have dm: "dom (e_chunk_heap s2) = dom (e_chunk_heap s)"
    using assms(2) by (auto simp: s2_def flb_input_chunk_update_output_instances_def Let_def s1)
  have oth: "ic s2 b = ic s b" if "b \<noteq> a" for b
    using that by (simp add: s2_def flb_input_chunk_update_output_instances_def Let_def s1)
  have ica: "ic s2 a = (if \<exists>x\<in>set (e_outputs s). hit x then (ic s1 a)\<lparr>ic_fs_counted := True\<rparr> else ic s1 a)"
    by (auto simp: s2_def flb_input_chunk_update_output_instances_def Let_def hit_def s1 m_def)
  have rs: "flb_input_chunk_get_real_size io (c\<lparr>ic_fs_counted := b\<rparr>) = flb_input_chunk_get_real_size io c" for c b
    by (simp add: flb_input_chunk_get_real_size_def flb_input_chunk_get_size_def Let_def)
  have fin: "finite (dom (e_chunk_heap s))" using assms(1) by (simp add: fs_accounted_def)
  have key: "o_fs_chunks_size (if hit x then x\<lparr>o_fs_chunks_size := o_fs_chunks_size x + d\<rparr> else x) =
      (\<Sum>b\<in>dom (e_chunk_heap s2). chunk_bytes io (ic s2 b) (o_id x))"
    if x: "x \<in> set (e_outputs s)" "o_total_limit_size x \<noteq> -1" for x
  proof -
    have e: "(\<Sum>b\<in>dom (e_chunk_heap s2). chunk_bytes io (ic s2 b) (o_id x)) =
        o_fs_chunks_size x - chunk_bytes io (ic s a) (o_id x) + chunk_bytes io (ic s2 a) (o_id x)"
      using chunk_bytes_sum_upd [OF fin assms(2) dm oth] assms(1) x by (simp add: fs_accounted_def)
    show ?thesis
    proof (cases "route_bit m (o_id x)")
      case True
      then have "hit x" using x(2) by (simp add: hit_def)
      then have ch: "ic s2 a = (ic s1 a)\<lparr>ic_fs_counted := True\<rparr>" using ica x(1) by auto
      have "chunk_bytes io (ic s2 a) (o_id x) = flb_input_chunk_get_real_size io (ic s1 a)"
        using True new unfolding ch chunk_bytes_def rs by (simp add: m1)
      moreover have "chunk_bytes io (ic s a) (o_id x) =
          (if ic_fs_counted (ic s a) then flb_input_chunk_get_real_size io (ic s a) else 0)"
        using True old by (simp add: chunk_bytes_def m_def)
      ultimately show ?thesis using e d \<open>hit x\<close> by simp
    next
      case False
      then have "chunk_bytes io (ic s2 a) (o_id x) = 0" "chunk_bytes io (ic s a) (o_id x) = 0" "\<not> hit x"
        using m1 by (auto simp: chunk_bytes_def ica m_def hit_def)
      then show ?thesis using e by simp
    qed
  qed
  show ?thesis
    unfolding fs_accounted_def s2_def [symmetric]
  proof (intro conjI ballI impI)
    show "finite (dom (e_chunk_heap s2))" using fin dm by simp
  next
    fix y assume y: "y \<in> set (e_outputs s2)" "o_total_limit_size y \<noteq> -1"
    then obtain x where x: "x \<in> set (e_outputs s)"
      "y = (if hit x then x\<lparr>o_fs_chunks_size := o_fs_chunks_size x + d\<rparr> else x)"
      unfolding outs by auto
    then have "o_total_limit_size x \<noteq> -1" "o_id y = o_id x" using y by (auto split: if_splits)
    then show "o_fs_chunks_size y = (\<Sum>b\<in>dom (e_chunk_heap s2). chunk_bytes io (ic s2 b) (o_id y))"
      using key [OF x(1)] x(2) by simp
  qed
qed

text \<open>Destroying a chunk takes back what it contributes.\<close>

lemma chunk_call_fields [simp]:
  "e_inputs (snd (chunk_call f a s)) = e_inputs s" "e_outputs (snd (chunk_call f a s)) = e_outputs s"
  "e_task_heap (snd (chunk_call f a s)) = e_task_heap s" "e_retry_heap (snd (chunk_call f a s)) = e_retry_heap s"
  "e_tasks_map (snd (chunk_call f a s)) = e_tasks_map s" "e_sched (snd (chunk_call f a s)) = e_sched s"
  "e_next (snd (chunk_call f a s)) = e_next s" "tk (snd (chunk_call f a s)) = tk s" "rt (snd (chunk_call f a s)) = rt s"
  "e_is_running (snd (chunk_call f a s)) = e_is_running s"
  "e_is_ingestion_active (snd (chunk_call f a s)) = e_is_ingestion_active s"
  "b \<noteq> a \<Longrightarrow> ic (snd (chunk_call f a s)) b = ic s b"
  "ic (snd (chunk_call f a s)) a = (ic s a)\<lparr>ic_chunk := snd (f (ic_chunk (ic s a)))\<rparr>"
  "dom (e_chunk_heap (snd (chunk_call f a s))) = insert a (dom (e_chunk_heap s))"
  by (auto simp: chunk_call_def case_prod_beta)

lemma chunk_uncount_fields [simp]:
  "e_inputs (chunk_uncount io a s) = e_inputs s" "e_chunk_heap (chunk_uncount io a s) = e_chunk_heap s"
  "e_task_heap (chunk_uncount io a s) = e_task_heap s" "e_retry_heap (chunk_uncount io a s) = e_retry_heap s"
  "e_tasks_map (chunk_uncount io a s) = e_tasks_map s" "e_sched (chunk_uncount io a s) = e_sched s"
  "e_next (chunk_uncount io a s) = e_next s" "ic (chunk_uncount io a s) = ic s" "tk (chunk_uncount io a s) = tk s"
  "rt (chunk_uncount io a s) = rt s" "e_is_running (chunk_uncount io a s) = e_is_running s"
  "e_is_ingestion_active (chunk_uncount io a s) = e_is_ingestion_active s"
  by (auto simp: chunk_uncount_def Let_def)

lemma chunk_uncount_outputs:
  "e_outputs (chunk_uncount io a s) =
     map (\<lambda>x. if o_total_limit_size x = -1 then x
              else x\<lparr>o_fs_chunks_size := o_fs_chunks_size x - chunk_bytes io (ic s a) (o_id x)\<rparr>) (e_outputs s)"
  by (auto simp: chunk_uncount_def Let_def chunk_bytes_def)

lemma ht_of_type_keeps [simp]:
  "in_chunks (ht_of_type e f i) = in_chunks i" "in_tasks (ht_of_type e f i) = in_tasks i"
  "in_routes_direct (ht_of_type e f i) = in_routes_direct i"
  by (simp_all add: ht_of_type_def)

lemma chunk_release_fields [simp]:
  "e_outputs (chunk_release H a del tag s) = e_outputs s"
  "e_task_heap (chunk_release H a del tag s) = e_task_heap s"
  "e_retry_heap (chunk_release H a del tag s) = e_retry_heap s"
  "e_tasks_map (chunk_release H a del tag s) = e_tasks_map s" "e_sched (chunk_release H a del tag s) = e_sched s"
  "e_next (chunk_release H a del tag s) = e_next s" "tk (chunk_release H a del tag s) = tk s"
  "rt (chunk_release H a del tag s) = rt s"
  "e_chunk_heap (chunk_release H a del tag s) = (e_chunk_heap s)(a := None)"
  "length (e_inputs (chunk_release H a del tag s)) = length (e_inputs s)"
  "b \<noteq> a \<Longrightarrow> ic (chunk_release H a del tag s) b = ic s b"
  by (auto simp: chunk_release_def Let_def ic_def tk_def rt_def fun_eq_iff split: option.splits)

lemma chunk_release_inputs:
  assumes "ic_in (ic s a) < length (e_inputs s)"
  shows "in_chunks (e_inputs (chunk_release H a del tag s) ! n) =
      (if n = ic_in (ic s a) then mk_list_del a (in_chunks (e_inputs s ! n)) else in_chunks (e_inputs s ! n))"
    "in_tasks (e_inputs (chunk_release H a del tag s) ! n) = in_tasks (e_inputs s ! n)"
    "in_routes_direct (e_inputs (chunk_release H a del tag s) ! n) = in_routes_direct (e_inputs s ! n)"
  using assms by (auto simp: chunk_release_def Let_def split: option.splits)

text \<open>The handle of the chunk while it is destroyed: it is brought up, by force if need be.\<close>

definition destroy_prepared :: "'c cio_api \<Rightarrow> addr \<Rightarrow> 'c flb_engine \<Rightarrow> 'c flb_engine" where
  "destroy_prepared io a s =
     (if \<not> flb_input_chunk_is_up io s a then snd (flb_input_chunk_set_up io a s) else s)"

lemma destroy_prepared_fields [simp]:
  "e_inputs (destroy_prepared io a s) = e_inputs s" "e_outputs (destroy_prepared io a s) = e_outputs s"
  "e_task_heap (destroy_prepared io a s) = e_task_heap s" "e_retry_heap (destroy_prepared io a s) = e_retry_heap s"
  "e_tasks_map (destroy_prepared io a s) = e_tasks_map s" "e_sched (destroy_prepared io a s) = e_sched s"
  "e_next (destroy_prepared io a s) = e_next s" "tk (destroy_prepared io a s) = tk s"
  "rt (destroy_prepared io a s) = rt s" "b \<noteq> a \<Longrightarrow> ic (destroy_prepared io a s) b = ic s b"
  "ic_in (ic (destroy_prepared io a s) a) = ic_in (ic s a)"
  "ic_routes_mask (ic (destroy_prepared io a s) a) = ic_routes_mask (ic s a)"
  "ic_fs_counted (ic (destroy_prepared io a s) a) = ic_fs_counted (ic s a)"
  "a \<in> dom (e_chunk_heap s) \<Longrightarrow> dom (e_chunk_heap (destroy_prepared io a s)) = dom (e_chunk_heap s)"
  by (auto simp: destroy_prepared_def flb_input_chunk_set_up_def)

lemma destroy_split:
  "\<exists>s3 tag. flb_input_chunk_destroy io H a del s = chunk_release H a del tag s3 \<and>
     e_outputs s3 = e_outputs (chunk_uncount io a (destroy_prepared io a s)) \<and> e_inputs s3 = e_inputs s \<and>
     e_task_heap s3 = e_task_heap s \<and> e_retry_heap s3 = e_retry_heap s \<and> e_tasks_map s3 = e_tasks_map s \<and>
     e_sched s3 = e_sched s \<and> e_next s3 = e_next s \<and> (\<forall>b. b \<noteq> a \<longrightarrow> ic s3 b = ic s b) \<and>
     ic_in (ic s3 a) = ic_in (ic s a) \<and>
     (a \<in> dom (e_chunk_heap s) \<longrightarrow> dom (e_chunk_heap s3) = dom (e_chunk_heap s))"
proof -
  define s2 where "s2 = chunk_uncount io a (destroy_prepared io a s)"
  define s3 where "s3 = (if \<not> flb_input_chunk_is_up io s2 a then snd (chunk_call (cio_up_force io) a s2) else s2)"
  have "flb_input_chunk_destroy io H a del s =
      chunk_release H a del (snd (flb_input_chunk_get_tag io (ic_chunk (ic s3 a)))) s3"
    by (simp add: flb_input_chunk_destroy_def destroy_prepared_def s2_def s3_def Let_def case_prod_beta)
  moreover have "e_outputs s3 = e_outputs s2 \<and> e_inputs s3 = e_inputs s \<and>
     e_task_heap s3 = e_task_heap s \<and> e_retry_heap s3 = e_retry_heap s \<and> e_tasks_map s3 = e_tasks_map s \<and>
     e_sched s3 = e_sched s \<and> e_next s3 = e_next s \<and> (\<forall>b. b \<noteq> a \<longrightarrow> ic s3 b = ic s b) \<and>
     ic_in (ic s3 a) = ic_in (ic s a) \<and>
     (a \<in> dom (e_chunk_heap s) \<longrightarrow> dom (e_chunk_heap s3) = dom (e_chunk_heap s))"
    by (auto simp: s3_def s2_def insert_absorb)
  ultimately show ?thesis unfolding s2_def by blast
qed

text \<open>What destroying a chunk does to the rest of the engine.\<close>

lemma chunk_destroy_fields:
  "e_task_heap (flb_input_chunk_destroy io H a del s) = e_task_heap s"
  "e_retry_heap (flb_input_chunk_destroy io H a del s) = e_retry_heap s"
  "e_tasks_map (flb_input_chunk_destroy io H a del s) = e_tasks_map s"
  "e_sched (flb_input_chunk_destroy io H a del s) = e_sched s"
  "e_next (flb_input_chunk_destroy io H a del s) = e_next s"
  "length (e_inputs (flb_input_chunk_destroy io H a del s)) = length (e_inputs s)"
  "b \<noteq> a \<Longrightarrow> ic (flb_input_chunk_destroy io H a del s) b = ic s b"
  "e_outputs (flb_input_chunk_destroy io H a del s) = e_outputs (chunk_uncount io a (destroy_prepared io a s))"
  using destroy_split [of io H a del s] by auto

lemma chunk_destroy_heap:
  assumes "a \<in> dom (e_chunk_heap s)"
  shows "dom (e_chunk_heap (flb_input_chunk_destroy io H a del s)) = dom (e_chunk_heap s) - {a}"
  using destroy_split [of io H a del s] assms by (metis chunk_release_fields(9) dom_fun_upd)

lemma chunk_destroy_inputs:
  assumes "ic_in (ic s a) < length (e_inputs s)"
  shows "in_chunks (e_inputs (flb_input_chunk_destroy io H a del s) ! n) =
      (if n = ic_in (ic s a) then mk_list_del a (in_chunks (e_inputs s ! n)) else in_chunks (e_inputs s ! n))"
    "in_tasks (e_inputs (flb_input_chunk_destroy io H a del s) ! n) = in_tasks (e_inputs s ! n)"
    "in_routes_direct (e_inputs (flb_input_chunk_destroy io H a del s) ! n) = in_routes_direct (e_inputs s ! n)"
  using destroy_split [of io H a del s] chunk_release_inputs assms by metis+

lemma chunk_destroy_accounted:
  assumes "fs_accounted io s" "a \<in> dom (e_chunk_heap s)"
    and stable: "flb_input_chunk_get_real_size io (ic (destroy_prepared io a s) a) =
      flb_input_chunk_get_real_size io (ic s a)"
  shows "fs_accounted io (flb_input_chunk_destroy io H a del s)"
proof -
  define s' where "s' = flb_input_chunk_destroy io H a del s"
  have dm: "dom (e_chunk_heap s') = dom (e_chunk_heap s) - {a}" using chunk_destroy_heap [OF assms(2)] by (simp add: s'_def)
  have fin: "finite (dom (e_chunk_heap s))" using assms(1) by (simp add: fs_accounted_def)
  have b: "chunk_bytes io (ic (destroy_prepared io a s) a) i = chunk_bytes io (ic s a) i" for i
    using stable by (simp add: chunk_bytes_def)
  have outs: "e_outputs s' = map (\<lambda>x. if o_total_limit_size x = -1 then x
      else x\<lparr>o_fs_chunks_size := o_fs_chunks_size x - chunk_bytes io (ic s a) (o_id x)\<rparr>) (e_outputs s)"
    by (simp add: s'_def chunk_destroy_fields(8) chunk_uncount_outputs b)
  have sum: "(\<Sum>b\<in>dom (e_chunk_heap s'). chunk_bytes io (ic s' b) i) =
      (\<Sum>b\<in>dom (e_chunk_heap s). chunk_bytes io (ic s b) i) - chunk_bytes io (ic s a) i" for i
  proof -
    have "(\<Sum>b\<in>dom (e_chunk_heap s'). chunk_bytes io (ic s' b) i) = (\<Sum>b\<in>dom (e_chunk_heap s) - {a}. chunk_bytes io (ic s b) i)"
      unfolding dm by (intro sum.cong) (auto simp: s'_def chunk_destroy_fields(7))
    then show ?thesis using sum.remove [OF fin assms(2), of "\<lambda>b. chunk_bytes io (ic s b) i"] by simp
  qed
  show ?thesis
    unfolding fs_accounted_def s'_def [symmetric]
  proof (intro conjI ballI impI)
    show "finite (dom (e_chunk_heap s'))" using fin dm by simp
  next
    fix y assume y: "y \<in> set (e_outputs s')" "o_total_limit_size y \<noteq> -1"
    then obtain x where x: "x \<in> set (e_outputs s)" "o_total_limit_size x \<noteq> -1"
      "y = x\<lparr>o_fs_chunks_size := o_fs_chunks_size x - chunk_bytes io (ic s a) (o_id x)\<rparr>"
      unfolding outs by (auto split: if_splits)
    then show "o_fs_chunks_size y = (\<Sum>b\<in>dom (e_chunk_heap s'). chunk_bytes io (ic s' b) (o_id y))"
      using assms(1) by (simp add: sum fs_accounted_def)
  qed
qed

section \<open>Pausing and resuming\<close>

text \<open>The plugin was told to pause once more than to resume exactly while one of the two reasons
  holds; the memory limit only pauses inputs that buffer in memory, the limit of chunks only those
  that buffer on disk.\<close>

definition pause_ok :: "input_state \<Rightarrow> bool" where
  "pause_ok i \<longleftrightarrow>
     in_pauses i = in_resumes i + (if flb_input_buf_paused i then 1 else 0) \<and>
     (in_mem_buf_paused i \<longrightarrow> in_stream_type i \<noteq> FLB_STORAGE_FS) \<and>
     (in_storage_buf_paused i \<longrightarrow> in_stream_type i = FLB_STORAGE_FS)"

lemma set_limits_input:
  assumes "n < length (e_inputs s)"
  shows "e_inputs (flb_input_chunk_set_limits io n s) ! n =
    (let i = (e_inputs s ! n)\<lparr>in_mem_chunks_size := flb_input_chunk_total_size io s n\<rparr>;
         active = e_is_running s \<and> e_is_ingestion_active s;
         i1 = (if \<not> flb_input_chunk_is_mem_overlimit i \<and> active \<and> in_mem_buf_paused i
               then in_resume (i\<lparr>in_mem_buf_paused := False\<rparr>) else i)
     in (if \<not> flb_input_chunk_is_storage_overlimit io i1 \<and> active \<and> in_storage_buf_paused i1
         then in_resume (i1\<lparr>in_storage_buf_paused := False\<rparr>) else i1))"
  using assms by (simp add: flb_input_chunk_set_limits_def Let_def)

lemma pause_ok_size [simp]: "pause_ok (i\<lparr>in_mem_chunks_size := n\<rparr>) = pause_ok i"
  by (simp add: pause_ok_def flb_input_buf_paused_def)

lemma pause_ok_resume:
  assumes "pause_ok i" "in_cb_resume i"
  shows "in_mem_buf_paused i \<Longrightarrow> pause_ok (in_resume (i\<lparr>in_mem_buf_paused := False\<rparr>))"
    "in_storage_buf_paused i \<Longrightarrow> pause_ok (in_resume (i\<lparr>in_storage_buf_paused := False\<rparr>))"
  using assms by (auto simp: pause_ok_def flb_input_buf_paused_def in_resume_def)

lemma pause_ok_pause:
  assumes "pause_ok i"
  shows "in_stream_type i \<noteq> FLB_STORAGE_FS \<Longrightarrow> pause_ok ((flb_input_pause i)\<lparr>in_mem_buf_paused := True\<rparr>)"
    "in_stream_type i = FLB_STORAGE_FS \<Longrightarrow> pause_ok ((flb_input_pause i)\<lparr>in_storage_buf_paused := True\<rparr>)"
  using assms by (auto simp: pause_ok_def flb_input_buf_paused_def flb_input_pause_def)

lemma in_resume_simps [simp]:
  "in_mem_buf_paused (in_resume i) = in_mem_buf_paused i" "in_storage_buf_paused (in_resume i) = in_storage_buf_paused i"
  "in_cb_resume (in_resume i) = in_cb_resume i" "in_mem_chunks_size (in_resume i) = in_mem_chunks_size i"
  "in_mem_buf_limit (in_resume i) = in_mem_buf_limit i"
  by (simp_all add: in_resume_def)

section \<open>Properties\<close>

text \<open>A small instance of Chunk I/O for the examples: a chunk is a flag, a size and its metadata.\<close>

type_synonym demo_chunk = "bool \<times> int \<times> cstr option"

definition demo_io :: "demo_chunk cio_api" where
  "demo_io = \<lparr>cio_is_up = (\<lambda>(u, n, m). u), cio_up = (\<lambda>(u, n, m). (0, (True, n, m))),
     cio_up_force = (\<lambda>(u, n, m). (0, (True, n, m))), cio_down = (\<lambda>(u, n, m). (0, (False, n, m))),
     cio_content_size = (\<lambda>(u, n, m). n), cio_real_size = (\<lambda>(u, n, m). n),
     cio_meta_size = (\<lambda>(u, n, m). case m of None \<Rightarrow> 0 | Some b \<Rightarrow> int (length b)),
     cio_meta_read = (\<lambda>(u, n, m). m), cio_meta_write = (\<lambda>(u, n, m) b. (0, (u, n, Some b))),
     cio_lock = (\<lambda>c. c), cio_is_locked = (\<lambda>c. False), cio_get_content = (\<lambda>c. Some (Some ''x'')),
     cio_write = (\<lambda>(u, n, m) b. (0, (u, n + int (length b), m))), cio_truncate = (\<lambda>(u, n, m) k. (0, (u, k, m))),
     cio_tx_rollback = (\<lambda>c. c), cio_error_get = (\<lambda>c. 0),
     cio_total_chunks_up = 1, cio_max_chunks_up = 128\<rparr>"

text \<open>C38: the metadata header round trip: the tag read from a chunk is the tag it was created with,
  cut at 65531 bytes, and the event type read is the one it was created with, for logs, metrics and
  traces. \<^verbatim>\<open>cio_meta_write\<close> is assumed to return zero or minus one and to store what it is
  given.\<close>

theorem input_chunk_header_roundtrip:
  assumes "meta_faithful io"
    "event_type \<in> {FLB_INPUT_LOGS, FLB_INPUT_METRICS, FLB_INPUT_TRACES}"
    "input_chunk_write_header io mem_ok chunk event_type tag tag_len = (0, chunk')"
  shows "flb_input_chunk_get_tag io chunk' = (0, Some (take (nat (min tag_len FLB_INPUT_CHUNK_TAG_MAX)) tag)) \<and>
    flb_input_chunk_get_event_type io chunk' = event_type"
  using write_header_meta [OF assms(1,3)] assms(2)
  by (auto simp: flb_input_chunk_get_tag_def flb_input_chunk_get_event_type_def input_chunk_has_magic_bytes_def
      FLB_INPUT_CHUNK_META_HEADER_def meta_type_byte_def flb_event_type_defs)

lemma demo_io_meta: "meta_faithful demo_io"
  by (simp add: meta_faithful_def demo_io_def case_prod_beta)

theorem input_chunk_header_roundtrip_witness:
  "flb_input_chunk_get_tag demo_io (snd (input_chunk_write_header demo_io True (True, 0, None) 1 ''cpu.0'' 5)) =
     (0, Some ''cpu.0'')"
proof -
  have "input_chunk_write_header demo_io True (True, 0, None) 1 ''cpu.0'' 5 =
      (0, snd (input_chunk_write_header demo_io True (True, 0, None) 1 ''cpu.0'' 5))"
    by (simp add: input_chunk_write_header_def demo_io_def Let_def)
  then show ?thesis
    using input_chunk_header_roundtrip [OF demo_io_meta, of 1 True "(True, 0, None)" "''cpu.0''" 5]
    by (simp add: flb_event_type_defs meta_consts)
qed

text \<open>A chunk of blobs does not read back as one: its header says logs.\<close>

theorem input_chunk_header_blobs_become_logs:
  assumes "meta_faithful io"
    "input_chunk_write_header io mem_ok chunk FLB_INPUT_BLOBS tag tag_len = (0, chunk')"
  shows "flb_input_chunk_get_event_type io chunk' = FLB_INPUT_LOGS"
  using write_header_meta [OF assms]
  by (auto simp: flb_input_chunk_get_event_type_def input_chunk_has_magic_bytes_def
      FLB_INPUT_CHUNK_META_HEADER_def meta_type_byte_def flb_event_type_defs)

theorem input_chunk_header_blobs_become_logs_witness:
  "flb_input_chunk_get_event_type demo_io
     (snd (input_chunk_write_header demo_io True (True, 0, None) FLB_INPUT_BLOBS ''b'' 1)) = FLB_INPUT_LOGS"
proof -
  have w: "input_chunk_write_header demo_io True (True, 0, None) FLB_INPUT_BLOBS ''b'' 1 =
      (0, snd (input_chunk_write_header demo_io True (True, 0, None) FLB_INPUT_BLOBS ''b'' 1))"
    by (simp add: input_chunk_write_header_def demo_io_def Let_def)
  show ?thesis by (rule input_chunk_header_blobs_become_logs [OF demo_io_meta w])
qed

text \<open>An engine with one input, one output limited to a thousand bytes and one chunk routed to it.\<close>

definition demo_chunk_of :: "bool \<Rightarrow> int \<Rightarrow> demo_chunk flb_input_chunk" where
  "demo_chunk_of counted n = \<lparr>ic_event_type = 0, ic_fs_counted = counted, ic_busy = False, ic_fs_backlog = False,
     ic_total_records = 1, ic_added_records = 0, ic_chunk = (True, n, None), ic_in = 0, ic_task = None, ic_routes_mask = [1, 0, 0, 0]\<rparr>"

definition demo_input :: "int \<Rightarrow> input_state" where
  "demo_input used = \<lparr>in_chunks = [0], in_tasks = [], in_mem_chunks_size = used, in_mem_buf_limit = 100,
     in_mem_buf_paused = False, in_storage_buf_paused = False, in_storage_type = FLB_STORAGE_MEM,
     in_stream_type = FLB_STORAGE_MEM, in_pause_on_chunks_overlimit = False, in_cb_resume = True,
     in_resumes = 0, in_pauses = 0, in_ht_log_chunks = demo_ht, in_ht_metric_chunks = demo_ht,
     in_ht_trace_chunks = demo_ht, in_routes_direct = [], in_name = ''dummy.0'', in_tag = None,
     in_routable = True, in_threaded = False, in_cmt_records = 0, in_cmt_bytes = 0,
     in_cmt_memrb_dropped_chunks = 0, in_cmt_memrb_dropped_bytes = 0\<rparr>"

definition demo_out :: "int \<Rightarrow> out_state" where
  "demo_out fs = \<lparr>o_id = 0, o_match = Some ''*'', o_match_regex = None, o_event_type = 1,
     o_total_limit_size = 1000, o_fs_chunks_size = fs, o_fs_backlog_chunks_size = 0, o_retry_limit = 2,
     o_flags = 0\<rparr>"

definition demo_engine :: "bool \<Rightarrow> int \<Rightarrow> int \<Rightarrow> demo_chunk flb_engine" where
  "demo_engine counted n fs = \<lparr>e_inputs = [demo_input n], e_outputs = [demo_out fs],
     e_chunk_heap = [0 \<mapsto> demo_chunk_of counted n], e_task_heap = Map.empty, e_retry_heap = Map.empty,
     e_tasks_map = replicate 2048 None, e_sched = demo_sched, e_next = 1, e_is_running = True,
     e_is_ingestion_active = True\<rparr>"

lemma demo_accounted: "fs_accounted demo_io (demo_engine False 0 0)" "fs_accounted demo_io (demo_engine True 100 100)"
proof -
  have "route_bit [1, 0, 0, 0] 0" by code_simp
  then show "fs_accounted demo_io (demo_engine False 0 0)" "fs_accounted demo_io (demo_engine True 100 100)"
    by (simp_all add: fs_accounted_def demo_engine_def demo_out_def demo_chunk_of_def ic_def chunk_bytes_def
        flb_input_chunk_get_real_size_def demo_io_def)
qed

text \<open>C35: byte accounting when data is appended. If the counter of every limited output is the sum
  of the sizes of the counted chunks routed to it, and the size of one chunk changes, then
  \<^verbatim>\<open>flb_input_chunk_update_output_instances\<close> with the difference (the whole size for a chunk
  not counted yet) restores that.\<close>

theorem flb_input_chunk_update_accounted:
  assumes "fs_accounted io s" "a \<in> dom (e_chunk_heap s)"
    and "s1 = ic_upd a (\<lambda>c. c\<lparr>ic_chunk := ch\<rparr>) s"
    and "flb_input_chunk_get_real_size io (ic s1 a) \<noteq> -1"
    and "ic_fs_counted (ic s a) \<Longrightarrow> flb_input_chunk_get_real_size io (ic s a) \<noteq> -1"
    and "d = flb_input_chunk_get_real_size io (ic s1 a) -
      (if ic_fs_counted (ic s a) then flb_input_chunk_get_real_size io (ic s a) else 0)"
  shows "fs_accounted io (flb_input_chunk_update_output_instances a d s1)"
  by (rule update_accounted [OF assms])

theorem flb_input_chunk_update_accounted_witness:
  "fs_accounted demo_io (flb_input_chunk_update_output_instances 0 100
     (ic_upd 0 (\<lambda>c. c\<lparr>ic_chunk := (True, 100, None)\<rparr>) (demo_engine False 0 0)))"
  by (rule flb_input_chunk_update_accounted [OF demo_accounted(1), where ch = "(True, 100, None)"])
    (simp_all add: demo_engine_def demo_chunk_of_def ic_def flb_input_chunk_get_real_size_def demo_io_def)

text \<open>C37: byte accounting when a chunk is destroyed. Provided that bringing the chunk up does not
  change its size, its bytes leave the counters of exactly the outputs it was counted for; the chunk
  is released and unlinked from its input, and no other chunk and no task changes.\<close>

theorem flb_input_chunk_destroy_accounted:
  assumes "fs_accounted io s" "a \<in> dom (e_chunk_heap s)" "ic_in (ic s a) < length (e_inputs s)"
    and "flb_input_chunk_get_real_size io (ic (destroy_prepared io a s) a) = flb_input_chunk_get_real_size io (ic s a)"
  shows "fs_accounted io (flb_input_chunk_destroy io H a del s) \<and>
    dom (e_chunk_heap (flb_input_chunk_destroy io H a del s)) = dom (e_chunk_heap s) - {a} \<and>
    (\<forall>b. b \<noteq> a \<longrightarrow> ic (flb_input_chunk_destroy io H a del s) b = ic s b) \<and>
    e_task_heap (flb_input_chunk_destroy io H a del s) = e_task_heap s \<and>
    in_chunks (e_inputs (flb_input_chunk_destroy io H a del s) ! ic_in (ic s a)) =
      mk_list_del a (in_chunks (e_inputs s ! ic_in (ic s a)))"
  using chunk_destroy_accounted [OF assms(1,2,4), of H del] chunk_destroy_heap [OF assms(2)]
    chunk_destroy_inputs(1) [OF assms(3)] by (simp add: chunk_destroy_fields(1,7))

theorem flb_input_chunk_destroy_accounted_witness:
  "fs_accounted demo_io (flb_input_chunk_destroy demo_io (\<lambda>_. 0) 0 True (demo_engine True 100 100))"
  using flb_input_chunk_destroy_accounted [OF demo_accounted(2), of 0 "\<lambda>_. 0" True]
  by (simp add: demo_engine_def demo_chunk_of_def ic_def flb_input_chunk_get_real_size_def demo_io_def
      destroy_prepared_def flb_input_chunk_is_up_def)

text \<open>Pausing and resuming alternate. \<^verbatim>\<open>flb_input_chunk_protect\<close> pauses an input that
  buffers in memory exactly when it is over its limit and is not a ring buffer, and
  \<^verbatim>\<open>flb_input_chunk_set_limits\<close> resumes it, while the engine runs, exactly when it is below;
  the plugin is told once each time.\<close>

theorem flb_input_pause_resume_alternate:
  assumes "n < length (e_inputs s)" "pause_ok (e_inputs s ! n)" "in_cb_resume (e_inputs s ! n)"
  shows "let p = e_inputs (snd (flb_input_chunk_protect io n s)) ! n; r = e_inputs (flb_input_chunk_set_limits io n s) ! n
    in pause_ok p \<and> pause_ok r \<and>
      (in_stream_type (e_inputs s ! n) \<noteq> FLB_STORAGE_FS \<longrightarrow>
        in_mem_buf_paused p = (in_mem_buf_paused (e_inputs s ! n) \<or>
          flb_input_chunk_is_mem_overlimit (e_inputs s ! n) \<and> in_storage_type (e_inputs s ! n) \<noteq> FLB_STORAGE_MEMRB)) \<and>
      (e_is_running s \<and> e_is_ingestion_active s \<longrightarrow>
        in_mem_buf_paused r = (in_mem_buf_paused (e_inputs s ! n) \<and> flb_input_chunk_is_mem_overlimit r))"
proof -
  define i where "i = e_inputs s ! n"
  have p: "e_inputs (snd (flb_input_chunk_protect io n s)) ! n =
     (if flb_input_chunk_is_storage_overlimit io i then (flb_input_pause i)\<lparr>in_storage_buf_paused := True\<rparr>
      else if in_stream_type i = FLB_STORAGE_FS then i
      else if flb_input_chunk_is_mem_overlimit i \<and> in_storage_type i \<noteq> FLB_STORAGE_MEMRB
      then (flb_input_pause i)\<lparr>in_mem_buf_paused := True\<rparr> else i)"
    using assms(1) by (simp add: flb_input_chunk_protect_def Let_def i_def)
  define j where "j = i\<lparr>in_mem_chunks_size := flb_input_chunk_total_size io s n\<rparr>"
  define act where "act \<longleftrightarrow> e_is_running s \<and> e_is_ingestion_active s"
  define i1 where "i1 = (if \<not> flb_input_chunk_is_mem_overlimit j \<and> act \<and> in_mem_buf_paused j
    then in_resume (j\<lparr>in_mem_buf_paused := False\<rparr>) else j)"
  define r where "r = (if \<not> flb_input_chunk_is_storage_overlimit io i1 \<and> act \<and> in_storage_buf_paused i1
    then in_resume (i1\<lparr>in_storage_buf_paused := False\<rparr>) else i1)"
  have r_eq: "e_inputs (flb_input_chunk_set_limits io n s) ! n = r"
    using set_limits_input [OF assms(1), of io] by (simp only: Let_def r_def i1_def j_def i_def act_def)
  have j: "pause_ok j" "in_cb_resume j" using assms(2,3) by (simp_all add: j_def i_def)
  have i1: "pause_ok i1" "in_cb_resume i1" using j pause_ok_resume(1) [OF j] by (simp_all add: i1_def)
  have rok: "pause_ok r" using i1 pause_ok_resume(2) [OF i1] by (simp add: r_def)
  have ov: "flb_input_chunk_is_mem_overlimit r = flb_input_chunk_is_mem_overlimit j"
    by (simp add: flb_input_chunk_is_mem_overlimit_def r_def i1_def)
  have rp: "act \<longrightarrow> in_mem_buf_paused r = (in_mem_buf_paused i \<and> flb_input_chunk_is_mem_overlimit r)"
    unfolding ov by (auto simp: r_def i1_def j_def)
  have pok: "pause_ok (e_inputs (snd (flb_input_chunk_protect io n s)) ! n)"
    using pause_ok_pause [OF assms(2)] assms(2)
    unfolding p by (auto simp: i_def flb_input_chunk_is_storage_overlimit_def)
  have "in_stream_type i \<noteq> FLB_STORAGE_FS \<longrightarrow>
      in_mem_buf_paused (e_inputs (snd (flb_input_chunk_protect io n s)) ! n) =
      (in_mem_buf_paused i \<or> flb_input_chunk_is_mem_overlimit i \<and> in_storage_type i \<noteq> FLB_STORAGE_MEMRB)"
    unfolding p by (auto simp: flb_input_chunk_is_storage_overlimit_def)
  then show ?thesis using pok rok rp unfolding Let_def r_eq act_def i_def by blast
qed

theorem flb_input_pause_resume_alternate_witness:
  "in_mem_buf_paused (e_inputs (snd (flb_input_chunk_protect demo_io 0 (demo_engine True 100 100))) ! 0)"
proof -
  have "pause_ok (e_inputs (demo_engine True 100 100) ! 0)" "in_cb_resume (e_inputs (demo_engine True 100 100) ! 0)"
    "0 < length (e_inputs (demo_engine True 100 100))"
    by (simp_all add: demo_engine_def demo_input_def pause_ok_def flb_input_buf_paused_def)
  from flb_input_pause_resume_alternate [OF this(3,1,2), of demo_io] show ?thesis
    by (simp add: Let_def demo_engine_def demo_input_def storage_consts flb_input_chunk_is_mem_overlimit_def)
qed

end
