(* ===== verification/Flb_Task.thy ===== *)
theory Flb_Task
  imports Flb_Input_Chunk
begin

text \<open>
  \<^verbatim>\<open>src/flb_task.c\<close> and the inline functions of \<^verbatim>\<open>include/fluent-bit/flb_task.h\<close>: the
  tasks that carry a chunk to the outputs it is routed to, their ids, the retries of an output and
  the number packed from a return value, a task id and an output id.
\<close>

section \<open>The packed return value\<close>

definition FLB_TASK_RET :: "32 word \<Rightarrow> 32 word" where
  "FLB_TASK_RET val = drop_bit 28 val"

definition FLB_TASK_ID :: "32 word \<Rightarrow> 32 word" where
  "FLB_TASK_ID val = drop_bit 14 (val AND 0xfffc000)"

definition FLB_TASK_OUT :: "32 word \<Rightarrow> 32 word" where
  "FLB_TASK_OUT val = val AND 0x3fff"

definition FLB_TASK_SET :: "32 word \<Rightarrow> 32 word \<Rightarrow> 32 word \<Rightarrow> 32 word" where
  "FLB_TASK_SET ret task_id out_id = push_bit 28 ret OR push_bit 14 task_id OR out_id"

section \<open>Task ids\<close>

text \<open>\<^verbatim>\<open>tasks_map\<close> has 2048 entries.\<close>

definition TASKS_MAP_SIZE :: nat where "TASKS_MAP_SIZE = 2048"

fun map_id_loop :: "addr option list \<Rightarrow> nat \<Rightarrow> int" where
  "map_id_loop [] i = -1"
| "map_id_loop (x # xs) i = (if x = None then int i else map_id_loop xs (i + 1))"

definition map_get_task_id :: "'c flb_engine \<Rightarrow> int" where
  "map_get_task_id s = map_id_loop (e_tasks_map s) 0"

definition map_set_task_id :: "nat \<Rightarrow> addr \<Rightarrow> 'c flb_engine \<Rightarrow> 'c flb_engine" where
  "map_set_task_id i task s = s\<lparr>e_tasks_map := (e_tasks_map s)[i := Some task]\<rparr>"

definition map_free_task_id :: "nat \<Rightarrow> 'c flb_engine \<Rightarrow> 'c flb_engine" where
  "map_free_task_id i s = s\<lparr>e_tasks_map := (e_tasks_map s)[i := None]\<rparr>"

definition flb_task_map_get_task_id :: "'c flb_engine \<Rightarrow> int" where
  "flb_task_map_get_task_id s = map_get_task_id s"

section \<open>Users and routes\<close>

definition flb_task_users_inc :: "addr \<Rightarrow> 'c flb_engine \<Rightarrow> 'c flb_engine" where
  "flb_task_users_inc t s = tk_upd t (\<lambda>x. x\<lparr>tk_users := tk_users x + 1\<rparr>) s"

definition flb_task_get_active_route_count :: "flb_task \<Rightarrow> int" where
  "flb_task_get_active_route_count task =
     int (length (filter (\<lambda>r. tr_status r = FLB_TASK_ROUTE_ACTIVE) (tk_routes task)))"

definition flb_task_get_route_status :: "flb_task \<Rightarrow> int \<Rightarrow> int" where
  "flb_task_get_route_status task o_ins =
     (case List.find (\<lambda>r. tr_out r = o_ins) (tk_routes task) of
        None \<Rightarrow> FLB_TASK_ROUTE_INACTIVE | Some r \<Rightarrow> tr_status r)"

fun route_set :: "int \<Rightarrow> int \<Rightarrow> flb_task_route list \<Rightarrow> flb_task_route list" where
  "route_set o_ins st [] = []"
| "route_set o_ins st (r # rs) =
     (if tr_out r = o_ins then r\<lparr>tr_status := st\<rparr> # rs else r # route_set o_ins st rs)"

definition flb_task_set_route_status :: "addr \<Rightarrow> int \<Rightarrow> int \<Rightarrow> 'c flb_engine \<Rightarrow> 'c flb_engine" where
  "flb_task_set_route_status t o_ins new_status s =
     tk_upd t (\<lambda>x. x\<lparr>tk_routes := route_set o_ins new_status (tk_routes x)\<rparr>) s"

definition flb_task_activate_route :: "addr \<Rightarrow> int \<Rightarrow> 'c flb_engine \<Rightarrow> 'c flb_engine" where
  "flb_task_activate_route t o_ins s = flb_task_set_route_status t o_ins FLB_TASK_ROUTE_ACTIVE s"

definition flb_task_deactivate_route :: "addr \<Rightarrow> int \<Rightarrow> 'c flb_engine \<Rightarrow> 'c flb_engine" where
  "flb_task_deactivate_route t o_ins s = flb_task_set_route_status t o_ins FLB_TASK_ROUTE_INACTIVE s"

definition flb_task_drop_route :: "addr \<Rightarrow> int \<Rightarrow> 'c flb_engine \<Rightarrow> 'c flb_engine" where
  "flb_task_drop_route t o_ins s = flb_task_set_route_status t o_ins FLB_TASK_ROUTE_DROPPED s"

section \<open>Retries\<close>

definition flb_task_retry_destroy :: "addr \<Rightarrow> 'c flb_engine \<Rightarrow> 'c flb_engine" where
  "flb_task_retry_destroy r s =
     (let s1 = s\<lparr>e_sched := snd (flb_sched_request_invalidate (e_sched s) r)\<rparr>;
          s2 = tk_upd (rt_parent (rt s r)) (\<lambda>x. x\<lparr>tk_retries := mk_list_del r (tk_retries x)\<rparr>) s1
      in s2\<lparr>e_retry_heap := (e_retry_heap s2)(r := None)\<rparr>)"

section \<open>Tasks\<close>

text \<open>The order of the code: the id, the routes, the link in the input, the chunk, the retries, the
  limits of the input, the task.\<close>

definition flb_task_destroy ::
  "'c cio_api \<Rightarrow> (cstr \<Rightarrow> 64 word) \<Rightarrow> addr \<Rightarrow> bool \<Rightarrow> 'c flb_engine \<Rightarrow> 'c flb_engine" where
  "flb_task_destroy io H t del s =
     (let s1 = map_free_task_id (tk_id (tk s t)) s;
          s2 = tk_upd t (\<lambda>x. x\<lparr>tk_routes := []\<rparr>) s1;
          s3 = in_upd (tk_i_ins (tk s2 t)) (\<lambda>i. i\<lparr>in_tasks := mk_list_del t (in_tasks i)\<rparr>) s2;
          s4 = flb_input_chunk_destroy io H (tk_ic (tk s3 t)) del s3;
          s5 = fold flb_task_retry_destroy (tk_retries (tk s4 t)) s4;
          s6 = flb_input_chunk_set_limits io (tk_i_ins (tk s5 t)) s5
      in s6\<lparr>e_task_heap := (e_task_heap s6)(t := None)\<rparr>)"

definition flb_task_users_release ::
  "'c cio_api \<Rightarrow> (cstr \<Rightarrow> 64 word) \<Rightarrow> addr \<Rightarrow> 'c flb_engine \<Rightarrow> 'c flb_engine" where
  "flb_task_users_release io H t s =
     (if tk_users (tk s t) = 0 \<and> length (tk_retries (tk s t)) = 0
      then flb_task_destroy io H t True s else s)"

definition flb_task_users_dec ::
  "'c cio_api \<Rightarrow> (cstr \<Rightarrow> 64 word) \<Rightarrow> addr \<Rightarrow> bool \<Rightarrow> 'c flb_engine \<Rightarrow> 'c flb_engine" where
  "flb_task_users_dec io H t release_check s =
     (let s1 = tk_upd t (\<lambda>x. x\<lparr>tk_users := tk_users x - 1\<rparr>) s
      in if release_check then flb_task_users_release io H t s1 else s1)"

text \<open>The engine configuration and the outcomes of the calls the scheduler makes are the fields of
  \<open>sched_env\<close>; the number of attempts is that of the retry. \<open>None\<close> is the case in which the
  scheduler does not compute a wait time.\<close>

definition flb_task_retry_reschedule ::
  "'c cio_api \<Rightarrow> (cstr \<Rightarrow> 64 word) \<Rightarrow> sched_env \<Rightarrow> addr \<Rightarrow> 'c flb_engine \<Rightarrow> (int \<times> 'c flb_engine) option" where
  "flb_task_retry_reschedule io H e r s =
     (let t = rt_parent (rt s r) in
      case flb_sched_request_create (x_timer_ok e) (x_req_ok e) (x_rand e) (x_now e) (x_fd e)
             (x_shutting_down e) (x_base e) (x_cap e) (e_sched s) r (nat (rt_attempts (rt s r))) of
        None \<Rightarrow> None
      | Some (seconds, sc) \<Rightarrow>
          (let s1 = s\<lparr>e_sched := sc\<rparr> in
           if seconds = -1 then
             (let s2 = flb_task_retry_destroy r s1
              in Some (-1, if tk_users (tk s2 t) = 0 \<and> length (tk_retries (tk s2 t)) = 0
                           then flb_task_destroy io H t True s2 else s2))
           else Some (0, s1)))"

text \<open>The chunk of a task that will be retried goes down when its input is over the memory limit and
  nobody else uses the task, and when the task has a single route.\<close>

definition retry_adjust :: "'c cio_api \<Rightarrow> addr \<Rightarrow> 'c flb_engine \<Rightarrow> 'c flb_engine" where
  "retry_adjust io t s =
     (let s1 = (if tk_users (tk s t) \<le> 1 then snd (flb_input_chunk_set_up_down io (tk_ic (tk s t)) s) else s)
      in if length (tk_routes (tk s1 t)) = 1 then snd (flb_input_chunk_down io (tk_ic (tk s1 t)) s1) else s1)"

text \<open>The instance is given by its id and its retry limit.\<close>

definition flb_task_retry_create ::
  "'c cio_api \<Rightarrow> bool \<Rightarrow> addr \<Rightarrow> out_state \<Rightarrow> 'c flb_engine \<Rightarrow> addr option \<times> 'c flb_engine" where
  "flb_task_retry_create io mem_ok t ins s =
     (case List.find (\<lambda>r. rt_o_ins (rt s r) = o_id ins) (tk_retries (tk s t)) of
        Some r \<Rightarrow>
          if rt_attempts (rt s r) \<ge> o_retry_limit ins \<and> o_retry_limit ins \<ge> 0
          then (None, flb_task_retry_destroy r s)
          else (Some r, retry_adjust io t (rt_upd r (\<lambda>x. x\<lparr>rt_attempts := rt_attempts x + 1\<rparr>) s))
      | None \<Rightarrow>
          if \<not> mem_ok then (None, s)
          else let r = e_next s;
                   s1 = s\<lparr>e_retry_heap := (e_retry_heap s)(r \<mapsto>
                            \<lparr>rt_attempts = 1, rt_o_ins = o_id ins, rt_parent = t\<rparr>), e_next := r + 1\<rparr>;
                   s2 = tk_upd t (\<lambda>x. x\<lparr>tk_retries := mk_list_add r (tk_retries x)\<rparr>) s1
               in (Some r, retry_adjust io t s2))"

definition flb_task_from_fs_storage :: "'c flb_engine \<Rightarrow> addr \<Rightarrow> bool" where
  "flb_task_from_fs_storage s t = ic_fs_backlog (ic s (tk_ic (tk s t)))"

definition flb_task_retry_count :: "'c flb_engine \<Rightarrow> addr \<Rightarrow> int \<Rightarrow> int" where
  "flb_task_retry_count s t o_ins =
     (case List.find (\<lambda>r. rt_o_ins (rt s r) = o_ins) (tk_retries (tk s t)) of
        None \<Rightarrow> -1 | Some r \<Rightarrow> rt_attempts (rt s r))"

definition flb_task_retry_clean :: "addr \<Rightarrow> int \<Rightarrow> 'c flb_engine \<Rightarrow> int \<times> 'c flb_engine" where
  "flb_task_retry_clean t o_ins s =
     (case List.find (\<lambda>r. rt_o_ins (rt s r) = o_ins) (tk_retries (tk s t)) of
        None \<Rightarrow> (-1, s) | Some r \<Rightarrow> (0, flb_task_retry_destroy r s))"

definition task_alloc :: "bool \<Rightarrow> 'c flb_engine \<Rightarrow> addr option \<times> 'c flb_engine" where
  "task_alloc mem_ok s =
     (if \<not> mem_ok then (None, s)
      else let task_id = map_get_task_id s in
        if task_id = -1 then (None, s)
        else let t = e_next s; s1 = map_set_task_id (nat task_id) t s in
          (Some t, s1\<lparr>e_task_heap := (e_task_heap s1)(t \<mapsto>
              \<lparr>tk_id = nat task_id, tk_ref_id = 0, tk_status = FLB_TASK_NEW, tk_users = 0, tk_ic = 0,
               tk_records = 0, tk_routes = [], tk_retries = [], tk_i_ins = 0\<rparr>), e_next := t + 1\<rparr>))"

definition flb_task_running_count :: "'c flb_engine \<Rightarrow> int" where
  "flb_task_running_count s =
     int (length (filter (\<lambda>t. tk_users (tk s t) > 0 \<or> length (tk_retries (tk s t)) > 0)
       (concat (map in_tasks (e_inputs s)))))"

text \<open>The status of a direct route is not set by the code: \<open>junk\<close> is what the allocation holds.
  \<open>route_ok\<close> is the outcome of the allocation of a route. Results: the task and the error flag.\<close>

definition task_routes :: "(int \<Rightarrow> bool) \<Rightarrow> int \<Rightarrow> routes_mask \<Rightarrow> out_state list \<Rightarrow> flb_task_route list" where
  "task_routes route_ok event_type m os =
     map (\<lambda>x. \<lparr>tr_status = FLB_TASK_ROUTE_INACTIVE, tr_out = o_id x\<rparr>)
       (filter (\<lambda>x. flb_router_match_type event_type (flb_output_instance.truncate x) \<and>
                    route_bit m (o_id x) \<and> route_ok (o_id x)) os)"

definition flb_task_create ::
  "'c cio_api \<Rightarrow> (cstr \<Rightarrow> 64 word) \<Rightarrow> bool \<Rightarrow> bool \<Rightarrow> (int \<Rightarrow> bool) \<Rightarrow> int \<Rightarrow> 64 word \<Rightarrow> nat \<Rightarrow> addr \<Rightarrow> 'c flb_engine
   \<Rightarrow> (addr option \<times> bool) \<times> 'c flb_engine" where
  "flb_task_create io H task_ok evc_ok route_ok junk ref_id n c s =
     (case task_alloc task_ok s of
        (None, s1) \<Rightarrow> ((None, True), s1)
      | (Some t, s1) \<Rightarrow>
          if \<not> evc_ok then ((None, True), s1\<lparr>e_task_heap := (e_task_heap s1)(t := None)\<rparr>)
          else let s2 = ic_upd c (\<lambda>x. x\<lparr>ic_task := Some t\<rparr>) s1;
                   s3 = tk_upd t (\<lambda>x. x\<lparr>tk_ref_id := ref_id, tk_i_ins := n, tk_ic := c,
                                        tk_records := ic_total_records (ic s2 c)\<rparr>) s2;
                   s4 = in_upd n (\<lambda>i. i\<lparr>in_tasks := mk_list_add t (in_tasks i)\<rparr>) s3;
                   direct = in_routes_direct (e_inputs s4 ! n)
               in if length direct > 0 then
                    (let ok = takeWhile route_ok direct;
                         s5 = tk_upd t (\<lambda>x. x\<lparr>tk_routes := map (\<lambda>d. \<lparr>tr_status = junk, tr_out = d\<rparr>) ok\<rparr>) s4
                     in if ok \<noteq> direct then ((None, False), flb_task_destroy io H t True s5)
                        else ((Some t, False), s5))
                  else let routes = task_routes route_ok (ic_event_type (ic s4 c)) (ic_routes_mask (ic s4 c))
                                      (e_outputs s4);
                           s5 = tk_upd t (\<lambda>x. x\<lparr>tk_routes := routes\<rparr>) s4
                       in if length routes = 0 then ((None, False), flb_task_destroy io H t True s5)
                          else ((Some t, False), s5))"

section \<open>Dropping the route of a running task\<close>

text \<open>\<^verbatim>\<open>flb_input_chunk_drop_task_route\<close> of \<^verbatim>\<open>src/flb_input_chunk.c\<close>: the verdict, the
  number of dropped records and the state.\<close>

definition flb_input_chunk_drop_task_route ::
  "addr option \<Rightarrow> int option \<Rightarrow> 'c flb_engine \<Rightarrow> (bool \<times> int) \<times> 'c flb_engine" where
  "flb_input_chunk_drop_task_route task output_plugin s =
     (case task of None \<Rightarrow> ((True, 0), s) | Some t \<Rightarrow>
      if tk_users (tk s t) \<noteq> 0 then
        (case output_plugin of None \<Rightarrow> ((False, 0), s) | Some p \<Rightarrow>
         if flb_task_get_route_status (tk s t) p = FLB_TASK_ROUTE_INACTIVE
         then ((True, tk_records (tk s t)), flb_task_set_route_status t p FLB_TASK_ROUTE_DROPPED s)
         else ((False, 0), s))
      else ((True, 0), s))"

section \<open>Ids\<close>

lemma map_id_loop_spec:
  "(map_id_loop xs i = -1 \<and> None \<notin> set xs) \<or>
   (\<exists>k<length xs. map_id_loop xs i = int (i + k) \<and> xs ! k = None \<and> (\<forall>j<k. xs ! j \<noteq> None))"
proof (induction xs arbitrary: i)
  case (Cons x xs)
  show ?case
  proof (cases "x = None")
    case True
    then show ?thesis by auto
  next
    case False
    from Cons [of "i + 1"] show ?thesis
    proof (elim disjE exE conjE)
      fix k assume k: "k < length xs" "map_id_loop xs (i + 1) = int (i + 1 + k)" "xs ! k = None" "\<forall>j<k. xs ! j \<noteq> None"
      have "\<forall>j<Suc k. (x # xs) ! j \<noteq> None" using False k(4) by (auto simp: nth_Cons split: nat.splits)
      then show ?thesis using False k by (intro disjI2 exI [of _ "Suc k"]) auto
    qed (use False in auto)
  qed
qed simp

lemma map_get_task_id_cases:
  obtains (full) "map_get_task_id s = -1" "None \<notin> set (e_tasks_map s)"
  | (free) k where "k < length (e_tasks_map s)" "map_get_task_id s = int k" "e_tasks_map s ! k = None"
      "\<forall>j<k. e_tasks_map s ! j \<noteq> None"
  using map_id_loop_spec [of "e_tasks_map s" 0] unfolding map_get_task_id_def by auto

definition task_ids_ok :: "'c flb_engine \<Rightarrow> bool" where
  "task_ids_ok s \<longleftrightarrow>
     length (e_tasks_map s) = TASKS_MAP_SIZE \<and>
     (\<forall>i<TASKS_MAP_SIZE. \<forall>t. e_tasks_map s ! i = Some t \<longrightarrow> t \<in> dom (e_task_heap s) \<and> tk_id (tk s t) = i) \<and>
     (\<forall>t\<in>dom (e_task_heap s). tk_id (tk s t) < TASKS_MAP_SIZE \<and> e_tasks_map s ! tk_id (tk s t) = Some t \<and> t < e_next s)"

lemma task_ids_unique:
  "task_ids_ok s \<Longrightarrow> t \<in> dom (e_task_heap s) \<Longrightarrow> u \<in> dom (e_task_heap s) \<Longrightarrow> tk_id (tk s t) = tk_id (tk s u) \<Longrightarrow> t = u"
  unfolding task_ids_ok_def by (metis option.inject)

section \<open>What the chunk operations leave alone\<close>

definition same_tasks :: "'c flb_engine \<Rightarrow> 'c flb_engine \<Rightarrow> bool" where
  "same_tasks s s' \<longleftrightarrow>
     e_task_heap s' = e_task_heap s \<and> e_retry_heap s' = e_retry_heap s \<and> e_tasks_map s' = e_tasks_map s \<and>
     e_sched s' = e_sched s \<and> e_next s' = e_next s"

lemma same_tasks_tk: "same_tasks s s' \<Longrightarrow> tk s' = tk s" "same_tasks s s' \<Longrightarrow> rt s' = rt s"
  by (auto simp: same_tasks_def tk_def rt_def)

lemma same_tasks_trans: "same_tasks s s' \<Longrightarrow> same_tasks s' s'' \<Longrightarrow> same_tasks s s''"
  by (simp add: same_tasks_def)

lemma same_tasks_chunk:
  "same_tasks s (snd (flb_input_chunk_set_up_down io a s))" "same_tasks s (snd (flb_input_chunk_down io a s))"
  "same_tasks s (flb_input_chunk_set_limits io n s)" "same_tasks s (flb_input_chunk_destroy io H a del s)"
  "same_tasks s (in_upd n f s)" "same_tasks s (ic_upd a g s)" "same_tasks s s"
  by (simp_all add: same_tasks_def flb_input_chunk_set_up_down_def flb_input_chunk_down_def Let_def
      flb_input_chunk_set_limits_def chunk_destroy_fields)

section \<open>Retries\<close>

lemma same_tasks_adjust: "same_tasks s (retry_adjust io t s)"
  by (auto simp: retry_adjust_def Let_def intro: same_tasks_chunk(1,2,7) same_tasks_trans [OF same_tasks_chunk(1) same_tasks_chunk(2)])

text \<open>Retries belong to the task that lists them, one per output.\<close>

definition task_retries_ok :: "'c flb_engine \<Rightarrow> addr \<Rightarrow> bool" where
  "task_retries_ok s t \<longleftrightarrow>
     distinct (tk_retries (tk s t)) \<and>
     (\<forall>r\<in>set (tk_retries (tk s t)). r < e_next s \<and> rt_parent (rt s r) = t \<and> 1 \<le> rt_attempts (rt s r)) \<and>
     inj_on (\<lambda>r. rt_o_ins (rt s r)) (set (tk_retries (tk s t)))"

lemma same_tasks_retry:
  assumes "same_tasks s s'"
  shows "task_retries_ok s' t = task_retries_ok s t" "flb_task_retry_count s' t i = flb_task_retry_count s t i"
  unfolding task_retries_ok_def flb_task_retry_count_def same_tasks_tk [OF assms]
  using assms by (simp_all add: same_tasks_def)

lemma retry_count_cases:
  assumes "task_retries_ok s t"
  shows "flb_task_retry_count s t i = -1 \<or> 1 \<le> flb_task_retry_count s t i"
  using assms find_Some_in [of "\<lambda>r. rt_o_ins (rt s r) = i" "tk_retries (tk s t)"]
  by (auto simp: flb_task_retry_count_def task_retries_ok_def split: option.splits)

lemma rt_upd_simps [simp]:
  "e_inputs (rt_upd a f s) = e_inputs s" "e_outputs (rt_upd a f s) = e_outputs s"
  "e_task_heap (rt_upd a f s) = e_task_heap s" "e_chunk_heap (rt_upd a f s) = e_chunk_heap s"
  "e_tasks_map (rt_upd a f s) = e_tasks_map s" "e_sched (rt_upd a f s) = e_sched s"
  "e_next (rt_upd a f s) = e_next s" "tk (rt_upd a f s) = tk s" "ic (rt_upd a f s) = ic s"
  "rt (rt_upd a f s) b = (if b = a then f (rt s a) else rt s b)"
  by (auto simp: rt_upd_def ic_def tk_def rt_def fun_eq_iff)

lemma retry_destroy_fields:
  "e_task_heap (flb_task_retry_destroy r s) = (e_task_heap s)(rt_parent (rt s r) \<mapsto>
     (tk s (rt_parent (rt s r)))\<lparr>tk_retries := mk_list_del r (tk_retries (tk s (rt_parent (rt s r))))\<rparr>)"
  "e_retry_heap (flb_task_retry_destroy r s) = (e_retry_heap s)(r := None)"
  "e_sched (flb_task_retry_destroy r s) = snd (flb_sched_request_invalidate (e_sched s) r)"
  "e_tasks_map (flb_task_retry_destroy r s) = e_tasks_map s" "e_next (flb_task_retry_destroy r s) = e_next s"
  "e_chunk_heap (flb_task_retry_destroy r s) = e_chunk_heap s" "ic (flb_task_retry_destroy r s) = ic s"
  "e_inputs (flb_task_retry_destroy r s) = e_inputs s" "e_outputs (flb_task_retry_destroy r s) = e_outputs s"
  "r' \<noteq> r \<Longrightarrow> rt (flb_task_retry_destroy r s) r' = rt s r'"
  "tk (flb_task_retry_destroy r s) u = (if u = rt_parent (rt s r)
     then (tk s u)\<lparr>tk_retries := mk_list_del r (tk_retries (tk s u))\<rparr> else tk s u)"
  by (auto simp: flb_task_retry_destroy_def Let_def tk_def rt_def ic_def fun_eq_iff tk_upd_def)

text \<open>One more failure of an output: the count of its retries grows by one until the limit is reached;
  then there is none any more.\<close>

lemma find_none_map: "List.find P xs = None \<longleftrightarrow> (\<forall>x\<in>set xs. \<not> P x)"
  by (auto simp: find_None_iff)

text \<open>The three ways of \<^verbatim>\<open>flb_task_retry_create\<close>: a first retry, the limit, one more attempt.\<close>

lemma retry_create_first:
  assumes "task_retries_ok s t" "flb_task_retry_create io True t ins s = (res, s')"
    and None: "List.find (\<lambda>r. rt_o_ins (rt s r) = o_id ins) (tk_retries (tk s t)) = None"
  shows "task_retries_ok s' t" "res \<noteq> None" "flb_task_retry_count s t (o_id ins) = -1" "flb_task_retry_count s' t (o_id ins) = 1"
proof -
  define s2 where "s2 = tk_upd t (\<lambda>x. x\<lparr>tk_retries := mk_list_add (e_next s) (tk_retries x)\<rparr>)
    (s\<lparr>e_retry_heap := (e_retry_heap s)(e_next s \<mapsto> \<lparr>rt_attempts = 1, rt_o_ins = o_id ins, rt_parent = t\<rparr>),
       e_next := e_next s + 1\<rparr>)"
  have res: "res = Some (e_next s)" "s' = retry_adjust io t s2"
    using assms(2) None by (simp_all add: flb_task_retry_create_def s2_def Let_def)
  have st: "same_tasks s2 s'" using same_tasks_adjust res(2) by metis
  show "flb_task_retry_count s t (o_id ins) = -1" by (simp add: flb_task_retry_count_def None)
  have fr: "e_next s \<notin> set (tk_retries (tk s t))" using assms(1) by (auto simp: task_retries_ok_def)
  have rt2: "rt s2 r = (if r = e_next s then \<lparr>rt_attempts = 1, rt_o_ins = o_id ins, rt_parent = t\<rparr> else rt s r)" for r
    by (simp add: s2_def rt_def)
  have tk2: "tk_retries (tk s2 t) = mk_list_add (e_next s) (tk_retries (tk s t))" by (simp add: s2_def)
  have old: "\<forall>r\<in>set (tk_retries (tk s t)). rt_o_ins (rt s r) \<noteq> o_id ins"
    using None by (auto simp: find_None_iff)
  have nx2: "e_next s2 = Suc (e_next s)" by (simp add: s2_def)
  have "task_retries_ok s2 t"
    using assms(1) fr old unfolding task_retries_ok_def tk2 nx2
    by (auto simp: rt2 inj_on_def less_Suc_eq)
  moreover have "flb_task_retry_count s2 t (o_id ins) = 1"
  proof -
    have "List.find (\<lambda>r. rt_o_ins (rt s2 r) = o_id ins) (tk_retries (tk s t)) = None"
      using old fr by (auto simp: find_None_iff rt2)
    then show ?thesis by (simp add: flb_task_retry_count_def tk2 find_mk_list_add rt2)
  qed
  ultimately show "task_retries_ok s' t" "res \<noteq> None" "flb_task_retry_count s' t (o_id ins) = 1"
    using res(1) by (simp_all add: same_tasks_retry [OF st])
qed

lemma retry_create_limit:
  assumes "task_retries_ok s t" "flb_task_retry_create io True t ins s = (res, s')"
    and Some: "List.find (\<lambda>r. rt_o_ins (rt s r) = o_id ins) (tk_retries (tk s t)) = Some r"
    and True: "o_retry_limit ins \<le> rt_attempts (rt s r)" "0 \<le> o_retry_limit ins"
  shows "task_retries_ok s' t" "res = None" "flb_task_retry_count s' t (o_id ins) = -1"
proof -
  have r: "r \<in> set (tk_retries (tk s t))" "rt_o_ins (rt s r) = o_id ins" using find_Some_in [OF Some] by auto
  have p: "rt_parent (rt s r) = t" using assms(1) r(1) by (simp add: task_retries_ok_def)
  have inj: "inj_on (\<lambda>r. rt_o_ins (rt s r)) (set (tk_retries (tk s t)))" "distinct (tk_retries (tk s t))"
    using assms(1) by (simp_all add: task_retries_ok_def)
  have res: "res = None" "s' = flb_task_retry_destroy r s"
    using assms(2) Some True by (simp_all add: flb_task_retry_create_def)
  have tk': "tk_retries (tk s' t) = mk_list_del r (tk_retries (tk s t))" by (simp add: res retry_destroy_fields p)
  have sub: "set (tk_retries (tk s' t)) = set (tk_retries (tk s t)) - {r}" using inj(2) by (simp add: tk')
  have rt': "rt s' q = rt s q" if "q \<in> set (tk_retries (tk s' t))" for q
    using that sub by (simp add: res retry_destroy_fields)
  have "inj_on (\<lambda>q. rt_o_ins (rt s' q)) (set (tk_retries (tk s' t)))"
    using inj(1) rt' sub by (auto simp: inj_on_def)
  then have "task_retries_ok s' t"
    using assms(1) inj(2) rt' sub by (auto simp: task_retries_ok_def tk' res retry_destroy_fields)
  moreover have "rt_o_ins (rt s' q) \<noteq> o_id ins" if "q \<in> set (tk_retries (tk s' t))" for q
  proof
    assume "rt_o_ins (rt s' q) = o_id ins"
    then have "rt_o_ins (rt s q) = rt_o_ins (rt s r)" using rt' [OF that] r(2) by simp
    then show False using inj_onD [OF inj(1), of q r] that sub r(1) by simp
  qed
  then have "List.find (\<lambda>q. rt_o_ins (rt s' q) = o_id ins) (tk_retries (tk s' t)) = None"
    unfolding find_None_iff by blast
  ultimately show "task_retries_ok s' t" "res = None" "flb_task_retry_count s' t (o_id ins) = -1"
    using res(1) by (simp_all add: flb_task_retry_count_def)
qed

lemma retry_create_again:
  assumes "task_retries_ok s t" "flb_task_retry_create io True t ins s = (res, s')"
    and Some: "List.find (\<lambda>r. rt_o_ins (rt s r) = o_id ins) (tk_retries (tk s t)) = Some r"
    and False: "\<not> (o_retry_limit ins \<le> rt_attempts (rt s r) \<and> 0 \<le> o_retry_limit ins)"
  shows "task_retries_ok s' t" "res \<noteq> None" "flb_task_retry_count s' t (o_id ins) = rt_attempts (rt s r) + 1"
proof -
  define s1 where "s1 = rt_upd r (\<lambda>x. x\<lparr>rt_attempts := rt_attempts x + 1\<rparr>) s"
  have res: "res = Some r" "s' = retry_adjust io t s1"
    using assms(2) Some False by (auto simp: flb_task_retry_create_def s1_def)
  have st: "same_tasks s1 s'" using same_tasks_adjust res(2) by metis
  have o1: "rt_o_ins (rt s1 q) = rt_o_ins (rt s q)" "rt_parent (rt s1 q) = rt_parent (rt s q)" for q
    by (auto simp: s1_def)
  have a1: "rt_attempts (rt s1 q) = rt_attempts (rt s q) + (if q = r then 1 else 0)" for q by (simp add: s1_def)
  have k1: "tk s1 = tk s" "e_next s1 = e_next s" by (simp_all add: s1_def)
  have "task_retries_ok s1 t" using assms(1) unfolding task_retries_ok_def k1 o1 a1 by auto
  moreover have "flb_task_retry_count s1 t (o_id ins) = rt_attempts (rt s r) + 1"
    unfolding flb_task_retry_count_def k1 o1 using Some by (simp add: a1)
  ultimately show "task_retries_ok s' t" "res \<noteq> None" "flb_task_retry_count s' t (o_id ins) = rt_attempts (rt s r) + 1"
    using res(1) by (simp_all add: same_tasks_retry [OF st])
qed

lemma retry_create_step:
  assumes "task_retries_ok s t" "flb_task_retry_create io True t ins s = (res, s')"
  defines "c \<equiv> flb_task_retry_count s t (o_id ins)"
  shows "task_retries_ok s' t \<and>
    (if 0 \<le> c \<and> o_retry_limit ins \<le> c \<and> 0 \<le> o_retry_limit ins
     then res = None \<and> flb_task_retry_count s' t (o_id ins) = -1
     else res \<noteq> None \<and> flb_task_retry_count s' t (o_id ins) = (if c = -1 then 1 else c + 1))"
proof (cases "List.find (\<lambda>r. rt_o_ins (rt s r) = o_id ins) (tk_retries (tk s t))")
  case None
  from retry_create_first [OF assms(1,2) None] show ?thesis by (simp add: c_def)
next
  case (Some r)
  have c: "c = rt_attempts (rt s r)" "1 \<le> c"
    using assms(1) find_Some_in [OF Some] by (auto simp: c_def flb_task_retry_count_def task_retries_ok_def Some)
  show ?thesis
  proof (cases "o_retry_limit ins \<le> rt_attempts (rt s r) \<and> 0 \<le> o_retry_limit ins")
    case True
    with retry_create_limit [OF assms(1,2) Some] c show ?thesis by simp
  next
    case False
    with retry_create_again [OF assms(1,2) Some] c show ?thesis by auto
  qed
qed

text \<open>\<open>n\<close> failures in a row of the same output: whether each of them got a retry.\<close>

fun failures :: "'c cio_api \<Rightarrow> addr \<Rightarrow> out_state \<Rightarrow> nat \<Rightarrow> 'c flb_engine \<Rightarrow> bool list \<times> 'c flb_engine" where
  "failures io t ins 0 s = ([], s)"
| "failures io t ins (Suc n) s =
     (let (res, s1) = flb_task_retry_create io True t ins s; (rs, s2) = failures io t ins n s1
      in ((res \<noteq> None) # rs, s2))"

lemma failures_granted:
  assumes "task_retries_ok s t" "0 \<le> o_retry_limit ins"
    "max 0 (flb_task_retry_count s t (o_id ins)) + int n \<le> o_retry_limit ins"
  shows "fst (failures io t ins n s) = replicate n True \<and> task_retries_ok (snd (failures io t ins n s)) t \<and>
    (0 < n \<longrightarrow> flb_task_retry_count (snd (failures io t ins n s)) t (o_id ins) =
       max 0 (flb_task_retry_count s t (o_id ins)) + int n)"
  using assms
proof (induction n arbitrary: s)
  case (Suc n)
  obtain res s1 where r: "flb_task_retry_create io True t ins s = (res, s1)" by fastforce
  define c where "c = flb_task_retry_count s t (o_id ins)"
  note st = retry_create_step [OF Suc.prems(1) r, folded c_def]
  have "c < o_retry_limit ins" using Suc.prems(2,3) by (auto simp: c_def)
  then have 1: "task_retries_ok s1 t" "res \<noteq> None"
    "flb_task_retry_count s1 t (o_id ins) = (if c = -1 then 1 else c + 1)" using st by auto
  have cm: "c = -1 \<or> 1 \<le> c" using retry_count_cases [OF Suc.prems(1)] by (simp add: c_def)
  have "max 0 (flb_task_retry_count s1 t (o_id ins)) + int n \<le> o_retry_limit ins"
    using Suc.prems(3) 1(3) cm by (auto simp: c_def [symmetric])
  from Suc.IH [OF 1(1) Suc.prems(2) this] show ?case
    using r 1 cm by (cases n) (auto simp: case_prod_beta c_def [symmetric])
qed simp

lemma failures_snoc:
  "failures io t ins (Suc n) s =
     (let (rs, s1) = failures io t ins n s; (res, s2) = flb_task_retry_create io True t ins s1
      in (rs @ [res \<noteq> None], s2))"
proof (induction n arbitrary: s)
  case (Suc n)
  obtain res s1 where r: "flb_task_retry_create io True t ins s = (res, s1)" by fastforce
  have "failures io t ins (Suc (Suc n)) s =
      (let (rs, s2) = failures io t ins (Suc n) s1 in ((res \<noteq> None) # rs, s2))"
    by (simp only: failures.simps(2) [of io t ins "Suc n"] r Let_def prod.case)
  moreover have "failures io t ins (Suc n) s = (let (rs, s2) = failures io t ins n s1 in ((res \<noteq> None) # rs, s2))"
    by (simp only: failures.simps(2) [of io t ins n] r Let_def prod.case)
  ultimately show ?case using Suc [of s1] by (simp only: Let_def case_prod_beta fst_conv snd_conv append_Cons)
qed (simp add: case_prod_beta Let_def)

lemma failures_unlimited:
  assumes "task_retries_ok s t" "o_retry_limit ins < 0"
  shows "fst (failures io t ins n s) = replicate n True"
  using assms
proof (induction n arbitrary: s)
  case (Suc n)
  obtain res s1 where r: "flb_task_retry_create io True t ins s = (res, s1)" by fastforce
  have "task_retries_ok s1 t" "res \<noteq> None" using retry_create_step [OF Suc.prems(1) r] Suc.prems(2) by auto
  then show ?case using r Suc.IH [of s1] Suc.prems(2) by (simp add: case_prod_beta)
qed simp

section \<open>Destroying a task\<close>

lemma fold_retry_destroy:
  assumes "distinct rs" "\<forall>r\<in>set rs. rt_parent (rt s r) = t" "sched_inv (e_sched s)"
  shows "let s' = fold flb_task_retry_destroy rs s in
    sched_inv (e_sched s') \<and> pending (e_sched s') = pending (e_sched s) - mset rs \<and>
    e_retry_heap s' = (\<lambda>r. if r \<in> set rs then None else e_retry_heap s r) \<and>
    e_tasks_map s' = e_tasks_map s \<and> e_next s' = e_next s \<and> e_inputs s' = e_inputs s \<and> e_outputs s' = e_outputs s \<and>
    e_chunk_heap s' = e_chunk_heap s \<and> (\<forall>u. u \<noteq> t \<longrightarrow> e_task_heap s' u = e_task_heap s u) \<and>
    tk_i_ins (tk s' t) = tk_i_ins (tk s t)"
  using assms
proof (induction rs arbitrary: s)
  case (Cons r rs)
  define s1 where "s1 = flb_task_retry_destroy r s"
  have p: "rt_parent (rt s r) = t" using Cons.prems(2) by simp
  obtain ret sc where sc: "flb_sched_request_invalidate (e_sched s) r = (ret, sc)" by fastforce
  note i = request_invalidate_cases [OF Cons.prems(3) sc]
  have f: "e_sched s1 = sc" "e_retry_heap s1 = (e_retry_heap s)(r := None)" "e_tasks_map s1 = e_tasks_map s"
    "e_next s1 = e_next s" "e_inputs s1 = e_inputs s" "e_outputs s1 = e_outputs s" "e_chunk_heap s1 = e_chunk_heap s"
    "\<And>u. u \<noteq> t \<Longrightarrow> e_task_heap s1 u = e_task_heap s u" "tk_i_ins (tk s1 t) = tk_i_ins (tk s t)"
    "\<And>q. q \<noteq> r \<Longrightarrow> rt s1 q = rt s q"
    using sc p by (simp_all add: s1_def retry_destroy_fields)
  have par: "\<forall>q\<in>set rs. rt_parent (rt s1 q) = t"
  proof
    fix q assume "q \<in> set rs"
    moreover from this have "q \<noteq> r" using Cons.prems(1) by auto
    ultimately show "rt_parent (rt s1 q) = t" using Cons.prems(2) f(10) [of q] by simp
  qed
  have "distinct rs" "sched_inv (e_sched s1)" using Cons.prems(1) i f(1) by simp_all
  note ih = Cons.IH [OF this(1) par this(2)]
  have "pending sc - mset rs = pending (e_sched s) - mset (r # rs)" using i by simp
  moreover have "fold flb_task_retry_destroy (r # rs) s = fold flb_task_retry_destroy rs s1" by (simp add: s1_def)
  ultimately show ?case using ih f by (auto simp: Let_def fun_eq_iff)
qed simp

lemma set_limits_fields [simp]:
  "e_chunk_heap (flb_input_chunk_set_limits io n s) = e_chunk_heap s"
  "e_outputs (flb_input_chunk_set_limits io n s) = e_outputs s"
  "length (e_inputs (flb_input_chunk_set_limits io n s)) = length (e_inputs s)"
  by (simp_all add: flb_input_chunk_set_limits_def Let_def)

lemma in_resume_lists [simp]:
  "in_tasks (in_resume i) = in_tasks i" "in_chunks (in_resume i) = in_chunks i"
  "in_routes_direct (in_resume i) = in_routes_direct i"
  by (simp_all add: in_resume_def)

lemma set_limits_lists:
  "n < length (e_inputs s) \<Longrightarrow> in_tasks (e_inputs (flb_input_chunk_set_limits io n s) ! k) = in_tasks (e_inputs s ! k)"
  "n < length (e_inputs s) \<Longrightarrow> in_chunks (e_inputs (flb_input_chunk_set_limits io n s) ! k) = in_chunks (e_inputs s ! k)"
  by (simp_all add: flb_input_chunk_set_limits_def Let_def)

text \<open>A task is consistent with the engine: it lists its retries, it is linked in its input, and the chunk
  it carries belongs to that input.\<close>

definition task_linked :: "'c flb_engine \<Rightarrow> addr \<Rightarrow> bool" where
  "task_linked s t \<longleftrightarrow>
     t \<in> dom (e_task_heap s) \<and> task_retries_ok s t \<and> tk_i_ins (tk s t) < length (e_inputs s) \<and>
     t \<in> set (in_tasks (e_inputs s ! tk_i_ins (tk s t))) \<and>
     tk_ic (tk s t) \<in> dom (e_chunk_heap s) \<and> ic_in (ic s (tk_ic (tk s t))) = tk_i_ins (tk s t)"

lemma task_destroy_spec:
  assumes "task_linked s t" "sched_inv (e_sched s)" and s'_def: "s' = flb_task_destroy io H t del s"
  shows "e_task_heap s' = (e_task_heap s)(t := None)"
    "e_tasks_map s' = (e_tasks_map s)[tk_id (tk s t) := None]"
    "e_retry_heap s' = (\<lambda>r. if r \<in> set (tk_retries (tk s t)) then None else e_retry_heap s r)"
    "sched_inv (e_sched s') \<and> pending (e_sched s') = pending (e_sched s) - mset (tk_retries (tk s t))"
    "dom (e_chunk_heap s') = dom (e_chunk_heap s) - {tk_ic (tk s t)}" "e_next s' = e_next s"
    "in_tasks (e_inputs s' ! k) = (if k = tk_i_ins (tk s t) then mk_list_del t (in_tasks (e_inputs s ! k))
       else in_tasks (e_inputs s ! k))"
proof -
  define n where "n = tk_i_ins (tk s t)"
  define c where "c = tk_ic (tk s t)"
  define s3 where "s3 = in_upd n (\<lambda>i. i\<lparr>in_tasks := mk_list_del t (in_tasks i)\<rparr>)
    (tk_upd t (\<lambda>x. x\<lparr>tk_routes := []\<rparr>) (map_free_task_id (tk_id (tk s t)) s))"
  define s4 where "s4 = flb_input_chunk_destroy io H c del s3"
  define s5 where "s5 = fold flb_task_retry_destroy (tk_retries (tk s4 t)) s4"
  have n: "n < length (e_inputs s)" "ic_in (ic s c) = n" "c \<in> dom (e_chunk_heap s)"
    using assms(1) by (auto simp: task_linked_def n_def c_def)
  have 3: "e_retry_heap s3 = e_retry_heap s" "e_sched s3 = e_sched s" "e_next s3 = e_next s"
    "e_chunk_heap s3 = e_chunk_heap s" "e_tasks_map s3 = (e_tasks_map s)[tk_id (tk s t) := None]"
    "e_task_heap s3 = (e_task_heap s)(t \<mapsto> (tk s t)\<lparr>tk_routes := []\<rparr>)"
    "length (e_inputs s3) = length (e_inputs s)"
    "in_tasks (e_inputs s3 ! k) = (if k = n then mk_list_del t (in_tasks (e_inputs s ! k)) else in_tasks (e_inputs s ! k))"
    using n(1) by (simp_all add: s3_def map_free_task_id_def in_upd_def nth_list_update)
  have rt3: "rt s3 = rt s" by (simp add: rt_def 3 fun_eq_iff)
  have ic3: "ic s3 = ic s" by (simp add: ic_def 3 fun_eq_iff)
  have tk3: "tk_retries (tk s3 t) = tk_retries (tk s t)" "tk_i_ins (tk s3 t) = n" "tk_ic (tk s3 t) = c"
    by (simp_all add: tk_def [of s3] 3 n_def c_def)
  have st: "same_tasks s3 s4" unfolding s4_def by (rule same_tasks_chunk(4))
  have 4: "tk s4 = tk s3" "rt s4 = rt s" "e_sched s4 = e_sched s" "e_retry_heap s4 = e_retry_heap s"
    "e_task_heap s4 = e_task_heap s3" "e_tasks_map s4 = e_tasks_map s3" "e_next s4 = e_next s"
    using same_tasks_tk [OF st] st 3 rt3 by (simp_all add: same_tasks_def)
  have c4: "length (e_inputs s4) = length (e_inputs s)" "in_tasks (e_inputs s4 ! k) = in_tasks (e_inputs s3 ! k)"
    "dom (e_chunk_heap s4) = dom (e_chunk_heap s) - {c}"
    using chunk_destroy_inputs(2) [of s3 c io H del k] chunk_destroy_heap [of c s3 io H del] n 3
    by (simp_all add: s4_def chunk_destroy_fields(6) ic3)
  have rs: "distinct (tk_retries (tk s t))" "\<forall>r\<in>set (tk_retries (tk s t)). rt_parent (rt s4 r) = t"
    using assms(1) by (auto simp: task_linked_def task_retries_ok_def 4)
  have s5': "s5 = fold flb_task_retry_destroy (tk_retries (tk s t)) s4" by (simp add: s5_def 4 tk3)
  have 5: "sched_inv (e_sched s5)" "pending (e_sched s5) = pending (e_sched s) - mset (tk_retries (tk s t))"
    "e_retry_heap s5 = (\<lambda>r. if r \<in> set (tk_retries (tk s t)) then None else e_retry_heap s r)"
    "e_tasks_map s5 = e_tasks_map s3" "e_next s5 = e_next s" "e_inputs s5 = e_inputs s4"
    "e_chunk_heap s5 = e_chunk_heap s4" "\<And>u. u \<noteq> t \<Longrightarrow> e_task_heap s5 u = e_task_heap s3 u" "tk_i_ins (tk s5 t) = n"
    using fold_retry_destroy [OF rs] assms(2) tk3 unfolding 4(3) s5' Let_def by (simp_all add: 4 cong: if_cong)
  have s': "s' = (flb_input_chunk_set_limits io n s5)\<lparr>e_task_heap := (e_task_heap (flb_input_chunk_set_limits io n s5))(t := None)\<rparr>"
  proof -
    have a: "tk_i_ins (tk (tk_upd t (\<lambda>x. x\<lparr>tk_routes := []\<rparr>) (map_free_task_id (tk_id (tk s t)) s)) t) = n"
      by (simp add: n_def map_free_task_id_def)
    show ?thesis
      unfolding s'_def flb_task_destroy_def Let_def a s3_def [symmetric] tk3(3) s4_def [symmetric] s5_def [symmetric] 5(9) ..
  qed
  have lim: "same_tasks s5 (flb_input_chunk_set_limits io n s5)" by (rule same_tasks_chunk(3))
  show "e_task_heap s' = (e_task_heap s)(t := None)"
    using lim 5(8) 3(6) by (auto simp: s' same_tasks_def fun_eq_iff)
  show "e_tasks_map s' = (e_tasks_map s)[tk_id (tk s t) := None]"
    "e_retry_heap s' = (\<lambda>r. if r \<in> set (tk_retries (tk s t)) then None else e_retry_heap s r)"
    "sched_inv (e_sched s') \<and> pending (e_sched s') = pending (e_sched s) - mset (tk_retries (tk s t))"
    "e_next s' = e_next s"
    using lim 5 3 by (simp_all add: s' same_tasks_def)
  show "dom (e_chunk_heap s') = dom (e_chunk_heap s) - {tk_ic (tk s t)}" using 5(7) c4(3) by (simp add: s' c_def)
  show "in_tasks (e_inputs s' ! k) = (if k = tk_i_ins (tk s t) then mk_list_del t (in_tasks (e_inputs s ! k))
       else in_tasks (e_inputs s ! k))"
    using set_limits_lists(1) [of n s5 io k] n c4 5(6) 3(8) by (simp add: s' n_def)
qed

section \<open>Creating a task\<close>

lemma task_alloc_cases:
  assumes "task_ids_ok s"
  obtains (none) "task_alloc True s = (None, s)" "None \<notin> set (e_tasks_map s)"
  | (some) k where "k < TASKS_MAP_SIZE" "e_tasks_map s ! k = None" "\<forall>j<k. e_tasks_map s ! j \<noteq> None"
      "task_alloc True s = (Some (e_next s), (map_set_task_id k (e_next s) s)\<lparr>e_task_heap := (e_task_heap s)(e_next s \<mapsto>
         \<lparr>tk_id = k, tk_ref_id = 0, tk_status = FLB_TASK_NEW, tk_users = 0, tk_ic = 0, tk_records = 0,
          tk_routes = [], tk_retries = [], tk_i_ins = 0\<rparr>), e_next := e_next s + 1\<rparr>)"
proof (cases rule: map_get_task_id_cases [of s])
  case full
  then show ?thesis using none by (simp add: task_alloc_def Let_def)
next
  case (free k)
  have "k < TASKS_MAP_SIZE" using free(1) assms by (simp add: task_ids_ok_def)
  then show ?thesis using some [of k] free
    by (simp add: task_alloc_def Let_def map_set_task_id_def)
qed

text \<open>Putting a task with a free id into the map and the store keeps the ids consistent, and so does
  taking one out.\<close>

lemma task_ids_ok_add:
  assumes "task_ids_ok s" "k < TASKS_MAP_SIZE" "e_tasks_map s ! k = None"
    and s': "e_tasks_map s' = (e_tasks_map s)[k := Some (e_next s)]"
      "e_task_heap s' = (e_task_heap s)(e_next s \<mapsto> x)" "e_next s' = Suc (e_next s)" "tk_id x = k"
  shows "task_ids_ok s'"
proof -
  have len: "length (e_tasks_map s) = TASKS_MAP_SIZE" using assms(1) by (simp add: task_ids_ok_def)
  have fr: "e_next s \<notin> dom (e_task_heap s)" using assms(1) by (auto simp: task_ids_ok_def)
  have old: "tk s' t = tk s t" if "t \<noteq> e_next s" for t using that by (simp add: tk_def s')
  have new: "tk s' (e_next s) = x" by (simp add: tk_def s')
  have map: "t \<in> dom (e_task_heap s) \<and> tk_id (tk s t) = i" if "i < TASKS_MAP_SIZE" "e_tasks_map s ! i = Some t" for i t
    using assms(1) that by (simp add: task_ids_ok_def)
  have heap: "tk_id (tk s t) < TASKS_MAP_SIZE \<and> e_tasks_map s ! tk_id (tk s t) = Some t \<and> t < e_next s"
    if "t \<in> dom (e_task_heap s)" for t using assms(1) that by (simp add: task_ids_ok_def)
  show ?thesis unfolding task_ids_ok_def
  proof (intro conjI allI impI ballI)
    fix i t assume i: "i < TASKS_MAP_SIZE" "e_tasks_map s' ! i = Some t"
    have "t \<in> dom (e_task_heap s') \<and> tk_id (tk s' t) = i"
    proof (cases "i = k")
      case True
      then have "t = e_next s" using i len by (simp add: s')
      then show ?thesis using True new s'(4) by (simp add: s')
    next
      case False
      then have "t \<in> dom (e_task_heap s) \<and> tk_id (tk s t) = i" using map i by (simp add: s')
      moreover from this have "t \<noteq> e_next s" using fr by metis
      ultimately show ?thesis using old [of t] s'(2) by simp
    qed
    then show "t \<in> dom (e_task_heap s')" "tk_id (tk s' t) = i" by auto
  next
    fix t assume t: "t \<in> dom (e_task_heap s')"
    have "tk_id (tk s' t) < TASKS_MAP_SIZE \<and> e_tasks_map s' ! tk_id (tk s' t) = Some t \<and> t < e_next s'"
    proof (cases "t = e_next s")
      case True
      then show ?thesis using assms(2) len new s'(4) by (simp add: s')
    next
      case False
      then have "t \<in> dom (e_task_heap s)" using t by (simp add: s')
      then have h: "tk_id (tk s t) < TASKS_MAP_SIZE" "e_tasks_map s ! tk_id (tk s t) = Some t" "t < e_next s"
        using heap by auto
      then have "tk_id (tk s t) \<noteq> k" using assms(3) by auto
      then show ?thesis using h old [OF False] by (simp add: s')
    qed
    then show "tk_id (tk s' t) < TASKS_MAP_SIZE" "e_tasks_map s' ! tk_id (tk s' t) = Some t" "t < e_next s'" by auto
  qed (simp add: s' len)
qed

lemma task_ids_ok_del:
  assumes "task_ids_ok s" "t \<in> dom (e_task_heap s)"
    and s': "e_tasks_map s' = (e_tasks_map s)[tk_id (tk s t) := None]"
      "e_task_heap s' = (e_task_heap s)(t := None)" "e_next s' = e_next s"
  shows "task_ids_ok s'"
proof -
  have len: "length (e_tasks_map s) = TASKS_MAP_SIZE" using assms(1) by (simp add: task_ids_ok_def)
  have id: "tk_id (tk s t) < TASKS_MAP_SIZE" "e_tasks_map s ! tk_id (tk s t) = Some t"
    using assms(1,2) by (auto simp: task_ids_ok_def)
  have old: "tk s' u = tk s u" if "u \<noteq> t" for u using that by (simp add: tk_def s')
  show ?thesis unfolding task_ids_ok_def
  proof (intro conjI allI impI ballI)
    fix i u assume i: "i < TASKS_MAP_SIZE" "e_tasks_map s' ! i = Some u"
    then have "i \<noteq> tk_id (tk s t)" "e_tasks_map s ! i = Some u"
      using len by (cases "i = tk_id (tk s t)"; simp add: s' nth_list_update)+
    moreover from this have "u \<noteq> t" using assms(1) i(1) by (auto simp: task_ids_ok_def)
    ultimately show "u \<in> dom (e_task_heap s')" "tk_id (tk s' u) = i"
      using i(1) assms(1) old [of u] by (auto simp: s' task_ids_ok_def)
  next
    fix u assume u: "u \<in> dom (e_task_heap s')"
    then have ut: "u \<noteq> t" "u \<in> dom (e_task_heap s)" by (auto simp: s' split: if_splits)
    then have "tk_id (tk s u) \<noteq> tk_id (tk s t)" using task_ids_unique [OF assms(1)] assms(2) by metis
    then show "tk_id (tk s' u) < TASKS_MAP_SIZE" "e_tasks_map s' ! tk_id (tk s' u) = Some u" "u < e_next s'"
      using ut assms(1) old [of u] by (auto simp: s' task_ids_ok_def)
  qed (simp add: s' len)
qed

section \<open>Properties of the packed value\<close>

lemma task_set_unpack:
  assumes "ret < 2 ^ 4" "task_id < 2 ^ 14" "out_id < 2 ^ 14"
  shows "FLB_TASK_RET (FLB_TASK_SET ret task_id out_id) = ret"
    "FLB_TASK_ID (FLB_TASK_SET ret task_id out_id) = task_id"
    "FLB_TASK_OUT (FLB_TASK_SET ret task_id out_id) = out_id"
proof -
  have t: "take_bit 4 ret = ret" "take_bit 14 task_id = task_id" "take_bit 14 out_id = out_id"
    using assms by (simp_all add: take_bit_eq_mod mod_word_less)
  have b: "bit ret n \<Longrightarrow> n < 4" "bit task_id n \<Longrightarrow> n < 14" "bit out_id n \<Longrightarrow> n < 14" for n
    using t by (metis bit_take_bit_iff)+
  have m: "(0x3fff :: 32 word) = mask 14" "(0xfffc000 :: 32 word) = push_bit 14 (mask 14)"
    by (simp_all add: mask_eq_exp_minus_1)
  show "FLB_TASK_RET (FLB_TASK_SET ret task_id out_id) = ret"
    unfolding FLB_TASK_RET_def FLB_TASK_SET_def by (rule bit_word_eqI) (auto simp: bit_simps dest: b)
  show "FLB_TASK_ID (FLB_TASK_SET ret task_id out_id) = task_id"
    unfolding FLB_TASK_ID_def FLB_TASK_SET_def m by (rule bit_word_eqI) (auto simp: bit_simps dest: b)
  show "FLB_TASK_OUT (FLB_TASK_SET ret task_id out_id) = out_id"
    unfolding FLB_TASK_OUT_def FLB_TASK_SET_def m by (rule bit_word_eqI) (auto simp: bit_simps dest: b)
qed

text \<open>C33: the number an output coroutine reports is unpacked into what it was packed from: a return
  value of four bits, a task id and an output id of fourteen bits each.\<close>

theorem flb_task_set_roundtrip:
  assumes "ret < 2 ^ 4" "task_id < 2 ^ 14" "out_id < 2 ^ 14"
  shows "FLB_TASK_RET (FLB_TASK_SET ret task_id out_id) = ret \<and>
    FLB_TASK_ID (FLB_TASK_SET ret task_id out_id) = task_id \<and>
    FLB_TASK_OUT (FLB_TASK_SET ret task_id out_id) = out_id"
  using task_set_unpack [OF assms] by simp

theorem flb_task_set_roundtrip_witness: "FLB_TASK_ID (FLB_TASK_SET 2 2047 255) = 2047"
  using flb_task_set_roundtrip [of 2 2047 255] by simp

lemma task_linked_ids:
  assumes "task_linked s t" "sched_inv (e_sched s)" "task_ids_ok s"
  shows "task_ids_ok (flb_task_destroy io H t del s)"
proof (rule task_ids_ok_del [OF assms(3), of t])
  show "t \<in> dom (e_task_heap s)" using assms(1) by (simp add: task_linked_def)
qed (rule task_destroy_spec [OF assms(1,2) refl])+

lemma failures_exhausted:
  assumes "task_retries_ok s t" "flb_task_retry_count s t (o_id ins) = -1" "0 < o_retry_limit ins"
  shows "fst (failures io t ins (Suc (nat (o_retry_limit ins))) s) = replicate (nat (o_retry_limit ins)) True @ [False]"
    "flb_task_retry_count (snd (failures io t ins (Suc (nat (o_retry_limit ins))) s)) t (o_id ins) = -1"
proof -
  define n where "n = nat (o_retry_limit ins)"
  obtain rs s1 where f: "failures io t ins n s = (rs, s1)" by fastforce
  have n: "max 0 (flb_task_retry_count s t (o_id ins)) + int n \<le> o_retry_limit ins" "0 < n" "0 \<le> o_retry_limit ins"
    using assms(2,3) by (simp_all add: n_def)
  have s1: "rs = replicate n True" "task_retries_ok s1 t" "flb_task_retry_count s1 t (o_id ins) = int n"
    using failures_granted [OF assms(1) n(3,1), of io] n(2) f assms(2) by simp_all
  obtain res s2 where r: "flb_task_retry_create io True t ins s1 = (res, s2)" by fastforce
  have "res = None \<and> flb_task_retry_count s2 t (o_id ins) = -1"
    using retry_create_step [OF s1(2) r] s1(3) n(3) by (simp add: n_def)
  then show "fst (failures io t ins (Suc (nat (o_retry_limit ins))) s) = replicate (nat (o_retry_limit ins)) True @ [False]"
    "flb_task_retry_count (snd (failures io t ins (Suc (nat (o_retry_limit ins))) s)) t (o_id ins) = -1"
    using f r s1(1) unfolding n_def [symmetric] failures_snoc by simp_all
qed

text \<open>When \<^verbatim>\<open>flb_task_retry_create\<close> refuses a retry, for an output that was retried \<open>c\<close> times (minus one: never).\<close>

definition retry_refused :: "bool \<Rightarrow> int \<Rightarrow> int \<Rightarrow> bool" where
  "retry_refused mem_ok limit c \<longleftrightarrow> (if c = -1 then \<not> mem_ok else 0 \<le> limit \<and> limit \<le> c)"

lemma retry_count_listed:
  assumes "task_retries_ok s t" "r \<in> set (tk_retries (tk s t))"
  shows "flb_task_retry_count s t (rt_o_ins (rt s r)) = rt_attempts (rt s r)"
proof -
  have "inj_on (\<lambda>r. rt_o_ins (rt s r)) (set (tk_retries (tk s t)))" using assms(1) by (simp add: task_retries_ok_def)
  from find_inj_on [OF this assms(2)] show ?thesis by (simp add: flb_task_retry_count_def)
qed

lemma retry_count_unlisted:
  assumes "\<forall>r\<in>set (tk_retries (tk s t)). rt_o_ins (rt s r) \<noteq> out"
  shows "flb_task_retry_count s t out = -1"
proof -
  have "List.find (\<lambda>r. rt_o_ins (rt s r) = out) (tk_retries (tk s t)) = None" using assms by (auto simp: find_None_iff)
  then show ?thesis by (simp add: flb_task_retry_count_def)
qed

lemma retry_count_same:
  assumes "task_retries_ok s t" "task_retries_ok s' t" "set (tk_retries (tk s' t)) = set (tk_retries (tk s t))"
    "\<And>r. r \<in> set (tk_retries (tk s t)) \<Longrightarrow> rt s' r = rt s r"
  shows "flb_task_retry_count s' t out = flb_task_retry_count s t out"
proof (cases "\<exists>r\<in>set (tk_retries (tk s t)). rt_o_ins (rt s r) = out")
  case True
  then obtain r where "r \<in> set (tk_retries (tk s t))" "rt_o_ins (rt s r) = out" by blast
  then show ?thesis using retry_count_listed [OF assms(1), of r] retry_count_listed [OF assms(2), of r] assms(3,4) by simp
next
  case False
  then show ?thesis using retry_count_unlisted [of s t out] retry_count_unlisted [of s' t out] assms(3,4) by simp
qed

lemma retry_create_outcome:
  assumes "task_retries_ok s t" "flb_task_retry_create io mem_ok t ins s = (res, s')"
  defines "c \<equiv> flb_task_retry_count s t (o_id ins)"
  shows "res = None \<longleftrightarrow> retry_refused mem_ok (o_retry_limit ins) c"
    "res = Some r \<Longrightarrow> rt_attempts (rt s' r) = (if c = -1 then 1 else c + 1) \<and> e_sched s' = e_sched s"
proof -
  have a: "rt (retry_adjust io t x) = rt x" "e_sched (retry_adjust io t x) = e_sched x" for x
    using same_tasks_tk [OF same_tasks_adjust [of x io t]] same_tasks_adjust [of x io t] by (simp_all add: same_tasks_def)
  show "res = None \<longleftrightarrow> retry_refused mem_ok (o_retry_limit ins) c"
    "res = Some r \<Longrightarrow> rt_attempts (rt s' r) = (if c = -1 then 1 else c + 1) \<and> e_sched s' = e_sched s"
  proof (atomize (full), cases "List.find (\<lambda>r. rt_o_ins (rt s r) = o_id ins) (tk_retries (tk s t))")
    case None
    then show "(res = None) = retry_refused mem_ok (o_retry_limit ins) c \<and>
        (res = Some r \<longrightarrow> rt_attempts (rt s' r) = (if c = -1 then 1 else c + 1) \<and> e_sched s' = e_sched s)"
      using assms(2) by (auto simp: c_def flb_task_retry_count_def flb_task_retry_create_def retry_refused_def Let_def a split: if_splits) (simp_all add: rt_def)
  next
    case (Some q)
    then have "1 \<le> rt_attempts (rt s q)" using assms(1) find_Some_in [OF Some] by (auto simp: task_retries_ok_def)
    then show "(res = None) = retry_refused mem_ok (o_retry_limit ins) c \<and>
        (res = Some r \<longrightarrow> rt_attempts (rt s' r) = (if c = -1 then 1 else c + 1) \<and> e_sched s' = e_sched s)"
      using assms(2) Some by (auto simp: c_def flb_task_retry_count_def flb_task_retry_create_def retry_refused_def a split: if_splits)
  qed
qed

text \<open>C32: destroying a task gives back everything it holds: its id, its retries and the scheduler requests
  that wait for them, its chunk and its place in the input; the other tasks, their ids and the other
  requests stay.\<close>

theorem flb_task_destroy_releases:
  assumes "task_linked s t" "task_ids_ok s" "sched_inv (e_sched s)"
    "\<forall>r\<in>set (tk_retries (tk s t)). count (pending (e_sched s)) r \<le> 1"
    "distinct (in_tasks (e_inputs s ! tk_i_ins (tk s t)))"
  shows "let s' = flb_task_destroy io H t del s in
    task_ids_ok s' \<and> sched_inv (e_sched s') \<and>
    e_task_heap s' = (e_task_heap s)(t := None) \<and> e_tasks_map s' ! tk_id (tk s t) = None \<and>
    t \<notin> set (in_tasks (e_inputs s' ! tk_i_ins (tk s t))) \<and> tk_ic (tk s t) \<notin> dom (e_chunk_heap s') \<and>
    (\<forall>r\<in>set (tk_retries (tk s t)). r \<notin> dom (e_retry_heap s') \<and> r \<notin># pending (e_sched s')) \<and>
    (\<forall>r. r \<notin> set (tk_retries (tk s t)) \<longrightarrow>
       e_retry_heap s' r = e_retry_heap s r \<and> count (pending (e_sched s')) r = count (pending (e_sched s)) r)"
proof -
  define s' where "s' = flb_task_destroy io H t del s"
  note d = task_destroy_spec [OF assms(1,3) s'_def]
  have id: "tk_id (tk s t) < length (e_tasks_map s)" and rs: "distinct (tk_retries (tk s t))"
    using assms(1,2) by (auto simp: task_linked_def task_ids_ok_def task_retries_ok_def)
  have cnt: "count (pending (e_sched s')) r = count (pending (e_sched s)) r - (if r \<in> set (tk_retries (tk s t)) then 1 else 0)" for r
    using d(4) rs by (simp add: distinct_count_atmost_1)
  have "r \<notin># pending (e_sched s')" if "r \<in> set (tk_retries (tk s t))" for r
    using cnt [of r] that assms(4) by (simp add: not_in_iff)
  moreover have "t \<notin> set (in_tasks (e_inputs s' ! tk_i_ins (tk s t)))" using assms(5) by (simp add: d(7))
  moreover have "e_retry_heap s' r = (if r \<in> set (tk_retries (tk s t)) then None else e_retry_heap s r)" for r
    by (simp add: d(3))
  ultimately show ?thesis
    using task_linked_ids [OF assms(1,3,2), of io H del] d(1,2,4,5) cnt id
    unfolding Let_def s'_def [symmetric] by (simp add: domIff)
qed


section \<open>Creating a task, the whole operation\<close>

lemma task_create_cases:
  assumes "task_ids_ok s" "n < length (e_inputs s)" "in_routes_direct (e_inputs s ! n) = []" "c \<in> dom (e_chunk_heap s)"
    "ic_in (ic s c) = n"
  defines "R \<equiv> task_routes (\<lambda>_. True) (ic_event_type (ic s c)) (ic_routes_mask (ic s c)) (e_outputs s)"
  obtains (full) "None \<notin> set (e_tasks_map s)"
      "flb_task_create io H True True (\<lambda>_. True) junk ref_id n c s = ((None, True), s)"
  | (some) k s5 where "k < TASKS_MAP_SIZE" "e_tasks_map s ! k = None" "\<forall>j<k. e_tasks_map s ! j \<noteq> None"
      "e_tasks_map s5 = (e_tasks_map s)[k := Some (e_next s)]" "e_next s5 = Suc (e_next s)"
      "e_task_heap s5 = (e_task_heap s)(e_next s \<mapsto>
         \<lparr>tk_id = k, tk_ref_id = ref_id, tk_status = FLB_TASK_NEW, tk_users = 0, tk_ic = c,
          tk_records = ic_total_records (ic s c), tk_routes = R, tk_retries = [], tk_i_ins = n\<rparr>)"
      "e_retry_heap s5 = e_retry_heap s" "e_sched s5 = e_sched s"
      "in_tasks (e_inputs s5 ! n) = mk_list_add (e_next s) (in_tasks (e_inputs s ! n))"
      "ic s5 c = (ic s c)\<lparr>ic_task := Some (e_next s)\<rparr>"
      "dom (e_chunk_heap s5) = dom (e_chunk_heap s)" "task_ids_ok s5" "task_linked s5 (e_next s)"
      "flb_task_create io H True True (\<lambda>_. True) junk ref_id n c s =
         (if R = [] then ((None, False), flb_task_destroy io H (e_next s) True s5) else ((Some (e_next s), False), s5))"
  using assms(1)
proof (cases rule: task_alloc_cases)
  case none
  then show ?thesis using full by (simp add: flb_task_create_def)
next
  case (some k)
  define t where "t = e_next s"
  define s1 where "s1 = snd (task_alloc True s)"
  define s2 where "s2 = ic_upd c (\<lambda>x. x\<lparr>ic_task := Some t\<rparr>) s1"
  define s3 where "s3 = tk_upd t (\<lambda>x. x\<lparr>tk_ref_id := ref_id, tk_i_ins := n, tk_ic := c,
      tk_records := ic_total_records (ic s2 c)\<rparr>) s2"
  define s4 where "s4 = in_upd n (\<lambda>i. i\<lparr>in_tasks := mk_list_add t (in_tasks i)\<rparr>) s3"
  define s5 where "s5 = tk_upd t (\<lambda>x. x\<lparr>tk_routes := R\<rparr>) s4"
  have al: "task_alloc True s = (Some t, s1)" using some(4) by (simp add: t_def s1_def)
  have 1: "e_inputs s1 = e_inputs s" "e_outputs s1 = e_outputs s" "e_chunk_heap s1 = e_chunk_heap s" "ic s1 = ic s"
    "e_retry_heap s1 = e_retry_heap s" "e_sched s1 = e_sched s" "e_next s1 = Suc (e_next s)"
    "e_tasks_map s1 = (e_tasks_map s)[k := Some t]"
    "e_task_heap s1 = (e_task_heap s)(t \<mapsto> \<lparr>tk_id = k, tk_ref_id = 0, tk_status = FLB_TASK_NEW, tk_users = 0, tk_ic = 0,
       tk_records = 0, tk_routes = [], tk_retries = [], tk_i_ins = 0\<rparr>)"
    by (simp_all add: s1_def some(4) map_set_task_id_def t_def ic_def fun_eq_iff)
  have k1: "tk s1 t = \<lparr>tk_id = k, tk_ref_id = 0, tk_status = FLB_TASK_NEW, tk_users = 0, tk_ic = 0,
       tk_records = 0, tk_routes = [], tk_retries = [], tk_i_ins = 0\<rparr>" by (simp add: tk_def 1)
  have ic4: "ic s4 c = (ic s c)\<lparr>ic_task := Some t\<rparr>" "e_outputs s4 = e_outputs s"
    by (simp_all add: s4_def s3_def s2_def 1)
  have rd4: "in_routes_direct (e_inputs s4 ! n) = []"
    using assms(2,3) by (simp add: s4_def s3_def s2_def 1 in_upd_def)
  have 5: "e_tasks_map s5 = (e_tasks_map s)[k := Some t]" "e_next s5 = Suc (e_next s)" "e_retry_heap s5 = e_retry_heap s"
    "e_sched s5 = e_sched s" "ic s5 c = (ic s c)\<lparr>ic_task := Some t\<rparr>"
    by (simp_all add: s5_def s4_def s3_def s2_def 1)
  have 6: "dom (e_chunk_heap s5) = dom (e_chunk_heap s)"
    "in_tasks (e_inputs s5 ! n) = mk_list_add t (in_tasks (e_inputs s ! n))" "length (e_inputs s5) = length (e_inputs s)"
    using assms(2,4) by (auto simp: s5_def s4_def s3_def s2_def 1 in_upd_def ic_upd_def)
  have h5: "e_task_heap s5 = (e_task_heap s)(t \<mapsto> \<lparr>tk_id = k, tk_ref_id = ref_id, tk_status = FLB_TASK_NEW, tk_users = 0,
      tk_ic = c, tk_records = ic_total_records (ic s c), tk_routes = R, tk_retries = [], tk_i_ins = n\<rparr>)"
    by (simp add: s5_def s4_def s3_def s2_def 1 k1)
  have k5: "tk s5 t = \<lparr>tk_id = k, tk_ref_id = ref_id, tk_status = FLB_TASK_NEW, tk_users = 0,
      tk_ic = c, tk_records = ic_total_records (ic s c), tk_routes = R, tk_retries = [], tk_i_ins = n\<rparr>"
    by (simp add: tk_def h5)
  have ok: "task_ids_ok s5"
    by (rule task_ids_ok_add [OF assms(1) some(1,2) 5(1) [unfolded t_def] h5 [unfolded t_def] 5(2)]) simp
  have lk: "task_linked s5 t"
    using assms(2,4,5) by (simp add: task_linked_def h5 k5 5 6 task_retries_ok_def)
  have cr: "flb_task_create io H True True (\<lambda>_. True) junk ref_id n c s =
         (if R = [] then ((None, False), flb_task_destroy io H t True s5) else ((Some t, False), s5))"
    unfolding flb_task_create_def al prod.case option.case Let_def s2_def [symmetric] s3_def [symmetric] s4_def [symmetric]
    using ic4 rd4 by (simp add: R_def [symmetric] s5_def)
  show ?thesis
    by (rule that(2) [OF some(1-3) 5(1) [unfolded t_def] 5(2) h5 [unfolded t_def] 5(3,4) 6(2) [unfolded t_def]
          5(5) [unfolded t_def] 6(1) ok lk [unfolded t_def] cr [unfolded t_def]])
qed


text \<open>C31: a new task gets the lowest free id, unique among the live tasks, and one inactive route for every
  output that takes the event type and is set in the routes mask of the chunk, in the order of the
  outputs; it is linked in its input and in its chunk. A chunk without any destination is dropped
  together with the task, whose id is free again. With all ids in use nothing happens.\<close>

theorem flb_task_create_correct:
  assumes "task_ids_ok s" "sched_inv (e_sched s)" "n < length (e_inputs s)" "in_routes_direct (e_inputs s ! n) = []"
    "c \<in> dom (e_chunk_heap s)" "ic_in (ic s c) = n"
    and R: "R = filter (\<lambda>x. flb_router_match_type (ic_event_type (ic s c)) (flb_output_instance.truncate x) \<and>
                         route_bit (ic_routes_mask (ic s c)) (o_id x)) (e_outputs s)"
    and cr: "flb_task_create io H True True (\<lambda>_. True) junk ref_id n c s = ((res, err), s')"
  shows "if None \<notin> set (e_tasks_map s) then res = None \<and> err \<and> s' = s
    else \<not> err \<and> task_ids_ok s' \<and>
      (if R = [] then res = None \<and> e_tasks_map s' = e_tasks_map s \<and> e_task_heap s' = e_task_heap s \<and>
         c \<notin> dom (e_chunk_heap s')
       else \<exists>t. res = Some t \<and> t \<notin> dom (e_task_heap s) \<and> t \<in> dom (e_task_heap s') \<and>
         e_tasks_map s ! tk_id (tk s' t) = None \<and> (\<forall>j<tk_id (tk s' t). e_tasks_map s ! j \<noteq> None) \<and>
         map tr_out (tk_routes (tk s' t)) = map o_id R \<and>
         (\<forall>r\<in>set (tk_routes (tk s' t)). tr_status r = FLB_TASK_ROUTE_INACTIVE) \<and>
         tk_users (tk s' t) = 0 \<and> tk_retries (tk s' t) = [] \<and>
         ic_task (ic s' c) = Some t \<and> tk_ic (tk s' t) = c \<and>
         in_tasks (e_inputs s' ! n) = mk_list_add t (in_tasks (e_inputs s ! n)))"
  using assms(1,3-6)
proof (cases rule: task_create_cases [where io = io and H = H and junk = junk and ref_id = ref_id])
  case full
  then show ?thesis using cr by simp
next
  case (some k s5)
  define TR where "TR = task_routes (\<lambda>_. True) (ic_event_type (ic s c)) (ic_routes_mask (ic s c)) (e_outputs s)"
  have tr: "map tr_out TR = map o_id R" "\<forall>r\<in>set TR. tr_status r = FLB_TASK_ROUTE_INACTIVE" "TR = [] \<longleftrightarrow> R = []"
    by (auto simp: TR_def task_routes_def R filter_empty_conv)
  have len: "k < length (e_tasks_map s)" using some(1) assms(1) by (simp add: task_ids_ok_def)
  then have free: "None \<in> set (e_tasks_map s)" using some(2) nth_mem by metis
  have fr: "e_next s \<notin> dom (e_task_heap s)" using assms(1) by (auto simp: task_ids_ok_def)
  note some = some [folded TR_def]
  have tk5: "tk s5 (e_next s) = \<lparr>tk_id = k, tk_ref_id = ref_id, tk_status = FLB_TASK_NEW, tk_users = 0, tk_ic = c,
          tk_records = ic_total_records (ic s c), tk_routes = TR, tk_retries = [], tk_i_ins = n\<rparr>"
    by (simp add: tk_def some(6))
  show ?thesis
  proof (cases "R = []")
    case True
    then have s': "res = None" "\<not> err" "s' = flb_task_destroy io H (e_next s) True s5" using some(14) cr tr(3) by auto
    have sc5: "sched_inv (e_sched s5)" by (simp add: some(8) assms(2))
    note d = task_destroy_spec [OF some(13) sc5 s'(3)]
    have "task_ids_ok s'" using task_linked_ids [OF some(13) sc5 some(12)] by (simp add: s'(3))
    moreover have "e_tasks_map s' = e_tasks_map s"
      using some(2) len by (simp add: d(2) some(4) tk5 list_update_same_conv)
    moreover have "e_task_heap s' = e_task_heap s" using fr by (auto simp: d(1) some(6) fun_eq_iff)
    moreover have "c \<notin> dom (e_chunk_heap s')" by (simp add: d(5) tk5)
    ultimately show ?thesis using True free s' by simp
  next
    case False
    then have s': "res = Some (e_next s)" "\<not> err" "s' = s5" using some(14) cr tr(3) by auto
    show ?thesis
      using False free s' some(2,3,12) tr fr
      by (simp add: tk5 some(6,9,10))
  qed
qed

text \<open>When the last user of a task leaves, the task is released exactly if nothing retries it; while it has
  users or retries it stays and keeps its id.\<close>

theorem flb_task_users_dec_releases:
  assumes "task_linked s t" "task_ids_ok s" "sched_inv (e_sched s)"
  shows "let s' = flb_task_users_dec io H t release_check s in task_ids_ok s' \<and>
    (if release_check \<and> tk_users (tk s t) = 1 \<and> tk_retries (tk s t) = []
     then e_task_heap s' = (e_task_heap s)(t := None) \<and> e_tasks_map s' ! tk_id (tk s t) = None \<and>
       tk_ic (tk s t) \<notin> dom (e_chunk_heap s')
     else tk s' t = (tk s t)\<lparr>tk_users := tk_users (tk s t) - 1\<rparr> \<and> t \<in> dom (e_task_heap s') \<and>
       e_tasks_map s' ! tk_id (tk s t) = Some t \<and> e_chunk_heap s' = e_chunk_heap s)"
proof -
  define s1 where "s1 = tk_upd t (\<lambda>x. x\<lparr>tk_users := tk_users x - 1\<rparr>) s"
  have td: "t \<in> dom (e_task_heap s)" using assms(1) by (simp add: task_linked_def)
  have 1: "tk s1 t = (tk s t)\<lparr>tk_users := tk_users (tk s t) - 1\<rparr>" "tk s1 u = (if u = t then tk s1 t else tk s u)"
    "e_task_heap s1 = (e_task_heap s)(t \<mapsto> tk s1 t)" "e_tasks_map s1 = e_tasks_map s" "e_chunk_heap s1 = e_chunk_heap s"
    "e_sched s1 = e_sched s" "e_next s1 = e_next s" "e_inputs s1 = e_inputs s" "rt s1 = rt s" "ic s1 = ic s" for u
    by (simp_all add: s1_def)
  have dom1: "dom (e_task_heap s1) = dom (e_task_heap s)" using td by (auto simp: 1(3))
  have id1: "tk_id (tk s1 u) = tk_id (tk s u)" for u using 1(1) 1(2) [of u] by simp
  have ok1: "task_ids_ok s1" using assms(2) unfolding task_ids_ok_def dom1 id1 1(4,7) .
  have lk1: "task_linked s1 t"
    using assms(1) unfolding task_linked_def task_retries_ok_def dom1 1(1,5,7-10) by simp
  have id: "tk_id (tk s t) < length (e_tasks_map s)" "e_tasks_map s ! tk_id (tk s t) = Some t"
    using assms(2) td by (auto simp: task_ids_ok_def)
  show ?thesis
  proof (cases "release_check \<and> tk_users (tk s t) = 1 \<and> tk_retries (tk s t) = []")
    case True
    have s': "flb_task_users_dec io H t release_check s = flb_task_destroy io H t True s1"
      using True by (simp add: flb_task_users_dec_def flb_task_users_release_def Let_def s1_def [symmetric] 1(1))
    have sc: "sched_inv (e_sched s1)" by (simp add: 1 assms(3))
    note d = task_destroy_spec [OF lk1 sc refl, of io H True]
    show ?thesis
      using True id task_linked_ids [OF lk1 sc ok1, of io H True] unfolding s' Let_def
      by (simp add: d(1,2,5) 1(1,3,4))
  next
    case False
    have s': "flb_task_users_dec io H t release_check s = s1"
      using False by (auto simp: flb_task_users_dec_def flb_task_users_release_def Let_def s1_def [symmetric] 1(1))
    show ?thesis using False ok1 id by (auto simp: s' Let_def 1(1,3,4,5))
  qed
qed

text \<open>When the event chunk of a new task cannot be allocated, the task is freed but its id is not: the
  entry of the tasks map refers to a task that does not exist any more, and the id is never used again.\<close>

theorem flb_task_create_event_chunk_leak:
  assumes "task_ids_ok s" "None \<in> set (e_tasks_map s)"
    and cr: "flb_task_create io H True False route_ok junk ref_id n c s = ((res, err), s')"
  shows "res = None \<and> err \<and> e_task_heap s' = e_task_heap s \<and>
    (\<exists>k t. e_tasks_map s ! k = None \<and> e_tasks_map s' = (e_tasks_map s)[k := Some t] \<and> t \<notin> dom (e_task_heap s')) \<and>
    \<not> task_ids_ok s'"
  using assms(1)
proof (cases rule: task_alloc_cases)
  case none
  then show ?thesis using assms(2) by simp
next
  case (some k)
  have fr: "e_next s \<notin> dom (e_task_heap s)" using assms(1) by (auto simp: task_ids_ok_def)
  have s': "res = None" "err" "e_task_heap s' = e_task_heap s" "e_tasks_map s' = (e_tasks_map s)[k := Some (e_next s)]"
    using cr some(4) fr by (auto simp: flb_task_create_def map_set_task_id_def fun_eq_iff)
  have "e_tasks_map s' ! k = Some (e_next s)" using some(1) assms(1) by (simp add: s' task_ids_ok_def)
  then have "\<not> task_ids_ok s'" using fr some(1) s'(3) by (auto simp: task_ids_ok_def)
  then show ?thesis using s' some(2) fr by (intro conjI exI [of _ k] exI [of _ "e_next s"]) simp_all
qed


section \<open>An engine with one task\<close>

definition demo_task :: flb_task where
  "demo_task = \<lparr>tk_id = 0, tk_ref_id = 0, tk_status = FLB_TASK_NEW, tk_users = 1, tk_ic = 0, tk_records = 1,
     tk_routes = [\<lparr>tr_status = FLB_TASK_ROUTE_INACTIVE, tr_out = 0\<rparr>], tk_retries = [], tk_i_ins = 0\<rparr>"

definition demo_tasks :: "demo_chunk flb_engine" where
  "demo_tasks = in_upd 0 (\<lambda>i. i\<lparr>in_tasks := [7]\<rparr>) (map_set_task_id 0 7 (demo_engine True 100 100))
     \<lparr>e_task_heap := [7 \<mapsto> demo_task], e_next := 8\<rparr>"

lemma demo_engine_fields:
  "e_tasks_map (demo_engine b n fs) = replicate TASKS_MAP_SIZE None" "e_task_heap (demo_engine b n fs) = Map.empty"
  "e_sched (demo_engine b n fs) = demo_sched" "e_inputs (demo_engine b n fs) = [demo_input n]"
  "e_outputs (demo_engine b n fs) = [demo_out fs]" "e_next (demo_engine b n fs) = 1"
  "e_chunk_heap (demo_engine b n fs) = [0 \<mapsto> demo_chunk_of b n]" "e_retry_heap (demo_engine b n fs) = Map.empty"
  "ic (demo_engine b n fs) 0 = demo_chunk_of b n"
  by (simp_all add: demo_engine_def TASKS_MAP_SIZE_def ic_def)

lemma demo_engine_ids: "task_ids_ok (demo_engine b n fs)"
  by (simp add: task_ids_ok_def demo_engine_fields)

lemma demo_tasks_ids: "task_ids_ok demo_tasks"
proof (rule task_ids_ok_add [of "demo_engine True 100 100\<lparr>e_next := 7\<rparr>" 0 demo_tasks demo_task])
  show "task_ids_ok (demo_engine True 100 100\<lparr>e_next := 7\<rparr>)" by (simp add: task_ids_ok_def demo_engine_fields)
qed (simp_all add: demo_tasks_def demo_engine_fields map_set_task_id_def TASKS_MAP_SIZE_def demo_task_def)

lemma demo_tasks_fields:
  "tk demo_tasks 7 = demo_task" "e_sched demo_tasks = demo_sched" "in_tasks (e_inputs demo_tasks ! 0) = [7]"
  by (simp_all add: demo_tasks_def tk_def map_set_task_id_def demo_engine_fields)

lemma demo_tasks_linked: "task_linked demo_tasks 7"
  unfolding task_linked_def task_retries_ok_def demo_tasks_fields
  by (simp add: demo_tasks_def demo_task_def map_set_task_id_def demo_engine_fields ic_def demo_chunk_of_def)

lemma demo_sched_ok: "sched_inv (e_sched demo_tasks)" by (simp add: demo_tasks_fields demo_sched_inv)

theorem flb_task_destroy_releases_witness:
  "7 \<notin> dom (e_task_heap (flb_task_destroy demo_io (\<lambda>_. 0) 7 True demo_tasks))"
  using flb_task_destroy_releases [OF demo_tasks_linked demo_tasks_ids demo_sched_ok, of demo_io "\<lambda>_. 0" True]
  by (simp add: demo_tasks_fields demo_task_def Let_def)

theorem flb_task_users_dec_releases_witness:
  "0 \<notin> dom (e_chunk_heap (flb_task_users_dec demo_io (\<lambda>_. 0) 7 True demo_tasks))"
  using flb_task_users_dec_releases [OF demo_tasks_linked demo_tasks_ids demo_sched_ok, of demo_io "\<lambda>_. 0" True]
  by (simp add: demo_tasks_fields demo_task_def Let_def)

theorem flb_task_create_correct_witness:
  "\<exists>t s'. flb_task_create demo_io (\<lambda>_. 0) True True (\<lambda>_. True) 0 7 0 0 (demo_engine True 100 100) = ((Some t, False), s') \<and>
     map tr_out (tk_routes (tk s' t)) = [0]"
proof -
  define s where "s = demo_engine True 100 100"
  obtain res err s' where cr: "flb_task_create demo_io (\<lambda>_. 0) True True (\<lambda>_. True) 0 7 0 0 s = ((res, err), s')"
    by (metis prod.exhaust)
  have bit: "route_bit [1, 0, 0, 0] 0" by code_simp
  have R: "[demo_out 100] = filter (\<lambda>x. flb_router_match_type (ic_event_type (ic s 0)) (flb_output_instance.truncate x) \<and>
      route_bit (ic_routes_mask (ic s 0)) (o_id x)) (e_outputs s)"
    using bit by (simp add: s_def demo_engine_fields demo_chunk_of_def demo_out_def flb_router_match_type_def
        flb_output_instance.defs flb_event_type_defs)
  have 0: "task_ids_ok s" "sched_inv (e_sched s)" "0 < length (e_inputs s)" "in_routes_direct (e_inputs s ! 0) = []"
    "0 \<in> dom (e_chunk_heap s)" "ic_in (ic s 0) = 0" "None \<in> set (e_tasks_map s)"
    by (simp_all add: s_def demo_engine_ids demo_engine_fields demo_sched_inv demo_input_def demo_chunk_of_def TASKS_MAP_SIZE_def)
  from flb_task_create_correct [OF 0(1-6) R cr] 0(7) cr show ?thesis
    by (auto simp: s_def demo_out_def)
qed

theorem flb_task_create_event_chunk_leak_witness:
  "\<not> task_ids_ok (snd (flb_task_create demo_io (\<lambda>_. 0) True False (\<lambda>_. True) 0 7 0 0 (demo_engine True 100 100)))"
proof -
  define s where "s = demo_engine True 100 100"
  obtain res err s' where cr: "flb_task_create demo_io (\<lambda>_. 0) True False (\<lambda>_. True) 0 7 0 0 s = ((res, err), s')"
    by (metis prod.exhaust)
  have "task_ids_ok s" "None \<in> set (e_tasks_map s)"
    by (simp_all add: s_def demo_engine_ids demo_engine_fields TASKS_MAP_SIZE_def)
  from flb_task_create_event_chunk_leak [OF this cr] show ?thesis using cr by (simp add: s_def)
qed

end
