(* ===== verification/Flb_Output.thy ===== *)
theory Flb_Output
  imports Flb_Task
begin

text \<open>
  The part of \<^verbatim>\<open>src/flb_output.c\<close> and \<^verbatim>\<open>include/fluent-bit/flb_output.h\<close> that hands
  tasks to outputs: the flush of a task by a coroutine or by a worker, the queue of an output that
  runs one task at a time, the start of a flush and its return.

  The state \<open>disp\<close> is the engine together with the queues of the synchronous outputs, the flushes
  that were created and have not returned, the events written to the engine and the counters of the
  outputs. An output is its id; every caller of the queue functions passes the queue of the instance
  it flushes, so a queue is the id of its output too.
\<close>

section \<open>State\<close>

definition FLB_ERROR :: int where "FLB_ERROR = 0"
definition FLB_OK :: int where "FLB_OK = 1"
definition FLB_RETRY :: int where "FLB_RETRY = 2"
definition FLB_OUTPUT_NO_MULTIPLEX :: "32 word" where "FLB_OUTPUT_NO_MULTIPLEX = 512"
definition FLB_OUTPUT_SYNCHRONOUS :: "32 word" where "FLB_OUTPUT_SYNCHRONOUS = 2048"

lemmas ret_consts = FLB_ERROR_def FLB_OK_def FLB_RETRY_def

record flb_task_enqueued =
  qe_task :: addr
  qe_retry :: "addr option"

record flb_task_queue =
  q_pending :: "flb_task_enqueued list"
  q_in_progress :: "flb_task_enqueued list"

text \<open>\<open>fl_running\<close> tells whether the callback of the plugin runs.\<close>

record flb_output_flush =
  fl_task :: addr
  fl_out :: int
  fl_running :: bool

record out_metrics =
  mt_proc_records :: int
  mt_errors :: int
  mt_retries :: int
  mt_retries_failed :: int
  mt_dropped_records :: int
  mt_retried_records :: int

record 'c disp =
  d_eng :: "'c flb_engine"
  d_queues :: "int \<Rightarrow> flb_task_queue"
  d_flushes :: "flb_output_flush list"
  d_events :: "64 word list"
  d_metrics :: "int \<Rightarrow> out_metrics"

text \<open>The outcomes of the calls a flush depends on: whether the output has workers, whether a worker
  takes the task, whether the coroutine can be created, whether the pipe to the engine takes it, and
  whether there is memory for an entry of the queue.\<close>

record flush_env =
  f_threaded :: "int \<Rightarrow> bool"
  f_pool_ok :: "addr \<Rightarrow> int \<Rightarrow> bool"
  f_create_ok :: "addr \<Rightarrow> int \<Rightarrow> bool"
  f_pipe_ok :: "addr \<Rightarrow> int \<Rightarrow> bool"
  f_queue_ok :: "addr \<Rightarrow> int \<Rightarrow> bool"

definition eng_upd :: "('c flb_engine \<Rightarrow> 'c flb_engine) \<Rightarrow> 'c disp \<Rightarrow> 'c disp" where
  "eng_upd f d = d\<lparr>d_eng := f (d_eng d)\<rparr>"

definition queue_upd :: "int \<Rightarrow> (flb_task_queue \<Rightarrow> flb_task_queue) \<Rightarrow> 'c disp \<Rightarrow> 'c disp" where
  "queue_upd out f d = d\<lparr>d_queues := (d_queues d)(out := f (d_queues d out))\<rparr>"

definition out_ins :: "'c flb_engine \<Rightarrow> int \<Rightarrow> out_state" where
  "out_ins s out = the (List.find (\<lambda>x. o_id x = out) (e_outputs s))"

definition is_sync :: "'c disp \<Rightarrow> int \<Rightarrow> bool" where
  "is_sync d out \<longleftrightarrow> o_flags (out_ins (d_eng d) out) AND FLB_OUTPUT_SYNCHRONOUS \<noteq> 0"

section \<open>Flushing a task\<close>

text \<open>The body of \<^verbatim>\<open>flb_output_task_flush\<close> up to the calls of
  \<^verbatim>\<open>flb_output_task_singleplex_flush_next\<close>: the value it returns, whether it took a branch
  in which a synchronous output flushes its next task, and the state. A worker that does not take the
  task does not make the function fail.\<close>

definition flush_try :: "flush_env \<Rightarrow> addr \<Rightarrow> int \<Rightarrow> 'c disp \<Rightarrow> int \<times> bool \<times> 'c disp" where
  "flush_try env t out d =
     (let sent = (\<lambda>d. d\<lparr>d_flushes := d_flushes d @ [\<lparr>fl_task = t, fl_out = out, fl_running = False\<rparr>]\<rparr>);
          inc = eng_upd (flb_task_users_inc t);
          dec = eng_upd (tk_upd t (\<lambda>x. x\<lparr>tk_users := tk_users x - 1\<rparr>))
      in if f_threaded env out then
           (if f_pool_ok env t out then (0, False, sent (inc d)) else (0, True, dec (inc d)))
         else if \<not> f_create_ok env t out then (-1, False, d)
         else if f_pipe_ok env t out then (0, False, sent (inc d))
         else (-1, True, dec (inc d)))"

section \<open>The queue of a synchronous output\<close>

definition flb_task_queue_create :: "bool \<Rightarrow> flb_task_queue option" where
  "flb_task_queue_create mem_ok = (if mem_ok then Some \<lparr>q_pending = [], q_in_progress = []\<rparr> else None)"

text \<open>The entry that ended leaves the list of running entries.\<close>

definition queue_ended :: "flb_task_queue \<Rightarrow> flb_task_queue" where
  "queue_ended q = (case q_in_progress q of [] \<Rightarrow> q | e # es \<Rightarrow> q\<lparr>q_in_progress := es\<rparr>)"

text \<open>The first pending entry becomes the running one and gives up the user it held while it waited.\<close>

definition queue_start :: "int \<Rightarrow> flb_task_enqueued \<Rightarrow> 'c disp \<Rightarrow> 'c disp" where
  "queue_start out e d =
     eng_upd (tk_upd (qe_task e) (\<lambda>x. x\<lparr>tk_users := tk_users x - 1\<rparr>))
       (queue_upd out (\<lambda>q. \<lparr>q_pending = tl (q_pending q), q_in_progress = mk_list_add e (q_in_progress q)\<rparr>) d)"

definition retry_drop :: "flb_task_enqueued \<Rightarrow> 'c disp \<Rightarrow> 'c disp" where
  "retry_drop e d =
     (case qe_retry e of None \<Rightarrow> d | Some r \<Rightarrow> eng_upd (flb_task_retry_destroy r) d)"

abbreviation pending_of :: "'c disp \<Rightarrow> int \<Rightarrow> flb_task_enqueued list" where
  "pending_of d out \<equiv> q_pending (d_queues d out)"

lemma pending_frame [simp]:
  "pending_of (eng_upd f d) out = pending_of d out"
  "pending_of (retry_drop e d) out = pending_of d out"
  "pending_of (queue_upd out queue_ended d) out = pending_of d out"
  "pending_of (queue_start out e d) out = tl (pending_of d out)"
  by (simp_all add: eng_upd_def retry_drop_def queue_upd_def queue_ended_def queue_start_def split: option.split list.split)

lemma flush_try_queues: "(ret, next, d') = flush_try env t out d \<Longrightarrow> d_queues d' = d_queues d"
  by (auto simp: flush_try_def eng_upd_def Let_def split: if_splits)

text \<open>\<^verbatim>\<open>flb_output_task_singleplex_flush_next\<close>, with \<^verbatim>\<open>flb_output_task_queue_flush_one\<close>
  and \<^verbatim>\<open>flb_output_task_flush\<close>, which it calls and which call it again, written out. That the three
  functions below satisfy the equations of the code is shown after them.\<close>

function flb_output_task_singleplex_flush_next :: "flush_env \<Rightarrow> int \<Rightarrow> 'c disp \<Rightarrow> int \<times> 'c disp" where
  "flb_output_task_singleplex_flush_next env out d =
     (let d1 = queue_upd out queue_ended d in
      case pending_of d1 out of
        [] \<Rightarrow> (0, d1)
      | e # es \<Rightarrow>
          (case flush_try env (qe_task e) out (queue_start out e d1) of (ret, next, d2) \<Rightarrow>
             (let d3 = (if next \<and> is_sync d2 out then snd (flb_output_task_singleplex_flush_next env out d2) else d2)
              in if ret = -1
                 then (-1, snd (flb_output_task_singleplex_flush_next env out (retry_drop e d3)))
                 else (ret, d3))))"
  by pat_completeness auto

termination
proof -
  have shrinks: "length (pending_of (snd (flb_output_task_singleplex_flush_next env out d)) out) \<le> length (pending_of d out)"
    if "flb_output_task_singleplex_flush_next_dom (env, out, d)" for env out and d :: "'c disp"
    using that
  proof (induction rule: flb_output_task_singleplex_flush_next.pinduct)
    case (1 env out d)
    show ?case
    proof (cases "pending_of d out")
      case Nil
      then show ?thesis using 1(1) by (simp add: flb_output_task_singleplex_flush_next.psimps Let_def)
    next
      case (Cons e es)
      define d1 where "d1 = queue_upd out queue_ended d"
      obtain ret nx d2 where ft: "flush_try env (qe_task e) out (queue_start out e d1) = (ret, nx, d2)"
        by (metis prod_cases3)
      have p1: "pending_of d1 out = e # es" using Cons by (simp add: d1_def)
      have p2: "pending_of d2 out = es" using flush_try_queues [OF ft [symmetric]] p1 by simp
      define d3 where "d3 = (if nx \<and> is_sync d2 out then snd (flb_output_task_singleplex_flush_next env out d2) else d2)"
      note ih1 = 1(2) [OF d1_def p1 ft [symmetric] refl]
      note ih2 = 1(3) [OF d1_def p1 ft [symmetric] refl d3_def]
      have p3: "length (pending_of d3 out) \<le> length es" using ih1 p2 by (auto simp: d3_def)
      have un: "flb_output_task_singleplex_flush_next env out d =
          (if ret = -1 then (-1, snd (flb_output_task_singleplex_flush_next env out (retry_drop e d3))) else (ret, d3))"
        using 1(1) p1 by (simp add: flb_output_task_singleplex_flush_next.psimps Let_def d1_def [symmetric] ft d3_def [symmetric])
      show ?thesis unfolding un using ih2 p3 Cons by auto
    qed
  qed
  show ?thesis
  proof (relation "measure (\<lambda>(env, out, d). length (pending_of d out))", goal_cases)
    case (2 env out d x x21 x22 xa y xb ya)
    then have "d_queues ya = d_queues (queue_start out x21 x)" by (auto intro: flush_try_queues)
    then show ?case using 2 by simp
  next
    case (3 env out d x x21 x22 xa y xb ya xc)
    then have "d_queues ya = d_queues (queue_start out x21 x)" by (auto intro: flush_try_queues)
    then have "length (pending_of ya out) < length (pending_of d out)" using 3(1,2) by simp
    moreover have "length (pending_of xc out) \<le> length (pending_of ya out)"
      using 3(5,7) shrinks [of env out ya] by (auto split: if_splits)
    ultimately show ?case by simp
  qed simp
qed

declare flb_output_task_singleplex_flush_next.simps [simp del]

definition flb_output_task_flush :: "flush_env \<Rightarrow> addr \<Rightarrow> int \<Rightarrow> 'c disp \<Rightarrow> int \<times> 'c disp" where
  "flb_output_task_flush env t out d =
     (case flush_try env t out d of (ret, next, d1) \<Rightarrow>
        (ret, if next \<and> is_sync d1 out then snd (flb_output_task_singleplex_flush_next env out d1) else d1))"

definition flb_output_task_queue_flush_one :: "flush_env \<Rightarrow> int \<Rightarrow> 'c disp \<Rightarrow> int \<times> 'c disp" where
  "flb_output_task_queue_flush_one env out d =
     (case pending_of d out of
        [] \<Rightarrow> (-1, d)
      | e # es \<Rightarrow>
          (case flb_output_task_flush env (qe_task e) out (queue_start out e d) of (ret, d1) \<Rightarrow>
             if ret = -1 then (-1, snd (flb_output_task_singleplex_flush_next env out (retry_drop e d1)))
             else (ret, d1)))"

definition flb_output_task_queue_enqueue ::
  "flush_env \<Rightarrow> addr option \<Rightarrow> addr \<Rightarrow> int \<Rightarrow> 'c disp \<Rightarrow> int \<times> 'c disp" where
  "flb_output_task_queue_enqueue env r t out d =
     (if \<not> f_queue_ok env t out
      then (-1, case r of None \<Rightarrow> d | Some r \<Rightarrow> eng_upd (flb_task_retry_destroy r) d)
      else (0, queue_upd out (\<lambda>q. q\<lparr>q_pending := mk_list_add \<lparr>qe_task = t, qe_retry = r\<rparr> (q_pending q)\<rparr>) d))"

text \<open>The user added for the time in the queue is not taken back when the entry cannot be allocated.\<close>

definition flb_output_task_singleplex_enqueue ::
  "flush_env \<Rightarrow> addr option \<Rightarrow> addr \<Rightarrow> int \<Rightarrow> 'c disp \<Rightarrow> int \<times> 'c disp" where
  "flb_output_task_singleplex_enqueue env r t out d =
     (case flb_output_task_queue_enqueue env r t out (eng_upd (flb_task_users_inc t) d) of (ret, d1) \<Rightarrow>
        if ret = -1 then (-1, d1)
        else if q_in_progress (d_queues d1 out) = [] then flb_output_task_queue_flush_one env out d1
        else (0, d1))"

definition flb_task_queue_destroy :: "int \<Rightarrow> 'c disp \<Rightarrow> 'c disp" where
  "flb_task_queue_destroy out d = queue_upd out (\<lambda>q. \<lparr>q_pending = [], q_in_progress = []\<rparr>) d"

section \<open>A flush, from its start to its return\<close>

definition FLB_ENGINE_TASK :: "64 word" where "FLB_ENGINE_TASK = 2"

definition FLB_BITS_U64_SET :: "64 word \<Rightarrow> 32 word \<Rightarrow> 64 word" where
  "FLB_BITS_U64_SET a b = push_bit 32 a OR ucast b"

definition FLB_BITS_U64_HIGH :: "64 word \<Rightarrow> 64 word" where
  "FLB_BITS_U64_HIGH val = drop_bit 32 val"

definition FLB_BITS_U64_LOW :: "64 word \<Rightarrow> 32 word" where
  "FLB_BITS_U64_LOW val = ucast (val AND 0xffffffff)"

definition out_event :: "int \<Rightarrow> nat \<Rightarrow> int \<Rightarrow> 64 word" where
  "out_event ret task_id out = FLB_BITS_U64_SET FLB_ENGINE_TASK (FLB_TASK_SET (of_int ret) (of_nat task_id) (of_int out))"

definition flb_output_return :: "bool \<Rightarrow> int \<Rightarrow> flb_output_flush \<Rightarrow> 'c disp \<Rightarrow> 'c disp" where
  "flb_output_return pipe_ok ret f d =
     (let d1 = eng_upd (flb_task_deactivate_route (fl_task f) (fl_out f)) d;
          val = out_event ret (tk_id (tk (d_eng d1) (fl_task f))) (fl_out f);
          d2 = (if pipe_ok then d1\<lparr>d_events := d_events d1 @ [val]\<rparr> else d1)
      in d2\<lparr>d_flushes := remove1 f (d_flushes d2)\<rparr>)"

text \<open>The start of the coroutine: an empty chunk of logs is delivered without calling the plugin, a
  dropped route is an error, otherwise the route is active while the callback of the plugin runs.\<close>

definition output_pre_cb_flush :: "bool \<Rightarrow> flb_output_flush \<Rightarrow> 'c disp \<Rightarrow> 'c disp" where
  "output_pre_cb_flush pipe_ok f d =
     (let t = fl_task f; s = d_eng d in
      if ic_event_type (ic s (tk_ic (tk s t))) = FLB_INPUT_LOGS \<and> tk_records (tk s t) = 0
      then flb_output_return pipe_ok FLB_OK f d
      else if flb_task_get_route_status (tk s t) (fl_out f) = FLB_TASK_ROUTE_DROPPED
      then flb_output_return pipe_ok FLB_ERROR f d
      else let d1 = eng_upd (flb_task_activate_route t (fl_out f)) d
           in d1\<lparr>d_flushes := map (\<lambda>g. if g = f then g\<lparr>fl_running := True\<rparr> else g) (d_flushes d1)\<rparr>)"

section \<open>The equations of the code\<close>

lemma flush_next_unfold:
  "flb_output_task_singleplex_flush_next env out d =
     (let d1 = queue_upd out queue_ended d in
      if pending_of d1 out = [] then (0, d1) else flb_output_task_queue_flush_one env out d1)"
  by (subst flb_output_task_singleplex_flush_next.simps)
    (auto simp: Let_def flb_output_task_queue_flush_one_def flb_output_task_flush_def split: list.splits prod.splits)

section \<open>One task at a time\<close>

lemma queue_ended_pending [simp]: "q_pending (queue_ended q) = q_pending q"
  by (simp add: queue_ended_def split: list.split)

text \<open>The flushes and events of an output that have not been handled yet, and what a synchronous output
  promises: at most one entry runs, it is the one flush of the output, and entries wait only while one
  runs.\<close>

definition out_flushes :: "'c disp \<Rightarrow> int \<Rightarrow> addr list" where
  "out_flushes d out = map fl_task (filter (\<lambda>f. fl_out f = out) (d_flushes d))"

definition singleplex_ok :: "'c disp \<Rightarrow> int \<Rightarrow> bool" where
  "singleplex_ok d out \<longleftrightarrow>
     out_flushes d out = map qe_task (q_in_progress (d_queues d out)) \<and>
     length (q_in_progress (d_queues d out)) \<le> 1 \<and>
     (q_in_progress (d_queues d out) = [] \<longrightarrow> pending_of d out = [])"

definition pipes_ok :: "flush_env \<Rightarrow> int \<Rightarrow> bool" where
  "pipes_ok env out \<longleftrightarrow> (\<forall>t. f_pool_ok env t out \<and> f_pipe_ok env t out)"

lemma flush_try_cases:
  assumes "pipes_ok env out" "flush_try env t out d = (ret, nx, d')"
  shows "\<not> nx" "d_queues d' = d_queues d" "ret = 0 \<or> ret = -1"
    "ret = 0 \<Longrightarrow> out_flushes d' out = out_flushes d out @ [t]" "ret = -1 \<Longrightarrow> d' = d"
  using assms by (auto simp: flush_try_def pipes_ok_def Let_def eng_upd_def out_flushes_def split: if_splits)

lemma flushes_frame [simp]:
  "d_flushes (eng_upd f d) = d_flushes d" "d_flushes (queue_upd out g d) = d_flushes d"
  "d_flushes (queue_start out e d) = d_flushes d" "d_flushes (retry_drop e d) = d_flushes d"
  "d_events (eng_upd f d) = d_events d" "d_events (queue_upd out g d) = d_events d"
  "d_events (queue_start out e d) = d_events d" "d_events (retry_drop e d) = d_events d"
  "d_metrics (eng_upd f d) = d_metrics d" "d_metrics (queue_upd out g d) = d_metrics d"
  "d_metrics (queue_start out e d) = d_metrics d" "d_metrics (retry_drop e d) = d_metrics d"
  by (simp_all add: eng_upd_def queue_upd_def queue_start_def retry_drop_def split: option.split)

lemma queues_frame [simp]:
  "d_queues (eng_upd f d) = d_queues d" "d_queues (retry_drop e d) = d_queues d"
  "d_queues (queue_upd out g d) = (d_queues d)(out := g (d_queues d out))"
  "d_queues (queue_start out e d) = (d_queues d)(out := \<lparr>q_pending = tl (pending_of d out),
     q_in_progress = q_in_progress (d_queues d out) @ [e]\<rparr>)"
  by (simp_all add: eng_upd_def queue_upd_def queue_start_def retry_drop_def mk_list_add_def split: option.split)

lemma out_flushes_frame [simp]:
  "out_flushes (eng_upd f d) out = out_flushes d out" "out_flushes (queue_upd o' g d) out = out_flushes d out"
  "out_flushes (queue_start o' e d) out = out_flushes d out" "out_flushes (retry_drop e d) out = out_flushes d out"
  by (simp_all add: out_flushes_def)

lemma flush_next_singleplex:
  assumes "pipes_ok env out" "out_flushes d out = []" "length (q_in_progress (d_queues d out)) \<le> 1"
  shows "singleplex_ok (snd (flb_output_task_singleplex_flush_next env out d)) out"
  using assms
proof (induction env out d rule: flb_output_task_singleplex_flush_next.induct)
  case (1 env out d)
  define d1 where "d1 = queue_upd out queue_ended d"
  have ip: "q_in_progress (d_queues d1 out) = []"
    using 1(5) by (cases "q_in_progress (d_queues d out)") (simp_all add: d1_def queue_ended_def)
  show ?case
  proof (cases "pending_of d1 out")
    case Nil
    then have "flb_output_task_singleplex_flush_next env out d = (0, d1)"
      by (simp add: flb_output_task_singleplex_flush_next.simps [of env out d] d1_def)
    then show ?thesis using ip Nil 1(4) by (simp add: singleplex_ok_def d1_def)
  next
    case (Cons e es)
    obtain ret nx d2 where ft: "flush_try env (qe_task e) out (queue_start out e d1) = (ret, nx, d2)"
      by (metis prod_cases3)
    note f = flush_try_cases [OF 1(3) ft]
    have un: "flb_output_task_singleplex_flush_next env out d =
        (if ret = -1 then (-1, snd (flb_output_task_singleplex_flush_next env out (retry_drop e d2))) else (ret, d2))"
      using Cons f(1) by (simp add: flb_output_task_singleplex_flush_next.simps [of env out d] Let_def d1_def [symmetric] ft)
    have q2: "q_in_progress (d_queues d2 out) = [e]" "pending_of d2 out = es"
      using f(2) ip Cons by simp_all
    show ?thesis
    proof (cases "ret = -1")
      case True
      have fl: "out_flushes (retry_drop e d2) out = []" using f(5) [OF True] 1(4) by (simp add: d1_def)
      have "singleplex_ok (snd (flb_output_task_singleplex_flush_next env out (retry_drop e d2))) out"
        by (rule 1(2) [OF d1_def Cons ft [symmetric] refl _ True 1(3) fl]) (use f(1) q2 in auto)
      then show ?thesis using un True by simp
    next
      case False
      then have "out_flushes d2 out = [qe_task e]" using f(3,4) 1(4) by (simp add: d1_def)
      then show ?thesis using un False q2 by (simp add: singleplex_ok_def)
    qed
  qed
qed

lemma flush_one_eq:
  assumes "q_in_progress (d_queues d out) = []" "pending_of d out \<noteq> []"
  shows "flb_output_task_queue_flush_one env out d = flb_output_task_singleplex_flush_next env out d"
proof -
  have "queue_upd out queue_ended d = d"
    using assms(1) by (simp add: queue_upd_def queue_ended_def)
  then show ?thesis using assms(2) by (simp add: flush_next_unfold Let_def)
qed

text \<open>C34: a synchronous output runs one task at a time, as long as the writes to its pipe or workers succeed
  (creating a flush may fail). Enqueuing a task starts it if nothing runs and otherwise leaves it waiting;
  when the running task has ended, the next one that can be flushed is started; and tasks wait
  only while one runs.\<close>

theorem singleplex_one_at_a_time:
  assumes "pipes_ok env out"
  shows "(singleplex_ok d out \<longrightarrow> singleplex_ok (snd (flb_output_task_singleplex_enqueue env r t out d)) out) \<and>
    (out_flushes d out = [] \<and> length (q_in_progress (d_queues d out)) \<le> 1 \<longrightarrow>
      singleplex_ok (snd (flb_output_task_singleplex_flush_next env out d)) out)"
proof (intro conjI impI)
  assume sp: "singleplex_ok d out"
  define d1 where "d1 = queue_upd out (\<lambda>q. q\<lparr>q_pending := mk_list_add \<lparr>qe_task = t, qe_retry = r\<rparr> (q_pending q)\<rparr>)
    (eng_upd (flb_task_users_inc t) d)"
  show "singleplex_ok (snd (flb_output_task_singleplex_enqueue env r t out d)) out"
  proof (cases "f_queue_ok env t out")
    case False
    then show ?thesis using sp
      by (auto simp: flb_output_task_singleplex_enqueue_def flb_output_task_queue_enqueue_def singleplex_ok_def split: option.splits)
  next
    case True
    then have en: "flb_output_task_singleplex_enqueue env r t out d =
        (if q_in_progress (d_queues d1 out) = [] then flb_output_task_queue_flush_one env out d1 else (0, d1))"
      by (simp add: flb_output_task_singleplex_enqueue_def flb_output_task_queue_enqueue_def d1_def)
    have d1: "q_in_progress (d_queues d1 out) = q_in_progress (d_queues d out)" "out_flushes d1 out = out_flushes d out"
      "pending_of d1 out \<noteq> []" by (simp_all add: d1_def mk_list_add_def)
    show ?thesis
    proof (cases "q_in_progress (d_queues d out) = []")
      case True
      then have "out_flushes d1 out = []" "length (q_in_progress (d_queues d1 out)) \<le> 1"
        using sp d1 by (simp_all add: singleplex_ok_def)
      from flush_next_singleplex [OF assms this] show ?thesis
        using flush_one_eq [of d1 out env] d1 True by (simp add: en)
    next
      case False
      then show ?thesis using sp d1 by (simp add: en singleplex_ok_def)
    qed
  qed
qed (use flush_next_singleplex [OF assms] in blast)


section \<open>Termination\<close>

lemma suffix_drop_trans: "ys = drop n xs \<Longrightarrow> zs = drop m ys \<Longrightarrow> \<exists>k. zs = drop k xs"
  by (auto simp: add.commute)

lemma flush_next_suffix:
  "\<exists>n. pending_of (snd (flb_output_task_singleplex_flush_next env out d)) out = drop n (pending_of d out)"
proof (induction env out d rule: flb_output_task_singleplex_flush_next.induct)
  case (1 env out d)
  define d1 where "d1 = queue_upd out queue_ended d"
  show ?case
  proof (cases "pending_of d out")
    case Nil
    then show ?thesis by (simp add: flb_output_task_singleplex_flush_next.simps [of env out d] Let_def)
  next
    case (Cons e es)
    have p1: "pending_of d1 out = e # es" using Cons by (simp add: d1_def)
    obtain ret nx d2 where ft: "flush_try env (qe_task e) out (queue_start out e d1) = (ret, nx, d2)"
      by (metis prod_cases3)
    have p2: "pending_of d2 out = drop 1 (pending_of d out)"
      using flush_try_queues [OF ft [symmetric]] p1 Cons by simp
    define d3 where "d3 = (if nx \<and> is_sync d2 out then snd (flb_output_task_singleplex_flush_next env out d2) else d2)"
    have "\<exists>n. pending_of d3 out = drop n (pending_of d2 out)"
    proof (cases "nx \<and> is_sync d2 out")
      case True
      then show ?thesis using 1(1) [OF d1_def p1 ft [symmetric] refl True] by (simp add: d3_def)
    next
      case False
      then have "d3 = d2" by (auto simp: d3_def)
      then show ?thesis by (intro exI [of _ 0]) simp
    qed
    then obtain k where p3: "pending_of d3 out = drop k (pending_of d out)"
      using suffix_drop_trans [OF p2] by blast
    have un: "flb_output_task_singleplex_flush_next env out d =
        (if ret = -1 then (-1, snd (flb_output_task_singleplex_flush_next env out (retry_drop e d3))) else (ret, d3))"
      using p1 by (simp add: flb_output_task_singleplex_flush_next.simps [of env out d] Let_def d1_def [symmetric] ft
          d3_def [symmetric])
    show ?thesis
    proof (cases "ret = -1")
      case True
      obtain n where "pending_of (snd (flb_output_task_singleplex_flush_next env out (retry_drop e d3))) out =
          drop n (pending_of (retry_drop e d3) out)"
        using 1(2) [OF d1_def p1 ft [symmetric] refl d3_def True] by blast
      then show ?thesis using un True p3 by auto
    next
      case False
      then show ?thesis using un p3 by auto
    qed
  qed
qed

text \<open>The three functions that flush a task, start the first waiting one and start the next one call
  each other; the recursion ends, because every round takes one entry off the waiting list: the equations
  of the code hold for total functions, and what is left waiting afterwards is an end of what waited before.\<close>

theorem singleplex_flush_terminates:
  "flb_output_task_singleplex_flush_next env out d =
     (let d1 = queue_upd out queue_ended d in
      if pending_of d1 out = [] then (0, d1) else flb_output_task_queue_flush_one env out d1) \<and>
   flb_output_task_queue_flush_one env out d =
     (case pending_of d out of
        [] \<Rightarrow> (-1, d)
      | e # es \<Rightarrow>
          (case flb_output_task_flush env (qe_task e) out (queue_start out e d) of (ret, d1) \<Rightarrow>
             if ret = -1 then (-1, snd (flb_output_task_singleplex_flush_next env out (retry_drop e d1)))
             else (ret, d1))) \<and>
   (\<exists>n. pending_of (snd (flb_output_task_singleplex_flush_next env out d)) out = drop n (pending_of d out))"
  by (intro conjI flush_next_unfold flush_next_suffix flb_output_task_queue_flush_one_def)

section \<open>When a write fails\<close>

lemma flush_next_sent:
  assumes "pending_of d out = e # es" "\<not> f_threaded env out" "f_create_ok env (qe_task e) out" "f_pipe_ok env (qe_task e) out"
  obtains d' where "flb_output_task_singleplex_flush_next env out d = (0, d')"
    "out_flushes d' out = out_flushes d out @ [qe_task e]" "pending_of d' out = es"
proof -
  define d1 where "d1 = queue_upd out queue_ended d"
  have p1: "pending_of d1 out = e # es" using assms(1) by (simp add: d1_def)
  obtain ret nx d2 where ft: "flush_try env (qe_task e) out (queue_start out e d1) = (ret, nx, d2)" by (metis prod_cases3)
  have f: "ret = 0" "\<not> nx" "d_queues d2 = d_queues (queue_start out e d1)" "out_flushes d2 out = out_flushes d1 out @ [qe_task e]"
    using ft assms(2-4) by (auto simp: flush_try_def Let_def eng_upd_def out_flushes_def)
  have "flb_output_task_singleplex_flush_next env out d = (0, d2)"
    using p1 f(1,2) by (simp add: flb_output_task_singleplex_flush_next.simps [of env out d] Let_def d1_def [symmetric] ft)
  then show thesis using that [of d2] f assms(1) by (simp add: d1_def)
qed

text \<open>A failed write to the pipe breaks the promise of one task at a time. If the first of three waiting
  tasks of a synchronous output cannot be written to the pipe, \<^verbatim>\<open>flb_output_task_flush\<close> starts the
  next one and fails, and then \<^verbatim>\<open>flb_output_task_queue_flush_one\<close> takes the entry of the task that
  was just started off the running list and starts the third: two tasks run.\<close>

theorem singleplex_pipe_failure_runs_two:
  assumes "pending_of d out = [e1, e2, e3]" "q_in_progress (d_queues d out) = []" "\<not> f_threaded env out"
    "\<And>t. f_create_ok env t out" "\<And>t. f_pipe_ok env t out \<longleftrightarrow> t \<noteq> qe_task e1"
    "qe_task e2 \<noteq> qe_task e1" "qe_task e3 \<noteq> qe_task e1" "is_sync d out"
  shows "out_flushes (snd (flb_output_task_singleplex_flush_next env out d)) out =
    out_flushes d out @ [qe_task e2, qe_task e3]"
proof -
  define d1 where "d1 = queue_upd out queue_ended d"
  obtain ret nx d2 where ft: "flush_try env (qe_task e1) out (queue_start out e1 d1) = (ret, nx, d2)" by (metis prod_cases3)
  have f: "ret = -1" "nx" "d_queues d2 = d_queues (queue_start out e1 d1)" "out_flushes d2 out = out_flushes d out"
    "e_outputs (d_eng d2) = e_outputs (d_eng d)"
    using ft assms(3-5) by (auto simp: flush_try_def Let_def eng_upd_def out_flushes_def d1_def queue_start_def
        queue_upd_def flb_task_users_inc_def)
  have p1: "pending_of d1 out = [e1, e2, e3]" using assms(1) by (simp add: d1_def)
  have "pending_of d2 out = [e2, e3]" using f(3) assms(1) by (simp add: d1_def)
  then obtain d3 where d3: "flb_output_task_singleplex_flush_next env out d2 = (0, d3)"
    "out_flushes d3 out = out_flushes d out @ [qe_task e2]" "pending_of d3 out = [e3]"
    using flush_next_sent [of d2 out e2 "[e3]" env] assms(3-7) f(4) by auto
  have sync: "is_sync d2 out" using assms(8) f(5) by (simp add: is_sync_def out_ins_def)
  have un: "flb_output_task_singleplex_flush_next env out d =
      (-1, snd (flb_output_task_singleplex_flush_next env out (retry_drop e1 d3)))"
    using p1 f(1,2) sync
    by (simp add: flb_output_task_singleplex_flush_next.simps [of env out d] Let_def d1_def [symmetric] ft d3(1))
  have "pending_of (retry_drop e1 d3) out = [e3]" "f_pipe_ok env (qe_task e3) out" using d3(3) assms(5,7) by simp_all
  from flush_next_sent [OF this(1) assms(3,4) this(2)] obtain d4 where "flb_output_task_singleplex_flush_next env out (retry_drop e1 d3) = (0, d4)"
    "out_flushes d4 out = out_flushes (retry_drop e1 d3) out @ [qe_task e3]"
    by blast
  then show ?thesis by (simp add: un d3(2))
qed

section \<open>An output with a queue\<close>

definition demo_disp :: "flb_task_enqueued list \<Rightarrow> demo_chunk disp" where
  "demo_disp es = \<lparr>d_eng = demo_tasks\<lparr>e_outputs := [(demo_out 100)\<lparr>o_flags := FLB_OUTPUT_SYNCHRONOUS\<rparr>]\<rparr>,
     d_queues = (\<lambda>_. \<lparr>q_pending = es, q_in_progress = []\<rparr>), d_flushes = [], d_events = [],
     d_metrics = (\<lambda>_. \<lparr>mt_proc_records = 0, mt_errors = 0, mt_retries = 0, mt_retries_failed = 0,
       mt_dropped_records = 0, mt_retried_records = 0\<rparr>)\<rparr>"

definition demo_flush_env :: "addr \<Rightarrow> flush_env" where
  "demo_flush_env bad = \<lparr>f_threaded = (\<lambda>_. False), f_pool_ok = (\<lambda>_ _. True), f_create_ok = (\<lambda>_ _. True),
     f_pipe_ok = (\<lambda>t _. t \<noteq> bad), f_queue_ok = (\<lambda>_ _. True)\<rparr>"

theorem singleplex_one_at_a_time_witness:
  "singleplex_ok (snd (flb_output_task_singleplex_enqueue ((demo_flush_env 0)\<lparr>f_pipe_ok := \<lambda>_ _. True\<rparr>) None 7 0 (demo_disp []))) 0"
proof -
  have "pipes_ok ((demo_flush_env 0)\<lparr>f_pipe_ok := \<lambda>_ _. True\<rparr>) 0" by (simp add: pipes_ok_def demo_flush_env_def)
  from singleplex_one_at_a_time [OF this, of "demo_disp []" None 7] show ?thesis
    by (simp add: singleplex_ok_def demo_disp_def out_flushes_def)
qed

theorem singleplex_pipe_failure_runs_two_witness:
  "out_flushes (snd (flb_output_task_singleplex_flush_next (demo_flush_env 4) 0
     (demo_disp [\<lparr>qe_task = 4, qe_retry = None\<rparr>, \<lparr>qe_task = 2, qe_retry = None\<rparr>, \<lparr>qe_task = 3, qe_retry = None\<rparr>]))) 0 = [2, 3]"
proof -
  define d where "d = demo_disp [\<lparr>qe_task = 4, qe_retry = None\<rparr>, \<lparr>qe_task = 2, qe_retry = None\<rparr>, \<lparr>qe_task = 3, qe_retry = None\<rparr>]"
  have d: "pending_of d 0 = [\<lparr>qe_task = 4, qe_retry = None\<rparr>, \<lparr>qe_task = 2, qe_retry = None\<rparr>, \<lparr>qe_task = 3, qe_retry = None\<rparr>]"
    "q_in_progress (d_queues d 0) = []" "out_flushes d 0 = []"
    by (simp_all add: d_def demo_disp_def out_flushes_def)
  have "is_sync d 0" by (simp add: d_def is_sync_def demo_disp_def out_ins_def demo_out_def FLB_OUTPUT_SYNCHRONOUS_def)
  from singleplex_pipe_failure_runs_two [OF d(1,2) _ _ _ _ _ this, of "demo_flush_env 4"] show ?thesis
    by (simp add: d(3) d_def [symmetric] demo_flush_env_def)
qed

end
