(* ===== verification/Flb_Engine.thy ===== *)
theory Flb_Engine
  imports Flb_Output
begin

text \<open>
  The engine: \<^verbatim>\<open>src/flb_engine_dispatch.c\<close>, the handler of the events that outputs send
  (\<^verbatim>\<open>handle_output_event\<close> of \<^verbatim>\<open>src/flb_engine.c\<close>) and the dispatch of a timer
  that fired (\<^verbatim>\<open>flb_sched_event_handler\<close> of \<^verbatim>\<open>src/flb_scheduler.c\<close>).

  \<open>None\<close> as a result stands for a call the code does not survive, a NULL or out of range
  reference, or for a wait time the scheduler does not compute.
\<close>

definition FLB_OUT_RETRY_NONE :: int where "FLB_OUT_RETRY_NONE = 0"

section \<open>Dispatching a retry\<close>

definition flb_engine_dispatch_retry ::
  "'c cio_api \<Rightarrow> (cstr \<Rightarrow> 64 word) \<Rightarrow> sched_env \<Rightarrow> flush_env \<Rightarrow> addr \<Rightarrow> 'c disp \<Rightarrow> (int \<times> 'c disp) option" where
  "flb_engine_dispatch_retry io H e env r d =
     (let s = d_eng d; t = rt_parent (rt s r); (ret, s1) = flb_input_chunk_set_up io (tk_ic (tk s t)) s in
      if ret = -1 then
        (case flb_task_retry_reschedule io H e r s1 of
           None \<Rightarrow> None
         | Some (ret, s2) \<Rightarrow> Some (if ret = -1 then -1 else 0, d\<lparr>d_eng := s2\<rparr>))
      else
        (case flb_input_chunk_flush io (tk_ic (tk s1 t)) s1 of
           ((None, n), s2) \<Rightarrow> Some (-1, d\<lparr>d_eng := flb_task_retry_destroy r s2\<rparr>)
         | ((Some buf, n), s2) \<Rightarrow>
             (let d2 = d\<lparr>d_eng := s2\<rparr>; out = rt_o_ins (rt s2 r) in
              if is_sync d2 out then
                (case flb_output_task_singleplex_enqueue env (Some r) t out d2 of
                   (ret, d3) \<Rightarrow> Some (if ret = -1 then -1 else 0, d3))
              else
                (case flb_output_task_flush env t out d2 of
                   (ret, d3) \<Rightarrow> if ret = -1 then Some (-1, eng_upd (flb_task_retry_destroy r) d3)
                                else Some (0, d3)))))"

section \<open>Starting the tasks of an input\<close>

text \<open>\<open>tests\<close> are the outputs in test mode, whose formatter is called instead of a flush;
  \<open>workers\<close> counts the coroutines the workers of an output run.\<close>

definition flb_output_coros_size :: "(int \<Rightarrow> nat) \<Rightarrow> flush_env \<Rightarrow> 'c disp \<Rightarrow> int \<Rightarrow> nat" where
  "flb_output_coros_size workers env d out =
     (if f_threaded env out then workers out else length (filter (\<lambda>f. fl_out f = out) (d_flushes d)))"

fun start_routes ::
  "(int \<Rightarrow> bool) \<Rightarrow> (int \<Rightarrow> nat) \<Rightarrow> flush_env \<Rightarrow> bool \<Rightarrow> addr \<Rightarrow> flb_task_route list \<Rightarrow> nat \<Rightarrow> 'c disp \<Rightarrow> nat \<times> 'c disp" where
  "start_routes tests workers env retrying t [] hits d = (hits, d)"
| "start_routes tests workers env retrying t (route # rs) hits d =
     (let out = tr_out route in
      if tests out then
        start_routes tests workers env retrying t rs hits
          (eng_upd (tk_upd t (\<lambda>x. x\<lparr>tk_routes := remove1 route (tk_routes x)\<rparr>)) d)
      else if o_flags (out_ins (d_eng d) out) AND FLB_OUTPUT_NO_MULTIPLEX \<noteq> 0 \<and>
              (flb_output_coros_size workers env d out > 0 \<or> retrying)
      then start_routes tests workers env retrying t rs hits d
      else start_routes tests workers env retrying t rs (hits + 1)
             (if is_sync d out then snd (flb_output_task_singleplex_enqueue env None t out d)
              else snd (flb_output_task_flush env t out d)))"

fun start_tasks ::
  "(int \<Rightarrow> bool) \<Rightarrow> (int \<Rightarrow> nat) \<Rightarrow> flush_env \<Rightarrow> addr list \<Rightarrow> nat \<Rightarrow> 'c disp \<Rightarrow> 'c disp" where
  "start_tasks tests workers env [] retry d = d"
| "start_tasks tests workers env (t # ts) retry d =
     (let retry = (if tk_retries (tk (d_eng d) t) \<noteq> [] then retry + 1 else retry) in
      if tk_status (tk (d_eng d) t) \<noteq> FLB_TASK_NEW then start_tasks tests workers env ts retry d
      else let d1 = eng_upd (tk_upd t (\<lambda>x. x\<lparr>tk_status := FLB_TASK_RUNNING\<rparr>)) d;
               (hits, d2) = start_routes tests workers env (retry > 0) t (tk_routes (tk (d_eng d1) t)) 0 d1;
               d3 = (if hits = 0 then eng_upd (tk_upd t (\<lambda>x. x\<lparr>tk_status := FLB_TASK_NEW\<rparr>)) d2 else d2)
           in start_tasks tests workers env ts retry d3)"

definition tasks_start :: "(int \<Rightarrow> bool) \<Rightarrow> (int \<Rightarrow> nat) \<Rightarrow> flush_env \<Rightarrow> nat \<Rightarrow> 'c disp \<Rightarrow> 'c disp" where
  "tasks_start tests workers env n d = start_tasks tests workers env (in_tasks (e_inputs (d_eng d) ! n)) 0 d"

section \<open>Dispatching an input\<close>

text \<open>The outcomes of the allocations of \<^verbatim>\<open>flb_task_create\<close>, for each chunk.\<close>

record create_env =
  c_task_ok :: "addr \<Rightarrow> bool"
  c_evc_ok :: "addr \<Rightarrow> bool"
  c_route_ok :: "addr \<Rightarrow> int \<Rightarrow> bool"
  c_junk :: "addr \<Rightarrow> int"

definition dispatch_chunk ::
  "'c cio_api \<Rightarrow> (cstr \<Rightarrow> 64 word) \<Rightarrow> create_env \<Rightarrow> 64 word \<Rightarrow> addr \<Rightarrow> 'c flb_engine \<Rightarrow> 'c flb_engine" where
  "dispatch_chunk io H ce ref_id a s =
     (case flb_input_chunk_flush io a s of ((buf, sz), s1) \<Rightarrow>
        let unlock = (\<lambda>s. snd (flb_input_chunk_release_lock a s)) in
        if sz = 0 \<or> buf = None then unlock s1
        else case flb_input_chunk_get_tag io (ic_chunk (ic s1 a)) of
          (ret, None) \<Rightarrow> unlock s1
        | (ret, Some tag) \<Rightarrow>
            if ret = -1 \<or> tag = [] then unlock s1
            else case flb_task_create io H (c_task_ok ce a) (c_evc_ok ce a) (c_route_ok ce a) (c_junk ce a) ref_id
                        (ic_in (ic s1 a)) a s1 of
              ((Some t, err), s2) \<Rightarrow> s2
            | ((None, err), s2) \<Rightarrow>
                if err then snd (flb_input_chunk_down io a (unlock s2)) else s2)"

fun dispatch_chunks ::
  "'c cio_api \<Rightarrow> (cstr \<Rightarrow> 64 word) \<Rightarrow> create_env \<Rightarrow> 64 word \<Rightarrow> addr list \<Rightarrow> 'c flb_engine \<Rightarrow> 'c flb_engine" where
  "dispatch_chunks io H ce ref_id [] s = s"
| "dispatch_chunks io H ce ref_id (a # as) s =
     (if ic_busy (ic s a) then dispatch_chunks io H ce ref_id as s
      else if flb_task_map_get_task_id s = -1 then s
      else dispatch_chunks io H ce ref_id as (dispatch_chunk io H ce ref_id a s))"

definition cleanup_test_tasks ::
  "'c cio_api \<Rightarrow> (cstr \<Rightarrow> 64 word) \<Rightarrow> addr list \<Rightarrow> 'c flb_engine \<Rightarrow> 'c flb_engine" where
  "cleanup_test_tasks io H ts s =
     fold (\<lambda>t s. if tk_users (tk s t) = 0 \<and> tk_retries (tk s t) = [] \<and> tk_routes (tk s t) = []
                 then flb_task_destroy io H t True s else s) ts s"

definition flb_engine_dispatch ::
  "'c cio_api \<Rightarrow> (cstr \<Rightarrow> 64 word) \<Rightarrow> create_env \<Rightarrow> (int \<Rightarrow> bool) \<Rightarrow> (int \<Rightarrow> nat) \<Rightarrow> flush_env \<Rightarrow> 64 word \<Rightarrow> nat
   \<Rightarrow> 'c disp \<Rightarrow> 'c disp" where
  "flb_engine_dispatch io H ce tests workers env ref_id n d =
     (let d1 = eng_upd (\<lambda>s. dispatch_chunks io H ce ref_id (in_chunks (e_inputs s ! n)) s) d;
          d2 = tasks_start tests workers env n d1
      in eng_upd (\<lambda>s. cleanup_test_tasks io H (in_tasks (e_inputs s ! n)) s) d2)"

section \<open>Events from outputs\<close>

definition metrics_upd :: "int \<Rightarrow> (out_metrics \<Rightarrow> out_metrics) \<Rightarrow> 'c disp \<Rightarrow> 'c disp" where
  "metrics_upd out f d = d\<lparr>d_metrics := (d_metrics d)(out := f (d_metrics d out))\<rparr>"

text \<open>The end of a flush without a retry: the retry of the output, if any, is dropped and the task loses
  the user.\<close>

definition task_done ::
  "'c cio_api \<Rightarrow> (cstr \<Rightarrow> 64 word) \<Rightarrow> addr \<Rightarrow> int \<Rightarrow> 'c flb_engine \<Rightarrow> 'c flb_engine" where
  "task_done io H t out s = flb_task_users_dec io H t True (snd (flb_task_retry_clean t out s))"

definition handle_retry ::
  "'c cio_api \<Rightarrow> (cstr \<Rightarrow> 64 word) \<Rightarrow> bool \<Rightarrow> sched_env \<Rightarrow> addr \<Rightarrow> out_state \<Rightarrow> 'c disp \<Rightarrow> 'c disp option" where
  "handle_retry io H mem_ok e t ins d =
     (let out = o_id ins; records = tk_records (tk (d_eng d) t);
          drop = metrics_upd out (\<lambda>m. m\<lparr>mt_dropped_records := mt_dropped_records m + records\<rparr>)
      in if o_retry_limit ins = FLB_OUT_RETRY_NONE then Some (drop (eng_upd (task_done io H t out) d))
         else case flb_task_retry_create io mem_ok t ins (d_eng d) of
           (None, s1) \<Rightarrow>
             Some (metrics_upd out (\<lambda>m. m\<lparr>mt_retries_failed := mt_retries_failed m + 1\<rparr>)
               (drop (d\<lparr>d_eng := task_done io H t out s1\<rparr>)))
         | (Some r, s1) \<Rightarrow>
             (let s2 = flb_task_users_dec io H t False s1 in
              case flb_sched_request_create (x_timer_ok e) (x_req_ok e) (x_rand e) (x_now e) (x_fd e)
                     (x_shutting_down e) (x_base e) (x_cap e) (e_sched s2) r (nat (rt_attempts (rt s2 r))) of
                None \<Rightarrow> None
              | Some (seconds, sc) \<Rightarrow>
                  (let s3 = s2\<lparr>e_sched := sc\<rparr> in
                   if seconds = -1
                   then Some (d\<lparr>d_eng := flb_task_users_release io H t (flb_task_retry_destroy r s3)\<rparr>)
                   else Some (metrics_upd out (\<lambda>m. m\<lparr>mt_retries := mt_retries m + 1,
                                mt_retried_records := mt_retried_records m + records\<rparr>) (d\<lparr>d_eng := s3\<rparr>)))))"

definition handle_output_event ::
  "'c cio_api \<Rightarrow> (cstr \<Rightarrow> 64 word) \<Rightarrow> bool \<Rightarrow> sched_env \<Rightarrow> flush_env \<Rightarrow> 64 word \<Rightarrow> 'c disp \<Rightarrow> (int \<times> 'c disp) option" where
  "handle_output_event io H mem_ok e env val d =
     (let type = FLB_BITS_U64_HIGH val; key = FLB_BITS_U64_LOW val in
      if type \<noteq> FLB_ENGINE_TASK then Some (-1, d)
      else let ret = uint (FLB_TASK_RET key); task_id = unat (FLB_TASK_ID key); out = uint (FLB_TASK_OUT key) in
        if \<not> task_id < length (e_tasks_map (d_eng d)) then None
        else case e_tasks_map (d_eng d) ! task_id of None \<Rightarrow> None | Some t \<Rightarrow>
        case List.find (\<lambda>x. o_id x = out) (e_outputs (d_eng d)) of None \<Rightarrow> None | Some ins \<Rightarrow>
          (let d1 = (if is_sync d out \<and> (ret = FLB_OK \<or> ret = FLB_RETRY \<or> ret = FLB_ERROR)
                     then snd (flb_output_task_singleplex_flush_next env out d) else d);
               records = tk_records (tk (d_eng d1) t)
           in if ret = FLB_OK then
                Some (0, metrics_upd out (\<lambda>m. m\<lparr>mt_proc_records := mt_proc_records m + records\<rparr>)
                           (eng_upd (task_done io H t out) d1))
              else if ret = FLB_RETRY then map_option (Pair 0) (handle_retry io H mem_ok e t ins d1)
              else if ret = FLB_ERROR then
                Some (0, metrics_upd out (\<lambda>m. m\<lparr>mt_errors := mt_errors m + 1,
                           mt_dropped_records := mt_dropped_records m + records\<rparr>)
                           (eng_upd (task_done io H t out) d1))
              else Some (0, d1)))"

section \<open>A timer fires\<close>

text \<open>A request dispatches its retry and is destroyed when that succeeds. \<open>cb\<close> is the callback of a
  timer.\<close>

definition flb_sched_event_handler ::
  "'c cio_api \<Rightarrow> (cstr \<Rightarrow> 64 word) \<Rightarrow> sched_env \<Rightarrow> flush_env \<Rightarrow> (nat \<Rightarrow> tdata \<Rightarrow> 'c disp \<Rightarrow> 'c disp) \<Rightarrow> addr \<Rightarrow> 'c disp
   \<Rightarrow> (int \<times> 'c disp) option" where
  "flb_sched_event_handler io H e env cb tm_a d =
     (let timer = tm (e_sched (d_eng d)) tm_a in
      if \<not> t_active timer then Some (0, d)
      else if t_type timer = FLB_SCHED_TIMER_REQUEST then
        (case t_data timer of
           TRequest req \<Rightarrow>
             (case flb_engine_dispatch_retry io H e env (r_data (rq (e_sched (d_eng d)) req)) d of
                None \<Rightarrow> None
              | Some (ret, d1) \<Rightarrow>
                  Some (0, if ret = 0 then eng_upd (\<lambda>s. s\<lparr>e_sched := flb_sched_request_destroy req (e_sched s)\<rparr>) d1 else d1))
         | _ \<Rightarrow> None)
      else if t_type timer = FLB_SCHED_TIMER_FRAME then
        Some (0, eng_upd (\<lambda>s. s\<lparr>e_sched := snd (schedule_request_promote (x_now e) (x_fds e) (e_sched s))\<rparr>) d)
      else if t_type timer = FLB_SCHED_TIMER_CB_ONESHOT then
        (let d1 = eng_upd (\<lambda>s. s\<lparr>e_sched := flb_sched_timer_cb_disable tm_a (e_sched s)\<rparr>) d;
             d2 = cb (t_cb timer) (t_data timer) d1
         in Some (0, eng_upd (\<lambda>s. s\<lparr>e_sched := flb_sched_timer_cb_destroy tm_a (e_sched s)\<rparr>) d2))
      else if t_type timer = FLB_SCHED_TIMER_CB_PERM then Some (0, cb (t_cb timer) (t_data timer) d)
      else Some (0, d))"

end
