(* ===== verification/Flb_Engine_Inv.thy ===== *)
theory Flb_Engine_Inv
  imports Flb_Engine
begin

text \<open>
  The invariant of the engine state: what tasks, retries, chunks, ids, inputs and the requests of the
  scheduler keep of each other, and that the operations on them keep it. It is the part of the
  argument that does not concern outputs; the next theory adds what flushes, queues and events refer to.
\<close>

section \<open>The invariant of the engine\<close>

abbreviation live :: "'c flb_engine \<Rightarrow> addr \<Rightarrow> bool" where
  "live s t \<equiv> t \<in> dom (e_task_heap s)"

definition out_ids :: "'c flb_engine \<Rightarrow> int set" where
  "out_ids s = o_id ` set (e_outputs s)"

definition outs_ok :: "'c flb_engine \<Rightarrow> bool" where
  "outs_ok s \<longleftrightarrow> distinct (map o_id (e_outputs s)) \<and> (\<forall>i\<in>out_ids s. 0 \<le> i \<and> i < 2 ^ 14)"

text \<open>A task is linked with its input and its chunk, which is busy and refers to it; its retries are
  for outputs that exist.\<close>

definition task_ok :: "'c flb_engine \<Rightarrow> addr \<Rightarrow> bool" where
  "task_ok s t \<longleftrightarrow>
     task_linked s t \<and> ic_task (ic s (tk_ic (tk s t))) = Some t \<and> ic_busy (ic s (tk_ic (tk s t))) \<and>
     (\<forall>r\<in>set (tk_retries (tk s t)). rt_o_ins (rt s r) \<in> out_ids s)"

definition lists_ok :: "'c flb_engine \<Rightarrow> bool" where
  "lists_ok s \<longleftrightarrow> (\<forall>n<length (e_inputs s).
     distinct (in_tasks (e_inputs s ! n)) \<and> (\<forall>t\<in>set (in_tasks (e_inputs s ! n)). live s t \<and> tk_i_ins (tk s t) = n) \<and>
     distinct (in_chunks (e_inputs s ! n)) \<and>
     (\<forall>c\<in>set (in_chunks (e_inputs s ! n)). c \<in> dom (e_chunk_heap s) \<and> ic_in (ic s c) = n) \<and>
     distinct (in_routes_direct (e_inputs s ! n)) \<and> set (in_routes_direct (e_inputs s ! n)) \<subseteq> out_ids s) \<and>
   (\<forall>c\<in>dom (e_chunk_heap s). c < e_next s)"

text \<open>A chunk refers only to a task that exists and carries it.\<close>

definition links_ok :: "'c flb_engine \<Rightarrow> bool" where
  "links_ok s \<longleftrightarrow> (\<forall>c\<in>dom (e_chunk_heap s). \<forall>t. ic_task (ic s c) = Some t \<longrightarrow> live s t \<and> tk_ic (tk s t) = c)"

text \<open>A request of the scheduler is for a retry that its task still lists. \<open>K\<close> are requests that have
  fired and are being handled: they are still in the scheduler.\<close>

definition requests_ok :: "addr multiset \<Rightarrow> 'c flb_engine \<Rightarrow> bool" where
  "requests_ok K s \<longleftrightarrow> sched_inv (e_sched s) \<and>
     (\<forall>r. r \<in># pending (e_sched s) \<longrightarrow> live s (rt_parent (rt s r)) \<and> r \<in> set (tk_retries (tk s (rt_parent (rt s r)))) \<and>
        count (pending (e_sched s)) r \<le> 1 + count K r)"

definition eng_inv :: "addr multiset \<Rightarrow> 'c flb_engine \<Rightarrow> bool" where
  "eng_inv K s \<longleftrightarrow> task_ids_ok s \<and> outs_ok s \<and> (\<forall>t. live s t \<longrightarrow> task_ok s t) \<and> lists_ok s \<and> requests_ok K s \<and> links_ok s"

lemma eng_invD:
  assumes "eng_inv K s"
  shows "task_ids_ok s" "outs_ok s" "live s t \<Longrightarrow> task_ok s t" "lists_ok s" "requests_ok K s" "sched_inv (e_sched s)"
    "live s t \<Longrightarrow> task_linked s t" "live s t \<Longrightarrow> task_retries_ok s t" "links_ok s"
  using assms by (auto simp: eng_inv_def requests_ok_def task_ok_def task_linked_def)

text \<open>What the invariant reads. Users, routes, status and records of a task, the contents of chunks and
  the counters of inputs and outputs are not among it.\<close>

definition same_eng :: "'c flb_engine \<Rightarrow> 'c flb_engine \<Rightarrow> bool" where
  "same_eng s s' \<longleftrightarrow>
     dom (e_task_heap s') = dom (e_task_heap s) \<and>
     (\<forall>t. live s t \<longrightarrow> tk_id (tk s' t) = tk_id (tk s t) \<and> tk_ic (tk s' t) = tk_ic (tk s t) \<and>
        tk_i_ins (tk s' t) = tk_i_ins (tk s t) \<and> tk_retries (tk s' t) = tk_retries (tk s t)) \<and>
     (\<forall>r. rt_o_ins (rt s' r) = rt_o_ins (rt s r) \<and> rt_parent (rt s' r) = rt_parent (rt s r) \<and>
        rt_attempts (rt s r) \<le> rt_attempts (rt s' r)) \<and>
     e_tasks_map s' = e_tasks_map s \<and> e_sched s' = e_sched s \<and> e_next s' = e_next s \<and>
     map o_id (e_outputs s') = map o_id (e_outputs s) \<and> map in_tasks (e_inputs s') = map in_tasks (e_inputs s) \<and>
     map in_chunks (e_inputs s') = map in_chunks (e_inputs s) \<and>
     map in_routes_direct (e_inputs s') = map in_routes_direct (e_inputs s) \<and>
     dom (e_chunk_heap s') = dom (e_chunk_heap s) \<and>
     (\<forall>c\<in>dom (e_chunk_heap s). ic_in (ic s' c) = ic_in (ic s c) \<and> ic_task (ic s' c) = ic_task (ic s c) \<and>
        ic_busy (ic s' c) = ic_busy (ic s c))"

lemma same_eng_refl [simp]: "same_eng s s"
  by (simp add: same_eng_def)

lemma same_eng_trans: "same_eng s s' \<Longrightarrow> same_eng s' s'' \<Longrightarrow> same_eng s s''"
  unfolding same_eng_def by (intro conjI allI impI ballI) (auto intro: order_trans)

lemma same_engD:
  assumes "same_eng s s'"
  shows "dom (e_task_heap s') = dom (e_task_heap s)" "live s t \<Longrightarrow> tk_id (tk s' t) = tk_id (tk s t)"
    "live s t \<Longrightarrow> tk_retries (tk s' t) = tk_retries (tk s t)" "rt_o_ins (rt s' r) = rt_o_ins (rt s r)"
    "e_sched s' = e_sched s" "out_ids s' = out_ids s" "rt_parent (rt s' r) = rt_parent (rt s r)"
    "e_tasks_map s' = e_tasks_map s" "length (e_inputs s') = length (e_inputs s)"
    "length (e_outputs s') = length (e_outputs s)"
proof -
  have o: "map o_id (e_outputs s') = map o_id (e_outputs s)" and i: "map in_tasks (e_inputs s') = map in_tasks (e_inputs s)"
    using assms by (simp_all add: same_eng_def)
  show "out_ids s' = out_ids s" unfolding out_ids_def using arg_cong [OF o, of set] by simp
  show "length (e_inputs s') = length (e_inputs s)" "length (e_outputs s') = length (e_outputs s)"
    using arg_cong [OF i, of length] arg_cong [OF o, of length] by simp_all
qed (use assms in \<open>simp_all add: same_eng_def\<close>)

lemma same_eng_lists:
  assumes "same_eng s s'" "n < length (e_inputs s)"
  shows "in_tasks (e_inputs s' ! n) = in_tasks (e_inputs s ! n)" "in_chunks (e_inputs s' ! n) = in_chunks (e_inputs s ! n)"
    "in_routes_direct (e_inputs s' ! n) = in_routes_direct (e_inputs s ! n)"
proof -
  have *: "f (e_inputs s' ! n) = f (e_inputs s ! n)" if "map f (e_inputs s') = map f (e_inputs s)" for f :: "input_state \<Rightarrow> 'b"
    using arg_cong [OF that, of "\<lambda>xs. xs ! n"] assms(2) same_engD(9) [OF assms(1)] by simp
  show "in_tasks (e_inputs s' ! n) = in_tasks (e_inputs s ! n)" "in_chunks (e_inputs s' ! n) = in_chunks (e_inputs s ! n)"
    "in_routes_direct (e_inputs s' ! n) = in_routes_direct (e_inputs s ! n)"
    by (rule *, use assms(1) in \<open>simp add: same_eng_def\<close>)+
qed

lemma eng_inv_same:
  assumes "eng_inv K s" "same_eng s s'"
  shows "eng_inv K s'"
proof -
  note d = same_engD [OF assms(2)]
  have "task_ids_ok s'"
    using eng_invD(1) [OF assms(1)] assms(2) unfolding task_ids_ok_def same_eng_def by (metis (no_types))
  moreover have "outs_ok s'" using eng_invD(2) [OF assms(1)] assms(2) d(6) by (simp add: outs_ok_def same_eng_def)
  moreover have "task_ok s' t" if "live s' t" for t
  proof -
    have l: "live s t" using that d(1) by simp
    note t = eng_invD(3) [OF assms(1) l]
    have tr: "task_retries_ok s' t"
      using t assms(2) d(3) [OF l] unfolding task_ok_def task_linked_def task_retries_ok_def same_eng_def
      by (auto simp: inj_on_def intro: order_trans)
    have c: "tk_ic (tk s t) \<in> dom (e_chunk_heap s)" "tk_i_ins (tk s t) < length (e_inputs s)"
      using t by (simp_all add: task_ok_def task_linked_def)
    have f: "tk_ic (tk s' t) = tk_ic (tk s t)" "tk_i_ins (tk s' t) = tk_i_ins (tk s t)" "dom (e_chunk_heap s') = dom (e_chunk_heap s)"
      "ic_in (ic s' (tk_ic (tk s t))) = ic_in (ic s (tk_ic (tk s t)))"
      "ic_task (ic s' (tk_ic (tk s t))) = ic_task (ic s (tk_ic (tk s t)))"
      "ic_busy (ic s' (tk_ic (tk s t))) = ic_busy (ic s (tk_ic (tk s t)))"
      using assms(2) l c(1) by (auto simp: same_eng_def)
    show ?thesis
      using t tr l f same_eng_lists(1) [OF assms(2) c(2)] d(9) unfolding task_ok_def task_linked_def d(1) d(3) [OF l] d(4) d(6)
      by simp
  qed
  moreover have "lists_ok s'"
  proof -
    have "\<And>t. live s t \<Longrightarrow> tk_i_ins (tk s' t) = tk_i_ins (tk s t)" "dom (e_chunk_heap s') = dom (e_chunk_heap s)"
      "\<And>c. c \<in> dom (e_chunk_heap s) \<Longrightarrow> ic_in (ic s' c) = ic_in (ic s c)" "e_next s' = e_next s"
      using assms(2) by (simp_all add: same_eng_def)
    then show ?thesis
      using eng_invD(4) [OF assms(1)] same_eng_lists [OF assms(2)] unfolding lists_ok_def d(1,6,9) by simp
  qed
  moreover have "requests_ok K s'"
    unfolding requests_ok_def d(1,5,7)
  proof (intro conjI allI impI)
    show "sched_inv (e_sched s)" using eng_invD(6) [OF assms(1)] .
    fix r assume "r \<in># pending (e_sched s)"
    then have r: "live s (rt_parent (rt s r))" "r \<in> set (tk_retries (tk s (rt_parent (rt s r))))" "count (pending (e_sched s)) r \<le> 1 + count K r"
      using eng_invD(5) [OF assms(1)] by (simp_all add: requests_ok_def)
    show "live s (rt_parent (rt s r))" "count (pending (e_sched s)) r \<le> 1 + count K r" by fact+
    show "r \<in> set (tk_retries (tk s' (rt_parent (rt s r))))" using r(1,2) d(3) by simp
  qed
  moreover have "links_ok s'"
    unfolding links_ok_def
  proof (intro ballI allI impI)
    fix c t assume c: "c \<in> dom (e_chunk_heap s')" "ic_task (ic s' c) = Some t"
    then have "c \<in> dom (e_chunk_heap s)" "ic_task (ic s c) = Some t" using assms(2) by (simp_all add: same_eng_def)
    then have "live s t" "tk_ic (tk s t) = c" using eng_invD(9) [OF assms(1)] by (simp_all add: links_ok_def)
    then show "live s' t \<and> tk_ic (tk s' t) = c" using assms(2) by (simp add: same_eng_def)
  qed
  ultimately show ?thesis by (simp add: eng_inv_def)
qed

subsection \<open>Operations the invariant does not see\<close>

lemma same_eng_tk_upd:
  assumes "live s t" "\<And>x. tk_id (f x) = tk_id x" "\<And>x. tk_ic (f x) = tk_ic x" "\<And>x. tk_i_ins (f x) = tk_i_ins x"
    "\<And>x. tk_retries (f x) = tk_retries x"
  shows "same_eng s (tk_upd t f s)"
  using assms by (auto simp: same_eng_def)

lemma same_eng_ic_upd:
  assumes "c \<in> dom (e_chunk_heap s)" "\<And>x. ic_in (f x) = ic_in x" "\<And>x. ic_task (f x) = ic_task x" "ic_busy (f (ic s c)) = ic_busy (ic s c)"
  shows "same_eng s (ic_upd c f s)"
  using assms by (auto simp: same_eng_def)

lemma same_eng_in_upd:
  assumes "\<And>x. in_tasks (f x) = in_tasks x" "\<And>x. in_chunks (f x) = in_chunks x" "\<And>x. in_routes_direct (f x) = in_routes_direct x"
  shows "same_eng s (in_upd n f s)"
proof -
  have m: "map g ((e_inputs s)[n := f (e_inputs s ! n)]) = map g (e_inputs s)" if "\<And>x. g (f x) = g x" for g :: "input_state \<Rightarrow> 'b"
    by (metis list_update_id map_update that)
  have "map in_tasks ((e_inputs s)[n := f (e_inputs s ! n)]) = map in_tasks (e_inputs s)"
    "map in_chunks ((e_inputs s)[n := f (e_inputs s ! n)]) = map in_chunks (e_inputs s)"
    "map in_routes_direct ((e_inputs s)[n := f (e_inputs s ! n)]) = map in_routes_direct (e_inputs s)"
    by (rule m, rule assms)+
  then show ?thesis by (simp add: same_eng_def) (simp add: in_upd_def)
qed

lemma same_eng_outputs:
  "map o_id os = map o_id (e_outputs s) \<Longrightarrow> same_eng s (s\<lparr>e_outputs := os\<rparr>)"
  by (simp add: same_eng_def)

lemma same_eng_set_limits: "same_eng s (flb_input_chunk_set_limits io n s)"
  unfolding flb_input_chunk_set_limits_def Let_def by (rule same_eng_in_upd) simp_all

lemma same_eng_chunk_call:
  "c \<in> dom (e_chunk_heap s) \<Longrightarrow> same_eng s (snd (chunk_call f c s))"
  by (auto simp: chunk_call_def case_prod_beta intro!: same_eng_ic_upd)

lemma same_eng_chunk:
  assumes "c \<in> dom (e_chunk_heap s)"
  shows "same_eng s (snd (flb_input_chunk_down io c s))" "same_eng s (snd (flb_input_chunk_set_up io c s))"
    "same_eng s (snd (flb_input_chunk_set_up_down io c s))"
proof -
  show "same_eng s (snd (flb_input_chunk_down io c s))" "same_eng s (snd (flb_input_chunk_set_up io c s))"
    using assms by (simp_all add: flb_input_chunk_down_def flb_input_chunk_set_up_def same_eng_chunk_call)
  define n where "n = ic_in (ic s c)"
  define s1 where "s1 = in_upd n (\<lambda>i. i\<lparr>in_mem_chunks_size := flb_input_chunk_total_size io s n\<rparr>) s"
  define s2 where "s2 = snd (chunk_call (cio_down io) c s1)"
  have 1: "same_eng s s1" unfolding s1_def by (rule same_eng_in_upd) simp_all
  have 2: "same_eng s1 s2" unfolding s2_def by (rule same_eng_chunk_call) (simp add: s1_def assms)
  have 3: "same_eng s2 (in_upd n (\<lambda>i. i\<lparr>in_mem_chunks_size := flb_input_chunk_total_size io s2 n\<rparr>) s2)"
    by (rule same_eng_in_upd) simp_all
  show "same_eng s (snd (flb_input_chunk_set_up_down io c s))"
    using 1 same_eng_trans [OF same_eng_trans [OF 1 2] 3]
    by (simp add: flb_input_chunk_set_up_down_def Let_def n_def [symmetric] s1_def [symmetric] s2_def [symmetric])
qed

lemma same_eng_update_outputs:
  assumes "c \<in> dom (e_chunk_heap s)"
  shows "same_eng s (flb_input_chunk_update_output_instances c n s)"
proof -
  define os where "os = map (\<lambda>x. if o_total_limit_size x \<noteq> -1 \<and> route_bit (ic_routes_mask (ic s c)) (o_id x)
      then x\<lparr>o_fs_chunks_size := o_fs_chunks_size x + n\<rparr> else x) (e_outputs s)"
  have 1: "same_eng s (s\<lparr>e_outputs := os\<rparr>)" by (rule same_eng_outputs) (simp add: os_def)
  have 2: "same_eng (s\<lparr>e_outputs := os\<rparr>) (ic_upd c (\<lambda>x. x\<lparr>ic_fs_counted := True\<rparr>) (s\<lparr>e_outputs := os\<rparr>))"
    by (rule same_eng_ic_upd) (use assms in simp_all)
  show ?thesis
    unfolding flb_input_chunk_update_output_instances_def Let_def os_def [symmetric] using 1 same_eng_trans [OF 1 2] by simp
qed

text \<open>A flush marks the chunk busy; for a chunk that is busy already nothing changes.\<close>

lemma chunk_flush_same:
  assumes "c \<in> dom (e_chunk_heap s)" "flb_input_chunk_flush io c s = ((buf, n), s')"
  shows "same_eng s s' \<or> buf \<noteq> None \<and> same_eng (ic_upd c (\<lambda>x. x\<lparr>ic_busy := True\<rparr>) s) s'"
    "ic_busy (ic s c) \<Longrightarrow> same_eng s s'"
proof -
  obtain ret s1 where q: "(if \<not> flb_input_chunk_is_up io s c then chunk_call (cio_up io) c s else (0, s)) = (ret, s1)"
    by fastforce
  define s2 where "s2 = ic_upd c (\<lambda>x. x\<lparr>ic_chunk := cio_lock io (ic_chunk x)\<rparr>) s1"
  define s3 where "s3 = ic_upd c (\<lambda>x. x\<lparr>ic_busy := True\<rparr>) s2"
  define b where "b = ic_upd c (\<lambda>x. x\<lparr>ic_busy := True\<rparr>) s"
  have 1: "same_eng s s1" using q same_eng_chunk_call [OF assms(1), of "cio_up io"] by (auto split: if_splits)
  then have c1: "c \<in> dom (e_chunk_heap s1)" using assms(1) by (simp add: same_eng_def)
  have "same_eng s1 s2" unfolding s2_def by (rule same_eng_ic_upd [OF c1]) simp_all
  then have 2: "same_eng s s2" by (rule same_eng_trans [OF 1])
  then have 3: "same_eng b s3" using assms(1) by (simp add: b_def s3_def same_eng_def)
  have c3: "c \<in> dom (e_chunk_heap s3)" by (simp add: s3_def)
  have 4: "same_eng b (flb_input_chunk_update_output_instances c k s3)" for k
    by (rule same_eng_trans [OF 3 same_eng_update_outputs [OF c3]])
  have busy: "same_eng s b" if "ic_busy (ic s c)" using that assms(1) unfolding b_def by (intro same_eng_ic_upd) simp_all
  have "same_eng s s' \<or> buf \<noteq> None \<and> same_eng b s'"
    using assms(2) 1 2 3 4 unfolding flb_input_chunk_flush_def Let_def q prod.case s2_def [symmetric] s3_def [symmetric]
    by (auto split: if_splits option.splits)
  then show "same_eng s s' \<or> buf \<noteq> None \<and> same_eng (ic_upd c (\<lambda>x. x\<lparr>ic_busy := True\<rparr>) s) s'" "ic_busy (ic s c) \<Longrightarrow> same_eng s s'"
    using busy same_eng_trans by (auto simp: b_def [symmetric])
qed


subsection \<open>Destroying a retry\<close>

lemma rt_destroyed: "rt (flb_task_retry_destroy r s) q = (if q = r then the None else rt s q)"
  by (simp add: rt_def retry_destroy_fields(2))

lemma retry_destroy_task:
  assumes "task_retries_ok s t" "r \<in> set (tk_retries (tk s t))"
  defines "s' \<equiv> flb_task_retry_destroy r s"
  shows "rt_parent (rt s r) = t" "tk s' t = (tk s t)\<lparr>tk_retries := mk_list_del r (tk_retries (tk s t))\<rparr>"
    "u \<noteq> t \<Longrightarrow> tk s' u = tk s u" "set (tk_retries (tk s' t)) = set (tk_retries (tk s t)) - {r}"
    "task_retries_ok s' t"
proof -
  show p: "rt_parent (rt s r) = t" and 1: "tk s' t = (tk s t)\<lparr>tk_retries := mk_list_del r (tk_retries (tk s t))\<rparr>"
    and "u \<noteq> t \<Longrightarrow> tk s' u = tk s u"
    using assms(1,2) by (simp_all add: task_retries_ok_def s'_def retry_destroy_fields)
  show st: "set (tk_retries (tk s' t)) = set (tk_retries (tk s t)) - {r}" using assms(1) by (simp add: 1 task_retries_ok_def)
  show "task_retries_ok s' t"
    using assms(1) st unfolding task_retries_ok_def
    by (auto simp: s'_def retry_destroy_fields p rt_destroyed inj_on_def)
qed

lemma other_retries:
  assumes "eng_inv K s" "live s t" "live s u" "t \<noteq> u" "r \<in> set (tk_retries (tk s t))"
  shows "r \<notin> set (tk_retries (tk s u))"
  using eng_invD(8) [OF assms(1,2)] eng_invD(8) [OF assms(1,3)] assms(4,5) by (auto simp: task_retries_ok_def)

lemma eng_inv_retry_destroy:
  assumes "eng_inv K s" "live s t" "r \<in> set (tk_retries (tk s t))" "count (pending (e_sched s)) r \<le> 1"
  defines "s' \<equiv> flb_task_retry_destroy r s"
  shows "eng_inv (K - {#r#}) s'" "dom (e_task_heap s') = dom (e_task_heap s)"
    "pending (e_sched s') = pending (e_sched s) - {#r#}" "out_ids s' = out_ids s" "r \<notin># pending (e_sched s')"
proof -
  note tr = eng_invD(8) [OF assms(1,2)]
  note d = retry_destroy_task [OF tr assms(3), folded s'_def]
  show dm: "dom (e_task_heap s') = dom (e_task_heap s)"
    using assms(2) d(1) by (auto simp: s'_def retry_destroy_fields)
  show oi: "out_ids s' = out_ids s" by (simp add: out_ids_def s'_def retry_destroy_fields)
  have si: "sched_inv (e_sched s')" and pe: "pending (e_sched s') = pending (e_sched s) - {#r#}"
    using request_invalidate_cases [OF eng_invD(6) [OF assms(1)], of r]
    by (cases "flb_sched_request_invalidate (e_sched s) r"; simp add: s'_def retry_destroy_fields)+
  show "pending (e_sched s') = pending (e_sched s) - {#r#}" by (rule pe)
  show gone: "r \<notin># pending (e_sched s')" using assms(4) by (simp add: pe not_in_iff)
  have tk': "tk s' u = (if u = t then (tk s t)\<lparr>tk_retries := mk_list_del r (tk_retries (tk s t))\<rparr> else tk s u)" for u
    by (simp add: s'_def retry_destroy_fields d(1))
  have tkf: "tk_id (tk s' u) = tk_id (tk s u)" "tk_ic (tk s' u) = tk_ic (tk s u)" "tk_i_ins (tk s' u) = tk_i_ins (tk s u)"
    "set (tk_retries (tk s' u)) = set (tk_retries (tk s u)) - (if u = t then {r} else {})" for u
    using tr by (simp_all add: tk' task_retries_ok_def)
  have "task_ids_ok s'"
    using eng_invD(1) [OF assms(1)] unfolding task_ids_ok_def dm tkf by (simp add: s'_def retry_destroy_fields)
  moreover have "outs_ok s'" using eng_invD(2) [OF assms(1)] by (simp add: outs_ok_def oi) (simp add: s'_def retry_destroy_fields)
  moreover have "task_ok s' u" if "live s' u" for u
  proof -
    have l: "live s u" using that dm by simp
    note u = eng_invD(3) [OF assms(1) l]
    have rt': "rt s' q = rt s q" if "q \<in> set (tk_retries (tk s' u))" for q
    proof -
      have "q \<noteq> r" using that tkf(4) [of u] other_retries [OF assms(1,2) l _ assms(3)] by (auto split: if_splits)
      then show ?thesis by (simp add: s'_def rt_destroyed)
    qed
    have "task_retries_ok s' u"
    proof (cases "u = t")
      case True
      then show ?thesis using d(5) by simp
    next
      case False
      then have "tk_retries (tk s' u) = tk_retries (tk s u)" using d(3) by simp
      then show ?thesis using u rt' unfolding task_ok_def task_linked_def task_retries_ok_def
        by (auto simp: s'_def retry_destroy_fields inj_on_def)
    qed
    moreover have "\<forall>q\<in>set (tk_retries (tk s' u)). rt_o_ins (rt s' q) \<in> out_ids s'"
      using u rt' tkf(4) [of u] by (auto simp: task_ok_def oi split: if_splits)
    ultimately show ?thesis
      using u that unfolding task_ok_def task_linked_def tkf by (simp add: s'_def retry_destroy_fields)
  qed
  moreover have "lists_ok s'"
    using eng_invD(4) [OF assms(1)] unfolding lists_ok_def dm tkf oi by (simp add: s'_def retry_destroy_fields)
  moreover have "requests_ok (K - {#r#}) s'"
    unfolding requests_ok_def
  proof (intro conjI allI impI)
    show "sched_inv (e_sched s')" by (rule si)
    fix q assume q: "q \<in># pending (e_sched s')"
    then have qr: "q \<noteq> r" using gone by auto
    have old: "live s (rt_parent (rt s q)) \<and> q \<in> set (tk_retries (tk s (rt_parent (rt s q)))) \<and> count (pending (e_sched s)) q \<le> 1 + count K q"
      using eng_invD(5) [OF assms(1)] in_diffD [of q "pending (e_sched s)" "{#r#}"] q pe by (simp add: requests_ok_def)
    have "rt s' q = rt s q" using qr by (simp add: s'_def rt_destroyed)
    then show "live s' (rt_parent (rt s' q))" "q \<in> set (tk_retries (tk s' (rt_parent (rt s' q))))"
      "count (pending (e_sched s')) q \<le> 1 + count (K - {#r#}) q"
      using old qr tkf(4) dm pe by simp_all
  qed
  moreover have "links_ok s'"
    using eng_invD(9) [OF assms(1)] unfolding links_ok_def dm tkf by (simp add: s'_def retry_destroy_fields)
  ultimately show "eng_inv (K - {#r#}) s'" by (simp add: eng_inv_def)
qed

subsection \<open>Destroying a task\<close>

lemma fold_retry_destroy_frame:
  "e_inputs (fold flb_task_retry_destroy rs s) = e_inputs s" "e_outputs (fold flb_task_retry_destroy rs s) = e_outputs s"
  "e_chunk_heap (fold flb_task_retry_destroy rs s) = e_chunk_heap s"
  by (induction rs arbitrary: s) (simp_all add: retry_destroy_fields)

lemma chunk_destroy_out_ids: "map o_id (e_outputs (flb_input_chunk_destroy io H a del s)) = map o_id (e_outputs s)"
proof -
  have "map o_id (e_outputs (chunk_uncount io a s0)) = map o_id (e_outputs s0)" for s0
    by (simp add: chunk_uncount_def Let_def)
  then show ?thesis
    by (simp add: chunk_destroy_fields(8) destroy_prepared_def Let_def flb_input_chunk_set_up_def chunk_call_def case_prod_beta)
qed

lemma task_destroy_rest:
  assumes "task_linked s t" and s'_def: "s' = flb_task_destroy io H t del s"
  shows "map o_id (e_outputs s') = map o_id (e_outputs s)" "length (e_inputs s') = length (e_inputs s)"
    "c \<noteq> tk_ic (tk s t) \<Longrightarrow> ic s' c = ic s c"
    "k < length (e_inputs s) \<Longrightarrow> in_chunks (e_inputs s' ! k) = (if k = tk_i_ins (tk s t)
       then mk_list_del (tk_ic (tk s t)) (in_chunks (e_inputs s ! k)) else in_chunks (e_inputs s ! k))"
    "k < length (e_inputs s) \<Longrightarrow> in_routes_direct (e_inputs s' ! k) = in_routes_direct (e_inputs s ! k)"
proof -
  define n where "n = tk_i_ins (tk s t)"
  define s2 where "s2 = tk_upd t (\<lambda>x. x\<lparr>tk_routes := []\<rparr>) (map_free_task_id (tk_id (tk s t)) s)"
  define s3 where "s3 = in_upd (tk_i_ins (tk s2 t)) (\<lambda>i. i\<lparr>in_tasks := mk_list_del t (in_tasks i)\<rparr>) s2"
  define s4 where "s4 = flb_input_chunk_destroy io H (tk_ic (tk s3 t)) del s3"
  define s5 where "s5 = fold flb_task_retry_destroy (tk_retries (tk s4 t)) s4"
  define s6 where "s6 = flb_input_chunk_set_limits io (tk_i_ins (tk s5 t)) s5"
  have s': "s' = s6\<lparr>e_task_heap := (e_task_heap s6)(t := None)\<rparr>"
    unfolding s'_def flb_task_destroy_def Let_def s2_def [symmetric] s3_def [symmetric] s4_def [symmetric] s5_def [symmetric]
      s6_def [symmetric] ..
  have l: "n < length (e_inputs s)" "ic_in (ic s (tk_ic (tk s t))) = n" using assms(1) by (simp_all add: task_linked_def n_def)
  have 2: "tk_i_ins (tk s2 t) = n" "tk_ic (tk s2 t) = tk_ic (tk s t)" "e_inputs s2 = e_inputs s" "e_outputs s2 = e_outputs s" "ic s2 = ic s"
    by (simp_all add: s2_def map_free_task_id_def n_def ic_def fun_eq_iff)
  have 3: "tk_ic (tk s3 t) = tk_ic (tk s t)" "e_outputs s3 = e_outputs s" "ic s3 = ic s" "length (e_inputs s3) = length (e_inputs s)"
    "in_chunks (e_inputs s3 ! j) = in_chunks (e_inputs s ! j)" "in_routes_direct (e_inputs s3 ! j) = in_routes_direct (e_inputs s ! j)" for j
    using l(1) 2 by (simp_all add: s3_def)
  have 4: "map o_id (e_outputs s4) = map o_id (e_outputs s)" "length (e_inputs s4) = length (e_inputs s)"
    "c \<noteq> tk_ic (tk s t) \<Longrightarrow> ic s4 c = ic s c"
    "in_chunks (e_inputs s4 ! k) = (if k = n then mk_list_del (tk_ic (tk s t)) (in_chunks (e_inputs s ! k)) else in_chunks (e_inputs s ! k))"
    "in_routes_direct (e_inputs s4 ! k) = in_routes_direct (e_inputs s ! k)"
    using chunk_destroy_inputs(1,3) [of s3 "tk_ic (tk s t)" io H del k] l
    by (simp_all add: s4_def chunk_destroy_out_ids chunk_destroy_fields(6,7) 3)
  have 5: "e_inputs s5 = e_inputs s4" "e_outputs s5 = e_outputs s4" "ic s5 = ic s4"
    by (simp_all add: s5_def fold_retry_destroy_frame ic_def fun_eq_iff)
  have 6: "same_eng s5 s6" unfolding s6_def by (rule same_eng_set_limits)
  have ic6: "ic s6 = ic s5" by (simp add: s6_def ic_def fun_eq_iff)
  show "map o_id (e_outputs s') = map o_id (e_outputs s)" using 6 4(1) 5(2) by (simp add: s' same_eng_def)
  show "length (e_inputs s') = length (e_inputs s)" using same_engD(9) [OF 6] 4(2) 5(1) by (simp add: s')
  show "c \<noteq> tk_ic (tk s t) \<Longrightarrow> ic s' c = ic s c" using 4(3) 5(3) ic6 by (simp add: s')
  show "in_chunks (e_inputs s' ! k) = (if k = tk_i_ins (tk s t)
       then mk_list_del (tk_ic (tk s t)) (in_chunks (e_inputs s ! k)) else in_chunks (e_inputs s ! k))" if "k < length (e_inputs s)"
    using same_eng_lists(2) [OF 6, of k] that 4(2,4) 5(1) by (simp add: s' n_def)
  show "in_routes_direct (e_inputs s' ! k) = in_routes_direct (e_inputs s ! k)" if "k < length (e_inputs s)"
    using same_eng_lists(3) [OF 6, of k] that 4(2,5) 5(1) by (simp add: s')
qed

text \<open>Destroying a task, seen from the rest of the engine: other tasks, their retries and their requests stay.\<close>

lemma task_destroy_others:
  assumes "eng_inv K s" "live s t"
    and s'_def: "s' = flb_task_destroy io H t del s"
  shows "e_task_heap s' = (e_task_heap s)(t := None)" "out_ids s' = out_ids s"
    "\<And>u. u \<noteq> t \<Longrightarrow> tk s' u = tk s u" "\<And>r. r \<notin> set (tk_retries (tk s t)) \<Longrightarrow> rt s' r = rt s r"
    "\<And>r. count (pending (e_sched s')) r = count (pending (e_sched s)) r - (if r \<in> set (tk_retries (tk s t)) then 1 else 0)"
    "\<And>u r. u \<noteq> t \<Longrightarrow> live s u \<Longrightarrow> r \<in> set (tk_retries (tk s u)) \<Longrightarrow>
       rt s' r = rt s r \<and> count (pending (e_sched s')) r = count (pending (e_sched s)) r"
proof -
  have lk: "task_linked s t" by (rule eng_invD(7) [OF assms(1,2)])
  note d = task_destroy_spec [OF lk eng_invD(6) [OF assms(1)] s'_def] and f = task_destroy_rest [OF lk s'_def]
  show th: "e_task_heap s' = (e_task_heap s)(t := None)" by (rule d(1))
  show oi: "out_ids s' = out_ids s" unfolding out_ids_def using arg_cong [OF f(1), of set] by simp
  show tk': "tk s' u = tk s u" if "u \<noteq> t" for u using that by (simp add: tk_def th)
  have rs: "distinct (tk_retries (tk s t))" using eng_invD(8) [OF assms(1,2)] by (simp add: task_retries_ok_def)
  show rt': "rt s' r = rt s r" if "r \<notin> set (tk_retries (tk s t))" for r using that by (simp add: rt_def d(3))
  show pe: "count (pending (e_sched s')) r = count (pending (e_sched s)) r - (if r \<in> set (tk_retries (tk s t)) then 1 else 0)" for r
    using d(4) rs by (simp add: distinct_count_atmost_1)
  show rest: "rt s' r = rt s r \<and> count (pending (e_sched s')) r = count (pending (e_sched s)) r"
    if "u \<noteq> t" "live s u" "r \<in> set (tk_retries (tk s u))" for u r
    using other_retries [OF assms(1) that(2) assms(2) that(1,3)] rt' pe [of r] by simp
qed

lemma task_destroy_task_ok:
  assumes "eng_inv K s" "live s t" "live s' u" and s'_def: "s' = flb_task_destroy io H t del s"
  shows "task_ok s' u"
proof -
  note lk = eng_invD(7) [OF assms(1,2)] and x = task_destroy_others [OF assms(1,2) s'_def]
  note d = task_destroy_spec [OF lk eng_invD(6) [OF assms(1)] s'_def] and f = task_destroy_rest [OF lk s'_def]
  note th = x(1) and oi = x(2) and tk' = x(3) and rest = x(6)
  define c where "c = tk_ic (tk s t)"
  have cu: "tk_ic (tk s u) \<noteq> c" if "live s u" "u \<noteq> t" for u
    using eng_invD(3) [OF assms(1,2)] eng_invD(3) [OF assms(1) that(1)] that(2) by (auto simp: task_ok_def c_def)
  have u: "u \<noteq> t" "live s u" using assms(3) th by auto
  note o = eng_invD(3) [OF assms(1) u(2)]
  have r: "rt s' r = rt s r" if "r \<in> set (tk_retries (tk s u))" for r using rest [OF u that] by simp
  have "task_retries_ok s' u"
    using o r unfolding task_ok_def task_linked_def task_retries_ok_def tk' [OF u(1)] by (auto simp: d(6) inj_on_def)
  moreover have "\<forall>r\<in>set (tk_retries (tk s u)). rt_o_ins (rt s' r) \<in> out_ids s'" using o r by (simp add: task_ok_def oi)
  moreover have "u \<in> set (in_tasks (e_inputs s' ! tk_i_ins (tk s u)))"
    using o u(1) eng_invD(4) [OF assms(1)] by (auto simp: d(7) task_ok_def task_linked_def lists_ok_def)
  moreover have "ic s' (tk_ic (tk s u)) = ic s (tk_ic (tk s u))" using f(3) cu [OF u(2,1)] by (simp add: c_def)
  moreover have "tk_ic (tk s u) \<in> dom (e_chunk_heap s')"
    using o cu [OF u(2,1)] by (simp add: task_ok_def task_linked_def d(5) c_def)
  ultimately show ?thesis using o assms(3) unfolding task_ok_def task_linked_def tk' [OF u(1)] by (simp add: f(2))
qed

lemma task_destroy_lists_ok:
  assumes "eng_inv K s" "live s t" and s'_def: "s' = flb_task_destroy io H t del s"
  shows "lists_ok s'"
proof -
  note lk = eng_invD(7) [OF assms(1,2)] and x = task_destroy_others [OF assms(1,2) s'_def]
  note d = task_destroy_spec [OF lk eng_invD(6) [OF assms(1)] s'_def] and f = task_destroy_rest [OF lk s'_def]
  note oi = x(2) and tk' = x(3)
  define c where "c = tk_ic (tk s t)"
  show ?thesis
    unfolding lists_ok_def f(2)
  proof (intro conjI [of "\<forall>n. _ n"] allI impI)
    show "\<forall>c\<in>dom (e_chunk_heap s'). c < e_next s'" using eng_invD(4) [OF assms(1)] by (simp add: lists_ok_def d(5,6))
    fix n assume n: "n < length (e_inputs s)"
    have o: "distinct (in_tasks (e_inputs s ! n))" "\<And>u. u \<in> set (in_tasks (e_inputs s ! n)) \<Longrightarrow> live s u \<and> tk_i_ins (tk s u) = n"
     "distinct (in_chunks (e_inputs s ! n))"
     "\<And>c. c \<in> set (in_chunks (e_inputs s ! n)) \<Longrightarrow> c \<in> dom (e_chunk_heap s) \<and> ic_in (ic s c) = n"
     "distinct (in_routes_direct (e_inputs s ! n))" "set (in_routes_direct (e_inputs s ! n)) \<subseteq> out_ids s"
      using eng_invD(4) [OF assms(1)] n by (simp_all add: lists_ok_def)
    have "set (in_tasks (e_inputs s' ! n)) = set (in_tasks (e_inputs s ! n)) - {t}"
      using o(1) o(2) [of t] by (auto simp: d(7))
    moreover have "set (in_chunks (e_inputs s' ! n)) = set (in_chunks (e_inputs s ! n)) - {c}"
      using o(3) o(4) [of c] lk by (auto simp: f(4) [OF n] c_def task_linked_def)
    ultimately show "distinct (in_tasks (e_inputs s' ! n)) \<and>
        (\<forall>u\<in>set (in_tasks (e_inputs s' ! n)). live s' u \<and> tk_i_ins (tk s' u) = n) \<and> distinct (in_chunks (e_inputs s' ! n)) \<and>
        (\<forall>c\<in>set (in_chunks (e_inputs s' ! n)). c \<in> dom (e_chunk_heap s') \<and> ic_in (ic s' c) = n) \<and>
        distinct (in_routes_direct (e_inputs s' ! n)) \<and> set (in_routes_direct (e_inputs s' ! n)) \<subseteq> out_ids s'"
      using o f(3) tk' by (auto simp: d(1,5,7) f(4,5) [OF n] c_def oi)
  qed
qed

lemma task_destroy_requests_ok:
  assumes "eng_inv K s" "live s t" "\<forall>r\<in>set (tk_retries (tk s t)). r \<notin># K"
    and s'_def: "s' = flb_task_destroy io H t del s"
  shows "requests_ok K s'"
proof -
  note lk = eng_invD(7) [OF assms(1,2)] and x = task_destroy_others [OF assms(1,2) s'_def]
  note d = task_destroy_spec [OF lk eng_invD(6) [OF assms(1)] s'_def] and f = task_destroy_rest [OF lk s'_def]
  note th = x(1) and tk' = x(3) and rt' = x(4) and pe = x(5)
  show ?thesis
    unfolding requests_ok_def
  proof (intro conjI allI impI)
    show "sched_inv (e_sched s')" using d(4) by simp
    fix q assume "q \<in># pending (e_sched s')"
    then have q: "0 < count (pending (e_sched s')) q" by simp
    have qs: "q \<in># pending (e_sched s)"
    proof (rule ccontr)
      assume "q \<notin># pending (e_sched s)"
      then show False using pe [of q] q by (simp add: not_in_iff)
    qed
    then have old: "live s (rt_parent (rt s q))" "q \<in> set (tk_retries (tk s (rt_parent (rt s q))))" "count (pending (e_sched s)) q \<le> 1 + count K q"
      using eng_invD(5) [OF assms(1)] by (simp_all add: requests_ok_def)
    have nt: "q \<notin> set (tk_retries (tk s t))"
    proof
      assume qt: "q \<in> set (tk_retries (tk s t))"
      then have "count K q = 0" using assms(3) by (simp add: not_in_iff)
      then show False using old(3) pe [of q] q qt by simp
    qed
    then have ne: "rt_parent (rt s q) \<noteq> t" using old(2) by auto
    show "live s' (rt_parent (rt s' q))" "q \<in> set (tk_retries (tk s' (rt_parent (rt s' q))))"
      "count (pending (e_sched s')) q \<le> 1 + count K q"
      using old rt' [OF nt] ne tk' [OF ne] pe [of q] nt by (simp_all add: th)
  qed
qed

lemma task_destroy_links_ok:
  assumes "eng_inv K s" "live s t" and s'_def: "s' = flb_task_destroy io H t del s"
  shows "links_ok s'"
proof -
  note lk = eng_invD(7) [OF assms(1,2)] and x = task_destroy_others [OF assms(1,2) s'_def]
  note d = task_destroy_spec [OF lk eng_invD(6) [OF assms(1)] s'_def] and f = task_destroy_rest [OF lk s'_def]
  note th = x(1) and tk' = x(3)
  define c where "c = tk_ic (tk s t)"
  show ?thesis
    unfolding links_ok_def
  proof (intro ballI allI impI)
    fix a u assume a: "a \<in> dom (e_chunk_heap s')" "ic_task (ic s' a) = Some u"
    then have ac: "a \<in> dom (e_chunk_heap s)" "a \<noteq> c" by (auto simp: d(5) c_def)
    then have "ic s' a = ic s a" using f(3) by (simp add: c_def)
    then have u: "live s u" "tk_ic (tk s u) = a" using eng_invD(9) [OF assms(1)] ac(1) a(2) by (auto simp: links_ok_def)
    then have "u \<noteq> t" using ac(2) by (auto simp: c_def)
    then show "live s' u \<and> tk_ic (tk s' u) = a" using u tk' th by simp
  qed
qed

lemma eng_inv_task_destroy:
  assumes "eng_inv K s" "live s t" "\<forall>r\<in>set (tk_retries (tk s t)). r \<notin># K"
    and s'_def: "s' = flb_task_destroy io H t del s"
  shows "eng_inv K s'" "e_task_heap s' = (e_task_heap s)(t := None)" "out_ids s' = out_ids s"
    "\<And>u r. u \<noteq> t \<Longrightarrow> live s u \<Longrightarrow> r \<in> set (tk_retries (tk s u)) \<Longrightarrow>
       rt s' r = rt s r \<and> count (pending (e_sched s')) r = count (pending (e_sched s)) r"
proof -
  note lk = eng_invD(7) [OF assms(1,2)] and x = task_destroy_others [OF assms(1,2) s'_def]
  have "task_ids_ok s'" using task_linked_ids [OF lk eng_invD(6) [OF assms(1)] eng_invD(1) [OF assms(1)]] by (simp add: s'_def)
  moreover have "outs_ok s'" using eng_invD(2) [OF assms(1)] task_destroy_rest(1) [OF lk s'_def] by (simp add: outs_ok_def x(2))
  moreover note task_destroy_task_ok [OF assms(1,2) _ s'_def] task_destroy_lists_ok [OF assms(1,2) s'_def]
    task_destroy_requests_ok [OF assms(1-3) s'_def] task_destroy_links_ok [OF assms(1,2) s'_def]
  ultimately show "eng_inv K s'" by (simp add: eng_inv_def)
qed (use task_destroy_others [OF assms(1,2) s'_def] in blast)+


subsection \<open>Creating a retry and its request\<close>

lemma same_eng_adjust:
  assumes "tk_ic (tk s t) \<in> dom (e_chunk_heap s)" "live s t"
  shows "same_eng s (retry_adjust io t s)"
proof -
  define s1 where "s1 = (if tk_users (tk s t) \<le> 1 then snd (flb_input_chunk_set_up_down io (tk_ic (tk s t)) s) else s)"
  have 1: "same_eng s s1" using same_eng_chunk(3) [OF assms(1)] by (simp add: s1_def)
  then have "tk_ic (tk s1 t) \<in> dom (e_chunk_heap s1)" using assms by (simp add: same_eng_def)
  from same_eng_trans [OF 1 same_eng_chunk(1) [OF this]] show ?thesis
    using 1 by (simp add: retry_adjust_def Let_def s1_def [symmetric])
qed

lemma adjust_task: "tk (retry_adjust io t s) = tk s"
  using same_tasks_tk(1) [OF same_tasks_adjust] .

text \<open>A retry is created or counted up for a task and an output of the engine.\<close>

lemma fresh_retry:
  assumes "eng_inv K s"
  shows "live s u \<Longrightarrow> e_next s \<notin> set (tk_retries (tk s u))" "e_next s \<notin># pending (e_sched s)"
proof -
  show a: "e_next s \<notin> set (tk_retries (tk s u))" if "live s u" for u
    using eng_invD(8) [OF assms that] by (auto simp: task_retries_ok_def)
  show "e_next s \<notin># pending (e_sched s)"
    using a [of "rt_parent (rt s (e_next s))"] eng_invD(5) [OF assms] unfolding requests_ok_def by blast
qed

definition retry_new :: "addr \<Rightarrow> int \<Rightarrow> 'c flb_engine \<Rightarrow> 'c flb_engine" where
  "retry_new t out s = tk_upd t (\<lambda>x. x\<lparr>tk_retries := mk_list_add (e_next s) (tk_retries x)\<rparr>)
     (s\<lparr>e_retry_heap := (e_retry_heap s)(e_next s \<mapsto> \<lparr>rt_attempts = 1, rt_o_ins = out, rt_parent = t\<rparr>), e_next := e_next s + 1\<rparr>)"

lemma retry_new_fields:
  "e_sched (retry_new t out s) = e_sched s" "e_tasks_map (retry_new t out s) = e_tasks_map s"
  "e_inputs (retry_new t out s) = e_inputs s" "e_outputs (retry_new t out s) = e_outputs s" "ic (retry_new t out s) = ic s"
  "e_chunk_heap (retry_new t out s) = e_chunk_heap s" "e_next (retry_new t out s) = Suc (e_next s)"
  "rt (retry_new t out s) q = (if q = e_next s then \<lparr>rt_attempts = 1, rt_o_ins = out, rt_parent = t\<rparr> else rt s q)"
  "tk (retry_new t out s) u = (if u = t then (tk s t)\<lparr>tk_retries := mk_list_add (e_next s) (tk_retries (tk s t))\<rparr> else tk s u)"
  "dom (e_task_heap (retry_new t out s)) = insert t (dom (e_task_heap s))" "out_ids (retry_new t out s) = out_ids s"
  by (simp_all add: retry_new_def rt_def ic_def fun_eq_iff out_ids_def)

lemma eng_inv_retry_new:
  assumes "eng_inv K s" "live s t" "out \<in> out_ids s" "\<forall>r\<in>set (tk_retries (tk s t)). rt_o_ins (rt s r) \<noteq> out"
  shows "eng_inv K (retry_new t out s)"
proof -
  define s' where "s' = retry_new t out s"
  note f = retry_new_fields [of t out s, folded s'_def] and fresh = fresh_retry [OF assms(1)]
  have dm: "dom (e_task_heap s') = dom (e_task_heap s)" using assms(2) f(10) by auto
  have tkf: "tk_id (tk s' u) = tk_id (tk s u)" "tk_ic (tk s' u) = tk_ic (tk s u)" "tk_i_ins (tk s' u) = tk_i_ins (tk s u)"
    "set (tk_retries (tk s' u)) = set (tk_retries (tk s u)) \<union> (if u = t then {e_next s} else {})" for u
    by (auto simp: f(9))
  have "task_ids_ok s'" using eng_invD(1) [OF assms(1)] unfolding task_ids_ok_def dm tkf f(2,7) by (simp add: less_Suc_eq)
  moreover have "outs_ok s'" using eng_invD(2) [OF assms(1)] by (simp add: outs_ok_def f(4,11))
  moreover have "task_ok s' u" if "live s' u" for u
  proof -
    have l: "live s u" using that dm by simp
    note u = eng_invD(3) [OF assms(1) l] and fr = fresh(1) [OF l]
    have "task_retries_ok s' u"
      using u fr assms(4) unfolding task_ok_def task_linked_def task_retries_ok_def f(7,8)
      by (auto simp: f(9) inj_on_def less_Suc_eq)
    moreover have "\<forall>q\<in>set (tk_retries (tk s' u)). rt_o_ins (rt s' q) \<in> out_ids s'"
      using u fr assms(3) by (auto simp: task_ok_def f(8,11) tkf(4) split: if_splits)
    ultimately show ?thesis using u that unfolding task_ok_def task_linked_def tkf(1-3) f(3,5,6) by blast
  qed
  moreover have "lists_ok s'" using eng_invD(4) [OF assms(1)] unfolding lists_ok_def dm tkf f by (simp add: less_Suc_eq)
  moreover have "requests_ok K s'"
    unfolding requests_ok_def f(1)
  proof (intro conjI allI impI)
    show "sched_inv (e_sched s)" using eng_invD(6) [OF assms(1)] .
    fix q assume q: "q \<in># pending (e_sched s)"
    then have "q \<noteq> e_next s" using fresh(2) by auto
    then have "rt s' q = rt s q" by (simp add: f(8))
    then show "live s' (rt_parent (rt s' q))" "q \<in> set (tk_retries (tk s' (rt_parent (rt s' q))))"
      "count (pending (e_sched s)) q \<le> 1 + count K q"
      using q eng_invD(5) [OF assms(1)] dm tkf(4) by (auto simp: requests_ok_def)
  qed
  moreover have "links_ok s'" using eng_invD(9) [OF assms(1)] unfolding links_ok_def dm tkf f(5,6) .
  ultimately show ?thesis by (simp add: eng_inv_def s'_def [symmetric])
qed

text \<open>A retry is either an old one with one more attempt, or a new one.\<close>

lemma retry_create_old_new:
  assumes "flb_task_retry_create io mem_ok t ins s = (Some r, s')"
  obtains (old) s1 where "s1 = rt_upd r (\<lambda>x. x\<lparr>rt_attempts := rt_attempts x + 1\<rparr>) s" "s' = retry_adjust io t s1"
      "r \<in> set (tk_retries (tk s t))" "rt_o_ins (rt s r) = o_id ins"
  | (new) s1 where "s1 = retry_new t (o_id ins) s" "s' = retry_adjust io t s1" "r = e_next s"
      "\<forall>q\<in>set (tk_retries (tk s t)). rt_o_ins (rt s q) \<noteq> o_id ins"
proof (cases "List.find (\<lambda>r. rt_o_ins (rt s r) = o_id ins) (tk_retries (tk s t))")
  case None
  then have "\<forall>q\<in>set (tk_retries (tk s t)). rt_o_ins (rt s q) \<noteq> o_id ins" by (auto simp: find_None_iff)
  moreover have "flb_task_retry_create io mem_ok t ins s =
      (if \<not> mem_ok then (None, s) else (Some (e_next s), retry_adjust io t (retry_new t (o_id ins) s)))"
    by (simp add: flb_task_retry_create_def Let_def retry_new_def None)
  ultimately show ?thesis using new assms(1) by (cases mem_ok) simp_all
next
  case (Some q)
  then show ?thesis using old assms(1) find_Some_in [OF Some] by (auto simp: flb_task_retry_create_def split: if_splits)
qed

lemma eng_inv_retry_create:
  assumes "eng_inv K s" "live s t" "o_id ins \<in> out_ids s" "flb_task_retry_create io mem_ok t ins s = (Some r, s')"
  shows "eng_inv K s'" "dom (e_task_heap s') = dom (e_task_heap s)" "e_sched s' = e_sched s" "out_ids s' = out_ids s"
    "rt_parent (rt s' r) = t" "rt_o_ins (rt s' r) = o_id ins"
    "set (tk_retries (tk s' t)) = insert r (set (tk_retries (tk s t)))"
    "u \<noteq> t \<Longrightarrow> tk s' u = tk s u" "tk s' t = (tk s t)\<lparr>tk_retries := tk_retries (tk s' t)\<rparr>"
    "q \<noteq> r \<Longrightarrow> rt s' q = rt s q" "r \<notin> set (tk_retries (tk s t)) \<Longrightarrow> r \<notin># pending (e_sched s)"
    "r \<in> set (tk_retries (tk s t)) \<Longrightarrow> rt_o_ins (rt s r) = o_id ins" "e_tasks_map s' = e_tasks_map s"
proof -
  have lk: "task_linked s t" by (rule eng_invD(7) [OF assms(1,2)])
  have key: "eng_inv K s' \<and> dom (e_task_heap s') = dom (e_task_heap s) \<and> e_sched s' = e_sched s \<and> out_ids s' = out_ids s \<and>
    rt_parent (rt s' r) = t \<and> rt_o_ins (rt s' r) = o_id ins \<and>
    set (tk_retries (tk s' t)) = insert r (set (tk_retries (tk s t))) \<and> (\<forall>u. u \<noteq> t \<longrightarrow> tk s' u = tk s u) \<and>
    tk s' t = (tk s t)\<lparr>tk_retries := tk_retries (tk s' t)\<rparr> \<and> (\<forall>q. q \<noteq> r \<longrightarrow> rt s' q = rt s q) \<and> e_tasks_map s' = e_tasks_map s"
    using assms(4)
  proof (cases rule: retry_create_old_new)
    case (old s1)
    have e1: "same_eng s s1" by (auto simp: old(1) same_eng_def)
    have 1: "tk s1 = tk s" "e_chunk_heap s1 = e_chunk_heap s" "e_task_heap s1 = e_task_heap s" by (simp_all add: old(1))
    have e2: "same_eng s1 s'" unfolding old(2) by (rule same_eng_adjust) (use lk assms(2) 1 in \<open>simp_all add: task_linked_def\<close>)
    have p: "rt_parent (rt s r) = t" using eng_invD(8) [OF assms(1,2)] old(3) by (simp add: task_retries_ok_def)
    have rt': "rt s' = rt s1" "tk s' = tk s" using same_tasks_tk [OF same_tasks_adjust [of s1 io t]] by (simp_all add: old(2) 1)
    show ?thesis
      using eng_inv_same [OF assms(1) same_eng_trans [OF e1 e2]] same_engD [OF same_eng_trans [OF e1 e2]] old(3,4) p rt'
      by (auto simp: old(1))
  next
    case (new s1)
    note f = retry_new_fields [of t "o_id ins" s, folded new(1)]
    have l1: "dom (e_task_heap s1) = dom (e_task_heap s)" using assms(2) f(10) by auto
    have e2: "same_eng s1 s'" unfolding new(2)
      by (rule same_eng_adjust) (use lk assms(2) l1 f in \<open>simp_all add: task_linked_def\<close>)
    have i1: "eng_inv K s1" unfolding new(1) by (rule eng_inv_retry_new [OF assms(1-3) new(4)])
    have rt': "rt s' = rt s1" "tk s' = tk s1" using same_tasks_tk [OF same_tasks_adjust [of s1 io t]] by (simp_all add: new(2))
    show ?thesis
      using eng_inv_same [OF i1 e2] same_engD [OF e2] l1 rt' by (simp add: f new(3))
  qed
  then show "eng_inv K s'" "dom (e_task_heap s') = dom (e_task_heap s)" "e_sched s' = e_sched s" "out_ids s' = out_ids s"
    "rt_parent (rt s' r) = t" "rt_o_ins (rt s' r) = o_id ins"
    "set (tk_retries (tk s' t)) = insert r (set (tk_retries (tk s t)))"
    "u \<noteq> t \<Longrightarrow> tk s' u = tk s u" "tk s' t = (tk s t)\<lparr>tk_retries := tk_retries (tk s' t)\<rparr>"
    "q \<noteq> r \<Longrightarrow> rt s' q = rt s q" "e_tasks_map s' = e_tasks_map s"
    by blast+
  show "r \<in> set (tk_retries (tk s t)) \<Longrightarrow> rt_o_ins (rt s r) = o_id ins"
    using fresh_retry(1) [OF assms(1,2)] by (cases rule: retry_create_old_new [OF assms(4)]) auto
  show "r \<notin> set (tk_retries (tk s t)) \<Longrightarrow> r \<notin># pending (e_sched s)"
    using fresh_retry(2) [OF assms(1)] by (cases rule: retry_create_old_new [OF assms(4)]) auto
qed

subsection \<open>The requests of the scheduler\<close>

lemma eng_inv_sched:
  assumes "eng_inv K s" "sched_inv sc"
    and "\<And>r. r \<in># pending sc \<Longrightarrow> (r \<in># pending (e_sched s) \<or> live s (rt_parent (rt s r)) \<and> r \<in> set (tk_retries (tk s (rt_parent (rt s r))))) \<and>
      count (pending sc) r \<le> 1 + count K' r"
  shows "eng_inv K' (s\<lparr>e_sched := sc\<rparr>)"
proof -
  have "requests_ok K' (s\<lparr>e_sched := sc\<rparr>)"
    using assms(2) assms(3) eng_invD(5) [OF assms(1)] by (auto simp: requests_ok_def)
  moreover have "task_ok (s\<lparr>e_sched := sc\<rparr>) t = task_ok s t" for t
    by (simp add: task_ok_def task_linked_def task_retries_ok_def out_ids_def)
  ultimately show ?thesis
    using assms(1) by (simp add: eng_inv_def task_ids_ok_def outs_ok_def out_ids_def lists_ok_def links_ok_def)
qed

end
