(* ===== verification/Flb_Engine_Tokens.thy ===== *)
theory Flb_Engine_Tokens
  imports Flb_Engine_Inv
begin

text \<open>
  What outputs owe the engine: every flush, queued entry and unhandled event is a token for a task and an
  output. The theory shows that the users of a task cover its tokens and that every operation of
  the dispatch and of the handlers keeps this, so that no token outlives its task.
\<close>


section \<open>Events are packed and unpacked\<close>

lemma bits_u64: "FLB_BITS_U64_HIGH (FLB_BITS_U64_SET a b) = take_bit 32 a" "FLB_BITS_U64_LOW (FLB_BITS_U64_SET a b) = b"
proof -
  have m: "(0xffffffff :: 64 word) = mask 32" by (simp add: mask_eq_exp_minus_1)
  show "FLB_BITS_U64_HIGH (FLB_BITS_U64_SET a b) = take_bit 32 a"
    unfolding FLB_BITS_U64_HIGH_def FLB_BITS_U64_SET_def
    by (rule bit_word_eqI) (auto simp: bit_simps dest: bit_imp_le_length)
  show "FLB_BITS_U64_LOW (FLB_BITS_U64_SET a b) = b"
    unfolding FLB_BITS_U64_LOW_def FLB_BITS_U64_SET_def m
    by (rule bit_word_eqI) (auto simp: bit_simps)
qed

lemma out_event_unpack:
  assumes "ret \<in> {FLB_OK, FLB_RETRY, FLB_ERROR}" "task_id < TASKS_MAP_SIZE" "0 \<le> out" "out < 2 ^ 14"
  shows "FLB_BITS_U64_HIGH (out_event ret task_id out) = FLB_ENGINE_TASK"
    "uint (FLB_TASK_RET (FLB_BITS_U64_LOW (out_event ret task_id out))) = ret"
    "unat (FLB_TASK_ID (FLB_BITS_U64_LOW (out_event ret task_id out))) = task_id"
    "uint (FLB_TASK_OUT (FLB_BITS_U64_LOW (out_event ret task_id out))) = out"
proof -
  have "take_bit 32 FLB_ENGINE_TASK = FLB_ENGINE_TASK" by (simp add: FLB_ENGINE_TASK_def)
  then show "FLB_BITS_U64_HIGH (out_event ret task_id out) = FLB_ENGINE_TASK"
    by (simp add: out_event_def bits_u64)
  have n: "of_int ret < (2 ^ 4 :: 32 word)" using assms(1) by (auto simp: ret_consts)
  have t: "(of_nat task_id :: 32 word) < 2 ^ 14" "unat (of_nat task_id :: 32 word) = task_id"
    using assms(2) by (simp_all add: TASKS_MAP_SIZE_def word_less_nat_alt unat_of_nat)
  have o: "(of_int out :: 32 word) < 2 ^ 14" "uint (of_int out :: 32 word) = out"
    using assms(3,4) by (simp_all add: word_less_def uint_word_of_int)
  note u = task_set_unpack [OF n t(1) o(1)]
  show "uint (FLB_TASK_RET (FLB_BITS_U64_LOW (out_event ret task_id out))) = ret"
    using assms(1) by (auto simp: out_event_def bits_u64 u ret_consts)
  show "unat (FLB_TASK_ID (FLB_BITS_U64_LOW (out_event ret task_id out))) = task_id"
    "uint (FLB_TASK_OUT (FLB_BITS_U64_LOW (out_event ret task_id out))) = out"
    by (simp_all add: out_event_def bits_u64 u t(2) o(2))
qed

section \<open>Tokens\<close>

text \<open>A token is a promise that an output will report on a task: a flush that runs, an entry that waits in
  the queue of the output, or an event that has been written and not been handled. \<open>H\<close> are tokens in the
  hands of the operation that runs. The users of a task cover its tokens.\<close>

definition ev_for :: "nat \<Rightarrow> int \<Rightarrow> 64 word \<Rightarrow> bool" where
  "ev_for i out v \<longleftrightarrow> unat (FLB_TASK_ID (FLB_BITS_U64_LOW v)) = i \<and> uint (FLB_TASK_OUT (FLB_BITS_U64_LOW v)) = out"

definition tok :: "(addr \<times> int) multiset \<Rightarrow> 'c disp \<Rightarrow> addr \<Rightarrow> int \<Rightarrow> nat" where
  "tok H d t out =
     count H (t, out) + length (filter (\<lambda>f. fl_task f = t \<and> fl_out f = out) (d_flushes d)) +
     length (filter (\<lambda>e. qe_task e = t) (pending_of d out)) +
     length (filter (ev_for (tk_id (tk (d_eng d) t)) out) (d_events d))"

definition refs_ok :: "(addr \<times> int) multiset \<Rightarrow> 'c disp \<Rightarrow> bool" where
  "refs_ok H d \<longleftrightarrow>
     (\<forall>p\<in>#H. live (d_eng d) (fst p) \<and> snd p \<in> out_ids (d_eng d)) \<and>
     (\<forall>f\<in>set (d_flushes d). live (d_eng d) (fl_task f) \<and> fl_out f \<in> out_ids (d_eng d)) \<and>
     (\<forall>out. \<forall>e\<in>set (pending_of d out). live (d_eng d) (qe_task e) \<and> out \<in> out_ids (d_eng d) \<and>
        (\<forall>r. qe_retry e = Some r \<longrightarrow> r \<in> set (tk_retries (tk (d_eng d) (qe_task e))) \<and> rt_o_ins (rt (d_eng d) r) = out)) \<and>
     (\<forall>v\<in>set (d_events d). \<exists>t ret out. live (d_eng d) t \<and> out \<in> out_ids (d_eng d) \<and> ret \<in> {FLB_OK, FLB_RETRY, FLB_ERROR} \<and>
        v = out_event ret (tk_id (tk (d_eng d) t)) out)"

text \<open>A task that has not been started has no tokens and no retries, and one route for each of its outputs.\<close>

definition routes_ok :: "'c flb_engine \<Rightarrow> flb_task_route list \<Rightarrow> bool" where
  "routes_ok s rs \<longleftrightarrow> distinct (map tr_out rs) \<and> tr_out ` set rs \<subseteq> out_ids s"

definition tokens_ok :: "(addr \<times> int) multiset \<Rightarrow> addr multiset \<Rightarrow> 'c disp \<Rightarrow> bool" where
  "tokens_ok H K d \<longleftrightarrow> (\<forall>t. live (d_eng d) t \<longrightarrow>
     int (\<Sum>out\<in>out_ids (d_eng d). tok H d t out) \<le> tk_users (tk (d_eng d) t) \<and>
     (\<forall>out. tok H d t out \<le> 1) \<and>
     (\<forall>r\<in>set (tk_retries (tk (d_eng d) t)).
        tok H d t (rt_o_ins (rt (d_eng d) r)) + count (pending (e_sched (d_eng d))) r \<le> 1 + count K r) \<and>
     (tk_status (tk (d_eng d) t) = FLB_TASK_NEW \<longrightarrow> tk_retries (tk (d_eng d) t) = [] \<and> (\<forall>out. tok H d t out = 0) \<and>
        routes_ok (d_eng d) (tk_routes (tk (d_eng d) t))))"

definition disp_inv :: "(addr \<times> int) multiset \<Rightarrow> addr multiset \<Rightarrow> 'c disp \<Rightarrow> bool" where
  "disp_inv H K d \<longleftrightarrow> eng_inv K (d_eng d) \<and> refs_ok H d \<and> tokens_ok H K d"

lemma disp_invD:
  assumes "disp_inv H K d"
  shows "eng_inv K (d_eng d)" "refs_ok H d" "tokens_ok H K d"
  using assms by (simp_all add: disp_inv_def)

lemma tokens_okD:
  assumes "tokens_ok H K d" "live (d_eng d) t"
  shows "int (\<Sum>out\<in>out_ids (d_eng d). tok H d t out) \<le> tk_users (tk (d_eng d) t)" "tok H d t out \<le> 1"
    "r \<in> set (tk_retries (tk (d_eng d) t)) \<Longrightarrow>
       tok H d t (rt_o_ins (rt (d_eng d) r)) + count (pending (e_sched (d_eng d))) r \<le> 1 + count K r"
    "tk_status (tk (d_eng d) t) = FLB_TASK_NEW \<Longrightarrow> tk_retries (tk (d_eng d) t) = [] \<and> tok H d t out = 0 \<and>
       routes_ok (d_eng d) (tk_routes (tk (d_eng d) t))"
  using assms by (auto simp: tokens_ok_def)

lemma finite_outs [simp]: "finite (out_ids s)" by (simp add: out_ids_def)

lemma sum_one_more:
  fixes f g :: "int \<Rightarrow> nat"
  assumes "finite A" "a \<in> A" "\<And>x. f x = g x + (if x = a then 1 else 0)"
  shows "sum f A = sum g A + 1"
  using assms by (simp add: sum.distrib)

lemma routes_ok_cong:
  "map tr_out rs' = map tr_out rs \<Longrightarrow> out_ids s' = out_ids s \<Longrightarrow> routes_ok s' rs' = routes_ok s rs"
  unfolding routes_ok_def list.set_map [symmetric] by simp

text \<open>Tokens that only move or disappear, with the users following them.\<close>

lemma disp_inv_mono:
  assumes "disp_inv H K d" "same_eng (d_eng d) (d_eng d')" "refs_ok H' d'"
    and st: "\<And>t. live (d_eng d) t \<Longrightarrow> tk_status (tk (d_eng d') t) = FLB_TASK_NEW \<Longrightarrow>
      tk_status (tk (d_eng d) t) = FLB_TASK_NEW \<and> map tr_out (tk_routes (tk (d_eng d') t)) = map tr_out (tk_routes (tk (d_eng d) t))"
    and tk: "\<And>t out. live (d_eng d) t \<Longrightarrow> tok H' d' t out \<le> tok H d t out"
    and us: "\<And>t. live (d_eng d) t \<Longrightarrow>
      tk_users (tk (d_eng d) t) - int (\<Sum>out\<in>out_ids (d_eng d). tok H d t out) \<le>
      tk_users (tk (d_eng d') t) - int (\<Sum>out\<in>out_ids (d_eng d). tok H' d' t out)"
  shows "disp_inv H' K d'"
proof -
  note e = same_engD [OF assms(2)]
  have "tokens_ok H' K d'"
    unfolding tokens_ok_def e(1,4-6)
  proof (intro allI impI)
    fix t assume l: "live (d_eng d) t"
    note o = tokens_okD [OF disp_invD(3) [OF assms(1)] l]
    have "tok H' d' t out \<le> 1" for out using o(2) [of out] tk [OF l, of out] by simp
    moreover have "tok H' d' t (rt_o_ins (rt (d_eng d) r)) + count (pending (e_sched (d_eng d))) r \<le> 1 + count K r"
      if "r \<in> set (tk_retries (tk (d_eng d') t))" for r
      using o(3) [of r] tk [OF l, of "rt_o_ins (rt (d_eng d) r)"] that e(3) [OF l] by simp
    moreover have "tk_retries (tk (d_eng d') t) = [] \<and> tok H' d' t out = 0 \<and> routes_ok (d_eng d') (tk_routes (tk (d_eng d') t))"
      if "tk_status (tk (d_eng d') t) = FLB_TASK_NEW" for out
      using o(4) [of out] tk [OF l, of out] that st [OF l that] e(3) [OF l] routes_ok_cong [of _ _ "d_eng d'" "d_eng d"] e(6) by simp
    ultimately show "int (\<Sum>out\<in>out_ids (d_eng d). tok H' d' t out) \<le> tk_users (tk (d_eng d') t) \<and>
      (\<forall>out. tok H' d' t out \<le> 1) \<and>
      (\<forall>r\<in>set (tk_retries (tk (d_eng d') t)).
        tok H' d' t (rt_o_ins (rt (d_eng d) r)) + count (pending (e_sched (d_eng d))) r \<le> 1 + count K r) \<and>
      (tk_status (tk (d_eng d') t) = FLB_TASK_NEW \<longrightarrow> tk_retries (tk (d_eng d') t) = [] \<and> (\<forall>out. tok H' d' t out = 0) \<and>
        routes_ok (d_eng d') (tk_routes (tk (d_eng d') t)))"
      using o(1) us [OF l] by auto
  qed
  then show ?thesis using eng_inv_same [OF disp_invD(1) [OF assms(1)] assms(2)] assms(3) by (simp add: disp_inv_def)
qed

lemma disp_inv_move:
  assumes "disp_inv H K d" "same_eng (d_eng d) (d_eng d')" "refs_ok H' d'"
    and "\<And>t. live (d_eng d) t \<Longrightarrow> tk_status (tk (d_eng d') t) = tk_status (tk (d_eng d) t) \<and>
      tk_routes (tk (d_eng d') t) = tk_routes (tk (d_eng d) t) \<and> tk_users (tk (d_eng d) t) \<le> tk_users (tk (d_eng d') t)"
    and "\<And>t out. live (d_eng d) t \<Longrightarrow> tok H' d' t out = tok H d t out"
  shows "disp_inv H' K d'"
  by (rule disp_inv_mono [OF assms(1-3)]) (use assms(4,5) in auto)

text \<open>References stay valid when the engine changes nothing they read.\<close>

lemma refs_ok_same:
  assumes "refs_ok H d" "same_eng (d_eng d) (d_eng d')"
    and "set_mset H' \<subseteq> set_mset H" "set (d_flushes d') \<subseteq> set (d_flushes d)" "\<And>out. set (pending_of d' out) \<subseteq> set (pending_of d out)"
    "set (d_events d') \<subseteq> set (d_events d)"
  shows "refs_ok H' d'"
proof -
  note e = same_engD [OF assms(2)]
  have "\<exists>t ret out. live (d_eng d) t \<and> out \<in> out_ids (d_eng d) \<and> ret \<in> {FLB_OK, FLB_RETRY, FLB_ERROR} \<and>
      v = out_event ret (tk_id (tk (d_eng d') t)) out" if "v \<in> set (d_events d')" for v
    using assms(1) that assms(6) e(2) unfolding refs_ok_def by (metis (no_types, lifting) subsetD)
  moreover have "live (d_eng d) (qe_task x) \<and> out \<in> out_ids (d_eng d) \<and>
        (\<forall>r. qe_retry x = Some r \<longrightarrow> r \<in> set (tk_retries (tk (d_eng d') (qe_task x))) \<and> rt_o_ins (rt (d_eng d) r) = out)"
    if "x \<in> set (pending_of d' out)" for x out
  proof -
    have "x \<in> set (pending_of d out)" using assms(5) [of out] that by blast
    then have "live (d_eng d) (qe_task x) \<and> out \<in> out_ids (d_eng d) \<and>
        (\<forall>r. qe_retry x = Some r \<longrightarrow> r \<in> set (tk_retries (tk (d_eng d) (qe_task x))) \<and> rt_o_ins (rt (d_eng d) r) = out)"
      using assms(1) unfolding refs_ok_def by blast
    then show ?thesis using e(3) [of "qe_task x"] by simp
  qed
  ultimately show ?thesis using assms(1,3,4) unfolding refs_ok_def e(1,4,6) by blast
qed

subsection \<open>Taking and giving back a token\<close>

lemma tok_hand: "tok (add_mset (t, out) H) d u p = tok H d u p + (if u = t \<and> p = out then 1 else 0)"
  by (simp add: tok_def)

lemma eng_upd_eng [simp]: "d_eng (eng_upd f d) = f (d_eng d)" "d_eng (queue_upd out g d) = d_eng d"
  by (simp_all add: eng_upd_def queue_upd_def)

lemma same_eng_users: "live s t \<Longrightarrow> same_eng s (tk_upd t (\<lambda>x. x\<lparr>tk_users := f x\<rparr>) s)"
  by (rule same_eng_tk_upd) simp_all

lemma tok_users [simp]:
  "tok H (eng_upd (tk_upd t (\<lambda>x. x\<lparr>tk_users := f x\<rparr>)) d) = tok H d"
  "tok H (eng_upd (flb_task_users_inc t) d) = tok H d"
  by (simp_all add: tok_def fun_eq_iff flb_task_users_inc_def)

lemma refs_okD:
  assumes "refs_ok H d"
  shows "p \<in># H \<Longrightarrow> live (d_eng d) (fst p) \<and> snd p \<in> out_ids (d_eng d)"
    "f \<in> set (d_flushes d) \<Longrightarrow> live (d_eng d) (fl_task f) \<and> fl_out f \<in> out_ids (d_eng d)"
    "e \<in> set (pending_of d out) \<Longrightarrow> live (d_eng d) (qe_task e) \<and> out \<in> out_ids (d_eng d)"
    "e \<in> set (pending_of d out) \<Longrightarrow> qe_retry e = Some r \<Longrightarrow>
       r \<in> set (tk_retries (tk (d_eng d) (qe_task e))) \<and> rt_o_ins (rt (d_eng d) r) = out"
  using assms unfolding refs_ok_def by blast+

lemma sum_hand:
  "out \<in> out_ids s \<Longrightarrow> (\<Sum>p\<in>out_ids s. tok (add_mset (t, out) H) d u p) = (\<Sum>p\<in>out_ids s. tok H d u p) + (if u = t then 1 else 0)"
  using sum_one_more [OF finite_outs, of out s "tok (add_mset (t, out) H) d u" "tok H d u"] by (cases "u = t") (simp_all add: tok_hand)

definition may_take :: "(addr \<times> int) multiset \<Rightarrow> addr multiset \<Rightarrow> 'c disp \<Rightarrow> addr \<Rightarrow> int \<Rightarrow> bool" where
  "may_take H K d t out \<longleftrightarrow> live (d_eng d) t \<and> out \<in> out_ids (d_eng d) \<and> tok H d t out = 0 \<and>
     tk_status (tk (d_eng d) t) \<noteq> FLB_TASK_NEW \<and>
     (\<forall>r\<in>set (tk_retries (tk (d_eng d) t)). rt_o_ins (rt (d_eng d) r) = out \<longrightarrow>
        count (pending (e_sched (d_eng d))) r \<le> count K r)"

lemma disp_take:
  assumes "disp_inv H K d" "may_take H K d t out"
  shows "disp_inv (add_mset (t, out) H) K (eng_upd (flb_task_users_inc t) d)"
proof -
  define d' where "d' = eng_upd (flb_task_users_inc t) d"
  have m: "live (d_eng d) t" "out \<in> out_ids (d_eng d)" "tok H d t out = 0" "tk_status (tk (d_eng d) t) \<noteq> FLB_TASK_NEW"
    "\<And>r. r \<in> set (tk_retries (tk (d_eng d) t)) \<Longrightarrow> rt_o_ins (rt (d_eng d) r) = out \<Longrightarrow> count (pending (e_sched (d_eng d))) r \<le> count K r"
    using assms(2) by (auto simp: may_take_def)
  have s: "same_eng (d_eng d) (d_eng d')" using m(1) by (simp add: d'_def flb_task_users_inc_def same_eng_users)
  note e = same_engD [OF s]
  have tk': "tok (add_mset (t, out) H) d' u p = tok H d u p + (if u = t \<and> p = out then 1 else 0)" for u p
    by (simp add: tok_hand d'_def)
  have "refs_ok H d'" by (rule refs_ok_same [OF disp_invD(2) [OF assms(1)] s]) (simp_all add: d'_def)
  then have rf: "refs_ok (add_mset (t, out) H) d'" using m(1,2) e(1,6) by (simp add: refs_ok_def)
  have "tokens_ok (add_mset (t, out) H) K d'"
    unfolding tokens_ok_def e(1,4-6)
  proof (intro allI impI)
    fix u assume l: "live (d_eng d) u"
    note o = tokens_okD [OF disp_invD(3) [OF assms(1)] l]
    have us: "tk_users (tk (d_eng d') u) = tk_users (tk (d_eng d) u) + (if u = t then 1 else 0)"
      "tk_status (tk (d_eng d') u) = tk_status (tk (d_eng d) u)" "tk_routes (tk (d_eng d') u) = tk_routes (tk (d_eng d) u)"
      by (simp_all add: d'_def flb_task_users_inc_def)
    have "(\<Sum>p\<in>out_ids (d_eng d). tok (add_mset (t, out) H) d' u p) = (\<Sum>p\<in>out_ids (d_eng d). tok H d u p) + (if u = t then 1 else 0)"
      using sum_hand [OF m(2), of t H d' u] by (simp add: d'_def)
    then have 1: "int (\<Sum>p\<in>out_ids (d_eng d). tok (add_mset (t, out) H) d' u p) \<le> tk_users (tk (d_eng d') u)"
      using o(1) us(1) by (cases "u = t") simp_all
    have 2: "tok (add_mset (t, out) H) d' u p \<le> 1" for p using o(2) [of p] m(3) by (simp add: tk')
    have 3: "tok (add_mset (t, out) H) d' u (rt_o_ins (rt (d_eng d) r)) + count (pending (e_sched (d_eng d))) r \<le> 1 + count K r"
      if "r \<in> set (tk_retries (tk (d_eng d') u))" for r
      using that o(3) [of r] m(3,5) e(3) [OF l] by (auto simp: tk')
    have 4: "tk_status (tk (d_eng d') u) = FLB_TASK_NEW \<Longrightarrow> tk_retries (tk (d_eng d') u) = [] \<and>
        tok (add_mset (t, out) H) d' u p = 0 \<and> routes_ok (d_eng d') (tk_routes (tk (d_eng d') u))" for p
      using o(4) [of p] m(4) e(3) [OF l] us by (auto simp: tk' routes_ok_def e(6))
    show "int (\<Sum>p\<in>out_ids (d_eng d). tok (add_mset (t, out) H) d' u p) \<le> tk_users (tk (d_eng d') u) \<and>
      (\<forall>p. tok (add_mset (t, out) H) d' u p \<le> 1) \<and>
      (\<forall>r\<in>set (tk_retries (tk (d_eng d') u)).
        tok (add_mset (t, out) H) d' u (rt_o_ins (rt (d_eng d) r)) + count (pending (e_sched (d_eng d))) r \<le> 1 + count K r) \<and>
      (tk_status (tk (d_eng d') u) = FLB_TASK_NEW \<longrightarrow> tk_retries (tk (d_eng d') u) = [] \<and>
        (\<forall>p. tok (add_mset (t, out) H) d' u p = 0) \<and> routes_ok (d_eng d') (tk_routes (tk (d_eng d') u)))"
      using 1 2 3 4 by blast
  qed
  then show ?thesis
    using eng_inv_same [OF disp_invD(1) [OF assms(1)] s] rf by (simp add: disp_inv_def d'_def [symmetric])
qed

lemma hand_live: "disp_inv (add_mset (t, out) H) K d \<Longrightarrow> live (d_eng d) t \<and> out \<in> out_ids (d_eng d)"
  by (simp add: disp_inv_def refs_ok_def)

lemma disp_give_back:
  assumes "disp_inv (add_mset (t, out) H) K d"
  shows "disp_inv H K (eng_upd (tk_upd t (\<lambda>x. x\<lparr>tk_users := tk_users x - 1\<rparr>)) d)"
proof (rule disp_inv_mono [OF assms])
  define d' where "d' = eng_upd (tk_upd t (\<lambda>x. x\<lparr>tk_users := tk_users x - 1\<rparr>)) d"
  show s: "same_eng (d_eng d) (d_eng (eng_upd (tk_upd t (\<lambda>x. x\<lparr>tk_users := tk_users x - 1\<rparr>)) d))"
    using hand_live [OF assms] by (simp add: same_eng_users)
  show "refs_ok H (eng_upd (tk_upd t (\<lambda>x. x\<lparr>tk_users := tk_users x - 1\<rparr>)) d)"
    by (rule refs_ok_same [OF disp_invD(2) [OF assms] s]) auto
  fix u
  show "tok H (eng_upd (tk_upd t (\<lambda>x. x\<lparr>tk_users := tk_users x - 1\<rparr>)) d) u p \<le> tok (add_mset (t, out) H) d u p" for p
    by (simp add: tok_hand)
  have "(\<Sum>p\<in>out_ids (d_eng d). tok (add_mset (t, out) H) d u p) = (\<Sum>p\<in>out_ids (d_eng d). tok H d u p) + (if u = t then 1 else 0)"
    using sum_hand hand_live [OF assms] by blast
  then show "tk_users (tk (d_eng d) u) - int (\<Sum>out'\<in>out_ids (d_eng d). tok (add_mset (t, out) H) d u out') \<le>
      tk_users (tk (d_eng (eng_upd (tk_upd t (\<lambda>x. x\<lparr>tk_users := tk_users x - 1\<rparr>)) d)) u) -
      int (\<Sum>out'\<in>out_ids (d_eng d). tok H (eng_upd (tk_upd t (\<lambda>x. x\<lparr>tk_users := tk_users x - 1\<rparr>)) d) u out')"
    by simp
qed (auto split: if_splits)

subsection \<open>Tokens move\<close>

lemma disp_sent:
  assumes "disp_inv (add_mset (t, out) H) K d"
  shows "disp_inv H K (d\<lparr>d_flushes := d_flushes d @ [\<lparr>fl_task = t, fl_out = out, fl_running = b\<rparr>]\<rparr>)"
  by (rule disp_inv_move [OF assms])
    (use disp_invD(2) [OF assms] in \<open>auto simp: tok_hand refs_ok_def tok_def\<close>)

lemma disp_dequeue:
  assumes "disp_inv H K d" "pending_of d out = e # es"
  shows "disp_inv (add_mset (qe_task e, out) H) K (queue_upd out (\<lambda>q. \<lparr>q_pending = tl (q_pending q), q_in_progress = g q\<rparr>) d)"
proof (rule disp_inv_move [OF assms(1)])
  define d' where "d' = queue_upd out (\<lambda>q. \<lparr>q_pending = tl (q_pending q), q_in_progress = g q\<rparr>) d"
  note r = disp_invD(2) [OF assms(1)]
  have "refs_ok H d'" by (rule refs_ok_same [OF r]) (use assms(2) in \<open>auto simp: d'_def\<close>)
  then show "refs_ok (add_mset (qe_task e, out) H) (queue_upd out (\<lambda>q. \<lparr>q_pending = tl (q_pending q), q_in_progress = g q\<rparr>) d)"
    using refs_okD(3) [OF r, of e out] assms(2) by (simp add: d'_def [symmetric] refs_ok_def) (simp add: d'_def)
qed (use assms(2) in \<open>auto simp: tok_hand tok_def\<close>)

lemma disp_queued:
  assumes "disp_inv (add_mset (t, out) H) K d"
    and "\<And>r. ro = Some r \<Longrightarrow> r \<in> set (tk_retries (tk (d_eng d) t)) \<and> rt_o_ins (rt (d_eng d) r) = out"
  shows "disp_inv H K (queue_upd out (\<lambda>q. q\<lparr>q_pending := mk_list_add \<lparr>qe_task = t, qe_retry = ro\<rparr> (q_pending q)\<rparr>) d)"
proof (rule disp_inv_move [OF assms(1)])
  show "refs_ok H (queue_upd out (\<lambda>q. q\<lparr>q_pending := mk_list_add \<lparr>qe_task = t, qe_retry = ro\<rparr> (q_pending q)\<rparr>) d)"
    using disp_invD(2) [OF assms(1)] assms(2) hand_live [OF assms(1)] unfolding refs_ok_def mk_list_add_def
    by simp
qed (auto simp: tok_hand tok_def mk_list_add_def)

subsection \<open>Destroying a retry and a task\<close>

lemma tok_same_ids: "d_flushes d' = d_flushes d \<Longrightarrow> d_queues d' = d_queues d \<Longrightarrow> d_events d' = d_events d \<Longrightarrow>
    tk_id (tk (d_eng d') t) = tk_id (tk (d_eng d) t) \<Longrightarrow> tok H d' t out = tok H d t out"
  by (simp add: tok_def)

lemma disp_retry_destroy:
  assumes "disp_inv H K d" "live (d_eng d) t" "r \<in> set (tk_retries (tk (d_eng d) t))"
    "count (pending (e_sched (d_eng d))) r \<le> 1"
    "\<And>e. e \<in> set (pending_of d (rt_o_ins (rt (d_eng d) r))) \<Longrightarrow> qe_task e \<noteq> t"
  shows "disp_inv H (K - {#r#}) (eng_upd (flb_task_retry_destroy r) d)"
proof -
  define s s' where "s = d_eng d" and "s' = flb_task_retry_destroy r s"
  define d' where "d' = eng_upd (flb_task_retry_destroy r) d"
  have ds: "d_eng d' = s'" "d_queues d' = d_queues d" "d_flushes d' = d_flushes d" "d_events d' = d_events d"
    by (simp_all add: d'_def s'_def s_def)
  note i = disp_invD [OF assms(1), folded s_def] and a = assms(2-5) [folded s_def]
  note e = eng_inv_retry_destroy [OF i(1) a(1-3), folded s'_def]
  note tr = eng_invD(8) [OF i(1) a(1)]
  note p = retry_destroy_task [OF tr a(2), folded s'_def]
  have tk': "tk s' u = (if u = t then (tk s t)\<lparr>tk_retries := mk_list_del r (tk_retries (tk s t))\<rparr> else tk s u)" for u
    using p(2,3) by simp
  have tkf: "tk_id (tk s' u) = tk_id (tk s u)" "tk_users (tk s' u) = tk_users (tk s u)" "tk_status (tk s' u) = tk_status (tk s u)"
    "tk_routes (tk s' u) = tk_routes (tk s u)" "set (tk_retries (tk s' u)) = set (tk_retries (tk s u)) - (if u = t then {r} else {})" for u
    using p(4) by (simp_all add: tk')
  have tk0: "tok H d' u out = tok H d u out" for u out by (rule tok_same_ids) (simp_all add: ds tkf s_def [symmetric])
  have rt': "rt s' q = rt s q" if "q \<noteq> r" for q using that by (simp add: s'_def rt_destroyed)
  have own: "u = t" if "live s u" "r \<in> set (tk_retries (tk s u))" for u using other_retries [OF i(1) a(1) that(1) _ a(2)] that(2) by blast
  have "refs_ok H d'"
    unfolding refs_ok_def ds e(2,4) tkf(1)
  proof (intro conjI allI ballI impI)
    fix out x assume x: "x \<in> set (pending_of d out)"
    then show "live s (qe_task x)" "out \<in> out_ids s" using refs_okD(3) [OF i(2)] by (auto simp: s_def)
    fix q assume q: "qe_retry x = Some q"
    have "q \<in> set (tk_retries (tk s (qe_task x))) \<and> rt_o_ins (rt s q) = out" using refs_okD(4) [OF i(2) x q] by (simp add: s_def)
    moreover from this have "q \<noteq> r" using own [of "qe_task x"] a(4) x refs_okD(3) [OF i(2) x] by (auto simp: s_def)
    ultimately show "q \<in> set (tk_retries (tk s' (qe_task x)))" "rt_o_ins (rt s' q) = out" using rt' tkf(5) by auto
  qed (use i(2) in \<open>auto simp: refs_ok_def s_def\<close>)
  moreover have "tokens_ok H (K - {#r#}) d'"
    unfolding tokens_ok_def tk0 ds(1) e(2,4) tkf(2,3,4)
  proof (intro allI impI)
    fix u assume l: "live s u"
    note o = tokens_okD [OF i(3), folded s_def, OF l]
    have 1: "tok H d u (rt_o_ins (rt s' q)) + count (pending (e_sched s')) q \<le> 1 + count (K - {#r#}) q"
      if q: "q \<in> set (tk_retries (tk s' u))" for q
    proof -
      have "q \<in> set (tk_retries (tk s u))" "q \<noteq> r" using q tkf(5) [of u] own [OF l] by (auto split: if_splits)
      then show ?thesis using o(3) [of q] rt' by (simp add: e(3))
    qed
    have 2: "tk_retries (tk s' u) = [] \<and> tok H d u out = 0 \<and> routes_ok s' (tk_routes (tk s u))" if "tk_status (tk s u) = FLB_TASK_NEW" for out
      using o(4) [OF that, of out] tkf(5) [of u] by (auto simp: routes_ok_def e(4) split: if_splits)
    show "int (sum (tok H d u) (out_ids s)) \<le> tk_users (tk s u) \<and> (\<forall>out. tok H d u out \<le> 1) \<and>
      (\<forall>q\<in>set (tk_retries (tk s' u)). tok H d u (rt_o_ins (rt s' q)) + count (pending (e_sched s')) q \<le> 1 + count (K - {#r#}) q) \<and>
      (tk_status (tk s u) = FLB_TASK_NEW \<longrightarrow> tk_retries (tk s' u) = [] \<and> (\<forall>out. tok H d u out = 0) \<and> routes_ok s' (tk_routes (tk s u)))"
      using o(1,2) 1 2 by blast
  qed
  ultimately show ?thesis using e(1) by (simp add: disp_inv_def d'_def [symmetric] ds)
qed

text \<open>A task without tokens is not referred to.\<close>

lemma tok_refs:
  assumes "refs_ok H d" "outs_ok (d_eng d)" "task_ids_ok (d_eng d)" "\<forall>out\<in>out_ids (d_eng d). tok H d t out = 0"
  shows "p \<in># H \<Longrightarrow> fst p \<noteq> t" "f \<in> set (d_flushes d) \<Longrightarrow> fl_task f \<noteq> t" "e \<in> set (pending_of d out) \<Longrightarrow> qe_task e \<noteq> t"
    "live (d_eng d) u \<Longrightarrow> out \<in> out_ids (d_eng d) \<Longrightarrow> ret \<in> {FLB_OK, FLB_RETRY, FLB_ERROR} \<Longrightarrow>
       out_event ret (tk_id (tk (d_eng d) u)) out \<in> set (d_events d) \<Longrightarrow> u \<noteq> t"
proof -
  show "fst p \<noteq> t" if "p \<in># H"
    using refs_okD(1) [OF assms(1) that] bspec [OF assms(4), of "snd p"] that by (cases p) (auto simp: tok_def count_eq_zero_iff)
  show "fl_task f \<noteq> t" if "f \<in> set (d_flushes d)"
    using refs_okD(2) [OF assms(1) that] bspec [OF assms(4), of "fl_out f"] that by (auto simp: tok_def filter_empty_conv)
  show "qe_task e \<noteq> t" if "e \<in> set (pending_of d out)"
    using refs_okD(3) [OF assms(1) that] bspec [OF assms(4), of out] that by (auto simp: tok_def filter_empty_conv)
  show "u \<noteq> t" if "live (d_eng d) u" "out \<in> out_ids (d_eng d)" "ret \<in> {FLB_OK, FLB_RETRY, FLB_ERROR}"
      "out_event ret (tk_id (tk (d_eng d) u)) out \<in> set (d_events d)"
  proof
    assume "u = t"
    have "tk_id (tk (d_eng d) u) < TASKS_MAP_SIZE" "0 \<le> out" "out < 2 ^ 14"
      using assms(2,3) that(1,2) by (auto simp: task_ids_ok_def outs_ok_def)
    from out_event_unpack(3,4) [OF that(3) this] show False
      using bspec [OF assms(4) that(2)] that(4) \<open>u = t\<close> by (auto simp: tok_def filter_empty_conv ev_for_def)
  qed
qed

lemma disp_task_destroy:
  assumes "disp_inv H K d" "live (d_eng d) t" "\<forall>out\<in>out_ids (d_eng d). tok H d t out = 0"
    "\<forall>r\<in>set (tk_retries (tk (d_eng d) t)). r \<notin># K"
  shows "disp_inv H K (eng_upd (flb_task_destroy io Hf t del) d)"
proof -
  define s s' where "s = d_eng d" and "s' = flb_task_destroy io Hf t del s"
  define d' where "d' = eng_upd (flb_task_destroy io Hf t del) d"
  have ds: "d_eng d' = s'" "d_queues d' = d_queues d" "d_flushes d' = d_flushes d" "d_events d' = d_events d"
    by (simp_all add: d'_def s'_def s_def)
  note i = disp_invD [OF assms(1), folded s_def]
  note e = eng_inv_task_destroy [OF i(1) assms(2,4) [folded s_def] s'_def]
  have tk': "tk s' u = tk s u" if "u \<noteq> t" for u using that by (simp add: tk_def e(2))
  have lv: "live s' u \<longleftrightarrow> live s u \<and> u \<noteq> t" for u by (auto simp: e(2))
  have tk0: "tok H d' u out = tok H d u out" if "u \<noteq> t" for u out by (rule tok_same_ids) (simp_all add: ds tk' [OF that] s_def [symmetric])
  note n = tok_refs [OF i(2), folded s_def, OF eng_invD(2,1) [OF i(1)] assms(3) [folded s_def]]
  have "refs_ok H d'"
    unfolding refs_ok_def ds e(3)
  proof (intro conjI allI ballI impI)
    fix out x assume x: "x \<in> set (pending_of d out)"
    then show 1: "live s' (qe_task x)" "out \<in> out_ids s" using refs_okD(3) [OF i(2) x] n(3) [OF x] by (auto simp: s_def [symmetric] lv)
    fix q assume q: "qe_retry x = Some q"
    have "q \<in> set (tk_retries (tk s (qe_task x)))" "rt_o_ins (rt s q) = out" using refs_okD(4) [OF i(2) x q] by (simp_all add: s_def)
    then show "q \<in> set (tk_retries (tk s' (qe_task x)))" "rt_o_ins (rt s' q) = out"
      using e(4) [of "qe_task x" q] 1(1) by (simp_all add: lv tk')
  next
    fix v assume v: "v \<in> set (d_events d)"
    then obtain u ret out where u: "live s u" "out \<in> out_ids s" "ret \<in> {FLB_OK, FLB_RETRY, FLB_ERROR}" "v = out_event ret (tk_id (tk s u)) out"
      using i(2) unfolding refs_ok_def s_def by blast
    have "u \<noteq> t" using n(4) u v by blast
    then show "\<exists>u ret out. live s' u \<and> out \<in> out_ids s \<and> ret \<in> {FLB_OK, FLB_RETRY, FLB_ERROR} \<and> v = out_event ret (tk_id (tk s' u)) out"
      using u lv tk' by metis
  qed (use refs_okD(1,2) [OF i(2), folded s_def] n(1,2) lv in blast)+
  moreover have "tokens_ok H K d'"
    unfolding tokens_ok_def ds(1) e(3)
  proof (intro allI impI)
    fix u assume "live s' u"
    then have l: "live s u" "u \<noteq> t" using lv by auto
    note o = tokens_okD [OF i(3), folded s_def, OF l(1)]
    have "\<forall>q\<in>set (tk_retries (tk s u)). tok H d u (rt_o_ins (rt s' q)) + count (pending (e_sched s')) q \<le> 1 + count K q"
      using e(4) [OF l(2,1)] o(3) by simp
    then show "int (sum (tok H d' u) (out_ids s)) \<le> tk_users (tk s' u) \<and> (\<forall>out. tok H d' u out \<le> 1) \<and>
      (\<forall>q\<in>set (tk_retries (tk s' u)). tok H d' u (rt_o_ins (rt s' q)) + count (pending (e_sched s')) q \<le> 1 + count K q) \<and>
      (tk_status (tk s' u) = FLB_TASK_NEW \<longrightarrow> tk_retries (tk s' u) = [] \<and> (\<forall>out. tok H d' u out = 0) \<and> routes_ok s' (tk_routes (tk s' u)))"
      using o(1,2,4) by (simp add: tk0 [OF l(2)] tk' [OF l(2)] routes_ok_def e(3))
  qed
  ultimately show ?thesis using e(1) by (simp add: disp_inv_def d'_def [symmetric] ds)
qed

section \<open>Flushing retries_kept out the invariant\<close>

lemma flush_try_inv:
  assumes "disp_inv H K d" "may_take H K d t out" "flush_try env t out d = (ret, nx, d')"
  shows "disp_inv H K d'"
  using assms(3) disp_sent [OF disp_take [OF assms(1,2)], of False] disp_give_back [OF disp_take [OF assms(1,2)]] assms(1)
  by (auto simp: flush_try_def Let_def split: if_splits)

text \<open>What a flush for an output leaves alone: the tokens of other outputs, and of the tasks all but users
  and retries.\<close>

definition flush_frame :: "int \<Rightarrow> 'c disp \<Rightarrow> 'c disp \<Rightarrow> bool" where
  "flush_frame out d d' \<longleftrightarrow>
     (\<forall>p. p \<noteq> out \<longrightarrow> pending_of d' p = pending_of d p \<and> q_in_progress (d_queues d' p) = q_in_progress (d_queues d p) \<and>
        filter (\<lambda>f. fl_out f = p) (d_flushes d') = filter (\<lambda>f. fl_out f = p) (d_flushes d)) \<and>
     d_events d' = d_events d \<and> d_metrics d' = d_metrics d \<and>
     (\<forall>t. live (d_eng d) t \<longrightarrow> live (d_eng d') t \<and>
        tk_id (tk (d_eng d') t) = tk_id (tk (d_eng d) t) \<and> tk_status (tk (d_eng d') t) = tk_status (tk (d_eng d) t) \<and>
        tk_routes (tk (d_eng d') t) = tk_routes (tk (d_eng d) t) \<and>
        tk_records (tk (d_eng d') t) = tk_records (tk (d_eng d) t) \<and>
        set (tk_retries (tk (d_eng d') t)) \<subseteq> set (tk_retries (tk (d_eng d) t))) \<and>
     e_outputs (d_eng d') = e_outputs (d_eng d) \<and> e_inputs (d_eng d') = e_inputs (d_eng d) \<and>
     e_tasks_map (d_eng d') = e_tasks_map (d_eng d)"

lemma flush_frame_refl [simp]: "flush_frame out d d"
  by (simp add: flush_frame_def)

lemma flush_frame_trans:
  assumes "flush_frame out d d'" "flush_frame out d' d''"
  shows "flush_frame out d d''"
  unfolding flush_frame_def
proof (intro conjI allI impI)
  fix t assume "live (d_eng d) t"
  then have 1: "live (d_eng d') t" "set (tk_retries (tk (d_eng d') t)) \<subseteq> set (tk_retries (tk (d_eng d) t))"
    using assms(1) by (simp_all add: flush_frame_def)
  have "set (tk_retries (tk (d_eng d'') t)) \<subseteq> set (tk_retries (tk (d_eng d') t))" using assms(2) 1(1) by (simp add: flush_frame_def)
  then show "set (tk_retries (tk (d_eng d'') t)) \<subseteq> set (tk_retries (tk (d_eng d) t))" using 1(2) by blast
qed (use assms in \<open>simp_all add: flush_frame_def\<close>)

lemma flush_frame_tok:
  assumes "flush_frame out d d'" "live (d_eng d) t" "p \<noteq> out"
  shows "tok H d' t p = tok H d t p"
proof -
  have *: "filter (\<lambda>f. fl_task f = t \<and> fl_out f = p) xs = filter (\<lambda>f. fl_task f = t) (filter (\<lambda>f. fl_out f = p) xs)" for xs
    by (simp add: conj_commute)
  have "pending_of d' p = pending_of d p" "filter (\<lambda>f. fl_out f = p) (d_flushes d') = filter (\<lambda>f. fl_out f = p) (d_flushes d)"
    "d_events d' = d_events d" "tk_id (tk (d_eng d') t) = tk_id (tk (d_eng d) t)"
    using assms by (simp_all add: flush_frame_def)
  then show ?thesis unfolding tok_def * by simp
qed

lemma flush_frame_tk_upd:
  assumes "\<And>x. tk_id (f x) = tk_id x" "\<And>x. tk_status (f x) = tk_status x" "\<And>x. tk_routes (f x) = tk_routes x"
    "\<And>x. tk_records (f x) = tk_records x" "\<And>x. tk_retries (f x) = tk_retries x"
  shows "flush_frame out d (eng_upd (tk_upd t f) d)"
  using assms by (auto simp: flush_frame_def)

lemma flush_frame_queue: "flush_frame out d (queue_upd out g d)"
  by (simp add: flush_frame_def)

lemma flush_try_frame: "flush_try env t out d = (ret, nx, d') \<Longrightarrow> flush_frame out d d'"
  by (auto simp: flush_try_def Let_def flush_frame_def flb_task_users_inc_def split: if_splits)

lemma retry_drop_frame: "flush_frame out d (retry_drop e d)"
  by (auto simp: flush_frame_def retry_drop_def retry_destroy_fields mk_list_del_def split: option.splits dest: subsetD [OF set_remove1_subset])

lemma queue_start_frame: "flush_frame out d (queue_start out e d)"
  unfolding queue_start_def by (rule flush_frame_trans [OF flush_frame_queue flush_frame_tk_upd]) simp_all

lemma flush_next_frame: "flush_frame out d (snd (flb_output_task_singleplex_flush_next env out d))"
proof (induction env out d rule: flb_output_task_singleplex_flush_next.induct)
  case (1 env out d)
  define d1 where "d1 = queue_upd out queue_ended d"
  have f1: "flush_frame out d d1" by (simp add: d1_def flush_frame_queue)
  show ?case
  proof (cases "pending_of d1 out")
    case Nil
    then show ?thesis using f1 by (simp add: flb_output_task_singleplex_flush_next.simps [of env out d] Let_def d1_def)
  next
    case (Cons e es)
    obtain ret nx d2 where ft: "flush_try env (qe_task e) out (queue_start out e d1) = (ret, nx, d2)" by (metis prod_cases3)
    define d3 where "d3 = (if nx \<and> is_sync d2 out then snd (flb_output_task_singleplex_flush_next env out d2) else d2)"
    have f2: "flush_frame out d d2"
      by (rule flush_frame_trans [OF f1 flush_frame_trans [OF queue_start_frame flush_try_frame [OF ft]]])
    have "flush_frame out d2 d3" using 1(1) [OF d1_def Cons ft [symmetric] refl] by (simp add: d3_def)
    then have f3: "flush_frame out d d3" by (rule flush_frame_trans [OF f2])
    have f4: "flush_frame out d (snd (flb_output_task_singleplex_flush_next env out (retry_drop e d3)))" if "ret = -1"
      by (rule flush_frame_trans [OF flush_frame_trans [OF f3 retry_drop_frame] 1(2) [OF d1_def Cons ft [symmetric] refl d3_def that]])
    show ?thesis
      using f3 f4 Cons
      by (simp add: flb_output_task_singleplex_flush_next.simps [of env out d] Let_def d1_def [symmetric] ft d3_def [symmetric])
  qed
qed

text \<open>Nothing waits unless something runs.\<close>

definition queue_ok :: "'c disp \<Rightarrow> int \<Rightarrow> bool" where
  "queue_ok d out \<longleftrightarrow> (q_in_progress (d_queues d out) = [] \<longrightarrow> pending_of d out = [])"

lemma flush_next_queue_ok: "queue_ok (snd (flb_output_task_singleplex_flush_next env out d)) out"
proof (induction env out d rule: flb_output_task_singleplex_flush_next.induct)
  case (1 env out d)
  define d1 where "d1 = queue_upd out queue_ended d"
  show ?case
  proof (cases "pending_of d1 out")
    case Nil
    then show ?thesis by (simp add: flb_output_task_singleplex_flush_next.simps [of env out d] Let_def d1_def queue_ok_def)
  next
    case (Cons e es)
    obtain ret nx d2 where ft: "flush_try env (qe_task e) out (queue_start out e d1) = (ret, nx, d2)" by (metis prod_cases3)
    define d3 where "d3 = (if nx \<and> is_sync d2 out then snd (flb_output_task_singleplex_flush_next env out d2) else d2)"
    have "queue_ok d2 out" using flush_try_queues [OF ft [symmetric]] by (simp add: queue_ok_def)
    then have "queue_ok d3 out" using 1(1) [OF d1_def Cons ft [symmetric] refl] by (simp add: d3_def)
    moreover have "queue_ok (snd (flb_output_task_singleplex_flush_next env out (retry_drop e d3))) out" if "ret = -1"
      by (rule 1(2) [OF d1_def Cons ft [symmetric] refl d3_def that])
    ultimately show ?thesis
      using Cons by (simp add: flb_output_task_singleplex_flush_next.simps [of env out d] Let_def d1_def [symmetric] ft d3_def [symmetric])
  qed
qed

lemma disp_ended: "disp_inv H K d \<Longrightarrow> disp_inv H K (queue_upd out queue_ended d)"
  by (rule disp_inv_move, assumption) (auto simp: tok_def refs_ok_def queue_ended_def disp_inv_def split: list.splits)

lemma disp_queue_start:
  assumes "disp_inv H K d" "pending_of d out = e # es"
  shows "disp_inv H K (queue_start out e d)" "may_take H K (queue_start out e d) (qe_task e) out"
    "\<And>x. x \<in> set es \<Longrightarrow> qe_task x \<noteq> qe_task e"
proof -
  define t where "t = qe_task e"
  define s where "s = d_eng d"
  define d' where "d' = queue_start out e d"
  show inv: "disp_inv H K (queue_start out e d)"
    unfolding queue_start_def by (rule disp_give_back [OF disp_dequeue [OF assms]])
  have l: "live s t" "out \<in> out_ids s" using refs_okD(3) [OF disp_invD(2) [OF assms(1)], of e out] assms(2) by (simp_all add: s_def t_def)
  note o = tokens_okD [OF disp_invD(3) [OF assms(1)], folded s_def, OF l(1)]
  have t1: "tok H d t out = Suc (tok H d' t out)"
    using assms(2) by (simp add: tok_def d'_def t_def) (simp add: queue_start_def)
  then have "length (filter (\<lambda>x. qe_task x = t) (pending_of d out)) \<le> 1" using o(2) [of out] by (simp add: tok_def)
  then show "qe_task x \<noteq> qe_task e" if "x \<in> set es" for x using assms(2) that by (auto simp: t_def filter_empty_conv)
  have s': "d_eng d' = tk_upd t (\<lambda>x. x\<lparr>tk_users := tk_users x - 1\<rparr>) s" by (simp add: d'_def queue_start_def t_def s_def)
  have st: "tk_status (tk s t) \<noteq> FLB_TASK_NEW" using o(4) [of out] t1 by auto
  have "count (pending (e_sched s)) r \<le> count K r" if "r \<in> set (tk_retries (tk s t))" "rt_o_ins (rt s r) = out" for r
    using o(3) [OF that(1)] t1 that(2) by simp
  moreover have "tok H d' t out = 0" using o(2) [of out] t1 by simp
  ultimately have "may_take H K d' t out"
    using l st unfolding may_take_def s' by (simp add: out_ids_def)
  then show "may_take H K (queue_start out e d) (qe_task e) out" by (simp add: d'_def t_def)
qed

lemma retry_drop_inv:
  assumes "disp_inv H {#} d" "live (d_eng d) (qe_task e)"
    "\<forall>r. qe_retry e = Some r \<longrightarrow> r \<in> set (tk_retries (tk (d_eng d) (qe_task e))) \<and> rt_o_ins (rt (d_eng d) r) = out"
    "\<forall>x\<in>set (pending_of d out). qe_task x \<noteq> qe_task e"
  shows "disp_inv H {#} (retry_drop e d)"
    "live (d_eng d) t \<Longrightarrow> t \<noteq> qe_task e \<Longrightarrow> r \<in> set (tk_retries (tk (d_eng d) t)) \<Longrightarrow>
       r \<in> set (tk_retries (tk (d_eng (retry_drop e d)) t)) \<and> rt (d_eng (retry_drop e d)) r = rt (d_eng d) r"
proof -
  have c: "count (pending (e_sched (d_eng d))) r \<le> 1" if "qe_retry e = Some r" for r
    using tokens_okD(3) [OF disp_invD(3) [OF assms(1)] assms(2), of r] assms(3) that by simp
  show "disp_inv H {#} (retry_drop e d)"
  proof (cases "qe_retry e")
    case (Some r)
    have "disp_inv H ({#} - {#r#}) (eng_upd (flb_task_retry_destroy r) d)"
      by (rule disp_retry_destroy [OF assms(1,2)]) (use assms(3,4) c Some in auto)
    then show ?thesis using Some by (simp add: retry_drop_def)
  qed (use assms(1) in \<open>simp add: retry_drop_def\<close>)
  show "r \<in> set (tk_retries (tk (d_eng (retry_drop e d)) t)) \<and> rt (d_eng (retry_drop e d)) r = rt (d_eng d) r"
    if "live (d_eng d) t" "t \<noteq> qe_task e" "r \<in> set (tk_retries (tk (d_eng d) t))"
  proof (cases "qe_retry e")
    case (Some q)
    have q: "q \<in> set (tk_retries (tk (d_eng d) (qe_task e)))" using assms(3) Some by simp
    have "q \<noteq> r" using other_retries [OF disp_invD(1) [OF assms(1)] that(1) assms(2) that(2,3)] q by auto
    moreover have "rt_parent (rt (d_eng d) q) = qe_task e"
      by (rule retry_destroy_task(1) [OF eng_invD(8) [OF disp_invD(1) [OF assms(1)] assms(2)] q])
    ultimately show ?thesis using Some that by (simp add: retry_drop_def retry_destroy_fields rt_destroyed)
  qed (use that in \<open>simp add: retry_drop_def\<close>)
qed

text \<open>A flush drops the retries of the entries it takes from the queue, no others.\<close>

definition retries_kept :: "int \<Rightarrow> 'c disp \<Rightarrow> 'c disp \<Rightarrow> bool" where
  "retries_kept out d d' \<longleftrightarrow> (\<forall>t r. live (d_eng d) t \<longrightarrow> r \<in> set (tk_retries (tk (d_eng d) t)) \<longrightarrow>
     (\<forall>x\<in>set (pending_of d out). qe_task x \<noteq> t) \<longrightarrow>
     r \<in> set (tk_retries (tk (d_eng d') t)) \<and> rt (d_eng d') r = rt (d_eng d) r)"

lemma retries_keptD:
  assumes "retries_kept out d d'" "live (d_eng d) t" "r \<in> set (tk_retries (tk (d_eng d) t))" "\<forall>x\<in>set (pending_of d out). qe_task x \<noteq> t"
  shows "r \<in> set (tk_retries (tk (d_eng d') t))" "rt (d_eng d') r = rt (d_eng d) r"
  using assms by (simp_all add: retries_kept_def)

lemma retries_kept_drop:
  assumes "retries_kept out d d3" "retries_kept out (retry_drop e d3) d5" "pending_of d out = e # es" "set (pending_of d3 out) \<subseteq> set es"
    and l3: "\<And>u. live (d_eng d) u \<Longrightarrow> live (d_eng d3) u"
    and rd: "\<And>u r. live (d_eng d3) u \<Longrightarrow> u \<noteq> qe_task e \<Longrightarrow> r \<in> set (tk_retries (tk (d_eng d3) u)) \<Longrightarrow>
      r \<in> set (tk_retries (tk (d_eng (retry_drop e d3)) u)) \<and> rt (d_eng (retry_drop e d3)) r = rt (d_eng d3) r"
  shows "retries_kept out d d5"
  unfolding retries_kept_def
proof (intro allI impI)
  fix u r assume u: "live (d_eng d) u" "r \<in> set (tk_retries (tk (d_eng d) u))" "\<forall>x\<in>set (pending_of d out). qe_task x \<noteq> u"
  have ne: "u \<noteq> qe_task e" "\<forall>x\<in>set es. qe_task x \<noteq> u" using u(3) assms(3) by auto
  note k = retries_keptD [OF assms(1) u]
  have r4: "r \<in> set (tk_retries (tk (d_eng (retry_drop e d3)) u))" "rt (d_eng (retry_drop e d3)) r = rt (d_eng d) r"
    using rd [OF l3 [OF u(1)] ne(1) k(1)] k(2) by simp_all
  have "live (d_eng (retry_drop e d3)) u" using retry_drop_frame [of out d3 e] l3 [OF u(1)] by (simp add: flush_frame_def)
  then show "r \<in> set (tk_retries (tk (d_eng d5) u)) \<and> rt (d_eng d5) r = rt (d_eng d) r"
    using retries_keptD [OF assms(2) _ r4(1)] r4(2) ne(2) assms(4) by (metis pending_frame(2) subsetD)
qed

lemma flush_next_inv:
  assumes "disp_inv H {#} d"
  shows "disp_inv H {#} (snd (flb_output_task_singleplex_flush_next env out d)) \<and>
    retries_kept out d (snd (flb_output_task_singleplex_flush_next env out d))"
  using assms
proof (induction env out d rule: flb_output_task_singleplex_flush_next.induct)
  case (1 env out d)
  define d1 where "d1 = queue_upd out queue_ended d"
  note i1 = disp_ended [OF 1(3), of out, folded d1_def]
  show ?case
  proof (cases "pending_of d1 out")
    case Nil
    then show ?thesis using i1
      by (simp add: flb_output_task_singleplex_flush_next.simps [of env out d] Let_def d1_def retries_kept_def)
  next
    case (Cons e es)
    define t where "t = qe_task e"
    obtain ret nx d2 where ft: "flush_try env (qe_task e) out (queue_start out e d1) = (ret, nx, d2)" by (metis prod_cases3)
    define d3 where "d3 = (if nx \<and> is_sync d2 out then snd (flb_output_task_singleplex_flush_next env out d2) else d2)"
    note qs = disp_queue_start [OF i1 Cons]
    have p2: "pending_of d2 out = es" using flush_try_queues [OF ft [symmetric]] Cons by simp
    have i2: "disp_inv H {#} d2" by (rule flush_try_inv [OF qs(1,2) ft])
    have e2: "rt (d_eng d2) = rt (d_eng d)" "tk_retries (tk (d_eng d2) u) = tk_retries (tk (d_eng d) u)"
        "live (d_eng d) u \<Longrightarrow> live (d_eng d2) u" for u
      using ft by (auto simp: flush_try_def Let_def queue_start_def d1_def flb_task_users_inc_def split: if_splits)
    have 3: "disp_inv H {#} d3 \<and> retries_kept out d2 d3"
      using i2 1(1) [OF d1_def Cons ft [symmetric] refl _ i2] unfolding retries_kept_def by (simp add: d3_def)
    have lt: "live (d_eng d1) t" "live (d_eng d2) t" using qs(2) refs_okD(3) [OF disp_invD(2) [OF i1], of e out] Cons e2(3) [of t]
      by (auto simp: t_def d1_def)
    have lt3: "live (d_eng d3) u" if "live (d_eng d2) u" for u
      using that flush_next_frame [of out d2 env] by (simp add: d3_def flush_frame_def)
    have p3: "set (pending_of d3 out) \<subseteq> set es"
      using flush_next_suffix [of env out d2] p2 set_drop_subset by (auto simp: d3_def dest!: in_set_dropD)
    have er: "\<forall>r. qe_retry e = Some r \<longrightarrow> r \<in> set (tk_retries (tk (d_eng d3) (qe_task e))) \<and> rt_o_ins (rt (d_eng d3) r) = out"
    proof (intro allI impI)
      fix r assume "qe_retry e = Some r"
      then have "r \<in> set (tk_retries (tk (d_eng d2) t)) \<and> rt_o_ins (rt (d_eng d2) r) = out"
        using refs_okD(4) [OF disp_invD(2) [OF i1], of e out r] Cons e2 by (simp add: t_def d1_def)
      then show "r \<in> set (tk_retries (tk (d_eng d3) (qe_task e))) \<and> rt_o_ins (rt (d_eng d3) r) = out"
        using 3 lt(2) qs(3) p2 by (simp add: retries_kept_def t_def)
    qed
    have p3e: "\<forall>x\<in>set (pending_of d3 out). qe_task x \<noteq> qe_task e" using p3 qs(3) by blast
    note rd = retry_drop_inv [OF conjunct1 [OF 3] lt3 [OF lt(2), unfolded t_def] er p3e]
    have k23: "retries_kept out d d3" unfolding retries_kept_def
    proof (intro allI impI)
      fix u r assume u: "live (d_eng d) u" "r \<in> set (tk_retries (tk (d_eng d) u))" "\<forall>x\<in>set (pending_of d out). qe_task x \<noteq> u"
      have "\<forall>x\<in>set (pending_of d2 out). qe_task x \<noteq> u" using u(3) Cons p2 by (simp add: d1_def)
      then show "r \<in> set (tk_retries (tk (d_eng d3) u)) \<and> rt (d_eng d3) r = rt (d_eng d) r"
        using 3 u e2 unfolding retries_kept_def by metis
    qed
    show ?thesis
    proof (cases "ret = -1")
      case False
      then show ?thesis using 3 k23 Cons unfolding retries_kept_def
        by (simp add: flb_output_task_singleplex_flush_next.simps [of env out d] Let_def d1_def [symmetric] ft d3_def [symmetric])
    next
      case True
      define d5 where "d5 = snd (flb_output_task_singleplex_flush_next env out (retry_drop e d3))"
      have i4: "disp_inv H {#} (retry_drop e d3)" by (rule rd(1))
      have 5: "disp_inv H {#} d5 \<and> retries_kept out (retry_drop e d3) d5"
        using 1(2) [OF d1_def Cons ft [symmetric] refl d3_def True i4] unfolding retries_kept_def d5_def .
      have "retries_kept out d d5"
        by (rule retries_kept_drop [OF k23 conjunct2 [OF 5] _ p3]) (use Cons rd(2) lt3 e2(3) in \<open>simp_all add: d1_def\<close>)
      then show ?thesis using 5 Cons True unfolding retries_kept_def d5_def
        by (simp add: flb_output_task_singleplex_flush_next.simps [of env out d] Let_def d1_def [symmetric] ft d3_def [symmetric])
    qed
  qed
qed

end
