(* ===== verification/Flb_Engine_Handlers.thy ===== *)
theory Flb_Engine_Handlers
  imports Flb_Engine_Tokens
begin

text \<open>
  The handlers keep the invariant: handing a task to an output, the dispatch of a retry, the handler
  of the events outputs send and the dispatch of a timer.
\<close>


subsection \<open>Handing a task to an output\<close>

lemma task_flush_inv:
  assumes "disp_inv H {#} d" "may_take H {#} d t out"
  shows "disp_inv H {#} (snd (flb_output_task_flush env t out d))"
proof -
  obtain ret nx d1 where ft: "flush_try env t out d = (ret, nx, d1)" by (metis prod_cases3)
  have "disp_inv H {#} d1" by (rule flush_try_inv [OF assms ft])
  then show ?thesis using flush_next_inv [of H d1 env out] by (simp add: flb_output_task_flush_def ft)
qed

lemma disp_forget:
  assumes "disp_inv (add_mset p H) K d"
  shows "disp_inv H K d"
proof (rule disp_inv_mono [OF assms same_eng_refl])
  show "refs_ok H d" using disp_invD(2) [OF assms] by (simp add: refs_ok_def)
  fix t
  have le: "tok H d t out \<le> tok (add_mset p H) d t out" for out by (cases p) (simp add: tok_hand)
  show "tok H d t out \<le> tok (add_mset p H) d t out" for out by (rule le)
  show "tk_users (tk (d_eng d) t) - int (\<Sum>out\<in>out_ids (d_eng d). tok (add_mset p H) d t out) \<le>
      tk_users (tk (d_eng d) t) - int (\<Sum>out\<in>out_ids (d_eng d). tok H d t out)"
    using le by (simp add: sum_mono)
qed simp_all

definition enqueued :: "addr option \<Rightarrow> addr \<Rightarrow> int \<Rightarrow> 'c disp \<Rightarrow> 'c disp" where
  "enqueued r t out d = queue_upd out (\<lambda>q. q\<lparr>q_pending := mk_list_add \<lparr>qe_task = t, qe_retry = r\<rparr> (q_pending q)\<rparr>)
     (eng_upd (flb_task_users_inc t) d)"

lemma enqueue_unfold:
  "flb_output_task_singleplex_enqueue env ro t out d =
     (if \<not> f_queue_ok env t out
      then (-1, case ro of None \<Rightarrow> eng_upd (flb_task_users_inc t) d
                | Some r \<Rightarrow> eng_upd (flb_task_retry_destroy r) (eng_upd (flb_task_users_inc t) d))
      else if q_in_progress (d_queues d out) = [] then flb_output_task_queue_flush_one env out (enqueued ro t out d)
      else (0, enqueued ro t out d))"
  by (simp add: flb_output_task_singleplex_enqueue_def flb_output_task_queue_enqueue_def enqueued_def)

lemma enqueued_pending: "pending_of (enqueued r t out d) out = pending_of d out @ [\<lparr>qe_task = t, qe_retry = r\<rparr>]"
  "q_in_progress (d_queues (enqueued r t out d) p) = q_in_progress (d_queues d p)"
  by (simp_all add: enqueued_def mk_list_add_def)

lemma enqueued_inv:
  assumes "disp_inv H K d" "may_take H K d t out"
    "\<And>r. ro = Some r \<Longrightarrow> r \<in> set (tk_retries (tk (d_eng d) t)) \<and> rt_o_ins (rt (d_eng d) r) = out"
  shows "disp_inv H K (enqueued ro t out d)"
  unfolding enqueued_def by (rule disp_queued [OF disp_take [OF assms(1,2)]]) (use assms(3) in \<open>auto simp: flb_task_users_inc_def\<close>)

lemma enqueued_frame: "flush_frame out d (enqueued ro t out d)"
  unfolding enqueued_def flb_task_users_inc_def [abs_def] by (rule flush_frame_trans [OF flush_frame_tk_upd flush_frame_queue]) simp_all

lemma flush_one_nonempty:
  assumes "pending_of d out \<noteq> []" "q_in_progress (d_queues d out) = []"
  shows "flb_output_task_queue_flush_one env out d = flb_output_task_singleplex_flush_next env out d"
  by (rule flush_one_eq [OF assms(2,1)])

lemma enqueue_inv:
  assumes "disp_inv H {#} d" "may_take H {#} d t out"
  shows "disp_inv H {#} (snd (flb_output_task_singleplex_enqueue env None t out d))"
    "flush_frame out d (snd (flb_output_task_singleplex_enqueue env None t out d))"
    "queue_ok d out \<Longrightarrow> queue_ok (snd (flb_output_task_singleplex_enqueue env None t out d)) out"
proof -
  have e: "disp_inv H {#} (enqueued None t out d)" by (rule enqueued_inv [OF assms]) simp
  have f: "flb_output_task_queue_flush_one env out (enqueued None t out d) = flb_output_task_singleplex_flush_next env out (enqueued None t out d)"
    if "q_in_progress (d_queues d out) = []" by (rule flush_one_nonempty) (use that in \<open>simp_all add: enqueued_pending\<close>)
  show "disp_inv H {#} (snd (flb_output_task_singleplex_enqueue env None t out d))"
    using disp_forget [OF disp_take [OF assms]] e flush_next_inv [OF e, of env out] f by (simp add: enqueue_unfold)
  have "flush_frame out d (eng_upd (flb_task_users_inc t) d)"
    unfolding flb_task_users_inc_def [abs_def] by (rule flush_frame_tk_upd) simp_all
  then show "flush_frame out d (snd (flb_output_task_singleplex_enqueue env None t out d))"
    using enqueued_frame [of out d None t] flush_frame_trans [OF enqueued_frame [of out d None t] flush_next_frame [of _ _ env]] f
    by (simp add: enqueue_unfold)
  show "queue_ok d out \<Longrightarrow> queue_ok (snd (flb_output_task_singleplex_enqueue env None t out d)) out"
    using flush_next_queue_ok [of env out "enqueued None t out d"] f by (auto simp: enqueue_unfold queue_ok_def enqueued_pending)
qed

lemma task_flush_frame:
  "flush_frame out d (snd (flb_output_task_flush env t out d))"
  "queue_ok d out \<Longrightarrow> queue_ok (snd (flb_output_task_flush env t out d)) out"
proof -
  obtain ret nx d1 where ft: "flush_try env t out d = (ret, nx, d1)" by (metis prod_cases3)
  show "flush_frame out d (snd (flb_output_task_flush env t out d))"
    using flush_try_frame [OF ft] flush_frame_trans [OF flush_try_frame [OF ft] flush_next_frame]
    by (simp add: flb_output_task_flush_def ft)
  show "queue_ok d out \<Longrightarrow> queue_ok (snd (flb_output_task_flush env t out d)) out"
    using flush_try_queues [OF ft [symmetric]] flush_next_queue_ok [of env out d1] by (simp add: flb_output_task_flush_def ft queue_ok_def)
qed

subsection \<open>Dispatching a retry\<close>

text \<open>A retry whose request fired: it holds no token and has no request but the one that is being handled.\<close>

definition retry_fired :: "(addr \<times> int) multiset \<Rightarrow> 'c disp \<Rightarrow> addr \<Rightarrow> addr \<Rightarrow> int \<Rightarrow> bool" where
  "retry_fired H d r t out \<longleftrightarrow> live (d_eng d) t \<and> r \<in> set (tk_retries (tk (d_eng d) t)) \<and> rt_o_ins (rt (d_eng d) r) = out \<and>
     tok H d t out = 0 \<and> count (pending (e_sched (d_eng d))) r = 1"

lemma retry_fired_take:
  assumes "disp_inv H {#r#} d" "retry_fired H d r t out"
  shows "may_take H {#r#} d t out"
proof -
  have f: "live (d_eng d) t" "r \<in> set (tk_retries (tk (d_eng d) t))" "rt_o_ins (rt (d_eng d) r) = out" "tok H d t out = 0"
    "count (pending (e_sched (d_eng d))) r = 1"
    using assms(2) by (simp_all add: retry_fired_def)
  note t = eng_invD(3) [OF disp_invD(1) [OF assms(1)] f(1)]
  have "out \<in> out_ids (d_eng d)" using t f(2,3) by (auto simp: task_ok_def)
  moreover have "tk_status (tk (d_eng d) t) \<noteq> FLB_TASK_NEW" using tokens_okD(4) [OF disp_invD(3) [OF assms(1)] f(1)] f(2) by auto
  moreover have "count (pending (e_sched (d_eng d))) q \<le> count {#r#} q" if "q \<in> set (tk_retries (tk (d_eng d) t))" "rt_o_ins (rt (d_eng d) q) = out" for q
  proof -
    have "q = r" using inj_onD [of "\<lambda>r. rt_o_ins (rt (d_eng d) r)" "set (tk_retries (tk (d_eng d) t))" q r] t that f(2,3)
      by (simp add: task_ok_def task_linked_def task_retries_ok_def)
    then show ?thesis using f(5) by simp
  qed
  ultimately show ?thesis using f(1,4) unfolding may_take_def by blast
qed

lemma retry_destroy_fired:
  assumes "disp_inv H {#r#} d" "live (d_eng d) t" "r \<in> set (tk_retries (tk (d_eng d) t))" "rt_o_ins (rt (d_eng d) r) = out"
    "count (pending (e_sched (d_eng d))) r = 1" "\<forall>x\<in>set (pending_of d out). qe_task x \<noteq> t"
  shows "disp_inv H {#} (eng_upd (flb_task_retry_destroy r) d)"
  using disp_retry_destroy [OF assms(1-3)] assms(4-6) by simp

lemma tok_no_entry: "tok H d t out = 0 \<Longrightarrow> \<forall>x\<in>set (pending_of d out). qe_task x \<noteq> t"
  by (auto simp: tok_def filter_empty_conv)

lemma flush_next_empty:
  "pending_of d out = [] \<Longrightarrow> flb_output_task_singleplex_flush_next env out d = (0, queue_upd out queue_ended d)"
  by (simp add: flb_output_task_singleplex_flush_next.simps [of env out d] Let_def)

lemma flush_try_eng:
  assumes "flush_try env t out d = (ret, nx, d')"
  shows "ret = 0 \<or> ret = -1" "e_sched (d_eng d') = e_sched (d_eng d)" "rt (d_eng d') = rt (d_eng d)"
    "tk_retries (tk (d_eng d') u) = tk_retries (tk (d_eng d) u)" "live (d_eng d) u \<Longrightarrow> live (d_eng d') u"
    "e_outputs (d_eng d') = e_outputs (d_eng d)"
  using assms by (auto simp: flush_try_def Let_def flb_task_users_inc_def split: if_splits)

lemma users_inc_eng:
  "e_sched (flb_task_users_inc t s) = e_sched s" "rt (flb_task_users_inc t s) = rt s" "e_outputs (flb_task_users_inc t s) = e_outputs s"
  "tk_retries (tk (flb_task_users_inc t s) u) = tk_retries (tk s u)" "live s u \<Longrightarrow> live (flb_task_users_inc t s) u"
  by (simp_all add: flb_task_users_inc_def)

lemma queue_start_eng:
  "e_sched (d_eng (queue_start out e d)) = e_sched (d_eng d)" "rt (d_eng (queue_start out e d)) = rt (d_eng d)"
  "tk_retries (tk (d_eng (queue_start out e d)) u) = tk_retries (tk (d_eng d) u)"
  "live (d_eng d) u \<Longrightarrow> live (d_eng (queue_start out e d)) u"
  by (simp_all add: queue_start_def)

lemma retry_first_flush:
  assumes "disp_inv H {#r#} d" "retry_fired H d r t out" "pending_of d out = []"
    "flb_output_task_queue_flush_one env out (enqueued (Some r) t out d) = (ret, d')"
  shows "ret = 0 \<and> disp_inv H {#r#} d' \<and> e_sched (d_eng d') = e_sched (d_eng d) \<or> ret = -1 \<and> disp_inv H {#} d'"
    "flush_frame out d d'"
proof -
  have f: "live (d_eng d) t" "r \<in> set (tk_retries (tk (d_eng d) t))" "rt_o_ins (rt (d_eng d) r) = out" "tok H d t out = 0"
    "count (pending (e_sched (d_eng d))) r = 1"
    using assms(2) by (simp_all add: retry_fired_def)
  define e where "e = \<lparr>qe_task = t, qe_retry = Some r\<rparr>"
  define d1 where "d1 = enqueued (Some r) t out d"
  have i1: "disp_inv H {#r#} d1" unfolding d1_def
    by (rule enqueued_inv [OF assms(1) retry_fired_take [OF assms(1,2)]]) (use f in simp)
  have p1: "pending_of d1 out = [e]" by (simp add: d1_def enqueued_pending assms(3) e_def)
  obtain x nx d2 where ft: "flush_try env t out (queue_start out e d1) = (x, nx, d2)" by (metis prod_cases3)
  note qs = disp_queue_start [OF i1 p1] and fe = flush_try_eng [OF ft]
  have i2: "disp_inv H {#r#} d2" using flush_try_inv [OF qs(1,2)] ft by (simp add: e_def)
  have p2: "pending_of d2 out = []" using flush_try_queues [OF ft [symmetric]] p1 by simp
  define d3 where "d3 = (if nx \<and> is_sync d2 out then queue_upd out queue_ended d2 else d2)"
  have i3: "disp_inv H {#r#} d3" using i2 disp_ended [OF i2] by (simp add: d3_def)
  have e3: "e_sched (d_eng d3) = e_sched (d_eng d)" "rt (d_eng d3) = rt (d_eng d)" "tk_retries (tk (d_eng d3) t) = tk_retries (tk (d_eng d) t)"
    "live (d_eng d3) t" "pending_of d3 out = []"
    using fe(2-4) fe(5) [of t] f(1) p2 by (auto simp: d3_def queue_start_eng d1_def enqueued_def users_inc_eng)
  have un: "flb_output_task_queue_flush_one env out d1 =
      (if x = -1 then (-1, snd (flb_output_task_singleplex_flush_next env out (retry_drop e d3))) else (x, d3))"
    using p1 flush_next_empty [OF p2] ft by (simp add: flb_output_task_queue_flush_one_def flb_output_task_flush_def d3_def e_def)
  have i4: "disp_inv H {#} (retry_drop e d3)"
    using retry_destroy_fired [OF i3 e3(4), of out] f e3 by (simp add: retry_drop_def e_def)
  have n4: "flb_output_task_singleplex_flush_next env out (retry_drop e d3) = (0, queue_upd out queue_ended (retry_drop e d3))"
    by (rule flush_next_empty) (simp add: e3(5))
  show "ret = 0 \<and> disp_inv H {#r#} d' \<and> e_sched (d_eng d') = e_sched (d_eng d) \<or> ret = -1 \<and> disp_inv H {#} d'"
    using assms(4) fe(1) disp_ended [OF i4, of out] i3 e3(1) unfolding d1_def [symmetric] un n4 by (auto split: if_splits)
  have "flush_frame out d d1" by (simp add: d1_def enqueued_frame)
  note fr2 = flush_frame_trans [OF flush_frame_trans [OF this queue_start_frame] flush_try_frame [OF ft]]
  have "flush_frame out d d3"
    using fr2 flush_frame_trans [OF fr2 flush_frame_queue] by (simp add: d3_def)
  then show "flush_frame out d d'"
    using assms(4) flush_frame_trans [OF flush_frame_trans [OF _ retry_drop_frame] flush_frame_queue] unfolding d1_def [symmetric] un n4
    by (auto split: if_splits)
qed

lemma enqueue_retry:
  assumes "disp_inv H {#r#} d" "retry_fired H d r t out" "queue_ok d out"
    "flb_output_task_singleplex_enqueue env (Some r) t out d = (ret, d')"
  shows "ret = 0 \<and> disp_inv H {#r#} d' \<and> e_sched (d_eng d') = e_sched (d_eng d) \<or> ret = -1 \<and> disp_inv H {#} d'"
    "flush_frame out d d'" "queue_ok d' out"
proof -
  have f: "live (d_eng d) t" "r \<in> set (tk_retries (tk (d_eng d) t))" "rt_o_ins (rt (d_eng d) r) = out" "tok H d t out = 0"
    "count (pending (e_sched (d_eng d))) r = 1"
    using assms(2) by (simp_all add: retry_fired_def)
  note mt = retry_fired_take [OF assms(1,2)]
  define d1 where "d1 = eng_upd (flb_task_users_inc t) d"
  have i1: "disp_inv H {#r#} d1" unfolding d1_def by (rule disp_forget [OF disp_take [OF assms(1) mt]])
  have dest: "disp_inv H {#} (eng_upd (flb_task_retry_destroy r) d1)"
    by (rule retry_destroy_fired [OF i1, of t out]) (use f tok_no_entry [OF f(4)] in \<open>simp_all add: d1_def users_inc_eng\<close>)
  have enq: "disp_inv H {#r#} (enqueued (Some r) t out d)" by (rule enqueued_inv [OF assms(1) mt]) (use f in simp)
  have se: "e_sched (d_eng (enqueued (Some r) t out d)) = e_sched (d_eng d)" by (simp add: enqueued_def users_inc_eng)
  have fr1: "flush_frame out d d1" unfolding d1_def flb_task_users_inc_def [abs_def] by (rule flush_frame_tk_upd) simp_all
  have frd: "flush_frame out d (eng_upd (flb_task_retry_destroy r) d1)"
    using flush_frame_trans [OF fr1 retry_drop_frame [of out d1 "\<lparr>qe_task = t, qe_retry = Some r\<rparr>"]] by (simp add: retry_drop_def)
  consider "\<not> f_queue_ok env t out" "ret = -1" "d' = eng_upd (flb_task_retry_destroy r) d1"
    | "q_in_progress (d_queues d out) = []" "flb_output_task_queue_flush_one env out (enqueued (Some r) t out d) = (ret, d')"
    | "q_in_progress (d_queues d out) \<noteq> []" "ret = 0" "d' = enqueued (Some r) t out d"
    using assms(4) by (auto simp: enqueue_unfold d1_def split: if_splits)
  then have "(ret = 0 \<and> disp_inv H {#r#} d' \<and> e_sched (d_eng d') = e_sched (d_eng d) \<or> ret = -1 \<and> disp_inv H {#} d') \<and>
      flush_frame out d d' \<and> queue_ok d' out"
  proof cases
    case 1
    then show ?thesis using dest frd assms(3) by (simp add: queue_ok_def d1_def)
  next
    case 2
    have "pending_of d out = []" using assms(3) 2(1) by (simp add: queue_ok_def)
    note r = retry_first_flush [OF assms(1,2) this 2(2)]
    have "flb_output_task_singleplex_flush_next env out (enqueued (Some r) t out d) = (ret, d')"
      using flush_one_nonempty [of "enqueued (Some r) t out d" out env] 2 by (simp add: enqueued_pending)
    then have "queue_ok d' out" using flush_next_queue_ok [of env out "enqueued (Some r) t out d"] by simp
    then show ?thesis using r by blast
  next
    case 3
    then show ?thesis using enq se enqueued_frame [of out d "Some r" t] by (simp add: queue_ok_def enqueued_pending)
  qed
  then show "ret = 0 \<and> disp_inv H {#r#} d' \<and> e_sched (d_eng d') = e_sched (d_eng d) \<or> ret = -1 \<and> disp_inv H {#} d'"
    "flush_frame out d d'" "queue_ok d' out" by blast+
qed

lemma flush_retry:
  assumes "disp_inv H {#r#} d" "retry_fired H d r t out" "\<not> is_sync d out" "flb_output_task_flush env t out d = (ret, d')"
  shows "ret = 0 \<and> disp_inv H {#r#} d' \<and> e_sched (d_eng d') = e_sched (d_eng d) \<or>
      ret = -1 \<and> disp_inv H {#} (eng_upd (flb_task_retry_destroy r) d')"
    "d_queues d' = d_queues d"
proof -
  obtain nx where ft: "flush_try env t out d = (ret, nx, d')"
  proof (cases "flush_try env t out d")
    case (fields x nx d1)
    have "\<not> is_sync d1 out" using assms(3) flush_try_eng(6) [OF fields] by (simp add: is_sync_def out_ins_def)
    then show ?thesis using that assms(4) fields by (simp add: flb_output_task_flush_def)
  qed
  have f: "live (d_eng d) t" "r \<in> set (tk_retries (tk (d_eng d) t))" "rt_o_ins (rt (d_eng d) r) = out" "tok H d t out = 0"
    "count (pending (e_sched (d_eng d))) r = 1"
    using assms(2) by (simp_all add: retry_fired_def)
  note fe = flush_try_eng [OF ft]
  have i: "disp_inv H {#r#} d'" by (rule flush_try_inv [OF assms(1) retry_fired_take [OF assms(1,2)] ft])
  show q: "d_queues d' = d_queues d" using flush_try_queues [OF ft [symmetric]] .
  have "disp_inv H {#} (eng_upd (flb_task_retry_destroy r) d')"
    by (rule retry_destroy_fired [OF i, of t out]) (use f tok_no_entry [OF f(4)] fe q in simp_all)
  then show "ret = 0 \<and> disp_inv H {#r#} d' \<and> e_sched (d_eng d') = e_sched (d_eng d) \<or>
      ret = -1 \<and> disp_inv H {#} (eng_upd (flb_task_retry_destroy r) d')"
    using fe(1,2) i by auto
qed

subsection \<open>Requests\<close>

lemma disp_inv_sched:
  assumes "disp_inv H K d" "sched_inv sc"
    "\<And>r. r \<in># pending sc \<Longrightarrow> r \<in># pending (e_sched (d_eng d)) \<or>
       live (d_eng d) (rt_parent (rt (d_eng d) r)) \<and> r \<in> set (tk_retries (tk (d_eng d) (rt_parent (rt (d_eng d) r))))"
    "\<And>t r. live (d_eng d) t \<Longrightarrow> r \<in> set (tk_retries (tk (d_eng d) t)) \<Longrightarrow>
       tok H d t (rt_o_ins (rt (d_eng d) r)) + count (pending sc) r \<le> 1 + count K' r"
  shows "disp_inv H K' (eng_upd (\<lambda>s. s\<lparr>e_sched := sc\<rparr>) d)"
proof -
  define s where "s = d_eng d"
  define d' where "d' = eng_upd (\<lambda>s. s\<lparr>e_sched := sc\<rparr>) d"
  note i = disp_invD [OF assms(1), folded s_def]
  have r: "live s (rt_parent (rt s r)) \<and> r \<in> set (tk_retries (tk s (rt_parent (rt s r))))" if "r \<in># pending sc" for r
    using assms(3) [OF that] eng_invD(5) [OF i(1)] unfolding requests_ok_def s_def by blast
  have "eng_inv K' (s\<lparr>e_sched := sc\<rparr>)"
  proof (rule eng_inv_sched [OF i(1) assms(2)])
    fix q assume "q \<in># pending sc"
    note q = r [OF this]
    have "count (pending sc) q \<le> 1 + count K' q" using assms(4) [of "rt_parent (rt s q)" q] q by (simp add: s_def)
    then show "(q \<in># pending (e_sched s) \<or> live s (rt_parent (rt s q)) \<and> q \<in> set (tk_retries (tk s (rt_parent (rt s q))))) \<and>
        count (pending sc) q \<le> 1 + count K' q" using q by simp
  qed
  moreover have "refs_ok H d'" using i(2) by (simp add: refs_ok_def d'_def s_def out_ids_def)
  moreover have "tokens_ok H K' d'"
  proof -
    have "tok H d' = tok H d" by (simp add: tok_def fun_eq_iff d'_def)
    then show ?thesis using i(3) assms(4) by (simp add: tokens_ok_def d'_def out_ids_def routes_ok_def)
  qed
  ultimately show ?thesis by (simp add: disp_inv_def d'_def s_def)
qed

lemma disp_request_done:
  assumes "disp_inv H {#r#} d" "sched_inv sc" "pending sc = pending (e_sched (d_eng d)) - {#r#}" "r \<in># pending (e_sched (d_eng d))"
  shows "disp_inv H {#} (eng_upd (\<lambda>s. s\<lparr>e_sched := sc\<rparr>) d)"
proof (rule disp_inv_sched [OF assms(1,2)])
  show "q \<in># pending (e_sched (d_eng d)) \<or> live (d_eng d) (rt_parent (rt (d_eng d) q)) \<and> q \<in> set (tk_retries (tk (d_eng d) (rt_parent (rt (d_eng d) q))))"
    if "q \<in># pending sc" for q using that by (auto simp: assms(3) dest: in_diffD)
  fix t q assume "live (d_eng d) t" "q \<in> set (tk_retries (tk (d_eng d) t))"
  from tokens_okD(3) [OF disp_invD(3) [OF assms(1)] this]
  have o: "tok H d t (rt_o_ins (rt (d_eng d) q)) + count (pending (e_sched (d_eng d))) q \<le> 1 + count {#r#} q" .
  have "count (pending (e_sched (d_eng d))) r \<ge> 1" using assms(4) by (simp add: Suc_le_eq)
  then show "tok H d t (rt_o_ins (rt (d_eng d) q)) + count (pending sc) q \<le> 1 + count {#} q"
    using o by (cases "q = r") (simp_all add: assms(3))
qed

lemma disp_request_new:
  assumes "disp_inv H K d" "sched_inv sc" "pending sc = add_mset r (pending (e_sched (d_eng d)))"
    "live (d_eng d) t" "r \<in> set (tk_retries (tk (d_eng d) t))" "tok H d t (rt_o_ins (rt (d_eng d) r)) = 0"
    "count (pending (e_sched (d_eng d))) r \<le> count K r"
  shows "disp_inv H K (eng_upd (\<lambda>s. s\<lparr>e_sched := sc\<rparr>) d)"
proof (rule disp_inv_sched [OF assms(1,2)])
  have p: "rt_parent (rt (d_eng d) r) = t"
    using eng_invD(8) [OF disp_invD(1) [OF assms(1)] assms(4)] assms(5) by (simp add: task_retries_ok_def)
  show "q \<in># pending (e_sched (d_eng d)) \<or> live (d_eng d) (rt_parent (rt (d_eng d) q)) \<and> q \<in> set (tk_retries (tk (d_eng d) (rt_parent (rt (d_eng d) q))))"
    if "q \<in># pending sc" for q using that p assms(4,5) by (auto simp: assms(3))
  fix u q assume u: "live (d_eng d) u" "q \<in> set (tk_retries (tk (d_eng d) u))"
  have o: "tok H d u (rt_o_ins (rt (d_eng d) q)) + count (pending (e_sched (d_eng d))) q \<le> 1 + count K q"
    by (rule tokens_okD(3) [OF disp_invD(3) [OF assms(1)] u])
  have "u = t" if "q = r" using other_retries [OF disp_invD(1) [OF assms(1)] assms(4) u(1) _ assms(5)] u(2) that by blast
  then show "tok H d u (rt_o_ins (rt (d_eng d) q)) + count (pending sc) q \<le> 1 + count K q"
    using o assms(6,7) by (cases "q = r") (simp_all add: assms(3))
qed

lemma disp_sched_same:
  assumes "disp_inv H K d" "sched_inv sc" "pending sc = pending (e_sched (d_eng d))"
  shows "disp_inv H K (eng_upd (\<lambda>s. s\<lparr>e_sched := sc\<rparr>) d)"
  by (rule disp_inv_sched [OF assms(1,2)]) (use tokens_okD(3) [OF disp_invD(3) [OF assms(1)]] assms(3) in auto)

lemma request_create_keeps:
  assumes "sched_inv s" "flb_sched_request_create aok rok rand now fd down base cap s data n = Some (ret, s')"
    "a \<in> set (requests s) \<union> set (requests_wait s)"
  shows "a \<in> set (requests s') \<union> set (requests_wait s')" "rq s' a = rq s a"
proof -
  have "a < sched_next s" using sched_invD(1) [OF assms(1)] assms(3) by (auto simp: node_lists_def)
  moreover have "requests (flb_sched_timer_destroy t x) = requests x" "requests_wait (flb_sched_timer_destroy t x) = requests_wait x"
      "req_heap (flb_sched_timer_destroy t x) = req_heap x" for t x
    by (simp_all add: flb_sched_timer_destroy_def flb_sched_timer_cb_disable_def tm_unlink_def Let_def)
  ultimately show "a \<in> set (requests s') \<union> set (requests_wait s')" "rq s' a = rq s a"
    using assms(2,3)
    by (auto simp: flb_sched_request_create_def flb_sched_timer_create_def request_new_def schedule_request_wait_def
        schedule_request_now_def request_free_def rq_def Let_def split: if_splits option.splits)
qed

section \<open>Chunks\<close>

lemma disp_inv_chunk:
  assumes "disp_inv H K d" "same_eng (d_eng d) s" "tk s = tk (d_eng d)"
  shows "disp_inv H K (d\<lparr>d_eng := s\<rparr>)"
proof (rule disp_inv_move [OF assms(1)])
  show "same_eng (d_eng d) (d_eng (d\<lparr>d_eng := s\<rparr>))" using assms(2) by simp
  then show "refs_ok H (d\<lparr>d_eng := s\<rparr>)" by (rule refs_ok_same [OF disp_invD(2) [OF assms(1)]]) simp_all
qed (use assms(3) in \<open>simp_all add: tok_def\<close>)

section \<open>The events of outputs keep the invariant\<close>

lemma disp_metrics [simp]: "disp_inv H K (metrics_upd out f d) = disp_inv H K d"
  "d_eng (metrics_upd out f d) = d_eng d" "d_queues (metrics_upd out f d) = d_queues d"
  by (simp_all add: metrics_upd_def disp_inv_def refs_ok_def tokens_ok_def tok_def)

lemma disp_users_release:
  assumes "disp_inv H K d" "live (d_eng d) t"
  shows "disp_inv H K (eng_upd (flb_task_users_release io Hf t) d)"
proof (cases "tk_users (tk (d_eng d) t) = 0 \<and> tk_retries (tk (d_eng d) t) = []")
  case True
  have "int (\<Sum>out\<in>out_ids (d_eng d). tok H d t out) \<le> 0"
    using tokens_okD(1) [OF disp_invD(3) [OF assms(1)] assms(2)] True by metis
  then have "(\<Sum>out\<in>out_ids (d_eng d). tok H d t out) = 0" by linarith
  then have "\<forall>out\<in>out_ids (d_eng d). tok H d t out = 0" by simp
  from disp_task_destroy [OF assms this] show ?thesis using True by (simp add: flb_task_users_release_def eng_upd_def)
next
  case False
  then have "eng_upd (flb_task_users_release io Hf t) d = d" by (auto simp: flb_task_users_release_def eng_upd_def)
  then show ?thesis using assms(1) by simp
qed

lemma disp_users_dec:
  assumes "disp_inv (add_mset (t, out) H) K d"
  shows "disp_inv H K (eng_upd (flb_task_users_dec io Hf t b) d)"
proof -
  define d1 where "d1 = eng_upd (tk_upd t (\<lambda>x. x\<lparr>tk_users := tk_users x - 1\<rparr>)) d"
  have i: "disp_inv H K d1" unfolding d1_def by (rule disp_give_back [OF assms])
  have l: "live (d_eng d1) t" using hand_live [OF assms] by (simp add: d1_def)
  have "eng_upd (flb_task_users_dec io Hf t b) d = (if b then eng_upd (flb_task_users_release io Hf t) d1 else d1)"
    by (simp add: flb_task_users_dec_def eng_upd_def d1_def Let_def)
  then show ?thesis using disp_users_release [OF i l] i by simp
qed

lemma hand_retry:
  assumes "disp_inv (add_mset (t, out) H) {#} d" "r \<in> set (tk_retries (tk (d_eng d) t))" "rt_o_ins (rt (d_eng d) r) = out"
  shows "r \<notin># pending (e_sched (d_eng d))" "disp_inv (add_mset (t, out) H) {#} (eng_upd (flb_task_retry_destroy r) d)"
proof -
  have l: "live (d_eng d) t" using hand_live [OF assms(1)] by simp
  note o = tokens_okD [OF disp_invD(3) [OF assms(1)] l]
  have 1: "tok (add_mset (t, out) H) d t out = Suc (tok H d t out)" by (simp add: tok_hand)
  then have c: "count (pending (e_sched (d_eng d))) r = 0" using o(3) [OF assms(2)] assms(3) by simp
  then show "r \<notin># pending (e_sched (d_eng d))" by (simp add: count_eq_zero_iff)
  have "tok H d t out = 0" using o(2) [of out] 1 by simp
  note n = tok_no_entry [OF this]
  have "disp_inv (add_mset (t, out) H) ({#} - {#r#}) (eng_upd (flb_task_retry_destroy r) d)"
    by (rule disp_retry_destroy [OF assms(1) l assms(2)]) (use c n assms(3) in auto)
  then show "disp_inv (add_mset (t, out) H) {#} (eng_upd (flb_task_retry_destroy r) d)" by simp
qed

lemma disp_retry_clean:
  assumes "disp_inv (add_mset (t, out) H) {#} d"
  shows "disp_inv (add_mset (t, out) H) {#} (eng_upd (\<lambda>s. snd (flb_task_retry_clean t out s)) d)"
proof (cases "List.find (\<lambda>r. rt_o_ins (rt (d_eng d) r) = out) (tk_retries (tk (d_eng d) t))")
  case None
  then show ?thesis using assms by (simp add: flb_task_retry_clean_def eng_upd_def)
next
  case (Some r)
  then show ?thesis using hand_retry(2) [OF assms, of r] find_Some_in [OF Some] by (simp add: flb_task_retry_clean_def eng_upd_def)
qed

lemma disp_task_done:
  assumes "disp_inv (add_mset (t, out) H) {#} d"
  shows "disp_inv H {#} (eng_upd (task_done io Hf t out) d)"
  using disp_users_dec [OF disp_retry_clean [OF assms], of io Hf True] by (simp add: task_done_def eng_upd_def)

lemma disp_retry_refused:
  assumes "disp_inv (add_mset (t, o_id ins) H) {#} d" "flb_task_retry_create io mem_ok t ins (d_eng d) = (None, s)"
  shows "disp_inv (add_mset (t, o_id ins) H) {#} (d\<lparr>d_eng := s\<rparr>)"
proof (cases "List.find (\<lambda>r. rt_o_ins (rt (d_eng d) r) = o_id ins) (tk_retries (tk (d_eng d) t))")
  case None
  then have "s = d_eng d" using assms(2) by (auto simp: flb_task_retry_create_def Let_def split: if_splits)
  then show ?thesis using assms(1) by simp
next
  case (Some r)
  then have "s = flb_task_retry_destroy r (d_eng d)" using assms(2) by (auto simp: flb_task_retry_create_def split: if_splits)
  then show ?thesis using hand_retry(2) [OF assms(1), of r] find_Some_in [OF Some] by (simp add: eng_upd_def)
qed

lemma disp_retry_create:
  assumes "disp_inv (add_mset (t, o_id ins) H) {#} d" "flb_task_retry_create io mem_ok t ins (d_eng d) = (Some r, s)"
  shows "disp_inv (add_mset (t, o_id ins) H) {#} (d\<lparr>d_eng := s\<rparr>)" "r \<in> set (tk_retries (tk s t))" "rt_o_ins (rt s r) = o_id ins"
    "live s t"
proof -
  define out H' d' where "out = o_id ins" and "H' = add_mset (t, o_id ins) H" and "d' = d\<lparr>d_eng := s\<rparr>"
  have ds: "d_eng d' = s" "d_queues d' = d_queues d" "d_flushes d' = d_flushes d" "d_events d' = d_events d"
    by (simp_all add: d'_def)
  note i = disp_invD [OF assms(1), folded H'_def]
  have l: "live (d_eng d) t" "out \<in> out_ids (d_eng d)" using hand_live [OF assms(1)] by (simp_all add: out_def)
  note c = eng_inv_retry_create [OF i(1) l(1) l(2) [unfolded out_def] assms(2), folded out_def]
  show r: "r \<in> set (tk_retries (tk s t))" "rt_o_ins (rt s r) = o_id ins" "live s t" using c(2,6,7) l(1) by (simp_all add: out_def)
  have tkf: "tk_id (tk s u) = tk_id (tk (d_eng d) u)" "tk_users (tk s u) = tk_users (tk (d_eng d) u)"
    "tk_status (tk s u) = tk_status (tk (d_eng d) u)" "tk_routes (tk s u) = tk_routes (tk (d_eng d) u)"
    "set (tk_retries (tk s u)) = set (tk_retries (tk (d_eng d) u)) \<union> (if u = t then {r} else {})" for u
    using c(7) c(8) [of u] arg_cong [OF c(9), of tk_id] arg_cong [OF c(9), of tk_users] arg_cong [OF c(9), of tk_status]
      arg_cong [OF c(9), of tk_routes] by (cases "u = t"; simp)+
  have tk0: "tok H' d' u p = tok H' d u p" for u p by (rule tok_same_ids) (simp_all add: ds tkf)
  have own: "rt_o_ins (rt s q) = rt_o_ins (rt (d_eng d) q)" if "live (d_eng d) u" "q \<in> set (tk_retries (tk (d_eng d) u))" for q u
  proof (cases "q = r")
    case True
    then have "u = t" using c(1,2,5) eng_invD(8) [OF c(1), of u] that tkf(5) [of u] unfolding task_retries_ok_def by auto
    then show ?thesis using c(6) c(12) that True by simp
  qed (use c(10) in simp)
  have "refs_ok H' d'"
    unfolding refs_ok_def ds c(2,4) tkf(1)
  proof (intro conjI allI ballI impI)
    fix p x assume x: "x \<in> set (pending_of d p)"
    note xl = refs_okD(3) [OF i(2) x]
    then show "live (d_eng d) (qe_task x)" "p \<in> out_ids (d_eng d)" by simp_all
    fix q assume q: "qe_retry x = Some q"
    note xq = refs_okD(4) [OF i(2) x q]
    then show "q \<in> set (tk_retries (tk s (qe_task x)))" "rt_o_ins (rt s q) = p" using own [of "qe_task x" q] xl tkf(5) by auto
  qed (use i(2) in \<open>auto simp: refs_ok_def\<close>)
  moreover have "tokens_ok H' {#} d'"
    unfolding tokens_ok_def tk0 ds(1) c(2-4) tkf(2,3,4)
  proof (intro allI impI)
    fix u assume u: "live (d_eng d) u"
    note o = tokens_okD [OF i(3) u]
    have t1: "tok H' d t out = Suc (tok H d t out)" by (simp add: H'_def tok_hand out_def)
    have 1: "tok H' d u (rt_o_ins (rt s q)) + count (pending (e_sched (d_eng d))) q \<le> 1 + count {#} q"
      if q: "q \<in> set (tk_retries (tk s u))" for q
    proof (cases "q \<in> set (tk_retries (tk (d_eng d) u))")
      case True
      then show ?thesis using o(3) [OF True] own [OF u True] by simp
    next
      case False
      then have "q = r" "u = t" using q tkf(5) [of u] by (auto split: if_splits)
      moreover have "count (pending (e_sched (d_eng d))) r = 0" using c(11) False calculation by (simp add: count_eq_zero_iff)
      ultimately show ?thesis using o(2) [of out] c(6) by simp
    qed
    have 2: "tk_retries (tk s u) = [] \<and> tok H' d u p = 0 \<and> routes_ok s (tk_routes (tk (d_eng d) u))"
      if st: "tk_status (tk (d_eng d) u) = FLB_TASK_NEW" for p
    proof -
      have "u \<noteq> t" using o(4) [OF st, of out] t1 by auto
      then show ?thesis using o(4) [OF st, of p] c(8) by (simp add: routes_ok_def c(4))
    qed
    show "int (sum (tok H' d u) (out_ids (d_eng d))) \<le> tk_users (tk (d_eng d) u) \<and> (\<forall>p. tok H' d u p \<le> 1) \<and>
      (\<forall>q\<in>set (tk_retries (tk s u)). tok H' d u (rt_o_ins (rt s q)) + count (pending (e_sched (d_eng d))) q \<le> 1 + count {#} q) \<and>
      (tk_status (tk (d_eng d) u) = FLB_TASK_NEW \<longrightarrow> tk_retries (tk s u) = [] \<and> (\<forall>p. tok H' d u p = 0) \<and> routes_ok s (tk_routes (tk (d_eng d) u)))"
      using o(1,2) 1 2 by blast
  qed
  ultimately show "disp_inv (add_mset (t, o_id ins) H) {#} (d\<lparr>d_eng := s\<rparr>)"
    using c(1) by (simp add: disp_inv_def ds(1) H'_def d'_def)
qed

lemma request_create_env:
  assumes "sched_inv s" "env_valid e"
    "flb_sched_request_create (x_timer_ok e) (x_req_ok e) (x_rand e) (x_now e) (x_fd e) (x_shutting_down e) (x_base e) (x_cap e) s r n = Some (ret, s')"
  shows "sched_inv s'" "ret = -1 \<Longrightarrow> pending s' = pending s" "ret \<noteq> -1 \<Longrightarrow> pending s' = add_mset r (pending s)"
  using request_create_cases [OF assms(1) _ _ _ assms(3)] assms(2) by (auto simp: env_valid_def split: if_splits)

lemma handle_retry_inv:
  assumes "disp_inv {#(t, o_id ins)#} {#} d" "env_valid e" "handle_retry io Hf mem_ok e t ins d = Some d'"
  shows "disp_inv {#} {#} d'" "d_queues d' = d_queues d"
proof -
  define out where "out = o_id ins"
  have "disp_inv {#} {#} d' \<and> d_queues d' = d_queues d"
  proof (cases "o_retry_limit ins = FLB_OUT_RETRY_NONE")
    case True
    then show ?thesis using assms(3) disp_task_done [OF assms(1), of io Hf] by (auto simp: handle_retry_def Let_def)
  next
    case False
    obtain ro s1 where c: "flb_task_retry_create io mem_ok t ins (d_eng d) = (ro, s1)" by fastforce
    show ?thesis
    proof (cases ro)
      case None
      note i = disp_task_done [OF disp_retry_refused [OF assms(1) c [unfolded None]], of io Hf]
      then have "disp_inv {#} {#} (d\<lparr>d_eng := task_done io Hf t (o_id ins) s1\<rparr>)" by (simp add: eng_upd_def)
      then show ?thesis using assms(3) False c None by (auto simp: handle_retry_def Let_def)
    next
      case (Some r)
      note rc = disp_retry_create [OF assms(1) c [unfolded Some]]
      define d2 where "d2 = eng_upd (flb_task_users_dec io Hf t False) (d\<lparr>d_eng := s1\<rparr>)"
      have i2: "disp_inv {#} {#} d2" unfolding d2_def by (rule disp_users_dec [OF rc(1)])
      have e2: "d_eng d2 = tk_upd t (\<lambda>x. x\<lparr>tk_users := tk_users x - 1\<rparr>) s1" "d_queues d2 = d_queues d"
        by (simp_all add: d2_def flb_task_users_dec_def Let_def eng_upd_def)
      have r2: "live (d_eng d2) t" "r \<in> set (tk_retries (tk (d_eng d2) t))" "rt_o_ins (rt (d_eng d2) r) = out"
        using rc(2,3) by (simp_all add: e2 out_def)
      have "tok {#} d2 t out = tok {#} (d\<lparr>d_eng := s1\<rparr>) t out"
        by (rule tok_same_ids) (simp_all add: d2_def flb_task_users_dec_def Let_def)
      then have t2: "tok {#} d2 t out = 0"
        using tokens_okD(2) [OF disp_invD(3) [OF rc(1)], of t out] rc(4) by (simp add: tok_hand out_def)
      have "r \<notin># pending (e_sched s1)" using hand_retry(1) [OF rc(1), of r] rc(2,3) by simp
      then have p2: "count (pending (e_sched (d_eng d2))) r = 0" by (simp add: e2 count_eq_zero_iff)
      obtain sec sc where sc: "flb_sched_request_create (x_timer_ok e) (x_req_ok e) (x_rand e) (x_now e) (x_fd e)
          (x_shutting_down e) (x_base e) (x_cap e) (e_sched (d_eng d2)) r (nat (rt_attempts (rt (d_eng d2) r))) = Some (sec, sc)"
        using assms(3) False c Some
        by (auto simp: handle_retry_def Let_def d2_def eng_upd_def split: option.splits)
      note rq = request_create_env [OF eng_invD(6) [OF disp_invD(1) [OF i2]] assms(2) sc]
      define d3 where "d3 = eng_upd (\<lambda>s. s\<lparr>e_sched := sc\<rparr>) d2"
      have d': "d' = (if sec = -1 then eng_upd (flb_task_users_release io Hf t) (eng_upd (flb_task_retry_destroy r) d3)
          else metrics_upd (o_id ins) (\<lambda>m. m\<lparr>mt_retries := mt_retries m + 1,
                 mt_retried_records := mt_retried_records m + tk_records (tk (d_eng d) t)\<rparr>) d3)"
        using assms(3) False c Some sc by (auto simp: handle_retry_def Let_def d2_def d3_def eng_upd_def)
      have q3: "d_queues d3 = d_queues d" by (simp add: d3_def e2)
      show ?thesis
      proof (cases "sec = -1")
        case True
        have i3: "disp_inv {#} {#} d3" unfolding d3_def by (rule disp_sched_same [OF i2 rq(1) rq(2) [OF True]])
        have e3: "live (d_eng d3) t" "r \<in> set (tk_retries (tk (d_eng d3) t))" "rt_o_ins (rt (d_eng d3) r) = out"
            "count (pending (e_sched (d_eng d3))) r = 0" "pending_of d3 out = pending_of d2 out"
          using r2 p2 rq(2) [OF True] by (simp_all add: d3_def)
        have "disp_inv {#} ({#} - {#r#}) (eng_upd (flb_task_retry_destroy r) d3)"
          by (rule disp_retry_destroy [OF i3 e3(1,2)]) (use e3 tok_no_entry [OF t2] in auto)
        then have i4: "disp_inv {#} {#} (eng_upd (flb_task_retry_destroy r) d3)" by simp
        have "live (d_eng (eng_upd (flb_task_retry_destroy r) d3)) t" using e3(1) by (simp add: retry_destroy_fields)
        from disp_users_release [OF i4 this] show ?thesis using d' True q3 by simp
      next
        case ns: False
        have "disp_inv {#} {#} d3" unfolding d3_def
          by (rule disp_request_new [OF i2 rq(1) rq(3) [OF ns] r2(1,2)]) (use t2 r2(3) p2 in simp_all)
        then show ?thesis using d' ns q3 by simp
      qed
    qed
  qed
  then show "disp_inv {#} {#} d'" "d_queues d' = d_queues d" by simp_all
qed

definition disp_ok :: "'c disp \<Rightarrow> bool" where
  "disp_ok d \<longleftrightarrow> disp_inv {#} {#} d \<and> (\<forall>out. queue_ok d out)"

lemma flush_frame_queue_ok:
  assumes "flush_frame out d d'" "\<forall>p. queue_ok d p" "queue_ok d' out"
  shows "\<forall>p. queue_ok d' p"
  using assms by (auto simp: flush_frame_def queue_ok_def)

lemma find_output:
  assumes "out \<in> out_ids s"
  obtains ins where "List.find (\<lambda>x. o_id x = out) (e_outputs s) = Some ins" "o_id ins = out"
proof (cases "List.find (\<lambda>x. o_id x = out) (e_outputs s)")
  case None
  then show ?thesis using assms by (auto simp: out_ids_def find_None_iff)
next
  case (Some ins)
  then show ?thesis using that find_Some_in [OF Some] by simp
qed

lemma length_filter_remove1:
  "v \<in> set xs \<Longrightarrow> length (filter P xs) = length (filter P (remove1 v xs)) + (if P v then 1 else 0)"
  by (induction xs) auto

text \<open>The event that is handled leaves the pipe.\<close>

lemma disp_event_taken:
  assumes "disp_inv {#} {#} d" "v \<in> set (d_events d)"
  obtains t ret out where "live (d_eng d) t" "out \<in> out_ids (d_eng d)" "ret \<in> {FLB_OK, FLB_RETRY, FLB_ERROR}"
    "v = out_event ret (tk_id (tk (d_eng d) t)) out" "disp_inv {#(t, out)#} {#} (d\<lparr>d_events := remove1 v (d_events d)\<rparr>)"
    "tk_id (tk (d_eng d) t) < TASKS_MAP_SIZE" "0 \<le> out" "out < 2 ^ 14"
proof -
  define d' where "d' = d\<lparr>d_events := remove1 v (d_events d)\<rparr>"
  obtain t ret out where o: "live (d_eng d) t" "out \<in> out_ids (d_eng d)" "ret \<in> {FLB_OK, FLB_RETRY, FLB_ERROR}"
    "v = out_event ret (tk_id (tk (d_eng d) t)) out"
    using disp_invD(2) [OF assms(1)] assms(2) unfolding refs_ok_def by blast
  have b: "tk_id (tk (d_eng d) t) < TASKS_MAP_SIZE" "0 \<le> out" "out < 2 ^ 14"
    using eng_invD(1,2) [OF disp_invD(1) [OF assms(1)]] o(1,2) by (auto simp: task_ids_ok_def outs_ok_def)
  note u = out_event_unpack(3,4) [OF o(3) b, folded o(4)]
  have ev: "length (filter (ev_for (tk_id (tk (d_eng d) w)) p) (d_events d)) =
      length (filter (ev_for (tk_id (tk (d_eng d) w)) p) (remove1 v (d_events d))) + (if w = t \<and> p = out then 1 else 0)"
    if "live (d_eng d) w" for w p
  proof -
    have "ev_for (tk_id (tk (d_eng d) w)) p v \<longleftrightarrow> w = t \<and> p = out"
      using u task_ids_unique [OF eng_invD(1) [OF disp_invD(1) [OF assms(1)]], of w t] that o(1) by (auto simp: ev_for_def)
    then show ?thesis using length_filter_remove1 [OF assms(2)] by simp
  qed
  have "refs_ok {#} d'" by (rule refs_ok_same [OF disp_invD(2) [OF assms(1)]]) (auto simp: d'_def dest: subsetD [OF set_remove1_subset])
  then have rf: "refs_ok {#(t, out)#} d'" using o(1,2) by (simp add: refs_ok_def d'_def)
  have "disp_inv {#(t, out)#} {#} d'"
    by (rule disp_inv_move [OF assms(1) _ rf]) (simp_all add: d'_def tok_def ev)
  then show thesis using that o b by (simp add: d'_def)
qed

lemma event_resolved:
  assumes "disp_ok d" "v \<in> set (d_events d)"
  obtains t ret ins where "live (d_eng d) t" "ins \<in> set (e_outputs (d_eng d))" "ret \<in> {FLB_OK, FLB_RETRY, FLB_ERROR}"
    "disp_inv {#(t, o_id ins)#} {#} (d\<lparr>d_events := remove1 v (d_events d)\<rparr>)"
    "v = out_event ret (tk_id (tk (d_eng d) t)) (o_id ins)" "FLB_BITS_U64_HIGH v = FLB_ENGINE_TASK" "uint (FLB_TASK_RET (FLB_BITS_U64_LOW v)) = ret"
    "unat (FLB_TASK_ID (FLB_BITS_U64_LOW v)) < length (e_tasks_map (d_eng d))"
    "e_tasks_map (d_eng d) ! unat (FLB_TASK_ID (FLB_BITS_U64_LOW v)) = Some t"
    "uint (FLB_TASK_OUT (FLB_BITS_U64_LOW v)) = o_id ins"
    "List.find (\<lambda>x. o_id x = o_id ins) (e_outputs (d_eng d)) = Some ins"
proof -
  have i: "disp_inv {#} {#} d" using assms(1) by (simp add: disp_ok_def)
  from disp_event_taken [OF i assms(2)] obtain t ret out where o: "live (d_eng d) t" "out \<in> out_ids (d_eng d)"
    "ret \<in> {FLB_OK, FLB_RETRY, FLB_ERROR}" "v = out_event ret (tk_id (tk (d_eng d) t)) out"
    "disp_inv {#(t, out)#} {#} (d\<lparr>d_events := remove1 v (d_events d)\<rparr>)" "tk_id (tk (d_eng d) t) < TASKS_MAP_SIZE" "0 \<le> out" "out < 2 ^ 14" .
  note u = out_event_unpack [OF o(3,6-8), folded o(4)]
  obtain ins where ins: "List.find (\<lambda>x. o_id x = out) (e_outputs (d_eng d)) = Some ins" "o_id ins = out" by (rule find_output [OF o(2)])
  have "tk_id (tk (d_eng d) t) < length (e_tasks_map (d_eng d))" "e_tasks_map (d_eng d) ! tk_id (tk (d_eng d) t) = Some t"
    using eng_invD(1) [OF disp_invD(1) [OF i]] o(1) by (auto simp: task_ids_ok_def)
  then show thesis using that [of t ins ret] o(1,3,4,5) u ins find_Some_in [OF ins(1)] by simp
qed

lemma flush_next_queues_ok:
  "\<forall>p. queue_ok d p \<Longrightarrow> queue_ok (snd (flb_output_task_singleplex_flush_next env out d)) p"
  using flush_frame_queue_ok [OF flush_next_frame _ flush_next_queue_ok] by blast

text \<open>Flushing the next task of an output leaves the retries of the task in hand alone.\<close>

lemma flush_next_retry_count:
  assumes "disp_inv {#(t, out)#} {#} d" "live (d_eng d) t"
  shows "flb_task_retry_count (d_eng (snd (flb_output_task_singleplex_flush_next env out d))) t p = flb_task_retry_count (d_eng d) t p"
proof -
  define d' where "d' = snd (flb_output_task_singleplex_flush_next env out d)"
  have k: "disp_inv {#(t, out)#} {#} d'" "retries_kept out d d'" using flush_next_inv [OF assms(1), of env out] by (simp_all add: d'_def)
  have fr: "live (d_eng d') t" "set (tk_retries (tk (d_eng d') t)) \<subseteq> set (tk_retries (tk (d_eng d) t))"
    using flush_next_frame [of out d env] assms(2) by (simp_all add: flush_frame_def d'_def)
  have "tok {#} d t out = 0" using tokens_okD(2) [OF disp_invD(3) [OF assms(1)] assms(2), of out] by (simp add: tok_hand)
  then have "\<forall>x\<in>set (pending_of d out). qe_task x \<noteq> t" using tok_no_entry [of "{#}" d t out] by blast
  then have r: "r \<in> set (tk_retries (tk (d_eng d') t)) \<and> rt (d_eng d') r = rt (d_eng d) r" if "r \<in> set (tk_retries (tk (d_eng d) t))" for r
    using retries_keptD [OF k(2) assms(2) that] by simp
  show ?thesis unfolding d'_def [symmetric]
    by (rule retry_count_same [OF eng_invD(8) [OF disp_invD(1) [OF assms(1)] assms(2)] eng_invD(8) [OF disp_invD(1) [OF k(1)] fr(1)]])
      (use fr(2) r in auto)
qed

text \<open>The handler on an event of a pipe: it finds task and output, flushes the next task of a synchronous output and
  branches on the result.\<close>

lemma event_handled:
  assumes "disp_ok d" "v \<in> set (d_events d)" and d0_def: "d0 = d\<lparr>d_events := remove1 v (d_events d)\<rparr>"
  obtains t ret ins d1 where "disp_inv {#(t, o_id ins)#} {#} d1" "\<forall>p. queue_ok d1 p" "ret \<in> {FLB_OK, FLB_RETRY, FLB_ERROR}"
    "live (d_eng d) t" "ins \<in> set (e_outputs (d_eng d))" "v = out_event ret (tk_id (tk (d_eng d) t)) (o_id ins)"
    "flush_frame (o_id ins) d0 d1"
    "\<And>io Hf mem_ok e. handle_output_event io Hf mem_ok e env v d0 =
      (if ret = FLB_OK then
          Some (0, metrics_upd (o_id ins) (\<lambda>m. m\<lparr>mt_proc_records := mt_proc_records m + tk_records (tk (d_eng d1) t)\<rparr>)
            (eng_upd (task_done io Hf t (o_id ins)) d1))
       else if ret = FLB_RETRY then map_option (Pair 0) (handle_retry io Hf mem_ok e t ins d1)
       else Some (0, metrics_upd (o_id ins) (\<lambda>m. m\<lparr>mt_errors := mt_errors m + 1,
                           mt_dropped_records := mt_dropped_records m + tk_records (tk (d_eng d1) t)\<rparr>)
            (eng_upd (task_done io Hf t (o_id ins)) d1)))"
    "flb_task_retry_count (d_eng d1) t (o_id ins) = flb_task_retry_count (d_eng d) t (o_id ins)"
proof -
  have e0: "d_eng d0 = d_eng d" "d_queues d0 = d_queues d" by (simp_all add: d0_def)
  from event_resolved [OF assms(1,2)] obtain t ret ins where o: "live (d_eng d) t" "ins \<in> set (e_outputs (d_eng d))"
    "ret \<in> {FLB_OK, FLB_RETRY, FLB_ERROR}" "disp_inv {#(t, o_id ins)#} {#} d0" "v = out_event ret (tk_id (tk (d_eng d) t)) (o_id ins)"
    "FLB_BITS_U64_HIGH v = FLB_ENGINE_TASK" "uint (FLB_TASK_RET (FLB_BITS_U64_LOW v)) = ret"
    "unat (FLB_TASK_ID (FLB_BITS_U64_LOW v)) < length (e_tasks_map (d_eng d))"
    "e_tasks_map (d_eng d) ! unat (FLB_TASK_ID (FLB_BITS_U64_LOW v)) = Some t"
    "uint (FLB_TASK_OUT (FLB_BITS_U64_LOW v)) = o_id ins"
    "List.find (\<lambda>x. o_id x = o_id ins) (e_outputs (d_eng d)) = Some ins" unfolding d0_def .
  define out where "out = o_id ins"
  define d1 where "d1 = (if is_sync d0 out \<and> (ret = FLB_OK \<or> ret = FLB_RETRY \<or> ret = FLB_ERROR)
                     then snd (flb_output_task_singleplex_flush_next env out d0) else d0)"
  have i1: "disp_inv {#(t, o_id ins)#} {#} d1" using o(4) flush_next_inv [OF o(4), of env out] by (simp add: d1_def)
  have "\<forall>p. queue_ok d0 p" using assms(1) by (simp add: disp_ok_def queue_ok_def e0)
  then have q1: "\<forall>p. queue_ok d1 p" using flush_next_queues_ok by (auto simp: d1_def)
  have fr: "flush_frame (o_id ins) d0 d1" by (simp add: d1_def out_def flush_next_frame)
  have rc: "flb_task_retry_count (d_eng d1) t (o_id ins) = flb_task_retry_count (d_eng d) t (o_id ins)"
    using flush_next_retry_count [OF o(4), of env] o(1) by (simp add: d1_def e0 out_def)
  show thesis by (rule that [OF i1 q1 o(3,1,2,5) fr _ rc]) (use o(3,6-11) in \<open>auto simp: handle_output_event_def Let_def e0 d1_def out_def\<close>)
qed

lemma handle_output_event_ok:
  assumes "disp_ok d" "v \<in> set (d_events d)" "env_valid e"
    "handle_output_event io Hf mem_ok e env v (d\<lparr>d_events := remove1 v (d_events d)\<rparr>) = Some (x, d')"
  shows "x = 0 \<and> disp_ok d'"
  using event_handled [OF assms(1,2) refl, of env]
proof (cases)
  case (1 t ret ins d1)
  have dn: "disp_inv {#} {#} (eng_upd (task_done io Hf t (o_id ins)) d1)" by (rule disp_task_done [OF 1(1)])
  have hr: "disp_inv {#} {#} d2 \<and> d_queues d2 = d_queues d1" if "handle_retry io Hf mem_ok e t ins d1 = Some d2" for d2
    using handle_retry_inv [OF 1(1) assms(3) that] by simp
  show ?thesis using assms(4) dn 1(2) hr unfolding 1(8) by (auto simp: disp_ok_def queue_ok_def split: if_splits)
qed

section \<open>Timers keep the invariant\<close>

lemma pending_data: "r \<in># pending s \<longleftrightarrow> (\<exists>a\<in>set (requests s) \<union> set (requests_wait s). r_data (rq s a) = r)"
  by (auto simp: pending_def)

lemma chunk_flush_tasks:
  assumes "flb_input_chunk_flush io c s = ((buf, n), s')"
  shows "tk s' = tk s"
  using assms unfolding flb_input_chunk_flush_def flb_input_chunk_update_output_instances_def chunk_call_def
  by (auto simp: Let_def case_prod_beta split: if_splits option.splits)

lemma retry_fired_chunk:
  assumes "retry_fired H d r t out" "same_eng (d_eng d) s" "tk s = tk (d_eng d)"
  shows "retry_fired H (d\<lparr>d_eng := s\<rparr>) r t out"
proof -
  have "tok H (d\<lparr>d_eng := s\<rparr>) t out = tok H d t out" by (rule tok_same_ids) (simp_all add: assms(3))
  then show ?thesis using assms(1,3) same_engD [OF assms(2)] by (simp add: retry_fired_def)
qed

definition requests_kept :: "flb_sched \<Rightarrow> flb_sched \<Rightarrow> bool" where
  "requests_kept s s' \<longleftrightarrow> (\<forall>a\<in>set (requests s) \<union> set (requests_wait s). a \<in> set (requests s') \<union> set (requests_wait s') \<and> rq s' a = rq s a)"

lemma reschedule_inv:
  assumes "disp_inv {#} {#r#} d" "retry_fired {#} d r t out" "env_valid e" "flb_task_retry_reschedule io Hf e r (d_eng d) = Some (ret, s')"
  shows "ret = 0 \<and> disp_inv {#} {#r#} (d\<lparr>d_eng := s'\<rparr>) \<and> requests_kept (e_sched (d_eng d)) (e_sched s') \<or>
    ret = -1 \<and> disp_inv {#} {#} (d\<lparr>d_eng := s'\<rparr>)"
proof -
  have f: "live (d_eng d) t" "r \<in> set (tk_retries (tk (d_eng d) t))" "rt_o_ins (rt (d_eng d) r) = out" "tok {#} d t out = 0"
    "count (pending (e_sched (d_eng d))) r = 1"
    using assms(2) by (simp_all add: retry_fired_def)
  have p: "rt_parent (rt (d_eng d) r) = t"
    using eng_invD(8) [OF disp_invD(1) [OF assms(1)] f(1)] f(2) by (simp add: task_retries_ok_def)
  obtain sec sc where sc: "flb_sched_request_create (x_timer_ok e) (x_req_ok e) (x_rand e) (x_now e) (x_fd e)
      (x_shutting_down e) (x_base e) (x_cap e) (e_sched (d_eng d)) r (nat (rt_attempts (rt (d_eng d) r))) = Some (sec, sc)"
    using assms(4) by (auto simp: flb_task_retry_reschedule_def Let_def split: option.splits)
  note si = eng_invD(6) [OF disp_invD(1) [OF assms(1)]]
  note rq = request_create_env [OF si assms(3) sc]
  define d1 where "d1 = eng_upd (\<lambda>s. s\<lparr>e_sched := sc\<rparr>) d"
  define d2 where "d2 = eng_upd (flb_task_retry_destroy r) d1"
  have d': "d\<lparr>d_eng := s'\<rparr> = (if sec = -1 then eng_upd (flb_task_users_release io Hf t) d2 else d1)" "ret = (if sec = -1 then -1 else 0)"
    using assms(4) sc p by (auto simp: flb_task_retry_reschedule_def Let_def flb_task_users_release_def eng_upd_def d1_def d2_def split: if_splits)
  show ?thesis
  proof (cases "sec = -1")
    case True
    have i1: "disp_inv {#} {#r#} d1" unfolding d1_def by (rule disp_sched_same [OF assms(1) rq(1) rq(2) [OF True]])
    have i2: "disp_inv {#} {#} d2" unfolding d2_def
      by (rule retry_destroy_fired [OF i1, of t out]) (use f rq(2) [OF True] tok_no_entry [OF f(4)] in \<open>simp_all add: d1_def\<close>)
    have "live (d_eng d2) t" using f(1) by (simp add: d2_def d1_def retry_destroy_fields)
    from disp_users_release [OF i2 this] show ?thesis using d' True by simp
  next
    case False
    have "disp_inv {#} {#r#} d1" unfolding d1_def
      by (rule disp_request_new [OF assms(1) rq(1) rq(3) [OF False] f(1,2)]) (use f in simp_all)
    moreover have "e_sched s' = sc" using arg_cong [OF d'(1), of "\<lambda>d. e_sched (d_eng d)"] False by (simp add: d1_def)
    ultimately show ?thesis using d' False request_create_keeps [OF si sc] by (simp add: requests_kept_def)
  qed
qed

lemma dispatch_retry_inv:
  assumes "disp_inv {#} {#r#} d" "retry_fired {#} d r t out" "\<forall>p. queue_ok d p" "env_valid e"
    "flb_engine_dispatch_retry io Hf e env r d = Some (ret, d')"
  shows "ret = 0 \<and> disp_inv {#} {#r#} d' \<and> requests_kept (e_sched (d_eng d)) (e_sched (d_eng d')) \<or> ret = -1 \<and> disp_inv {#} {#} d'"
    "\<forall>p. queue_ok d' p"
proof -
  have f: "live (d_eng d) t" "r \<in> set (tk_retries (tk (d_eng d) t))" using assms(2) by (simp_all add: retry_fired_def)
  note t = eng_invD(3) [OF disp_invD(1) [OF assms(1)] f(1)]
  have p: "rt_parent (rt (d_eng d) r) = t" using t f(2) by (simp add: task_ok_def task_linked_def task_retries_ok_def)
  define c where "c = tk_ic (tk (d_eng d) t)"
  have c: "c \<in> dom (e_chunk_heap (d_eng d))" "ic_busy (ic (d_eng d) c)" using t by (simp_all add: c_def task_ok_def task_linked_def)
  obtain x s1 where s1: "flb_input_chunk_set_up io c (d_eng d) = (x, s1)" by fastforce
  define d1 where "d1 = d\<lparr>d_eng := s1\<rparr>"
  have e1: "same_eng (d_eng d) s1" "tk s1 = tk (d_eng d)"
    using same_eng_chunk(2) [OF c(1), of io] s1 by (auto simp: flb_input_chunk_set_up_def chunk_call_def case_prod_beta split: if_splits)
  have i1: "disp_inv {#} {#r#} d1" "retry_fired {#} d1 r t out" "\<forall>p. queue_ok d1 p" "e_sched (d_eng d1) = e_sched (d_eng d)"
    using disp_inv_chunk [OF assms(1) e1] retry_fired_chunk [OF assms(2) e1] assms(3) same_engD(5) [OF e1(1)]
    by (simp_all add: d1_def queue_ok_def)
  have c1: "c \<in> dom (e_chunk_heap s1)" "ic_busy (ic s1 c)" "tk_ic (tk s1 t) = c" using e1 c by (auto simp: same_eng_def c_def)
  obtain buf n s2 where s2: "flb_input_chunk_flush io c s1 = ((buf, n), s2)" by (metis prod.collapse)
  define d2 where "d2 = d\<lparr>d_eng := s2\<rparr>"
  have e2: "same_eng (d_eng d1) s2" "tk s2 = tk (d_eng d1)"
    using chunk_flush_same(2) [OF c1(1) s2 c1(2)] chunk_flush_tasks [OF s2] by (simp_all add: d1_def)
  have i2: "disp_inv {#} {#r#} d2" "retry_fired {#} d2 r t out" "\<forall>p. queue_ok d2 p" "e_sched (d_eng d2) = e_sched (d_eng d)"
    using disp_inv_chunk [OF i1(1) e2] retry_fired_chunk [OF i1(2) e2] i1(3,4) same_engD(5) [OF e2(1)]
    by (simp_all add: d2_def d1_def queue_ok_def)
  have o2: "rt_o_ins (rt s2 r) = out" using i2(2) by (simp add: retry_fired_def d2_def)
  have f2: "live (d_eng d2) t" "r \<in> set (tk_retries (tk (d_eng d2) t))" "tok {#} d2 t out = 0" "count (pending (e_sched (d_eng d2))) r = 1"
    using i2(2) by (simp_all add: retry_fired_def)
  have kept: "requests_kept s s" for s by (simp add: requests_kept_def)
  have rs: "ret = 0 \<and> disp_inv {#} {#r#} d' \<and> requests_kept (e_sched (d_eng d)) (e_sched (d_eng d')) \<or> ret = -1 \<and> disp_inv {#} {#} d'"
    and qs: "\<forall>p. queue_ok d' p" if x1: "x = -1"
  proof -
    obtain y s3 where s3: "flb_task_retry_reschedule io Hf e r s1 = Some (y, s3)" "ret = (if y = -1 then -1 else 0)" "d' = d\<lparr>d_eng := s3\<rparr>"
      using assms(5) s1 x1 p by (auto simp: flb_engine_dispatch_retry_def Let_def c_def split: option.splits)
    have "y = 0 \<and> disp_inv {#} {#r#} (d1\<lparr>d_eng := s3\<rparr>) \<and> requests_kept (e_sched (d_eng d1)) (e_sched s3) \<or> y = -1 \<and> disp_inv {#} {#} (d1\<lparr>d_eng := s3\<rparr>)"
      by (rule reschedule_inv [OF i1(1,2) assms(4)]) (use s3(1) in \<open>simp add: d1_def\<close>)
    then show "ret = 0 \<and> disp_inv {#} {#r#} d' \<and> requests_kept (e_sched (d_eng d)) (e_sched (d_eng d')) \<or> ret = -1 \<and> disp_inv {#} {#} d'"
      using s3(2,3) i1(4) by (auto simp: d1_def)
    show "\<forall>p. queue_ok d' p" using assms(3) s3(3) by (simp add: queue_ok_def)
  qed
  have un: "flb_engine_dispatch_retry io Hf e env r d = (case buf of
      None \<Rightarrow> Some (-1, eng_upd (flb_task_retry_destroy r) d2)
    | Some b \<Rightarrow> if is_sync d2 out then (case flb_output_task_singleplex_enqueue env (Some r) t out d2 of (ret, d3) \<Rightarrow> Some (if ret = -1 then -1 else 0, d3))
        else (case flb_output_task_flush env t out d2 of (ret, d3) \<Rightarrow> if ret = -1 then Some (-1, eng_upd (flb_task_retry_destroy r) d3) else Some (0, d3)))"
    if "x \<noteq> -1"
    using that s1 s2 p c1(3) o2 by (simp add: flb_engine_dispatch_retry_def Let_def c_def [symmetric] d2_def eng_upd_def split: option.split)
  have fl: "(ret = 0 \<and> disp_inv {#} {#r#} d' \<and> requests_kept (e_sched (d_eng d)) (e_sched (d_eng d')) \<or> ret = -1 \<and> disp_inv {#} {#} d') \<and> (\<forall>p. queue_ok d' p)"
    if x: "x \<noteq> -1"
  proof (cases buf)
    case None
    have "disp_inv {#} {#} (eng_upd (flb_task_retry_destroy r) d2)"
      by (rule retry_destroy_fired [OF i2(1), of t out]) (use f2 o2 tok_no_entry [OF f2(3)] in \<open>simp_all add: d2_def\<close>)
    then show ?thesis using None un [OF x] assms(5) i2(3) by (auto simp: queue_ok_def)
  next
    case (Some b)
    show ?thesis
    proof (cases "is_sync d2 out")
      case True
      obtain y d3 where y: "flb_output_task_singleplex_enqueue env (Some r) t out d2 = (y, d3)" by fastforce
      have "\<forall>p. queue_ok d3 p" by (rule flush_frame_queue_ok [OF enqueue_retry(2) [OF i2(1,2) _ y] i2(3) enqueue_retry(3) [OF i2(1,2) _ y]]) (use i2(3) in simp_all)
      then show ?thesis using enqueue_retry(1) [OF i2(1,2) _ y] i2(3,4) un [OF x] assms(5) Some True y kept by auto
    next
      case False
      obtain y d3 where y: "flb_output_task_flush env t out d2 = (y, d3)" by fastforce
      have "d_queues d3 = d_queues d2" by (rule flush_retry(2) [OF i2(1,2) False y])
      then show ?thesis using flush_retry(1) [OF i2(1,2) False y] i2(3,4) un [OF x] assms(5) Some False y kept
        by (auto simp: queue_ok_def split: if_splits)
    qed
  qed
  show "ret = 0 \<and> disp_inv {#} {#r#} d' \<and> requests_kept (e_sched (d_eng d)) (e_sched (d_eng d')) \<or> ret = -1 \<and> disp_inv {#} {#} d'"
    "\<forall>p. queue_ok d' p"
    using rs qs fl by blast+
qed

text \<open>The request of a retry, or the frame, of a running timer fires.\<close>

lemma disp_fired:
  assumes "disp_ok d" "r \<in># pending (e_sched (d_eng d))"
  shows "disp_inv {#} {#r#} d" "retry_fired {#} d r (rt_parent (rt (d_eng d) r)) (rt_o_ins (rt (d_eng d) r))"
proof -
  have i: "disp_inv {#} {#} d" using assms(1) by (simp add: disp_ok_def)
  define t where "t = rt_parent (rt (d_eng d) r)"
  have r: "live (d_eng d) t" "r \<in> set (tk_retries (tk (d_eng d) t))"
    using eng_invD(5) [OF disp_invD(1) [OF i]] assms(2) by (simp_all add: requests_ok_def t_def)
  obtain k where "count (pending (e_sched (d_eng d))) r = Suc k" using assms(2) by (metis count_eq_zero_iff not0_implies_Suc)
  then show "retry_fired {#} d r (rt_parent (rt (d_eng d) r)) (rt_o_ins (rt (d_eng d) r))"
    using tokens_okD(3) [OF disp_invD(3) [OF i] r] r by (simp add: retry_fired_def t_def)
  have "disp_inv {#} {#r#} (eng_upd (\<lambda>s. s\<lparr>e_sched := e_sched (d_eng d)\<rparr>) d)"
    by (rule disp_inv_sched [OF i eng_invD(6) [OF disp_invD(1) [OF i]]])
      (use tokens_okD(3) [OF disp_invD(3) [OF i]] le_SucI in \<open>auto intro: le_trans\<close>)
  then show "disp_inv {#} {#r#} d" by (simp add: eng_upd_def)
qed

lemma request_destroy_kept:
  assumes "sched_inv s" "a \<in> set (requests s) \<union> set (requests_wait s)"
  shows "sched_inv (flb_sched_request_destroy a s)" "pending (flb_sched_request_destroy a s) = pending s - {#r_data (rq s a)#}"
  using flb_sched_request_destroy_inv [OF assms] request_destroy_pending [OF assms] by simp_all

lemma timer_request:
  assumes "sched_inv s" "t \<in> set (timers s)" "t_type (tm s t) = FLB_SCHED_TIMER_REQUEST"
  obtains a where "a \<in> set (requests s) \<union> set (requests_wait s)" "t_data (tm s t) = TRequest a" "r_data (rq s a) \<in># pending s"
proof -
  have "timer_ok s t" using assms(1,2) by (simp add: sched_inv_def)
  then obtain a where a: "a \<in> set (requests s) \<union> set (requests_wait s)" "t_data (tm s t) = TRequest a"
    using assms(3) by (auto simp: timer_ok_def)
  then show thesis using that pending_data by blast
qed

text \<open>Timers with callbacks of their own are left to their callers; the engine has requests and the frame.\<close>

lemma event_handler_ok:
  assumes "disp_ok d" "t \<in> set (timers (e_sched (d_eng d)))"
    "t_type (tm (e_sched (d_eng d)) t) \<in> {FLB_SCHED_TIMER_REQUEST, FLB_SCHED_TIMER_FRAME}" "env_valid e"
    "flb_sched_event_handler io Hf e env cb t d = Some (x, d')"
  shows "x = 0 \<and> disp_ok d'"
proof -
  define sc where "sc = e_sched (d_eng d)"
  have i: "disp_inv {#} {#} d" "\<forall>p. queue_ok d p" using assms(1) by (simp_all add: disp_ok_def)
  have si: "sched_inv sc" using eng_invD(6) [OF disp_invD(1) [OF i(1)]] by (simp add: sc_def)
  have act: "t_active (tm sc t)" using si assms(2) by (simp add: sched_inv_def timer_ok_def sc_def)
  show ?thesis
  proof (cases "t_type (tm sc t) = FLB_SCHED_TIMER_REQUEST")
    case True
    from timer_request [OF si assms(2) [folded sc_def] True] obtain a where a: "a \<in> set (requests sc) \<union> set (requests_wait sc)"
      "t_data (tm sc t) = TRequest a" "r_data (rq sc a) \<in># pending sc" .
    define r where "r = r_data (rq sc a)"
    have rp: "r \<in># pending (e_sched (d_eng d))" using a(3) by (simp add: r_def sc_def)
    obtain y d1 where y: "flb_engine_dispatch_retry io Hf e env r d = Some (y, d1)"
      "d' = (if y = 0 then eng_upd (\<lambda>s. s\<lparr>e_sched := flb_sched_request_destroy a (e_sched s)\<rparr>) d1 else d1)" "x = 0"
      using assms(5) act True a(2)
      by (auto simp: flb_sched_event_handler_def Let_def sc_def [symmetric] r_def split: option.splits)
    note dr = dispatch_retry_inv [OF disp_fired [OF assms(1) rp] i(2) assms(4) y(1)]
    show ?thesis
    proof (cases "y = 0")
      case True
      then have k: "disp_inv {#} {#r#} d1" "requests_kept sc (e_sched (d_eng d1))" using dr(1) by (simp_all add: sc_def)
      have a1: "a \<in> set (requests (e_sched (d_eng d1))) \<union> set (requests_wait (e_sched (d_eng d1)))" "r_data (rq (e_sched (d_eng d1)) a) = r"
        using k(2) a(1) by (simp_all add: requests_kept_def r_def)
      note rd = request_destroy_kept [OF eng_invD(6) [OF disp_invD(1) [OF k(1)]] a1(1), unfolded a1(2)]
      have "r \<in># pending (e_sched (d_eng d1))" using a1 pending_data by blast
      from disp_request_done [OF k(1) rd this] show ?thesis using y dr(2) True by (simp add: disp_ok_def eng_upd_def queue_ok_def)
    next
      case False
      then show ?thesis using dr y by (simp add: disp_ok_def)
    qed
  next
    case False
    then have fr: "t_type (tm sc t) = FLB_SCHED_TIMER_FRAME" using assms(3) by (simp add: sc_def)
    obtain z sc' where z: "schedule_request_promote (x_now e) (x_fds e) sc = (z, sc')" by fastforce
    have "disp_inv {#} {#} (eng_upd (\<lambda>s. s\<lparr>e_sched := sc'\<rparr>) d)"
      by (rule disp_sched_same [OF i(1) promote_lists(1) [OF si z]]) (use promote_pending [OF si z] in \<open>simp add: sc_def\<close>)
    moreover have "d' = eng_upd (\<lambda>s. s\<lparr>e_sched := sc'\<rparr>) d" "x = 0"
      using assms(5) act fr False z by (simp_all add: flb_sched_event_handler_def Let_def sc_def [symmetric] eng_upd_def)
    ultimately show ?thesis using i(2) by (simp add: disp_ok_def queue_ok_def)
  qed
qed

end
