(* ===== verification/Flb_Engine_Dispatch.thy ===== *)
theory Flb_Engine_Dispatch
  imports Flb_Engine_Handlers
begin

text \<open>
  Flushes and the dispatch of an input keep the invariant: the start and the return of a flush, the loop that
  starts tasks, the loop that turns chunks into tasks, and the chunks inputs add.
\<close>


section \<open>Flushes run and return\<close>

lemma flush_not_new:
  assumes "disp_inv H K d" "f \<in> set (d_flushes d)"
  shows "live (d_eng d) (fl_task f)" "fl_out f \<in> out_ids (d_eng d)" "tk_status (tk (d_eng d) (fl_task f)) \<noteq> FLB_TASK_NEW"
proof -
  show l: "live (d_eng d) (fl_task f)" "fl_out f \<in> out_ids (d_eng d)" using refs_okD(2) [OF disp_invD(2) [OF assms(1)] assms(2)] by simp_all
  have "tok H d (fl_task f) (fl_out f) \<noteq> 0" using assms(2) by (auto simp: tok_def filter_empty_conv)
  then show "tk_status (tk (d_eng d) (fl_task f)) \<noteq> FLB_TASK_NEW"
    using tokens_okD(4) [OF disp_invD(3) [OF assms(1)] l(1), of "fl_out f"] by auto
qed

lemma disp_route_status:
  assumes "disp_inv H K d" "live (d_eng d) t" "tk_status (tk (d_eng d) t) \<noteq> FLB_TASK_NEW"
  shows "disp_inv H K (eng_upd (flb_task_set_route_status t out st) d)"
proof (rule disp_inv_mono [OF assms(1)])
  show s: "same_eng (d_eng d) (d_eng (eng_upd (flb_task_set_route_status t out st) d))"
    using assms(2) by (simp add: flb_task_set_route_status_def same_eng_tk_upd)
  show "refs_ok H (eng_upd (flb_task_set_route_status t out st) d)" by (rule refs_ok_same [OF disp_invD(2) [OF assms(1)] s]) simp_all
qed (use assms(3) in \<open>auto simp: flb_task_set_route_status_def tok_def split: if_splits\<close>)

lemma output_return_inv:
  assumes "disp_inv {#} {#} d" "f \<in> set (d_flushes d)" "ret \<in> {FLB_OK, FLB_RETRY, FLB_ERROR}"
  shows "disp_inv {#} {#} (flb_output_return pipe_ok ret f d)"
proof -
  define t out where "t = fl_task f" and "out = fl_out f"
  note n = flush_not_new [OF assms(1,2), folded t_def out_def]
  define d1 where "d1 = eng_upd (flb_task_deactivate_route t out) d"
  have i1: "disp_inv {#} {#} d1" unfolding d1_def flb_task_deactivate_route_def [abs_def] by (rule disp_route_status [OF assms(1) n(1,3)])
  have f1: "d_flushes d1 = d_flushes d" "live (d_eng d1) t" "out \<in> out_ids (d_eng d1)"
    using n by (simp_all add: d1_def flb_task_deactivate_route_def flb_task_set_route_status_def out_ids_def)
  define d2 where "d2 = d1\<lparr>d_flushes := remove1 f (d_flushes d1)\<rparr>"
  have fl: "length (filter (\<lambda>g. fl_task g = u \<and> fl_out g = p) (d_flushes d1)) =
      length (filter (\<lambda>g. fl_task g = u \<and> fl_out g = p) (remove1 f (d_flushes d1))) + (if u = t \<and> p = out then 1 else 0)" for u p
    using length_filter_remove1 [OF assms(2), of "\<lambda>g. fl_task g = u \<and> fl_out g = p"] by (auto simp: f1(1) t_def out_def)
  have r2: "refs_ok {#} d2"
    by (rule refs_ok_same [OF disp_invD(2) [OF i1]]) (auto simp: d2_def dest: subsetD [OF set_remove1_subset])
  have r2': "refs_ok {#(t, out)#} d2" using r2 f1 by (simp add: refs_ok_def d2_def)
  have i2: "disp_inv {#(t, out)#} {#} d2"
    by (rule disp_inv_move [OF i1 _ r2']) (simp_all add: d2_def tok_def fl)
  define v where "v = out_event ret (tk_id (tk (d_eng d2) t)) out"
  define d3 where "d3 = d2\<lparr>d_events := d_events d2 @ [v]\<rparr>"
  have l2: "live (d_eng d2) t" "out \<in> out_ids (d_eng d2)" using hand_live [OF i2] by simp_all
  have b: "tk_id (tk (d_eng d2) t) < TASKS_MAP_SIZE" "0 \<le> out" "out < 2 ^ 14"
    using eng_invD(1,2) [OF disp_invD(1) [OF i2]] l2 by (auto simp: task_ids_ok_def outs_ok_def)
  note u = out_event_unpack(3,4) [OF assms(3) b, folded v_def]
  have ev: "ev_for (tk_id (tk (d_eng d2) w)) p v \<longleftrightarrow> w = t \<and> p = out" if "live (d_eng d2) w" for w p
    using u task_ids_unique [OF eng_invD(1) [OF disp_invD(1) [OF i2]], of w t] that l2(1) by (auto simp: ev_for_def)
  have r3: "refs_ok {#} d3" unfolding refs_ok_def d3_def using r2 l2 assms(3) v_def by (auto simp: refs_ok_def)
  have "disp_inv {#} {#} d3"
    by (rule disp_inv_move [OF i2 _ r3]) (simp_all add: d3_def tok_def ev)
  moreover have "flb_output_return pipe_ok ret f d = (if pipe_ok then d3 else d2)"
    by (simp add: flb_output_return_def Let_def d3_def d2_def v_def d1_def t_def out_def)
  ultimately show ?thesis using disp_forget [OF i2] by simp
qed

lemma output_return_queues: "d_queues (flb_output_return pipe_ok ret f d) = d_queues d"
  by (simp add: flb_output_return_def Let_def)

lemma pre_cb_flush_inv:
  assumes "disp_inv {#} {#} d" "f \<in> set (d_flushes d)"
  shows "disp_inv {#} {#} (output_pre_cb_flush pipe_ok f d)" "d_queues (output_pre_cb_flush pipe_ok f d) = d_queues d"
proof -
  define d1 where "d1 = eng_upd (flb_task_activate_route (fl_task f) (fl_out f)) d"
  define g where "g = (\<lambda>x. if x = f then x\<lparr>fl_running := True\<rparr> else x)"
  have i1: "disp_inv {#} {#} d1"
    unfolding d1_def flb_task_activate_route_def [abs_def] by (rule disp_route_status [OF assms(1) flush_not_new(1,3) [OF assms]])
  have g: "fl_task (g x) = fl_task x" "fl_out (g x) = fl_out x" for x by (simp_all add: g_def)
  have "disp_inv {#} {#} (d1\<lparr>d_flushes := map g (d_flushes d1)\<rparr>)"
  proof (rule disp_inv_move [OF i1])
    show "refs_ok {#} (d1\<lparr>d_flushes := map g (d_flushes d1)\<rparr>)" using disp_invD(2) [OF i1] by (simp add: refs_ok_def g)
  qed (simp_all add: tok_def filter_map comp_def g)
  then show "disp_inv {#} {#} (output_pre_cb_flush pipe_ok f d)"
    using output_return_inv [OF assms] by (simp add: output_pre_cb_flush_def Let_def d1_def g_def)
  show "d_queues (output_pre_cb_flush pipe_ok f d) = d_queues d"
    by (simp add: output_pre_cb_flush_def Let_def output_return_queues)
qed

section \<open>Starting tasks\<close>

definition startable :: "'c disp \<Rightarrow> addr \<Rightarrow> bool" where
  "startable d t \<longleftrightarrow> disp_ok d \<and> live (d_eng d) t \<and> tk_status (tk (d_eng d) t) \<noteq> FLB_TASK_NEW \<and> tk_retries (tk (d_eng d) t) = []"

lemma startable_flush:
  assumes "startable d t" "out \<in> out_ids (d_eng d)" "tok {#} d t out = 0"
    and d'_def: "d' = (if is_sync d out then snd (flb_output_task_singleplex_enqueue env None t out d) else snd (flb_output_task_flush env t out d))"
  shows "startable d' t" "flush_frame out d d'"
proof -
  have i: "disp_inv {#} {#} d" "\<forall>p. queue_ok d p" "live (d_eng d) t" using assms(1) by (simp_all add: startable_def disp_ok_def)
  have m: "may_take {#} {#} d t out" using assms(1-3) by (simp add: may_take_def startable_def)
  show fr: "flush_frame out d d'" using enqueue_inv(2) [OF i(1) m] task_flush_frame(1) by (auto simp: d'_def)
  have "disp_inv {#} {#} d'" using enqueue_inv(1) [OF i(1) m] task_flush_inv [OF i(1) m] by (simp add: d'_def)
  moreover have "queue_ok d' out" using enqueue_inv(3) [OF i(1) m, of env] task_flush_frame(2) [of d out env t] i(2) by (simp add: d'_def)
  ultimately have "disp_ok d'" using flush_frame_queue_ok [OF fr i(2)] by (simp add: disp_ok_def)
  moreover have "set (tk_retries (tk (d_eng d') t)) \<subseteq> set (tk_retries (tk (d_eng d) t))" using fr i(3) by (simp add: flush_frame_def)
  then have "tk_retries (tk (d_eng d') t) = []" using assms(1) by (simp add: startable_def)
  ultimately show "startable d' t" using fr assms(1) i(3) by (simp add: startable_def flush_frame_def)
qed

lemma startable_unroute:
  assumes "startable d t" and d'_def: "d' = eng_upd (tk_upd t (\<lambda>x. x\<lparr>tk_routes := remove1 route (tk_routes x)\<rparr>)) d"
  shows "startable d' t" "tok {#} d' = tok {#} d"
proof -
  have i: "disp_inv {#} {#} d" "\<forall>p. queue_ok d p" "live (d_eng d) t" "tk_status (tk (d_eng d) t) \<noteq> FLB_TASK_NEW"
    using assms(1) by (simp_all add: startable_def disp_ok_def)
  show tok: "tok {#} d' = tok {#} d" by (simp add: tok_def fun_eq_iff d'_def)
  have s: "same_eng (d_eng d) (d_eng d')" using i(3) by (simp add: d'_def same_eng_tk_upd)
  have "refs_ok {#} d'" by (rule refs_ok_same [OF disp_invD(2) [OF i(1)] s]) (simp_all add: d'_def)
  moreover have "tk_status (tk (d_eng d') u) = tk_status (tk (d_eng d) u)" "tk_users (tk (d_eng d') u) = tk_users (tk (d_eng d) u)"
    "tk_status (tk (d_eng d) u) = FLB_TASK_NEW \<Longrightarrow> tk_routes (tk (d_eng d') u) = tk_routes (tk (d_eng d) u)" for u
    using i(4) by (auto simp: d'_def)
  ultimately have "disp_inv {#} {#} d'"
    using i(4) by (intro disp_inv_mono [OF i(1) s]) (auto simp: tok)
  then show "startable d' t" using assms(1) i(2) by (simp add: startable_def disp_ok_def d'_def queue_ok_def)
qed

text \<open>What the loop over the routes does to the task it starts.\<close>

definition routes_started :: "nat \<Rightarrow> 'c disp \<Rightarrow> nat \<Rightarrow> 'c disp \<Rightarrow> addr \<Rightarrow> bool" where
  "routes_started hits d hits' d' t \<longleftrightarrow> startable d' t \<and> hits \<le> hits' \<and> dom (e_task_heap (d_eng d)) \<subseteq> dom (e_task_heap (d_eng d')) \<and>
     out_ids (d_eng d') = out_ids (d_eng d) \<and> e_inputs (d_eng d') = e_inputs (d_eng d) \<and>
     (hits' = hits \<longrightarrow> (\<forall>p. tok {#} d' t p = tok {#} d t p) \<and>
        (routes_ok (d_eng d) (tk_routes (tk (d_eng d) t)) \<longrightarrow> routes_ok (d_eng d') (tk_routes (tk (d_eng d') t))))"

lemma routes_started_step:
  assumes "routes_started hits1 d1 hits' d' t" "hits \<le> hits1" "dom (e_task_heap (d_eng d)) \<subseteq> dom (e_task_heap (d_eng d1))"
    "out_ids (d_eng d1) = out_ids (d_eng d)" "e_inputs (d_eng d1) = e_inputs (d_eng d)"
    "hits1 = hits \<Longrightarrow> tok {#} d1 = tok {#} d \<and>
       (routes_ok (d_eng d) (tk_routes (tk (d_eng d) t)) \<longrightarrow> routes_ok (d_eng d1) (tk_routes (tk (d_eng d1) t)))"
  shows "routes_started hits d hits' d' t"
proof -
  note o = assms(1) [unfolded routes_started_def]
  have "hits1 = hits" if "hits' = hits" using o assms(2) that by simp
  then show ?thesis using o assms(2,4-6) order_trans [OF assms(3), of "dom (e_task_heap (d_eng d'))"]
    unfolding routes_started_def by (intro conjI impI) auto
qed

lemma routes_ok_remove: "routes_ok s rs \<Longrightarrow> routes_ok s (remove1 r rs)"
  unfolding routes_ok_def by (metis distinct_map distinct_remove1 image_mono inj_on_subset order_trans set_remove1_subset)

lemma start_routes_inv:
  assumes "startable d t" "routes_ok (d_eng d) rs" "\<forall>route\<in>set rs. tok {#} d t (tr_out route) = 0"
  shows "case start_routes tests workers env retrying t rs hits d of (hits', d') \<Rightarrow> routes_started hits d hits' d' t"
  using assms
proof (induction tests workers env retrying t rs hits d rule: start_routes.induct)
  case (1 tests workers env retrying t hits d)
  then show ?case by (simp add: routes_started_def)
next
  case (2 tests workers env retrying t route rs hits d)
  define out where "out = tr_out route"
  have r: "routes_ok (d_eng d) rs" "out \<in> out_ids (d_eng d)" "\<forall>q\<in>set rs. tr_out q \<noteq> out" "tok {#} d t out = 0"
    "\<forall>q\<in>set rs. tok {#} d t (tr_out q) = 0"
    using 2(5,6) by (auto simp: routes_ok_def out_def image_iff)
  show ?case
  proof (cases "tests out")
    case True
    define d1 where "d1 = eng_upd (tk_upd t (\<lambda>x. x\<lparr>tk_routes := remove1 route (tk_routes x)\<rparr>)) d"
    note u = startable_unroute [OF 2(4) d1_def]
    have e1: "routes_ok (d_eng d1) = routes_ok (d_eng d)" "dom (e_task_heap (d_eng d)) \<subseteq> dom (e_task_heap (d_eng d1))" "out_ids (d_eng d1) = out_ids (d_eng d)"
      "tk_routes (tk (d_eng d1) t) = remove1 route (tk_routes (tk (d_eng d) t))" "e_inputs (d_eng d1) = e_inputs (d_eng d)"
      by (auto simp: d1_def routes_ok_def out_ids_def fun_eq_iff)
    obtain hits' d' where h: "start_routes tests workers env retrying t rs hits d1 = (hits', d')" by fastforce
    have "routes_started hits d1 hits' d' t"
      using 2(1) [OF out_def True] u r e1(1) h unfolding d1_def [symmetric] by simp
    then have "routes_started hits d hits' d' t"
      by (rule routes_started_step [OF _ order_refl e1(2,3,5)]) (simp add: u(2) e1(1,4) routes_ok_remove)
    then show ?thesis using True h by (simp add: Let_def out_def [symmetric] d1_def [symmetric])
  next
    case nt: False
    show ?thesis
    proof (cases "o_flags (out_ins (d_eng d) out) AND FLB_OUTPUT_NO_MULTIPLEX \<noteq> 0 \<and> (flb_output_coros_size workers env d out > 0 \<or> retrying)")
      case True
      then show ?thesis using 2(2) [OF out_def nt True 2(4) r(1,5)] nt by (simp add: Let_def out_def [symmetric])
    next
      case False
      define d1 where "d1 = (if is_sync d out then snd (flb_output_task_singleplex_enqueue env None t out d) else snd (flb_output_task_flush env t out d))"
      note f = startable_flush [OF 2(4) r(2,4) d1_def]
      have l: "live (d_eng d) t" using 2(4) by (simp add: startable_def)
      have e1: "routes_ok (d_eng d1) = routes_ok (d_eng d)" "dom (e_task_heap (d_eng d)) \<subseteq> dom (e_task_heap (d_eng d1))" "out_ids (d_eng d1) = out_ids (d_eng d)"
        "e_inputs (d_eng d1) = e_inputs (d_eng d)"
        using f(2) by (auto simp: flush_frame_def routes_ok_def out_ids_def fun_eq_iff)
      have "\<forall>q\<in>set rs. tok {#} d1 t (tr_out q) = 0" using r(3,5) flush_frame_tok [OF f(2) l] by simp
      then have "case start_routes tests workers env retrying t rs (hits + 1) d1 of (hits', d') \<Rightarrow> routes_started (hits + 1) d1 hits' d' t"
        using 2(3) [OF out_def nt False] f(1) r(1) e1(1) unfolding d1_def [symmetric] by simp
      then have "case start_routes tests workers env retrying t rs (hits + 1) d1 of (hits', d') \<Rightarrow> routes_started hits d hits' d' t"
        using routes_started_step [OF _ _ e1(2,3,4), of "hits + 1" _ _ _ hits] by (simp add: case_prod_beta)
      then show ?thesis
        unfolding start_routes.simps Let_def out_def [symmetric] d1_def [symmetric] if_not_P [OF nt] if_not_P [OF False] .
    qed
  qed
qed

lemma disp_status_running:
  assumes "disp_ok d" "live (d_eng d) t" "tk_status (tk (d_eng d) t) = FLB_TASK_NEW"
    and d'_def: "d' = eng_upd (tk_upd t (\<lambda>x. x\<lparr>tk_status := FLB_TASK_RUNNING\<rparr>)) d"
  shows "startable d' t" "routes_ok (d_eng d') (tk_routes (tk (d_eng d') t))" "\<forall>p. tok {#} d' t p = 0"
    "dom (e_task_heap (d_eng d')) = dom (e_task_heap (d_eng d))"
proof -
  have i: "disp_inv {#} {#} d" "\<forall>p. queue_ok d p" using assms(1) by (simp_all add: disp_ok_def)
  have tok: "tok {#} d' = tok {#} d" by (simp add: tok_def fun_eq_iff d'_def)
  have s: "same_eng (d_eng d) (d_eng d')" using assms(2) by (simp add: d'_def same_eng_tk_upd)
  have r: "refs_ok {#} d'" by (rule refs_ok_same [OF disp_invD(2) [OF i(1)] s]) (simp_all add: d'_def)
  have st: "tk_status (tk (d_eng d) u) = FLB_TASK_NEW \<and> tk_routes (tk (d_eng d') u) = tk_routes (tk (d_eng d) u)"
    if "tk_status (tk (d_eng d') u) = FLB_TASK_NEW" for u using that assms(3) by (auto simp: d'_def task_consts split: if_splits)
  have us: "tk_users (tk (d_eng d') u) = tk_users (tk (d_eng d) u)" for u by (simp add: d'_def)
  have "disp_inv {#} {#} d'" by (rule disp_inv_mono [OF i(1) s r]) (use st us in \<open>simp_all add: tok\<close>)
  moreover have o: "tk_retries (tk (d_eng d) t) = []" "tok {#} d t p = 0" "routes_ok (d_eng d) (tk_routes (tk (d_eng d) t))" for p
    using tokens_okD(4) [OF disp_invD(3) [OF i(1)] assms(2,3), of p] by simp_all
  ultimately show "startable d' t"
    using assms(2) i(2) by (simp add: startable_def disp_ok_def d'_def queue_ok_def task_consts)
  show "routes_ok (d_eng d') (tk_routes (tk (d_eng d') t))" "\<forall>p. tok {#} d' t p = 0"
    "dom (e_task_heap (d_eng d')) = dom (e_task_heap (d_eng d))"
    using o assms(2) tok by (auto simp: d'_def routes_ok_def out_ids_def)
qed

lemma disp_status_new:
  assumes "startable d t" "\<forall>p. tok {#} d t p = 0" "routes_ok (d_eng d) (tk_routes (tk (d_eng d) t))"
    and d'_def: "d' = eng_upd (tk_upd t (\<lambda>x. x\<lparr>tk_status := FLB_TASK_NEW\<rparr>)) d"
  shows "disp_ok d'"
proof -
  have i: "disp_inv {#} {#} d" "\<forall>p. queue_ok d p" "live (d_eng d) t" "tk_retries (tk (d_eng d) t) = []"
    using assms(1) by (simp_all add: startable_def disp_ok_def)
  have tok: "tok {#} d' = tok {#} d" by (simp add: tok_def fun_eq_iff d'_def)
  have s: "same_eng (d_eng d) (d_eng d')" using i(3) by (simp add: d'_def same_eng_tk_upd)
  note e = same_engD [OF s]
  have r: "refs_ok {#} d'" by (rule refs_ok_same [OF disp_invD(2) [OF i(1)] s]) (simp_all add: d'_def)
  have f: "tk_users (tk (d_eng d') u) = tk_users (tk (d_eng d) u)" "tk_routes (tk (d_eng d') u) = tk_routes (tk (d_eng d) u)"
    "u \<noteq> t \<Longrightarrow> tk_status (tk (d_eng d') u) = tk_status (tk (d_eng d) u)" for u by (simp_all add: d'_def)
  have ro: "routes_ok (d_eng d') = routes_ok (d_eng d)" by (simp add: routes_ok_def fun_eq_iff e(6))
  have "tokens_ok {#} {#} d'"
    unfolding tokens_ok_def e(1,4-6) tok f(1,2) ro
  proof (intro allI impI)
    fix u assume u: "live (d_eng d) u"
    note o = tokens_okD [OF disp_invD(3) [OF i(1)] u]
    have 1: "tk_retries (tk (d_eng d') u) = tk_retries (tk (d_eng d) u)" by (rule e(3) [OF u])
    have 2: "tk_retries (tk (d_eng d) u) = [] \<and> tok {#} d u p = 0 \<and> routes_ok (d_eng d) (tk_routes (tk (d_eng d) u))"
      if "tk_status (tk (d_eng d') u) = FLB_TASK_NEW" for p
      using o(4) [of p] f(3) [of u] that i(4) assms(2,3) by (cases "u = t") auto
    show "int (sum (tok {#} d u) (out_ids (d_eng d))) \<le> tk_users (tk (d_eng d) u) \<and> (\<forall>p. tok {#} d u p \<le> 1) \<and>
      (\<forall>q\<in>set (tk_retries (tk (d_eng d') u)). tok {#} d u (rt_o_ins (rt (d_eng d) q)) + count (pending (e_sched (d_eng d))) q \<le> 1 + count {#} q) \<and>
      (tk_status (tk (d_eng d') u) = FLB_TASK_NEW \<longrightarrow> tk_retries (tk (d_eng d') u) = [] \<and> (\<forall>p. tok {#} d u p = 0) \<and>
        routes_ok (d_eng d) (tk_routes (tk (d_eng d) u)))"
      using o(1,2,3) 2 unfolding 1 by blast
  qed
  then show ?thesis using eng_inv_same [OF disp_invD(1) [OF i(1)] s] r i(2) by (simp add: disp_ok_def disp_inv_def d'_def queue_ok_def)
qed

lemma start_tasks_inv:
  assumes "disp_ok d" "set ts \<subseteq> dom (e_task_heap (d_eng d))"
  shows "disp_ok (start_tasks tests workers env ts retry d) \<and>
    dom (e_task_heap (d_eng d)) \<subseteq> dom (e_task_heap (d_eng (start_tasks tests workers env ts retry d))) \<and>
    e_inputs (d_eng (start_tasks tests workers env ts retry d)) = e_inputs (d_eng d)"
  using assms
proof (induction tests workers env ts retry d rule: start_tasks.induct)
  case (2 tests workers env t ts retry d)
  define rr where "rr = (if tk_retries (tk (d_eng d) t) \<noteq> [] then retry + 1 else retry)"
  show ?case
  proof (cases "tk_status (tk (d_eng d) t) = FLB_TASK_NEW")
    case False
    then show ?thesis using 2(1) [OF rr_def _ 2(3)] 2(4) by (simp add: Let_def rr_def)
  next
    case True
    define d1 where "d1 = eng_upd (tk_upd t (\<lambda>x. x\<lparr>tk_status := FLB_TASK_RUNNING\<rparr>)) d"
    obtain hits d2 where h: "start_routes tests workers env (rr > 0) t (tk_routes (tk (d_eng d1) t)) 0 d1 = (hits, d2)" by fastforce
    define d3 where "d3 = (if hits = 0 then eng_upd (tk_upd t (\<lambda>x. x\<lparr>tk_status := FLB_TASK_NEW\<rparr>)) d2 else d2)"
    have l: "live (d_eng d) t" using 2(4) by simp
    note s1 = disp_status_running [OF 2(3) l True d1_def]
    have rs: "routes_started 0 d1 hits d2 t"
      using start_routes_inv [OF s1(1,2), where tests = tests and workers = workers and env = env and retrying = "rr > 0" and hits = 0]
        s1(3) h by simp
    have ok3: "disp_ok d3"
      using rs disp_status_new [of d2 t d3] s1(2,3) by (auto simp: d3_def routes_started_def startable_def)
    have dm: "dom (e_task_heap (d_eng d)) \<subseteq> dom (e_task_heap (d_eng d3))" "e_inputs (d_eng d3) = e_inputs (d_eng d)"
      using rs s1(4) by (auto simp: d3_def routes_started_def d1_def)
    have "disp_ok (start_tasks tests workers env ts rr d3) \<and>
        dom (e_task_heap (d_eng d3)) \<subseteq> dom (e_task_heap (d_eng (start_tasks tests workers env ts rr d3))) \<and>
        e_inputs (d_eng (start_tasks tests workers env ts rr d3)) = e_inputs (d_eng d3)"
      by (rule 2(2) [OF rr_def _ d1_def h [symmetric] refl d3_def ok3]) (use True order_trans [OF _ dm(1)] 2(4) in simp_all)
    then show ?thesis using True h dm
      by (simp add: Let_def rr_def [symmetric] d1_def [symmetric] d3_def [symmetric] split: prod.split) blast
  qed
qed simp

section \<open>Dispatching chunks\<close>

text \<open>The lock of a chunk that no task carries.\<close>

lemma eng_inv_chunk_busy:
  assumes "eng_inv K s" "c \<in> dom (e_chunk_heap s)" "\<forall>u. live s u \<longrightarrow> tk_ic (tk s u) \<noteq> c"
  shows "eng_inv K (ic_upd c (\<lambda>x. x\<lparr>ic_busy := b\<rparr>) s)"
proof -
  define s' where "s' = ic_upd c (\<lambda>x. x\<lparr>ic_busy := b\<rparr>) s"
  have d: "dom (e_chunk_heap s') = dom (e_chunk_heap s)" using assms(2) by (auto simp: s'_def)
  have i: "ic_in (ic s' a) = ic_in (ic s a)" "a \<noteq> c \<Longrightarrow> ic s' a = ic s a" "ic_task (ic s' a) = ic_task (ic s a)" for a
    by (simp_all add: s'_def)
  have f: "tk s' = tk s" "rt s' = rt s" "e_task_heap s' = e_task_heap s" "e_inputs s' = e_inputs s" "out_ids s' = out_ids s" "e_next s' = e_next s"
    "e_sched s' = e_sched s" "e_outputs s' = e_outputs s" "e_tasks_map s' = e_tasks_map s" by (simp_all add: s'_def out_ids_def)
  have "task_ok s' u" if "live s u" for u
    using eng_invD(3) [OF assms(1) that] assms(3) that i(2) [of "tk_ic (tk s u)"]
    unfolding task_ok_def task_linked_def task_retries_ok_def f d by simp
  then show ?thesis
    using assms(1) i(1,3) unfolding s'_def [symmetric] eng_inv_def requests_ok_def lists_ok_def outs_ok_def task_ids_ok_def links_ok_def f d
    by simp
qed

text \<open>A task as \<^verbatim>\<open>flb_task_create\<close> leaves it.\<close>

definition task_new :: "nat \<Rightarrow> flb_task_route list \<Rightarrow> 64 word \<Rightarrow> nat \<Rightarrow> addr \<Rightarrow> 'c flb_engine \<Rightarrow> 'c flb_engine" where
  "task_new k rs ref_id n c s =
     (let t = e_next s;
          s1 = (map_set_task_id k t s)\<lparr>e_task_heap := (e_task_heap s)(t \<mapsto>
            \<lparr>tk_id = k, tk_ref_id = 0, tk_status = FLB_TASK_NEW, tk_users = 0, tk_ic = 0, tk_records = 0,
             tk_routes = [], tk_retries = [], tk_i_ins = 0\<rparr>), e_next := e_next s + 1\<rparr>;
          s2 = ic_upd c (\<lambda>x. x\<lparr>ic_task := Some t\<rparr>) s1;
          s3 = tk_upd t (\<lambda>x. x\<lparr>tk_ref_id := ref_id, tk_i_ins := n, tk_ic := c, tk_records := ic_total_records (ic s2 c)\<rparr>) s2;
          s4 = in_upd n (\<lambda>i. i\<lparr>in_tasks := mk_list_add t (in_tasks i)\<rparr>) s3
      in tk_upd t (\<lambda>x. x\<lparr>tk_routes := rs\<rparr>) s4)"

lemma task_new_fields:
  assumes "n < length (e_inputs s)" "c \<in> dom (e_chunk_heap s)"
  shows "e_tasks_map (task_new k rs ref_id n c s) = (e_tasks_map s)[k := Some (e_next s)]"
    "e_next (task_new k rs ref_id n c s) = Suc (e_next s)" "e_sched (task_new k rs ref_id n c s) = e_sched s"
    "rt (task_new k rs ref_id n c s) = rt s" "e_outputs (task_new k rs ref_id n c s) = e_outputs s"
    "length (e_inputs (task_new k rs ref_id n c s)) = length (e_inputs s)"
    "in_tasks (e_inputs (task_new k rs ref_id n c s) ! j) = (if j = n then mk_list_add (e_next s) (in_tasks (e_inputs s ! n)) else in_tasks (e_inputs s ! j))"
    "in_chunks (e_inputs (task_new k rs ref_id n c s) ! j) = in_chunks (e_inputs s ! j)"
    "in_routes_direct (e_inputs (task_new k rs ref_id n c s) ! j) = in_routes_direct (e_inputs s ! j)"
    "dom (e_chunk_heap (task_new k rs ref_id n c s)) = dom (e_chunk_heap s)"
    "ic (task_new k rs ref_id n c s) a = (if a = c then (ic s c)\<lparr>ic_task := Some (e_next s)\<rparr> else ic s a)"
    "e_task_heap (task_new k rs ref_id n c s) = (e_task_heap s)(e_next s \<mapsto>
       \<lparr>tk_id = k, tk_ref_id = ref_id, tk_status = FLB_TASK_NEW, tk_users = 0, tk_ic = c,
        tk_records = ic_total_records (ic s c), tk_routes = rs, tk_retries = [], tk_i_ins = n\<rparr>)"
    "tk (task_new k rs ref_id n c s) u = (if u = e_next s then
       \<lparr>tk_id = k, tk_ref_id = ref_id, tk_status = FLB_TASK_NEW, tk_users = 0, tk_ic = c,
        tk_records = ic_total_records (ic s c), tk_routes = rs, tk_retries = [], tk_i_ins = n\<rparr> else tk s u)"
    "out_ids (task_new k rs ref_id n c s) = out_ids s"
  using assms by (auto simp: task_new_def Let_def map_set_task_id_def out_ids_def tk_def ic_def rt_def fun_eq_iff split: if_splits)

lemma task_new_lists_ok:
  assumes "eng_inv K s" "c \<in> dom (e_chunk_heap s)" "n < length (e_inputs s)"
  shows "lists_ok (task_new k rs ref_id n c s)"
proof -
  define s' t where "s' = task_new k rs ref_id n c s" and "t = e_next s"
  note f = task_new_fields [OF assms(3,2), of k rs ref_id, folded s'_def, folded t_def]
  have fresh: "\<not> live s t" "\<And>u. live s u \<Longrightarrow> u < t" using eng_invD(1) [OF assms(1)] by (auto simp: task_ids_ok_def t_def)
  have lv: "live s' u \<longleftrightarrow> u = t \<or> live s u" for u by (auto simp: f(12))
  have o: "\<And>j. j < length (e_inputs s) \<Longrightarrow> distinct (in_tasks (e_inputs s ! j)) \<and>
    (\<forall>t\<in>set (in_tasks (e_inputs s ! j)). live s t \<and> tk_i_ins (tk s t) = j) \<and> distinct (in_chunks (e_inputs s ! j)) \<and>
    (\<forall>c\<in>set (in_chunks (e_inputs s ! j)). c \<in> dom (e_chunk_heap s) \<and> ic_in (ic s c) = j) \<and>
    distinct (in_routes_direct (e_inputs s ! j)) \<and> set (in_routes_direct (e_inputs s ! j)) \<subseteq> out_ids s"
    and nx: "\<forall>c\<in>dom (e_chunk_heap s). c < e_next s"
    using eng_invD(4) [OF assms(1)] unfolding lists_ok_def by auto
  have ti: "tk_i_ins (tk s' u) = (if u = t then n else tk_i_ins (tk s u))" "ic_in (ic s' a) = ic_in (ic s a)" for u a by (simp_all add: f)
  show ?thesis unfolding s'_def [symmetric] lists_ok_def f(2,6-10,14) ti
  proof (intro conjI [of "\<forall>n. _ n"] allI impI)
    show "\<forall>c\<in>dom (e_chunk_heap s). c < Suc t" using nx less_SucI unfolding t_def by blast
    fix j assume j: "j < length (e_inputs s)"
    have "t \<notin> set (in_tasks (e_inputs s ! j))" using o [OF j] fresh(1) by blast
    then show "distinct (if j = n then mk_list_add t (in_tasks (e_inputs s ! n)) else in_tasks (e_inputs s ! j)) \<and>
      (\<forall>u\<in>set (if j = n then mk_list_add t (in_tasks (e_inputs s ! n)) else in_tasks (e_inputs s ! j)).
         live s' u \<and> (if u = t then n else tk_i_ins (tk s u)) = j) \<and> distinct (in_chunks (e_inputs s ! j)) \<and>
      (\<forall>c\<in>set (in_chunks (e_inputs s ! j)). c \<in> dom (e_chunk_heap s) \<and> ic_in (ic s c) = j) \<and>
      distinct (in_routes_direct (e_inputs s ! j)) \<and> set (in_routes_direct (e_inputs s ! j)) \<subseteq> out_ids s"
      using o [OF j] lv by (auto simp: mk_list_add_def split: if_splits)
  qed
qed

lemma task_new_requests_ok:
  assumes "eng_inv K s" "c \<in> dom (e_chunk_heap s)" "n < length (e_inputs s)"
  shows "requests_ok K (task_new k rs ref_id n c s)"
proof -
  define s' t where "s' = task_new k rs ref_id n c s" and "t = e_next s"
  note f = task_new_fields [OF assms(3,2), of k rs ref_id, folded s'_def, folded t_def]
  have fresh: "\<not> live s t" "\<And>u. live s u \<Longrightarrow> u < t" using eng_invD(1) [OF assms(1)] by (auto simp: task_ids_ok_def t_def)
  have lv: "live s' u \<longleftrightarrow> u = t \<or> live s u" for u by (auto simp: f(12))
  show ?thesis
    unfolding s'_def [symmetric] requests_ok_def f(3,4)
  proof (intro conjI allI impI)
    show "sched_inv (e_sched s)" by (rule eng_invD(6) [OF assms(1)])
    fix r assume "r \<in># pending (e_sched s)"
    then have r: "live s (rt_parent (rt s r))" "r \<in> set (tk_retries (tk s (rt_parent (rt s r))))" "count (pending (e_sched s)) r \<le> 1 + count K r"
      using eng_invD(5) [OF assms(1)] by (simp_all add: requests_ok_def)
    then have "rt_parent (rt s r) \<noteq> t" using fresh(1) by metis
    then show "live s' (rt_parent (rt s r))" "r \<in> set (tk_retries (tk s' (rt_parent (rt s r))))" "count (pending (e_sched s)) r \<le> 1 + count K r"
      using r by (simp_all add: lv f(13))
  qed
qed

lemma task_new_links_ok:
  assumes "eng_inv K s" "c \<in> dom (e_chunk_heap s)" "n < length (e_inputs s)"
  shows "links_ok (task_new k rs ref_id n c s)"
proof -
  define s' t where "s' = task_new k rs ref_id n c s" and "t = e_next s"
  note f = task_new_fields [OF assms(3,2), of k rs ref_id, folded s'_def, folded t_def]
  have fresh: "\<not> live s t" "\<And>u. live s u \<Longrightarrow> u < t" using eng_invD(1) [OF assms(1)] by (auto simp: task_ids_ok_def t_def)
  have lv: "live s' u \<longleftrightarrow> u = t \<or> live s u" for u by (auto simp: f(12))
  show ?thesis
    unfolding s'_def [symmetric] links_ok_def f(10)
  proof (intro ballI allI impI)
    fix b u assume b: "b \<in> dom (e_chunk_heap s)" "ic_task (ic s' b) = Some u"
    show "live s' u \<and> tk_ic (tk s' u) = b"
    proof (cases "b = c")
      case True
      then have "u = t" using b(2) by (simp add: f(11) t_def)
      then show ?thesis using True lv by (simp add: f(13) t_def)
    next
      case False
      then have u: "live s u" "tk_ic (tk s u) = b" using eng_invD(9) [OF assms(1)] b by (auto simp: links_ok_def f(11))
      then have "u \<noteq> t" using fresh(1) by metis
      then show ?thesis using u lv by (simp add: f(13) t_def)
    qed
  qed
qed

lemma eng_inv_task_new:
  assumes "eng_inv K s" "c \<in> dom (e_chunk_heap s)" "ic_in (ic s c) = n" "n < length (e_inputs s)" "ic_busy (ic s c)"
    "\<forall>u. live s u \<longrightarrow> tk_ic (tk s u) \<noteq> c" "k < TASKS_MAP_SIZE" "e_tasks_map s ! k = None"
  shows "eng_inv K (task_new k rs ref_id n c s)"
proof -
  define s' t where "s' = task_new k rs ref_id n c s" and "t = e_next s"
  note f = task_new_fields [OF assms(4,2), of k rs ref_id, folded s'_def, folded t_def]
  have fresh: "\<not> live s t" "\<And>u. live s u \<Longrightarrow> u < t" using eng_invD(1) [OF assms(1)] by (auto simp: task_ids_ok_def t_def)
  have lv: "live s' u \<longleftrightarrow> u = t \<or> live s u" for u by (auto simp: f(12))
  have "task_ids_ok s'"
    by (rule task_ids_ok_add [OF eng_invD(1) [OF assms(1)] assms(7,8) f(1) [unfolded t_def] f(12) [unfolded t_def] f(2) [unfolded t_def]]) simp
  moreover have "outs_ok s'" using eng_invD(2) [OF assms(1)] by (simp add: outs_ok_def f(5,14))
  moreover have "task_ok s' u" if "live s' u" for u
  proof (cases "u = t")
    case True
    then show ?thesis using assms(2-5) by (simp add: task_ok_def task_linked_def task_retries_ok_def f lv)
  next
    case False
    then have l: "live s u" using that lv by simp
    have k: "tk s' u = tk s u" "ic s' (tk_ic (tk s u)) = ic s (tk_ic (tk s u))" using False assms(6) l by (simp_all add: f)
    show ?thesis using eng_invD(3) [OF assms(1) l] that
      unfolding task_ok_def task_linked_def task_retries_ok_def k f(2,4,6,7,10,14) by (auto simp: t_def less_Suc_eq)
  qed
  moreover note task_new_lists_ok [OF assms(1,2,4), of k rs ref_id, folded s'_def] task_new_requests_ok [OF assms(1,2,4), of k rs ref_id, folded s'_def]
    task_new_links_ok [OF assms(1,2,4), of k rs ref_id, folded s'_def]
  ultimately show ?thesis by (simp add: eng_inv_def s'_def [symmetric])
qed

lemma disp_task_new:
  assumes "disp_inv {#} {#} d" "c \<in> dom (e_chunk_heap (d_eng d))" "ic_in (ic (d_eng d) c) = n" "n < length (e_inputs (d_eng d))"
    "ic_busy (ic (d_eng d) c)" "\<forall>u. live (d_eng d) u \<longrightarrow> tk_ic (tk (d_eng d) u) \<noteq> c" "k < TASKS_MAP_SIZE"
    "e_tasks_map (d_eng d) ! k = None" "routes_ok (d_eng d) rs"
  shows "disp_inv {#} {#} (eng_upd (task_new k rs ref_id n c) d)" "\<forall>p. tok {#} (eng_upd (task_new k rs ref_id n c) d) (e_next (d_eng d)) p = 0"
proof -
  define s s' d' t where "s = d_eng d" and "s' = task_new k rs ref_id n c s" and "d' = eng_upd (task_new k rs ref_id n c) d" and "t = e_next s"
  have ds: "d_eng d' = s'" "d_queues d' = d_queues d" "d_flushes d' = d_flushes d" "d_events d' = d_events d"
    by (simp_all add: d'_def s'_def s_def)
  note a = assms(2-9) [folded s_def] and i = disp_invD [OF assms(1), folded s_def]
  note f = task_new_fields [OF a(3,1), of k rs ref_id, folded s'_def, folded t_def] and e = eng_inv_task_new [OF i(1) a(1-7), of rs ref_id, folded s'_def]
  have fresh: "\<not> live s t" using eng_invD(1) [OF i(1)] by (auto simp: task_ids_ok_def t_def)
  have lv: "live s' u \<longleftrightarrow> u = t \<or> live s u" for u by (auto simp: f(12))
  have old: "tk s' u = tk s u" if "live s u" for u using that fresh by (auto simp: f(13))
  have ne: "u \<noteq> t" if "live s u" for u using that fresh by blast
  have tok_old: "tok {#} d' u p = tok {#} d u p" if "live s u" for u p
    by (rule tok_same_ids) (use old [OF that] in \<open>simp_all add: ds s_def\<close>)
  have ev: "\<not> ev_for k p v" if v: "v \<in> set (d_events d)" for p v
  proof -
    obtain u ret out where u: "live s u" "out \<in> out_ids s" "ret \<in> {FLB_OK, FLB_RETRY, FLB_ERROR}" "v = out_event ret (tk_id (tk s u)) out"
      using i(2) v unfolding refs_ok_def s_def by blast
    have b: "tk_id (tk s u) < TASKS_MAP_SIZE" "0 \<le> out" "out < 2 ^ 14" "e_tasks_map s ! tk_id (tk s u) = Some u"
      using eng_invD(1,2) [OF i(1)] u(1,2) by (auto simp: task_ids_ok_def outs_ok_def)
    have "tk_id (tk s u) \<noteq> k" using b(4) a(7) by auto
    then show ?thesis using out_event_unpack(3) [OF u(3) b(1-3)] u(4) by (simp add: ev_for_def)
  qed
  have tok_new: "tok {#} d' t p = 0" for p
  proof -
    have "fl_task g \<noteq> t" if "g \<in> set (d_flushes d)" for g using refs_okD(2) [OF i(2) that] ne [of "fl_task g"] by (simp add: s_def)
    moreover have "qe_task x \<noteq> t" if "x \<in> set (pending_of d p)" for x using refs_okD(3) [OF i(2) that] ne [of "qe_task x"] by (simp add: s_def)
    moreover have "tk_id (tk s' t) = k" by (simp add: f(13))
    ultimately show ?thesis using ev by (simp add: tok_def ds filter_empty_conv)
  qed
  then show "\<forall>p. tok {#} (eng_upd (task_new k rs ref_id n c) d) (e_next (d_eng d)) p = 0" by (simp add: d'_def t_def s_def)
  have "refs_ok {#} d'"
    unfolding refs_ok_def ds f(4,14)
  proof (intro conjI allI ballI impI)
    fix p x assume x: "x \<in> set (pending_of d p)"
    have l: "live s (qe_task x)" "p \<in> out_ids s" using refs_okD(3) [OF i(2) x] by (simp_all add: s_def)
    then show "live s' (qe_task x)" "p \<in> out_ids s" by (simp_all add: lv)
    fix q assume "qe_retry x = Some q"
    from refs_okD(4) [OF i(2) x this] show "q \<in> set (tk_retries (tk s' (qe_task x)))" "rt_o_ins (rt s q) = p"
      using old [OF l(1)] by (simp_all add: s_def)
  next
    fix v assume "v \<in> set (d_events d)"
    then obtain u ret out where u: "live s u" "out \<in> out_ids s" "ret \<in> {FLB_OK, FLB_RETRY, FLB_ERROR}" "v = out_event ret (tk_id (tk s u)) out"
      using i(2) unfolding refs_ok_def s_def by blast
    then show "\<exists>u ret out. live s' u \<and> out \<in> out_ids s \<and> ret \<in> {FLB_OK, FLB_RETRY, FLB_ERROR} \<and> v = out_event ret (tk_id (tk s' u)) out"
      using old [OF u(1)] lv by metis
  next
    fix g assume "g \<in> set (d_flushes d)"
    from refs_okD(2) [OF i(2) this] show "live s' (fl_task g)" "fl_out g \<in> out_ids s" by (simp_all add: lv s_def)
  qed simp_all
  moreover have "tokens_ok {#} {#} d'"
    unfolding tokens_ok_def ds(1) f(3,4,14)
  proof (intro allI impI)
    fix u assume "live s' u"
    then consider "u = t" | "live s u" using lv by blast
    then show "int (sum (tok {#} d' u) (out_ids s)) \<le> tk_users (tk s' u) \<and> (\<forall>p. tok {#} d' u p \<le> 1) \<and>
      (\<forall>q\<in>set (tk_retries (tk s' u)). tok {#} d' u (rt_o_ins (rt s q)) + count (pending (e_sched s)) q \<le> 1 + count {#} q) \<and>
      (tk_status (tk s' u) = FLB_TASK_NEW \<longrightarrow> tk_retries (tk s' u) = [] \<and> (\<forall>p. tok {#} d' u p = 0) \<and> routes_ok s' (tk_routes (tk s' u)))"
    proof cases
      case 1
      then show ?thesis using a(8) by (simp add: tok_new f(13) routes_ok_def f(14))
    next
      case 2
      note o = tokens_okD [OF i(3), folded s_def, OF 2]
      have "sum (tok {#} d' u) (out_ids s) = sum (tok {#} d u) (out_ids s)" by (rule sum.cong) (simp_all add: tok_old [OF 2])
      then show ?thesis using o(1,2,3,4) unfolding tok_old [OF 2] old [OF 2] by (simp add: routes_ok_def f(14))
    qed
  qed
  ultimately show "disp_inv {#} {#} (eng_upd (task_new k rs ref_id n c) d)" using e by (simp add: disp_inv_def d'_def [symmetric] ds)
qed

lemma create_cases:
  assumes "eng_inv K s" "n < length (e_inputs s)" "flb_task_create io Hf tk_ok True route_ok junk ref_id n c s = (res, s')"
  obtains (none) "res = (None, True)" "s' = s"
  | (new) k rs where "k < TASKS_MAP_SIZE" "e_tasks_map s ! k = None" "routes_ok s rs" "res = (Some (e_next s), False)" "s' = task_new k rs ref_id n c s"
  | (dropped) k rs where "k < TASKS_MAP_SIZE" "e_tasks_map s ! k = None" "routes_ok s rs" "res = (None, False)"
      "s' = flb_task_destroy io Hf (e_next s) True (task_new k rs ref_id n c s)"
proof (cases tk_ok)
  case False
  then show ?thesis using none assms(3) by (simp add: flb_task_create_def task_alloc_def)
next
  case tk_ok: True
  show ?thesis
  using eng_invD(1) [OF assms(1)]
  proof (cases rule: task_alloc_cases)
    case none': none
    then show ?thesis using none assms(3) tk_ok by (simp add: flb_task_create_def)
  next
    case (some k)
    define direct where "direct = in_routes_direct (e_inputs s ! n)"
    define R where "R = task_routes route_ok (ic_event_type (ic s c)) (ic_routes_mask (ic s c)) (e_outputs s)"
    define D where "D = map (\<lambda>d. \<lparr>tr_status = junk, tr_out = d\<rparr>) (takeWhile route_ok direct)"
    have ds: "distinct direct" "set direct \<subseteq> out_ids s" using eng_invD(4) [OF assms(1)] assms(2) by (simp_all add: lists_ok_def direct_def)
    then have rD: "routes_ok s D" using set_takeWhileD by (fastforce simp: routes_ok_def D_def comp_def)
    have "distinct (map o_id (e_outputs s))" using eng_invD(2) [OF assms(1)] by (simp add: outs_ok_def)
    then have rR: "routes_ok s R" by (auto simp: routes_ok_def R_def task_routes_def comp_def out_ids_def distinct_map_filter)
    have un: "flb_task_create io Hf tk_ok True route_ok junk ref_id n c s =
       (if direct \<noteq> [] then if takeWhile route_ok direct \<noteq> direct
           then ((None, False), flb_task_destroy io Hf (e_next s) True (task_new k D ref_id n c s))
           else ((Some (e_next s), False), task_new k D ref_id n c s)
        else if R = [] then ((None, False), flb_task_destroy io Hf (e_next s) True (task_new k R ref_id n c s))
        else ((Some (e_next s), False), task_new k R ref_id n c s))"
    proof -
      define s1 where "s1 = (map_set_task_id k (e_next s) s)\<lparr>e_task_heap := (e_task_heap s)(e_next s \<mapsto>
         \<lparr>tk_id = k, tk_ref_id = 0, tk_status = FLB_TASK_NEW, tk_users = 0, tk_ic = 0, tk_records = 0,
          tk_routes = [], tk_retries = [], tk_i_ins = 0\<rparr>), e_next := e_next s + 1\<rparr>"
      have al: "task_alloc tk_ok s = (Some (e_next s), s1)" using some(4) tk_ok by (simp add: s1_def)
      have 1: "e_inputs s1 = e_inputs s" "e_outputs s1 = e_outputs s" "ic s1 = ic s" by (simp_all add: s1_def map_set_task_id_def ic_def fun_eq_iff)
      show ?thesis
        unfolding flb_task_create_def al prod.case option.case task_new_def Let_def s1_def [symmetric]
        using assms(2) 1 by (auto simp: R_def D_def direct_def)
    qed
    show ?thesis
      using assms(3) new [OF some(1,2) rD] new [OF some(1,2) rR] dropped [OF some(1,2) rD] dropped [OF some(1,2) rR] unfolding un
      by (auto split: if_splits)
  qed
qed

lemma disp_chunk_busy:
  assumes "disp_inv H K d" "c \<in> dom (e_chunk_heap (d_eng d))" "\<forall>u. live (d_eng d) u \<longrightarrow> tk_ic (tk (d_eng d) u) \<noteq> c"
  shows "disp_inv H K (d\<lparr>d_eng := ic_upd c (\<lambda>x. x\<lparr>ic_busy := b\<rparr>) (d_eng d)\<rparr>)"
proof -
  have "tok H (d\<lparr>d_eng := ic_upd c (\<lambda>x. x\<lparr>ic_busy := b\<rparr>) (d_eng d)\<rparr>) = tok H d" by (simp add: tok_def fun_eq_iff)
  then show ?thesis
    using eng_inv_chunk_busy [OF disp_invD(1) [OF assms(1)] assms(2,3), of b] disp_invD(2,3) [OF assms(1)]
    by (simp add: disp_inv_def refs_ok_def tokens_ok_def out_ids_def routes_ok_def)
qed

text \<open>A chunk that no task carries, and what becomes of it when the engine looks at it.\<close>

definition free_chunk :: "'c flb_engine \<Rightarrow> addr \<Rightarrow> bool" where
  "free_chunk s c \<longleftrightarrow> c \<in> dom (e_chunk_heap s) \<and> ic_in (ic s c) < length (e_inputs s) \<and> (\<forall>u. live s u \<longrightarrow> tk_ic (tk s u) \<noteq> c)"

lemma free_chunk_same:
  "same_eng s s' \<Longrightarrow> free_chunk s c \<Longrightarrow> free_chunk s' c"
  "free_chunk s c \<Longrightarrow> free_chunk (ic_upd c (\<lambda>x. x\<lparr>ic_busy := b\<rparr>) s) c"
proof -
  assume s: "same_eng s s'" and f: "free_chunk s c"
  have "c \<in> dom (e_chunk_heap s')" "ic_in (ic s' c) = ic_in (ic s c)" "\<And>u. live s u \<Longrightarrow> tk_ic (tk s' u) = tk_ic (tk s u)"
    "dom (e_task_heap s') = dom (e_task_heap s)"
    using s f by (simp_all add: same_eng_def free_chunk_def)
  then show "free_chunk s' c" using f same_engD(9) [OF s] by (simp add: free_chunk_def)
qed (simp add: free_chunk_def)

lemma disp_release_lock:
  assumes "disp_inv H K d" "free_chunk (d_eng d) c"
  shows "disp_inv H K (d\<lparr>d_eng := snd (flb_input_chunk_release_lock c (d_eng d))\<rparr>)" "free_chunk (snd (flb_input_chunk_release_lock c (d_eng d))) c"
  using assms disp_chunk_busy [OF assms(1), of c False] by (simp_all add: flb_input_chunk_release_lock_def free_chunk_same) (simp_all add: free_chunk_def)

lemma dispatch_chunk_inv:
  assumes "disp_inv {#} {#} d" "free_chunk (d_eng d) c" "c_evc_ok ce c"
  shows "disp_inv {#} {#} (eng_upd (dispatch_chunk io Hf ce ref_id c) d)"
proof -
  define s where "s = d_eng d"
  have fc: "c \<in> dom (e_chunk_heap s)" "ic_in (ic s c) < length (e_inputs s)" "\<forall>u. live s u \<longrightarrow> tk_ic (tk s u) \<noteq> c"
    using assms(2) by (simp_all add: free_chunk_def s_def)
  obtain buf sz s1 where s1: "flb_input_chunk_flush io c s = ((buf, sz), s1)" by (metis prod.collapse)
  note tk1 = chunk_flush_tasks [OF s1]
  define b where "b = ic_upd c (\<lambda>x. x\<lparr>ic_busy := True\<rparr>) s"
  have "same_eng s s1 \<or> buf \<noteq> None \<and> same_eng b s1" using chunk_flush_same(1) [OF fc(1) s1] by (simp add: b_def)
  moreover have "disp_inv {#} {#} (d\<lparr>d_eng := b\<rparr>)" using disp_chunk_busy [OF assms(1), of c True] fc by (simp add: b_def s_def)
  ultimately have i1: "disp_inv {#} {#} (d\<lparr>d_eng := s1\<rparr>)"
    using disp_inv_chunk [OF assms(1), of s1] disp_inv_chunk [of "{#}" "{#}" "d\<lparr>d_eng := b\<rparr>" s1] tk1 by (auto simp: s_def b_def)
  have f1: "free_chunk s1 c"
    using \<open>same_eng s s1 \<or> buf \<noteq> None \<and> same_eng b s1\<close> free_chunk_same(1) free_chunk_same(2) [OF assms(2), of True] assms(2)
    by (auto simp: s_def b_def)
  have un: "disp_inv {#} {#} (d\<lparr>d_eng := snd (flb_input_chunk_release_lock c s1)\<rparr>)"
    using disp_release_lock(1) [OF i1, of c] f1 by simp
  have busy: "ic_busy (ic s1 c)" if "buf \<noteq> None"
    using s1 that unfolding flb_input_chunk_flush_def flb_input_chunk_update_output_instances_def
    by (auto simp: Let_def split: if_splits option.splits prod.splits)
  obtain ret tg where tg: "flb_input_chunk_get_tag io (ic_chunk (ic s1 c)) = (ret, tg)" by fastforce
  obtain res s2 where s2: "flb_task_create io Hf (c_task_ok ce c) True (c_route_ok ce c) (c_junk ce c) ref_id (ic_in (ic s1 c)) c s1 = (res, s2)" by fastforce
  have en: "eng_upd (dispatch_chunk io Hf ce ref_id c) d = d\<lparr>d_eng := dispatch_chunk io Hf ce ref_id c s\<rparr>" by (simp add: eng_upd_def s_def)
  show ?thesis
  proof (cases "sz = 0 \<or> buf = None \<or> ret = -1 \<or> tg = None \<or> tg = Some []")
    case True
    then have "dispatch_chunk io Hf ce ref_id c s = snd (flb_input_chunk_release_lock c s1)"
      by (auto simp: dispatch_chunk_def s1 tg split: option.splits)
    then show ?thesis using un en by simp
  next
    case False
    note e1 = disp_invD(1) [OF i1, simplified]
    have bz: "ic_busy (ic s1 c)" using busy False by simp
    have fc1: "c \<in> dom (e_chunk_heap s1)" "ic_in (ic s1 c) < length (e_inputs s1)" "\<forall>u. live s1 u \<longrightarrow> tk_ic (tk s1 u) \<noteq> c"
      using f1 by (simp_all add: free_chunk_def)
    have r: "dispatch_chunk io Hf ce ref_id c s = (case res of (Some t, err) \<Rightarrow> s2
        | (None, err) \<Rightarrow> if err then snd (flb_input_chunk_down io c (snd (flb_input_chunk_release_lock c s2))) else s2)"
      using False s2 assms(3) by (auto simp: dispatch_chunk_def s1 tg split: option.splits prod.splits)
    have "disp_inv {#} {#} (d\<lparr>d_eng := dispatch_chunk io Hf ce ref_id c s\<rparr>)"
      using e1 fc1(2) s2
    proof (cases rule: create_cases)
      case none
      have u1: "free_chunk (snd (flb_input_chunk_release_lock c s1)) c" using disp_release_lock(2) [OF i1, of c] f1 by simp
      have same: "same_eng (snd (flb_input_chunk_release_lock c s1)) (snd (flb_input_chunk_down io c (snd (flb_input_chunk_release_lock c s1))))"
        by (rule same_eng_chunk(1)) (use u1 in \<open>simp add: free_chunk_def\<close>)
      have "tk (snd (flb_input_chunk_down io c x)) = tk x" for x
        by (simp add: flb_input_chunk_down_def chunk_call_def case_prod_beta)
      then have "disp_inv {#} {#} (d\<lparr>d_eng := snd (flb_input_chunk_down io c (snd (flb_input_chunk_release_lock c s1)))\<rparr>)"
        using disp_inv_chunk [OF un, of "snd (flb_input_chunk_down io c (snd (flb_input_chunk_release_lock c s1)))"] same by simp
      then show ?thesis using r none by simp
    next
      case (new k rs)
      have "disp_inv {#} {#} (eng_upd (task_new k rs ref_id (ic_in (ic s1 c)) c) (d\<lparr>d_eng := s1\<rparr>))"
        by (rule disp_task_new(1) [OF i1]) (use fc1 bz new in simp_all)
      then show ?thesis using r new by (simp add: eng_upd_def)
    next
      case (dropped k rs)
      define d3 where "d3 = eng_upd (task_new k rs ref_id (ic_in (ic s1 c)) c) (d\<lparr>d_eng := s1\<rparr>)"
      have n: "disp_inv {#} {#} d3" "\<forall>p. tok {#} d3 (e_next s1) p = 0"
        using disp_task_new [OF i1, of c "ic_in (ic s1 c)" k rs ref_id] fc1 bz dropped by (simp_all add: d3_def)
      have "live (d_eng d3) (e_next s1)" "tk_retries (tk (d_eng d3) (e_next s1)) = []"
        by (simp_all add: d3_def task_new_fields [OF fc1(2,1)])
      then have "disp_inv {#} {#} (eng_upd (flb_task_destroy io Hf (e_next s1) True) d3)"
        using disp_task_destroy [OF n(1)] n(2) by simp
      then show ?thesis using r dropped by (simp add: d3_def eng_upd_def)
    qed
    then show ?thesis using en by simp
  qed
qed

text \<open>What handling a chunk leaves of the others.\<close>

definition other_chunks :: "addr \<Rightarrow> 'c flb_engine \<Rightarrow> 'c flb_engine \<Rightarrow> bool" where
  "other_chunks c s s' \<longleftrightarrow> length (e_inputs s') = length (e_inputs s) \<and>
     (\<forall>a. a \<noteq> c \<longrightarrow> a \<in> dom (e_chunk_heap s) \<longrightarrow> a \<in> dom (e_chunk_heap s') \<and> ic_in (ic s' a) = ic_in (ic s a))"

lemma other_chunks_trans: "other_chunks c s s' \<Longrightarrow> other_chunks c s' s'' \<Longrightarrow> other_chunks c s s''"
  by (simp add: other_chunks_def)

lemma other_chunks_same: "same_eng s s' \<Longrightarrow> other_chunks c s s'"
  using same_engD(9) [of s s'] by (simp add: other_chunks_def same_eng_def)

lemma other_chunks_ic_upd: "other_chunks c s (ic_upd c f s)"
  by (simp add: other_chunks_def)

lemma other_chunks_release: "other_chunks c s (snd (flb_input_chunk_release_lock c s))"
  by (simp add: flb_input_chunk_release_lock_def other_chunks_def)

lemma other_chunks_chunk_call: "other_chunks c s (snd (chunk_call f c s))"
  by (simp add: chunk_call_def case_prod_beta other_chunks_def)

lemma other_chunks_flush:
  assumes "c \<in> dom (e_chunk_heap s)" "flb_input_chunk_flush io c s = ((buf, sz), s')"
  shows "other_chunks c s s'"
  using chunk_flush_same(1) [OF assms] other_chunks_same [of s s' c]
    other_chunks_trans [OF other_chunks_ic_upd other_chunks_same [of "ic_upd c (\<lambda>x. x\<lparr>ic_busy := True\<rparr>) s" s' c]] by blast

lemma other_chunks_task_destroy:
  assumes "task_linked s t" "sched_inv (e_sched s)"
  shows "other_chunks (tk_ic (tk s t)) s (flb_task_destroy io Hf t del s)"
  using task_destroy_rest(2,3) [OF assms(1) refl] task_destroy_spec(5) [OF assms refl] by (simp add: other_chunks_def)

lemma dispatch_chunk_others:
  assumes "eng_inv K s" "free_chunk s c" "c_evc_ok ce c"
  shows "other_chunks c s (dispatch_chunk io Hf ce ref_id c s)"
proof -
  have fc: "c \<in> dom (e_chunk_heap s)" "ic_in (ic s c) < length (e_inputs s)" using assms(2) by (simp_all add: free_chunk_def)
  obtain buf sz s1 where s1: "flb_input_chunk_flush io c s = ((buf, sz), s1)" by (metis prod.collapse)
  note o1 = other_chunks_flush [OF fc(1) s1]
  note un = other_chunks_trans [OF o1 other_chunks_release]
  obtain ret tg where tg: "flb_input_chunk_get_tag io (ic_chunk (ic s1 c)) = (ret, tg)" by fastforce
  obtain res s2 where s2: "flb_task_create io Hf (c_task_ok ce c) True (c_route_ok ce c) (c_junk ce c) ref_id (ic_in (ic s1 c)) c s1 = (res, s2)" by fastforce
  have c1: "c \<in> dom (e_chunk_heap s1)" "ic_in (ic s1 c) < length (e_inputs s1)" "eng_inv K s1"
    "buf \<noteq> None \<Longrightarrow> ic_busy (ic s1 c)" "\<forall>u. live s1 u \<longrightarrow> tk_ic (tk s1 u) \<noteq> c"
  proof -
    define b where "b = ic_upd c (\<lambda>x. x\<lparr>ic_busy := True\<rparr>) s"
    have sm: "same_eng s s1 \<or> buf \<noteq> None \<and> same_eng b s1" using chunk_flush_same(1) [OF fc(1) s1] by (simp add: b_def)
    have "eng_inv K b" unfolding b_def by (rule eng_inv_chunk_busy [OF assms(1) fc(1)]) (use assms(2) in \<open>simp add: free_chunk_def\<close>)
    then show "eng_inv K s1" using sm eng_inv_same assms(1) by blast
    have "free_chunk s1 c" using sm free_chunk_same(1) free_chunk_same(2) [OF assms(2), of True] assms(2) unfolding b_def by blast
    then show "c \<in> dom (e_chunk_heap s1)" "ic_in (ic s1 c) < length (e_inputs s1)" "\<forall>u. live s1 u \<longrightarrow> tk_ic (tk s1 u) \<noteq> c"
      by (simp_all add: free_chunk_def)
    show "ic_busy (ic s1 c)" if "buf \<noteq> None"
      using s1 that unfolding flb_input_chunk_flush_def flb_input_chunk_update_output_instances_def
      by (auto simp: Let_def split: if_splits option.splits prod.splits)
  qed
  show ?thesis
  proof (cases "sz = 0 \<or> buf = None \<or> ret = -1 \<or> tg = None \<or> tg = Some []")
    case True
    then have "dispatch_chunk io Hf ce ref_id c s = snd (flb_input_chunk_release_lock c s1)"
      by (auto simp: dispatch_chunk_def s1 tg split: option.splits)
    then show ?thesis using un by simp
  next
    case False
    have r: "dispatch_chunk io Hf ce ref_id c s = (case res of (Some t, err) \<Rightarrow> s2
        | (None, err) \<Rightarrow> if err then snd (flb_input_chunk_down io c (snd (flb_input_chunk_release_lock c s2))) else s2)"
      using False s2 assms(3) by (auto simp: dispatch_chunk_def s1 tg split: option.splits prod.splits)
    have nw: "other_chunks c s (task_new k rs ref_id (ic_in (ic s1 c)) c s1)" for k rs
      by (rule other_chunks_trans [OF o1]) (simp add: other_chunks_def task_new_fields [OF c1(2,1)])
    from c1(3,2) s2 show ?thesis
    proof (cases rule: create_cases)
      case none
      have "other_chunks c s (snd (flb_input_chunk_down io c (snd (flb_input_chunk_release_lock c s1))))"
        using other_chunks_trans [OF un other_chunks_chunk_call] un by (simp add: flb_input_chunk_down_def)
      then show ?thesis using r none by simp
    next
      case (new k rs)
      then show ?thesis using r nw by simp
    next
      case (dropped k rs)
      define s3 where "s3 = task_new k rs ref_id (ic_in (ic s1 c)) c s1"
      have e3: "eng_inv K s3" unfolding s3_def
        by (rule eng_inv_task_new) (use c1 False dropped in auto)
      have l3: "live s3 (e_next s1)" "tk_ic (tk s3 (e_next s1)) = c" by (simp_all add: s3_def task_new_fields [OF c1(2,1)])
      have "other_chunks c s3 (flb_task_destroy io Hf (e_next s1) True s3)"
        using other_chunks_task_destroy [OF eng_invD(7) [OF e3 l3(1)] eng_invD(6) [OF e3]] l3(2) by metis
      then show ?thesis using r dropped other_chunks_trans [OF nw [of k rs, folded s3_def]] by (simp add: s3_def)
    qed
  qed
qed

lemma dispatch_chunks_inv:
  assumes "disp_inv {#} {#} d" "\<forall>c. c_evc_ok ce c" "distinct cs"
    "\<forall>c\<in>set cs. c \<in> dom (e_chunk_heap (d_eng d)) \<and> ic_in (ic (d_eng d) c) < length (e_inputs (d_eng d))"
  shows "disp_inv {#} {#} (eng_upd (dispatch_chunks io Hf ce ref_id cs) d) \<and>
    length (e_inputs (dispatch_chunks io Hf ce ref_id cs (d_eng d))) = length (e_inputs (d_eng d))"
  using assms
proof (induction cs arbitrary: d)
  case Nil
  then show ?case by (simp add: eng_upd_def)
next
  case (Cons c cs)
  define s where "s = d_eng d"
  have c: "c \<in> dom (e_chunk_heap s)" "ic_in (ic s c) < length (e_inputs s)" using Cons(5) by (simp_all add: s_def)
  show ?case
  proof (cases "ic_busy (ic s c)")
    case True
    then show ?thesis using Cons(1) [OF Cons(2,3)] Cons(4,5) by (simp add: eng_upd_def s_def)
  next
    case nb: False
    show ?thesis
    proof (cases "flb_task_map_get_task_id s = -1")
      case True
      then show ?thesis using nb Cons(2) by (simp add: eng_upd_def s_def)
    next
      case False
      have fc: "free_chunk s c"
        using c nb eng_invD(3) [OF disp_invD(1) [OF Cons(2)]] by (auto simp: free_chunk_def s_def task_ok_def)
      define d1 where "d1 = eng_upd (dispatch_chunk io Hf ce ref_id c) d"
      have i1: "disp_inv {#} {#} d1" unfolding d1_def using dispatch_chunk_inv [OF Cons(2)] fc Cons(3) by (simp add: s_def)
      have oc: "other_chunks c s (d_eng d1)"
        using dispatch_chunk_others [OF disp_invD(1) [OF Cons(2)], folded s_def, OF fc] Cons(3) by (simp add: d1_def s_def)
      have "\<forall>a\<in>set cs. a \<in> dom (e_chunk_heap (d_eng d1)) \<and> ic_in (ic (d_eng d1) a) < length (e_inputs (d_eng d1))"
        using oc Cons(4,5) unfolding other_chunks_def s_def by (metis distinct.simps(2) list.set_intros(2))
      then have "disp_inv {#} {#} (eng_upd (dispatch_chunks io Hf ce ref_id cs) d1) \<and>
          length (e_inputs (dispatch_chunks io Hf ce ref_id cs (d_eng d1))) = length (e_inputs (d_eng d1))"
        using Cons(1) [OF i1 Cons(3)] Cons(4) by simp
      then show ?thesis using nb False oc by (simp add: eng_upd_def d1_def s_def other_chunks_def)
    qed
  qed
qed

lemma cleanup_inv:
  assumes "disp_inv {#} {#} d" "distinct ts" "set ts \<subseteq> dom (e_task_heap (d_eng d))"
  shows "disp_inv {#} {#} (eng_upd (cleanup_test_tasks io Hf ts) d)"
  using assms
proof (induction ts arbitrary: d)
  case Nil
  then show ?case by (simp add: cleanup_test_tasks_def eng_upd_def)
next
  case (Cons t ts)
  define s where "s = d_eng d"
  define b where "b \<longleftrightarrow> tk_users (tk s t) = 0 \<and> tk_retries (tk s t) = [] \<and> tk_routes (tk s t) = []"
  define d1 where "d1 = (if b then eng_upd (flb_task_destroy io Hf t True) d else d)"
  have l: "live s t" using Cons(4) by (simp add: s_def)
  have "b \<Longrightarrow> d1 = eng_upd (flb_task_users_release io Hf t) d"
    by (simp add: d1_def b_def flb_task_users_release_def eng_upd_def s_def)
  then have i1: "disp_inv {#} {#} d1" using disp_users_release [OF Cons(2) l [unfolded s_def]] Cons(2) by (cases b) (simp_all add: d1_def)
  have "e_task_heap (flb_task_destroy io Hf t True s) = (e_task_heap s)(t := None)"
    using eng_inv_task_destroy(2) [OF disp_invD(1) [OF Cons(2)], folded s_def, OF l _ refl] by simp
  then have "set ts \<subseteq> dom (e_task_heap (d_eng d1))" using Cons(3,4) by (auto simp: d1_def s_def)
  then have "disp_inv {#} {#} (eng_upd (cleanup_test_tasks io Hf ts) d1)" using Cons(1) [OF i1] Cons(3) by simp
  moreover have "eng_upd (cleanup_test_tasks io Hf (t # ts)) d = eng_upd (cleanup_test_tasks io Hf ts) d1"
    by (simp add: cleanup_test_tasks_def d1_def b_def s_def eng_upd_def)
  ultimately show ?case by simp
qed

lemma engine_dispatch_ok:
  assumes "disp_ok d" "n < length (e_inputs (d_eng d))" "\<forall>c. c_evc_ok ce c"
  shows "disp_ok (flb_engine_dispatch io Hf ce tests workers env ref_id n d)"
proof -
  have i: "disp_inv {#} {#} d" "\<forall>p. queue_ok d p" using assms(1) by (simp_all add: disp_ok_def)
  have lists: "distinct (in_tasks (e_inputs (d_eng x) ! n)) \<and> set (in_tasks (e_inputs (d_eng x) ! n)) \<subseteq> dom (e_task_heap (d_eng x))"
    if "disp_inv {#} {#} x" "n < length (e_inputs (d_eng x))" for x :: "'a disp"
    using eng_invD(4) [OF disp_invD(1) [OF that(1)]] that(2) unfolding lists_ok_def by blast
  define cs where "cs = in_chunks (e_inputs (d_eng d) ! n)"
  have "distinct cs" "\<forall>c\<in>set cs. c \<in> dom (e_chunk_heap (d_eng d)) \<and> ic_in (ic (d_eng d) c) < length (e_inputs (d_eng d))"
    using eng_invD(4) [OF disp_invD(1) [OF i(1)]] assms(2) unfolding lists_ok_def cs_def by auto
  note dc = dispatch_chunks_inv [OF i(1) assms(3) this, of io Hf ref_id]
  define d1 where "d1 = eng_upd (\<lambda>s. dispatch_chunks io Hf ce ref_id (in_chunks (e_inputs s ! n)) s) d"
  have d1: "d1 = eng_upd (dispatch_chunks io Hf ce ref_id cs) d" by (simp add: d1_def cs_def eng_upd_def)
  have ok1: "disp_ok d1" "n < length (e_inputs (d_eng d1))" using dc i(2) assms(2) by (simp_all add: d1 disp_ok_def queue_ok_def)
  define d2 where "d2 = tasks_start tests workers env n d1"
  have i1: "disp_inv {#} {#} d1" using ok1(1) by (simp add: disp_ok_def)
  have ok2: "disp_ok d2" "e_inputs (d_eng d2) = e_inputs (d_eng d1)"
    using start_tasks_inv [OF ok1(1)] lists [OF i1 ok1(2)] by (simp_all add: d2_def tasks_start_def)
  have i2: "disp_inv {#} {#} d2" using ok2(1) by (simp add: disp_ok_def)
  have "disp_inv {#} {#} (eng_upd (cleanup_test_tasks io Hf (in_tasks (e_inputs (d_eng d2) ! n))) d2)"
    using cleanup_inv [OF i2] lists [OF i2] ok1(2) ok2(2) by simp
  moreover have "flb_engine_dispatch io Hf ce tests workers env ref_id n d =
      eng_upd (cleanup_test_tasks io Hf (in_tasks (e_inputs (d_eng d2) ! n))) d2"
    by (simp add: flb_engine_dispatch_def Let_def d2_def d1_def eng_upd_def)
  ultimately show ?thesis using ok2(1) by (simp add: disp_ok_def queue_ok_def)
qed

section \<open>New chunks\<close>

lemma chunk_create_cases:
  assumes "flb_input_chunk_create io Hf onig sds_ok now meta_ok mem_ok opened n event_type tag tag_len s = Some (res, s')"
  obtains "res = None" "s' = s"
  | c f where "res = Some (e_next s)" "ic_busy c = False" "ic_in c = n" "\<And>i. in_tasks (f i) = in_tasks i"
      "\<And>i. in_chunks (f i) = mk_list_add (e_next s) (in_chunks i)" "\<And>i. in_routes_direct (f i) = in_routes_direct i" "ic_task c = None"
      "s' = in_upd n f (s\<lparr>e_chunk_heap := (e_chunk_heap s)(e_next s \<mapsto> c), e_next := e_next s + 1\<rparr>)"
proof (cases res)
  case None
  then show ?thesis using that(1) assms unfolding flb_input_chunk_create_def
    by (auto simp: Let_def split: option.splits prod.splits if_splits)
next
  case (Some a)
  define g where "g = (\<lambda>i. ht_of_type event_type (\<lambda>ht. snd (flb_hash_table_add Hf now 0 True True ht (Some tag) tag_len (e_next s) [] 0))
      (i\<lparr>in_chunks := mk_list_add (e_next s) (in_chunks i)\<rparr>))"
  have "\<exists>ch m. res = Some (e_next s) \<and> s' = in_upd n g (s\<lparr>e_chunk_heap := (e_chunk_heap s)(e_next s \<mapsto>
      \<lparr>ic_event_type = event_type, ic_fs_counted = False, ic_busy = False, ic_fs_backlog = False, ic_total_records = 0, ic_added_records = 0,
       ic_chunk = ch, ic_in = n, ic_task = None, ic_routes_mask = m\<rparr>), e_next := e_next s + 1\<rparr>)"
    using assms Some unfolding flb_input_chunk_create_def g_def
    by (auto simp: Let_def split: option.splits prod.splits if_splits)
  then obtain ch m where "res = Some (e_next s)" "s' = in_upd n g (s\<lparr>e_chunk_heap := (e_chunk_heap s)(e_next s \<mapsto>
      \<lparr>ic_event_type = event_type, ic_fs_counted = False, ic_busy = False, ic_fs_backlog = False, ic_total_records = 0, ic_added_records = 0,
       ic_chunk = ch, ic_in = n, ic_task = None, ic_routes_mask = m\<rparr>), e_next := e_next s + 1\<rparr>)" by blast
  from that(2) [OF this(1) _ _ _ _ _ _ this(2)] show ?thesis by (simp add: g_def)
qed

lemma eng_inv_chunk_new:
  assumes "eng_inv K s" "n < length (e_inputs s)" "ic_in c = n" "\<And>i. in_tasks (f i) = in_tasks i"
    "\<And>i. in_chunks (f i) = mk_list_add (e_next s) (in_chunks i)" "\<And>i. in_routes_direct (f i) = in_routes_direct i" "ic_task c = None"
    and s'_def: "s' = in_upd n f (s\<lparr>e_chunk_heap := (e_chunk_heap s)(e_next s \<mapsto> c), e_next := e_next s + 1\<rparr>)"
  shows "eng_inv K s'"
proof -
  define a where "a = e_next s"
  have fr: "a \<notin> dom (e_chunk_heap s)" using eng_invD(4) [OF assms(1)] by (auto simp: lists_ok_def a_def)
  have g: "tk s' = tk s" "rt s' = rt s" "e_task_heap s' = e_task_heap s" "out_ids s' = out_ids s" "e_next s' = Suc a"
    "e_sched s' = e_sched s" "e_outputs s' = e_outputs s" "e_tasks_map s' = e_tasks_map s" "length (e_inputs s') = length (e_inputs s)"
    "dom (e_chunk_heap s') = insert a (dom (e_chunk_heap s))"
    by (auto simp: s'_def out_ids_def a_def tk_def rt_def fun_eq_iff)
  have l: "in_tasks (e_inputs s' ! j) = in_tasks (e_inputs s ! j)" "in_routes_direct (e_inputs s' ! j) = in_routes_direct (e_inputs s ! j)"
    "in_chunks (e_inputs s' ! j) = (if j = n then mk_list_add a (in_chunks (e_inputs s ! n)) else in_chunks (e_inputs s ! j))" for j
    using assms(2,4-6) by (simp_all add: s'_def a_def in_upd_def nth_list_update)
  have ic': "ic s' b = (if b = a then c else ic s b)" for b by (simp add: s'_def a_def ic_def)
  have icu: "ic s' (tk_ic (tk s u)) = ic s (tk_ic (tk s u))" if "live s u" for u
    using eng_invD(7) [OF assms(1) that] fr by (auto simp: task_linked_def ic')
  have "task_ids_ok s'" using eng_invD(1) [OF assms(1)] by (simp add: task_ids_ok_def g a_def less_Suc_eq)
  moreover have "outs_ok s'" using eng_invD(2) [OF assms(1)] by (simp add: outs_ok_def g)
  moreover have "task_ok s' u" if "live s u" for u
    using eng_invD(3) [OF assms(1) that] unfolding task_ok_def task_linked_def task_retries_ok_def g l icu [OF that]
    by (auto simp: a_def less_Suc_eq)
  moreover have "lists_ok s'"
  proof -
    have o: "\<And>j. j < length (e_inputs s) \<Longrightarrow> distinct (in_tasks (e_inputs s ! j)) \<and>
      (\<forall>t\<in>set (in_tasks (e_inputs s ! j)). live s t \<and> tk_i_ins (tk s t) = j) \<and> distinct (in_chunks (e_inputs s ! j)) \<and>
      (\<forall>c\<in>set (in_chunks (e_inputs s ! j)). c \<in> dom (e_chunk_heap s) \<and> ic_in (ic s c) = j) \<and>
      distinct (in_routes_direct (e_inputs s ! j)) \<and> set (in_routes_direct (e_inputs s ! j)) \<subseteq> out_ids s"
      and nx: "\<And>c. c \<in> dom (e_chunk_heap s) \<Longrightarrow> c < a"
      using eng_invD(4) [OF assms(1)] unfolding lists_ok_def a_def by auto
    show ?thesis unfolding lists_ok_def g l
    proof (intro conjI [of "\<forall>n. _ n"] allI impI ballI)
      show "b < Suc a" if "b \<in> insert a (dom (e_chunk_heap s))" for b using that nx [of b] by (auto intro: less_SucI)
      fix j assume j: "j < length (e_inputs s)"
      note oj = o [OF j]
      have "a \<notin> set (in_chunks (e_inputs s ! j))" using oj fr by blast
      then have 1: "distinct (if j = n then mk_list_add a (in_chunks (e_inputs s ! n)) else in_chunks (e_inputs s ! j))"
        using oj by (auto simp: mk_list_add_def)
      have 2: "b \<in> insert a (dom (e_chunk_heap s)) \<and> ic_in (ic s' b) = j"
        if "b \<in> set (if j = n then mk_list_add a (in_chunks (e_inputs s ! n)) else in_chunks (e_inputs s ! j))" for b
        using that oj assms(3) fr by (auto simp: ic' split: if_splits)
      show "distinct (in_tasks (e_inputs s ! j)) \<and> (\<forall>t\<in>set (in_tasks (e_inputs s ! j)). live s t \<and> tk_i_ins (tk s t) = j) \<and>
        distinct (if j = n then mk_list_add a (in_chunks (e_inputs s ! n)) else in_chunks (e_inputs s ! j)) \<and>
        (\<forall>c\<in>set (if j = n then mk_list_add a (in_chunks (e_inputs s ! n)) else in_chunks (e_inputs s ! j)).
           c \<in> insert a (dom (e_chunk_heap s)) \<and> ic_in (ic s' c) = j) \<and>
        distinct (in_routes_direct (e_inputs s ! j)) \<and> set (in_routes_direct (e_inputs s ! j)) \<subseteq> out_ids s"
        using oj 1 2 by blast
    qed
  qed
  moreover have "requests_ok K s'" using eng_invD(5) [OF assms(1)] by (simp add: requests_ok_def g)
  moreover have "links_ok s'" using eng_invD(9) [OF assms(1)] assms(7) fr unfolding links_ok_def g by (auto simp: ic')
  ultimately show ?thesis by (simp add: eng_inv_def g)
qed

lemma chunk_create_ok:
  assumes "disp_ok d" "n < length (e_inputs (d_eng d))"
    "flb_input_chunk_create io Hf onig sds_ok now meta_ok mem_ok opened n event_type tag tag_len (d_eng d) = Some (res, s')"
  shows "disp_ok (d\<lparr>d_eng := s'\<rparr>)"
  using assms(3)
proof (cases rule: chunk_create_cases)
  case 1
  then show ?thesis using assms(1) by simp
next
  case (2 c f)
  have i: "disp_inv {#} {#} d" "\<forall>p. queue_ok d p" using assms(1) by (simp_all add: disp_ok_def)
  have e: "eng_inv {#} s'" by (rule eng_inv_chunk_new [OF disp_invD(1) [OF i(1)] assms(2) 2(3-8)])
  have g: "tk s' = tk (d_eng d)" "rt s' = rt (d_eng d)" "e_task_heap s' = e_task_heap (d_eng d)" "out_ids s' = out_ids (d_eng d)"
    "e_sched s' = e_sched (d_eng d)" using 2(8) by (simp_all add: out_ids_def tk_def rt_def fun_eq_iff)
  have t: "tok {#} (d\<lparr>d_eng := s'\<rparr>) = tok {#} d" by (simp add: tok_def fun_eq_iff g)
  have "refs_ok {#} (d\<lparr>d_eng := s'\<rparr>)" using disp_invD(2) [OF i(1)] by (simp add: refs_ok_def g)
  moreover have "tokens_ok {#} {#} (d\<lparr>d_eng := s'\<rparr>)" using disp_invD(3) [OF i(1)] by (simp add: tokens_ok_def t g routes_ok_def)
  ultimately show ?thesis using e i(2) by (simp add: disp_ok_def disp_inv_def queue_ok_def)
qed

end
