(* ===== verification/Flb_Engine_Safety.thy ===== *)
theory Flb_Engine_Safety
  imports Flb_Engine_Dispatch
begin

text \<open>
  The engine as a transition system whose steps are the functions of the other theories, and what holds in
  every state it reaches.
\<close>


section \<open>The engine as a transition system\<close>

text \<open>The steps of the engine: an input adds a chunk, the chunks of an input are dispatched, the coroutine
  or worker of a flush starts or reports its result, the engine reads the event of an output, and a timer
  of the scheduler fires. What the environment decides is arbitrary in every step: the outcomes of allocations, of
  writes to pipes and of chunk I/O, the random numbers and times, the order in which events are read.
  The only condition is that \<^verbatim>\<open>flb_event_chunk_create\<close> succeeds; when it fails the engine
  keeps a reference to a freed task.\<close>

inductive engine_step :: "'c cio_api \<Rightarrow> (cstr \<Rightarrow> 64 word) \<Rightarrow> 'c disp \<Rightarrow> 'c disp \<Rightarrow> bool" for io Hf where
  ingest: "n < length (e_inputs (d_eng d)) \<Longrightarrow>
    flb_input_chunk_create io Hf onig sds_ok now meta_ok mem_ok opened n event_type tag tag_len (d_eng d) = Some (res, s') \<Longrightarrow>
    engine_step io Hf d (d\<lparr>d_eng := s'\<rparr>)"
| dispatch: "n < length (e_inputs (d_eng d)) \<Longrightarrow> \<forall>c. c_evc_ok ce c \<Longrightarrow>
    engine_step io Hf d (flb_engine_dispatch io Hf ce tests workers env ref_id n d)"
| flush_start: "f \<in> set (d_flushes d) \<Longrightarrow> \<not> fl_running f \<Longrightarrow> engine_step io Hf d (output_pre_cb_flush pipe_ok f d)"
| flush_return: "f \<in> set (d_flushes d) \<Longrightarrow> fl_running f \<Longrightarrow> ret \<in> {FLB_OK, FLB_RETRY, FLB_ERROR} \<Longrightarrow>
    engine_step io Hf d (flb_output_return pipe_ok ret f d)"
| output_event: "v \<in> set (d_events d) \<Longrightarrow> env_valid e \<Longrightarrow>
    handle_output_event io Hf mem_ok e env v (d\<lparr>d_events := remove1 v (d_events d)\<rparr>) = Some (x, d') \<Longrightarrow>
    engine_step io Hf d d'"
| timer: "t \<in> set (timers (e_sched (d_eng d))) \<Longrightarrow>
    t_type (tm (e_sched (d_eng d)) t) \<in> {FLB_SCHED_TIMER_REQUEST, FLB_SCHED_TIMER_FRAME} \<Longrightarrow> env_valid e \<Longrightarrow>
    flb_sched_event_handler io Hf e env cb t d = Some (x, d') \<Longrightarrow> engine_step io Hf d d'"

inductive_cases engine_stepE: "engine_step io Hf d d'"

lemma engine_step_ok:
  assumes "engine_step io Hf d d'" "disp_ok d"
  shows "disp_ok d'"
  using assms
proof (induction rule: engine_step.induct)
  case (ingest n d onig sds_ok now meta_ok mem_ok opened event_type tag tag_len res s')
  then show ?case using chunk_create_ok by blast
next
  case (dispatch n d ce tests workers env ref_id)
  then show ?case using engine_dispatch_ok by blast
next
  case (flush_start f d pipe_ok)
  then show ?case using pre_cb_flush_inv [of d f pipe_ok] by (simp add: disp_ok_def queue_ok_def)
next
  case (flush_return f d ret pipe_ok)
  then show ?case using output_return_inv [of d f ret pipe_ok] by (simp add: disp_ok_def queue_ok_def output_return_queues)
next
  case (output_event v d e mem_ok env x d')
  then show ?case using handle_output_event_ok by blast
next
  case (timer t d e env cb x d')
  then show ?case using event_handler_ok by blast
qed

text \<open>The engine when its loop starts: no task, no flush, no event and no retry, chunks perhaps from an
  earlier run.\<close>

definition engine_start :: "'c disp \<Rightarrow> bool" where
  "engine_start d \<longleftrightarrow> e_task_heap (d_eng d) = Map.empty \<and> e_tasks_map (d_eng d) = replicate TASKS_MAP_SIZE None \<and>
     outs_ok (d_eng d) \<and> lists_ok (d_eng d) \<and> links_ok (d_eng d) \<and> sched_inv (e_sched (d_eng d)) \<and> pending (e_sched (d_eng d)) = {#} \<and>
     d_flushes d = [] \<and> d_events d = [] \<and> (\<forall>out. d_queues d out = \<lparr>q_pending = [], q_in_progress = []\<rparr>)"

lemma engine_start_ok: "engine_start d \<Longrightarrow> disp_ok d"
  by (simp add: engine_start_def disp_ok_def disp_inv_def eng_inv_def task_ids_ok_def requests_ok_def refs_ok_def tokens_ok_def queue_ok_def)

lemma engine_reachable_ok: "(engine_step io Hf)\<^sup>*\<^sup>* d0 d \<Longrightarrow> engine_start d0 \<Longrightarrow> disp_ok d"
  by (induction rule: rtranclp_induct) (blast intro: engine_start_ok engine_step_ok)+

text \<open>C1: nothing the engine holds dangles. In every state the engine reaches, each running flush and
  each waiting entry of a synchronous output refers to a live task and an output of the configuration, and the retry of
  an entry is one of its task; each event in a pipe unpacks to the id of a live task and of an output; and each
  request of the scheduler is for a retry that a live task lists, one request per retry.\<close>

theorem engine_references_valid:
  assumes "engine_start d0" "(engine_step io Hf)\<^sup>*\<^sup>* d0 d"
  shows "(\<forall>f\<in>set (d_flushes d). fl_task f \<in> dom (e_task_heap (d_eng d)) \<and> fl_out f \<in> o_id ` set (e_outputs (d_eng d))) \<and>
    (\<forall>out. \<forall>x\<in>set (pending_of d out). qe_task x \<in> dom (e_task_heap (d_eng d)) \<and> out \<in> o_id ` set (e_outputs (d_eng d)) \<and>
       (\<forall>r. qe_retry x = Some r \<longrightarrow> r \<in> set (tk_retries (tk (d_eng d) (qe_task x))) \<and> rt_o_ins (rt (d_eng d) r) = out)) \<and>
    (\<forall>v\<in>set (d_events d). \<exists>t\<in>dom (e_task_heap (d_eng d)).
       e_tasks_map (d_eng d) ! unat (FLB_TASK_ID (FLB_BITS_U64_LOW v)) = Some t \<and>
       uint (FLB_TASK_OUT (FLB_BITS_U64_LOW v)) \<in> o_id ` set (e_outputs (d_eng d))) \<and>
    (\<forall>r. r \<in># pending (e_sched (d_eng d)) \<longrightarrow> count (pending (e_sched (d_eng d))) r = 1 \<and>
       rt_parent (rt (d_eng d) r) \<in> dom (e_task_heap (d_eng d)) \<and> r \<in> set (tk_retries (tk (d_eng d) (rt_parent (rt (d_eng d) r)))))"
proof -
  have ok: "disp_ok d" by (rule engine_reachable_ok [OF assms(2,1)])
  then have i: "disp_inv {#} {#} d" by (simp add: disp_ok_def)
  note r = refs_okD [OF disp_invD(2) [OF i], unfolded out_ids_def]
  have "\<exists>t\<in>dom (e_task_heap (d_eng d)). e_tasks_map (d_eng d) ! unat (FLB_TASK_ID (FLB_BITS_U64_LOW v)) = Some t \<and>
       uint (FLB_TASK_OUT (FLB_BITS_U64_LOW v)) \<in> o_id ` set (e_outputs (d_eng d))" if "v \<in> set (d_events d)" for v
    by (rule event_resolved [OF ok that]) blast
  moreover have "count (pending (e_sched (d_eng d))) r = 1 \<and> rt_parent (rt (d_eng d) r) \<in> dom (e_task_heap (d_eng d)) \<and>
      r \<in> set (tk_retries (tk (d_eng d) (rt_parent (rt (d_eng d) r))))" if "r \<in># pending (e_sched (d_eng d))" for r
    using disp_fired(2) [OF ok that] by (simp add: retry_fired_def)
  ultimately show ?thesis using r(2,3,4) by blast
qed

text \<open>C2: a task is never in the hands of the same output twice. In every state the engine reaches, a flush that runs, an
  entry that waits, an event that has not been read and a request for a later retry exclude each
  other for one task and one output, and the user count of a task is at least the number of its flushes,
  entries and events, so that no task is released while an output still works on it.\<close>

theorem engine_one_delivery_at_a_time:
  assumes "engine_start d0" "(engine_step io Hf)\<^sup>*\<^sup>* d0 d" "t \<in> dom (e_task_heap (d_eng d))"
  shows "length (filter (\<lambda>f. fl_task f = t \<and> fl_out f = out) (d_flushes d)) +
      length (filter (\<lambda>x. qe_task x = t) (pending_of d out)) +
      length (filter (ev_for (tk_id (tk (d_eng d) t)) out) (d_events d)) +
      (\<Sum>r | r \<in> set (tk_retries (tk (d_eng d) t)) \<and> rt_o_ins (rt (d_eng d) r) = out. count (pending (e_sched (d_eng d))) r) \<le> 1 \<and>
    int (\<Sum>p\<in>o_id ` set (e_outputs (d_eng d)). length (filter (\<lambda>f. fl_task f = t \<and> fl_out f = p) (d_flushes d)) +
      length (filter (\<lambda>x. qe_task x = t) (pending_of d p)) +
      length (filter (ev_for (tk_id (tk (d_eng d) t)) p) (d_events d))) \<le> tk_users (tk (d_eng d) t)"
proof -
  have i: "disp_inv {#} {#} d" using engine_reachable_ok [OF assms(2,1)] by (simp add: disp_ok_def)
  note o = tokens_okD [OF disp_invD(3) [OF i] assms(3)]
  define R where "R = {r \<in> set (tk_retries (tk (d_eng d) t)). rt_o_ins (rt (d_eng d) r) = out}"
  have "r = q" if "r \<in> R" "q \<in> R" for r q
    using that eng_invD(8) [OF disp_invD(1) [OF i] assms(3)] unfolding R_def task_retries_ok_def by (auto dest: inj_onD)
  then consider "R = {}" | r where "R = {r}" by blast
  then have "tok {#} d t out + (\<Sum>r\<in>R. count (pending (e_sched (d_eng d))) r) \<le> 1"
  proof cases
    case (2 r)
    then have "r \<in> set (tk_retries (tk (d_eng d) t))" "rt_o_ins (rt (d_eng d) r) = out" by (auto simp: R_def)
    then show ?thesis using o(3) [of r] 2 by simp
  qed (use o(2) in simp)
  then show ?thesis using o(1) by (simp add: tok_def R_def out_ids_def)
qed

lemma event_returns:
  assumes "disp_ok d" "v \<in> set (d_events d)" "env_valid e" "0 \<le> x_rand e k" "x_rand e k < 2 ^ 30"
  obtains d' where "handle_output_event io Hf mem_ok e env v (d\<lparr>d_events := remove1 v (d_events d)\<rparr>) = Some (0, d')"
proof -
  have rc: "flb_sched_request_create a b (x_rand e) c f g (x_base e) (x_cap e) s r n \<noteq> None" for a b c f g s r n
    using backoff_wait [of "x_base e" "x_cap e" "x_rand e" k n] assms(3-5)
    by (auto simp: env_valid_def flb_sched_request_create_def Let_def case_prod_beta split: option.split)
  have hr: "handle_retry io Hf mem_ok e t ins x \<noteq> None" for t ins and x :: "'a disp"
    by (auto simp: handle_retry_def Let_def rc split: option.splits prod.splits)
  have "\<exists>x d'. handle_output_event io Hf mem_ok e env v (d\<lparr>d_events := remove1 v (d_events d)\<rparr>) = Some (x, d')"
    using event_handled [OF assms(1,2) refl, of env]
  proof (cases)
    case (1 t ret ins d1)
    then show ?thesis using hr [of t ins d1] unfolding 1(8) by auto
  qed
  then obtain x d' where "handle_output_event io Hf mem_ok e env v (d\<lparr>d_events := remove1 v (d_events d)\<rparr>) = Some (x, d')" by blast
  then show thesis using that handle_output_event_ok [OF assms(1-3)] by blast
qed

text \<open>C3: every event is handled. In every state the engine reaches, the handler of an event in a pipe finds
  its task and its output and returns, as soon as \<^verbatim>\<open>rand\<close> gives one value in the lower half of its
  range; no event makes it follow a reference to a released task.\<close>

theorem engine_event_handled:
  assumes "engine_start d0" "(engine_step io Hf)\<^sup>*\<^sup>* d0 d" "v \<in> set (d_events d)" "env_valid e" "0 \<le> x_rand e k" "x_rand e k < 2 ^ 30"
  shows "\<exists>d'. handle_output_event io Hf mem_ok e env v (d\<lparr>d_events := remove1 v (d_events d)\<rparr>) = Some (0, d') \<and> engine_step io Hf d d'"
  by (rule event_returns [OF engine_reachable_ok [OF assms(2,1)] assms(3-6), of io Hf mem_ok env])
    (use engine_step.output_event [OF assms(3,4)] in blast)

section \<open>Every record is accounted for\<close>

text \<open>What a handled event adds to the counters of its output, for a task of \<open>n\<close> records that was retried \<open>c\<close> times at this
  output (minus one: never).\<close>

definition event_counts :: "bool \<Rightarrow> sched_env \<Rightarrow> int \<Rightarrow> int \<Rightarrow> int \<Rightarrow> int \<Rightarrow> out_metrics \<Rightarrow> out_metrics" where
  "event_counts mem_ok e limit ret n c m =
     (if ret = FLB_OK then m\<lparr>mt_proc_records := mt_proc_records m + n\<rparr>
      else if ret = FLB_ERROR then m\<lparr>mt_errors := mt_errors m + 1, mt_dropped_records := mt_dropped_records m + n\<rparr>
      else if limit = FLB_OUT_RETRY_NONE then m\<lparr>mt_dropped_records := mt_dropped_records m + n\<rparr>
      else if retry_refused mem_ok limit c
      then m\<lparr>mt_retries_failed := mt_retries_failed m + 1, mt_dropped_records := mt_dropped_records m + n\<rparr>
      else if request_refused (x_timer_ok e) (x_req_ok e) (x_fd e)
                (request_backoff (x_rand e) (x_shutting_down e) (x_base e) (x_cap e) (nat (if c = -1 then 1 else c + 1)))
      then m
      else m\<lparr>mt_retries := mt_retries m + 1, mt_retried_records := mt_retried_records m + n\<rparr>)"

lemma handle_retry_counts:
  assumes "task_retries_ok (d_eng d) t" "sched_inv (e_sched (d_eng d))" "env_valid e" "handle_retry io Hf mem_ok e t ins d = Some d'"
  shows "d_metrics d' = (d_metrics d)(o_id ins := event_counts mem_ok e (o_retry_limit ins) FLB_RETRY (tk_records (tk (d_eng d) t))
    (flb_task_retry_count (d_eng d) t (o_id ins)) (d_metrics d (o_id ins)))"
proof (cases "o_retry_limit ins = FLB_OUT_RETRY_NONE")
  case True
  then show ?thesis using assms(4) by (auto simp: handle_retry_def Let_def event_counts_def metrics_upd_def ret_consts)
next
  case False
  define c where "c = flb_task_retry_count (d_eng d) t (o_id ins)"
  obtain ro s1 where rc: "flb_task_retry_create io mem_ok t ins (d_eng d) = (ro, s1)" by fastforce
  note o = retry_create_outcome [OF assms(1) rc, folded c_def]
  show ?thesis
  proof (cases ro)
    case None
    then have "retry_refused mem_ok (o_retry_limit ins) c" using o(1) by simp
    then show ?thesis using assms(4) False rc None
      by (auto simp: handle_retry_def Let_def event_counts_def metrics_upd_def ret_consts c_def [symmetric])
  next
    case (Some r)
    define s2 where "s2 = flb_task_users_dec io Hf t False s1"
    have s2: "e_sched s2 = e_sched (d_eng d)" "rt_attempts (rt s2 r) = (if c = -1 then 1 else c + 1)"
      using o(2) [OF Some] by (simp_all add: s2_def flb_task_users_dec_def)
    obtain sec sc where q: "flb_sched_request_create (x_timer_ok e) (x_req_ok e) (x_rand e) (x_now e) (x_fd e)
        (x_shutting_down e) (x_base e) (x_cap e) (e_sched s2) r (nat (rt_attempts (rt s2 r))) = Some (sec, sc)"
      using assms(4) False rc Some by (auto simp: handle_retry_def Let_def s2_def [symmetric] split: option.splits)
    have "sec = -1 \<longleftrightarrow> request_refused (x_timer_ok e) (x_req_ok e) (x_fd e)
        (request_backoff (x_rand e) (x_shutting_down e) (x_base e) (x_cap e) (nat (if c = -1 then 1 else c + 1)))"
      using request_create_stored(1) [OF _ _ _ _ q] assms(2,3) unfolding s2 by (simp add: env_valid_def)
    moreover have "\<not> retry_refused mem_ok (o_retry_limit ins) c" using o(1) Some by simp
    moreover have "d_metrics d' = (if sec = -1 then d_metrics d else (d_metrics d)(o_id ins := (d_metrics d (o_id ins))
        \<lparr>mt_retries := mt_retries (d_metrics d (o_id ins)) + 1,
         mt_retried_records := mt_retried_records (d_metrics d (o_id ins)) + tk_records (tk (d_eng d) t)\<rparr>))"
      using assms(4) False rc Some q by (auto simp: handle_retry_def Let_def s2_def [symmetric] metrics_upd_def)
    ultimately show ?thesis using False by (simp add: event_counts_def ret_consts c_def [symmetric])
  qed
qed

text \<open>C4: the counters of the outputs. Handling an event changes the counters of its output only. A delivered task
  adds its records to the processed ones; an error adds one error and drops the records. A retry drops them when the output
  takes no retries; it counts a failed retry and drops them when the limit of the output is reached or no retry can be
  allocated; and otherwise it counts one retry and the records as retried. The one case that counts nothing is a retry that the scheduler
  refuses: an allocation fails, or the retry is due within its frame and no timer can be created.\<close>

theorem engine_records_accounted:
  assumes "engine_start d0" "(engine_step io Hf)\<^sup>*\<^sup>* d0 d" "v \<in> set (d_events d)" "env_valid e"
    "handle_output_event io Hf mem_ok e env v (d\<lparr>d_events := remove1 v (d_events d)\<rparr>) = Some (x, d')"
  shows "\<exists>t\<in>dom (e_task_heap (d_eng d)). \<exists>ins\<in>set (e_outputs (d_eng d)). \<exists>ret\<in>{FLB_OK, FLB_RETRY, FLB_ERROR}.
     v = out_event ret (tk_id (tk (d_eng d) t)) (o_id ins) \<and>
     d_metrics d' = (d_metrics d)(o_id ins := event_counts mem_ok e (o_retry_limit ins) ret (tk_records (tk (d_eng d) t))
       (flb_task_retry_count (d_eng d) t (o_id ins)) (d_metrics d (o_id ins)))"
  using event_handled [OF engine_reachable_ok [OF assms(2,1)] assms(3) refl, of env]
proof (cases)
  case (1 t ret ins d1)
  have m: "d_metrics d1 = d_metrics d" "tk_records (tk (d_eng d1) t) = tk_records (tk (d_eng d) t)" "live (d_eng d1) t"
    using 1(4,7) by (simp_all add: flush_frame_def)
  note i = disp_invD(1) [OF 1(1)]
  have "d_metrics d' = (d_metrics d)(o_id ins := event_counts mem_ok e (o_retry_limit ins) ret (tk_records (tk (d_eng d) t))
       (flb_task_retry_count (d_eng d) t (o_id ins)) (d_metrics d (o_id ins)))"
    using assms(5) 1(3) handle_retry_counts [OF eng_invD(8) [OF i m(3)] eng_invD(6) [OF i] assms(4), of io Hf mem_ok ins] unfolding 1(8) 1(9)
    by (auto simp: event_counts_def ret_consts metrics_upd_def m split: if_splits)
  then show ?thesis using 1(3-6) by blast
qed

section \<open>The limit of retries\<close>

text \<open>A task that is done at an output without a retry: nothing is added to the retries and requests.\<close>

lemma task_done_adds_nothing:
  assumes "task_linked s t" "sched_inv (e_sched s)" "flb_task_retry_count s t out = -1"
  shows "dom (e_retry_heap (task_done io Hf t out s)) \<subseteq> dom (e_retry_heap s)"
    "pending (e_sched (task_done io Hf t out s)) \<subseteq># pending (e_sched s)"
proof -
  define s1 where "s1 = tk_upd t (\<lambda>x. x\<lparr>tk_users := tk_users x - 1\<rparr>) s"
  have "1 \<le> rt_attempts (rt s r)" if "r \<in> set (tk_retries (tk s t))" for r
    using assms(1) that by (simp add: task_linked_def task_retries_ok_def)
  then have "List.find (\<lambda>r. rt_o_ins (rt s r) = out) (tk_retries (tk s t)) = None"
    using assms(3) find_Some_in [of "\<lambda>r. rt_o_ins (rt s r) = out" "tk_retries (tk s t)"]
    by (fastforce simp: flb_task_retry_count_def split: option.splits)
  then have d: "task_done io Hf t out s = flb_task_users_release io Hf t s1"
    by (simp add: task_done_def flb_task_retry_clean_def flb_task_users_dec_def s1_def)
  have f: "e_retry_heap s1 = e_retry_heap s" "e_sched s1 = e_sched s" by (simp_all add: s1_def)
  have "task_linked s1 t" using assms(1) by (simp add: task_linked_def task_retries_ok_def s1_def)
  note l = task_destroy_spec(3,4) [OF this _ refl, of io Hf True, unfolded f, OF assms(2)]
  show "dom (e_retry_heap (task_done io Hf t out s)) \<subseteq> dom (e_retry_heap s)"
    "pending (e_sched (task_done io Hf t out s)) \<subseteq># pending (e_sched s)"
    using l unfolding d flb_task_users_release_def by (auto simp: f split: if_splits)
qed

text \<open>C30: the limit of retries of an output, for a task it was not yet retried for and while retries can be allocated. With \<^verbatim>\<open>FLB_OUT_RETRY_NONE\<close>, zero, the engine does
  not ask for a retry: a failure drops the records and adds neither a retry nor a request. With a limit above zero an output that
  keeps failing gets exactly as many retries as the limit says; the next failure is refused and leaves no retry behind. With a
  negative limit, \<^verbatim>\<open>FLB_OUT_RETRY_UNLIMITED\<close>, every failure gets a retry.\<close>

theorem flb_task_retry_limit:
  assumes "task_linked (d_eng d) t" "sched_inv (e_sched (d_eng d))" "flb_task_retry_count (d_eng d) t (o_id ins) = -1"
  shows "if o_retry_limit ins = FLB_OUT_RETRY_NONE
    then \<exists>d'. handle_retry io Hf mem_ok e t ins d = Some d' \<and> dom (e_retry_heap (d_eng d')) \<subseteq> dom (e_retry_heap (d_eng d)) \<and>
      pending (e_sched (d_eng d')) \<subseteq># pending (e_sched (d_eng d)) \<and>
      mt_dropped_records (d_metrics d' (o_id ins)) = mt_dropped_records (d_metrics d (o_id ins)) + tk_records (tk (d_eng d) t)
    else if 0 < o_retry_limit ins
    then fst (failures io t ins (Suc (nat (o_retry_limit ins))) (d_eng d)) = replicate (nat (o_retry_limit ins)) True @ [False] \<and>
      flb_task_retry_count (snd (failures io t ins (Suc (nat (o_retry_limit ins))) (d_eng d))) t (o_id ins) = -1
    else fst (failures io t ins n (d_eng d)) = replicate n True"
proof -
  have ok: "task_retries_ok (d_eng d) t" using assms(1) by (simp add: task_linked_def)
  show ?thesis
    using task_done_adds_nothing [OF assms, of io Hf] failures_exhausted [OF ok assms(3), of io] failures_unlimited [OF ok, of ins io n]
    by (auto simp: handle_retry_def Let_def metrics_upd_def FLB_OUT_RETRY_NONE_def)
qed

section \<open>An engine at work\<close>

text \<open>One input with a chunk of one record and tag \<open>t\<close>, one output.\<close>

definition demo_start :: "demo_chunk disp" where
  "demo_start = (demo_disp [])\<lparr>d_eng := (demo_engine True 100 100)\<lparr>e_chunk_heap := [0 \<mapsto> (demo_chunk_of True 100)\<lparr>ic_chunk := (True, 100, Some ''t'')\<rparr>]\<rparr>\<rparr>"

definition demo_create_env :: create_env where
  "demo_create_env = \<lparr>c_task_ok = (\<lambda>_. True), c_evc_ok = (\<lambda>_. True), c_route_ok = (\<lambda>_ _. True), c_junk = (\<lambda>_. 0)\<rparr>"

definition demo_dispatched :: "demo_chunk disp" where
  "demo_dispatched = flb_engine_dispatch demo_io (\<lambda>_. 0) demo_create_env (\<lambda>_. False) (\<lambda>_. 0) (demo_flush_env 0) 7 0 demo_start"

definition demo_running :: "demo_chunk disp" where
  "demo_running = output_pre_cb_flush True \<lparr>fl_task = 1, fl_out = 0, fl_running = False\<rparr> demo_dispatched"

definition demo_returned :: "demo_chunk disp" where
  "demo_returned = flb_output_return True FLB_OK \<lparr>fl_task = 1, fl_out = 0, fl_running = True\<rparr> demo_running"

lemma demo_run:
  "d_flushes demo_dispatched = [\<lparr>fl_task = 1, fl_out = 0, fl_running = False\<rparr>] \<and>
   d_flushes demo_running = [\<lparr>fl_task = 1, fl_out = 0, fl_running = True\<rparr>] \<and> d_events demo_returned = [out_event FLB_OK 0 0]"
  by code_simp

lemma demo_start_ok: "engine_start demo_start"
proof -
  have "pending demo_sched = {#}" by (simp add: pending_def demo_sched_def flb_sched_create_def flb_sched_timer_create_def sched_empty_def Let_def)
  then show ?thesis
    by (simp add: engine_start_def demo_start_def demo_disp_def demo_engine_fields outs_ok_def out_ids_def lists_ok_def links_ok_def demo_sched_inv
        demo_input_def demo_out_def demo_chunk_of_def ic_def)
qed

lemma demo_reach: "(engine_step demo_io (\<lambda>_. 0))\<^sup>*\<^sup>* demo_start demo_dispatched" "(engine_step demo_io (\<lambda>_. 0))\<^sup>*\<^sup>* demo_start demo_returned"
proof -
  have 1: "engine_step demo_io (\<lambda>_. 0) demo_start demo_dispatched"
    unfolding demo_dispatched_def by (rule engine_step.dispatch) (simp_all add: demo_start_def demo_engine_fields demo_create_env_def)
  have 2: "engine_step demo_io (\<lambda>_. 0) demo_dispatched demo_running"
    unfolding demo_running_def by (rule engine_step.flush_start) (simp_all add: demo_run)
  have 3: "engine_step demo_io (\<lambda>_. 0) demo_running demo_returned"
    unfolding demo_returned_def by (rule engine_step.flush_return) (simp_all add: demo_run)
  show "(engine_step demo_io (\<lambda>_. 0))\<^sup>*\<^sup>* demo_start demo_dispatched" using 1 by blast
  show "(engine_step demo_io (\<lambda>_. 0))\<^sup>*\<^sup>* demo_start demo_returned"
    using 1 2 3 by (meson converse_rtranclp_into_rtranclp rtranclp.rtrancl_refl)
qed

definition demo_env :: sched_env where
  "demo_env = \<lparr>x_timer_ok = True, x_req_ok = True, x_rand = (\<lambda>_. 0), x_now = 100, x_fd = 5, x_shutting_down = False, x_base = 5, x_cap = 2000,
     x_tries = 1, x_fds = (\<lambda>_. 6)\<rparr>"

theorem engine_references_valid_witness:
  "d_flushes demo_dispatched = [\<lparr>fl_task = 1, fl_out = 0, fl_running = False\<rparr>] \<and>
   1 \<in> dom (e_task_heap (d_eng demo_dispatched)) \<and> 0 \<in> o_id ` set (e_outputs (d_eng demo_dispatched))"
  using engine_references_valid [OF demo_start_ok demo_reach(1)] demo_run by simp

theorem engine_one_delivery_at_a_time_witness: "1 \<le> tk_users (tk (d_eng demo_dispatched) 1)"
proof -
  have l: "1 \<in> dom (e_task_heap (d_eng demo_dispatched))"
    using demo_run refs_okD(2) [OF disp_invD(2), of "{#}" "{#}" demo_dispatched] engine_reachable_ok [OF demo_reach(1) demo_start_ok]
    by (simp add: disp_ok_def)
  have o: "o_id ` set (e_outputs (d_eng demo_dispatched)) = {0}" by code_simp
  have "int (\<Sum>p\<in>{0}. length (filter (\<lambda>f. fl_task f = 1 \<and> fl_out f = p) (d_flushes demo_dispatched))) \<le> tk_users (tk (d_eng demo_dispatched) 1)"
    using engine_one_delivery_at_a_time [OF demo_start_ok demo_reach(1) l, of 0] unfolding o by simp
  then show ?thesis by (simp add: demo_run)
qed

theorem engine_event_handled_witness:
  "\<exists>d'. handle_output_event demo_io (\<lambda>_. 0) True demo_env (demo_flush_env 0) (out_event FLB_OK 0 0) (demo_returned\<lparr>d_events := []\<rparr>) = Some (0, d')"
proof -
  have "env_valid demo_env" by (simp add: env_valid_def demo_env_def RAND_MAX_def)
  from engine_event_handled [OF demo_start_ok demo_reach(2) _ this, of "out_event FLB_OK 0 0" 0 True "demo_flush_env 0"] show ?thesis
    by (auto simp: demo_run demo_env_def)
qed

theorem engine_records_accounted_witness:
  "\<exists>x d'. handle_output_event demo_io (\<lambda>_. 0) True demo_env (demo_flush_env 0) (out_event FLB_OK 0 0)
       (demo_returned\<lparr>d_events := remove1 (out_event FLB_OK 0 0) (d_events demo_returned)\<rparr>) = Some (x, d') \<and>
     (\<exists>t\<in>dom (e_task_heap (d_eng demo_returned)). \<exists>ins\<in>set (e_outputs (d_eng demo_returned)). \<exists>ret\<in>{FLB_OK, FLB_RETRY, FLB_ERROR}.
        out_event FLB_OK 0 0 = out_event ret (tk_id (tk (d_eng demo_returned) t)) (o_id ins) \<and>
        d_metrics d' = (d_metrics demo_returned)(o_id ins := event_counts True demo_env (o_retry_limit ins) ret (tk_records (tk (d_eng demo_returned) t))
          (flb_task_retry_count (d_eng demo_returned) t (o_id ins)) (d_metrics demo_returned (o_id ins))))"
proof -
  have ev: "out_event FLB_OK 0 0 \<in> set (d_events demo_returned)" by (simp add: demo_run)
  have e: "env_valid demo_env" "0 \<le> x_rand demo_env 0" "x_rand demo_env 0 < 2 ^ 30" by (simp_all add: env_valid_def demo_env_def RAND_MAX_def)
  from event_returns [OF engine_reachable_ok [OF demo_reach(2) demo_start_ok] ev this] obtain x d' where h:
    "handle_output_event demo_io (\<lambda>_. 0) True demo_env (demo_flush_env 0) (out_event FLB_OK 0 0)
      (demo_returned\<lparr>d_events := remove1 (out_event FLB_OK 0 0) (d_events demo_returned)\<rparr>) = Some (x, d')" .
  from engine_records_accounted [OF demo_start_ok demo_reach(2) ev e(1) h] h show ?thesis by blast
qed

theorem flb_task_retry_limit_witness:
  "fst (failures demo_io 7 (demo_out 100) 3 demo_tasks) = [True, True, False]"
proof -
  define d where "d = (demo_disp [])\<lparr>d_eng := demo_tasks\<rparr>"
  have "flb_task_retry_count (d_eng d) 7 (o_id (demo_out 100)) = -1"
    by (simp add: d_def flb_task_retry_count_def demo_tasks_fields demo_task_def)
  moreover have "task_linked (d_eng d) 7" "sched_inv (e_sched (d_eng d))" using demo_tasks_linked demo_sched_ok by (simp_all add: d_def)
  ultimately show ?thesis
    using flb_task_retry_limit [of d 7 "demo_out 100" demo_io]
    by (simp add: d_def demo_out_def FLB_OUT_RETRY_NONE_def eval_nat_numeral)
qed

end
