(* ===== verification/Flb_Engine_Loop.thy ===== *)
theory Flb_Engine_Loop
  imports Flb_Engine_Safety
begin

text \<open>
  The core events of the loop of \<^verbatim>\<open>flb_engine_start\<close> in \<^verbatim>\<open>src/flb_engine.c\<close>: the flush
  timer, the channel of the manager, and the shutdown of the engine with its grace period.

  \<open>ch_manager\<close> is what the pipe of the manager holds, oldest first. \<open>is_running\<close> and \<open>is_ingestion_active\<close>
  are in the engine state. A record \<open>loop_env\<close> holds what the environment decides during one
  event: allocations, pipes, timer descriptors.
\<close>

section \<open>State\<close>

record 'c flb_loop =
  l_disp :: "'c disp"
  grace :: int
  grace_count :: int
  is_shutting_down :: bool
  exit_status_code :: int
  ch_manager :: "64 word list"
  ch_manager_fd :: int
  flush_fd :: int
  shutdown_fd :: int

record now_env =
  w_timer_ok :: "addr \<Rightarrow> bool"
  w_req_ok :: "addr \<Rightarrow> bool"
  w_fd :: "addr \<Rightarrow> int"
  w_now :: int

record loop_env =
  v_create :: "nat \<Rightarrow> create_env"
  v_flush :: "nat \<Rightarrow> flush_env"
  v_tests :: "int \<Rightarrow> bool"
  v_workers :: "int \<Rightarrow> nat"
  v_plugin :: "nat \<Rightarrow> addr"
  v_now :: now_env
  v_timeout_fd :: int
  v_pipe_ok :: bool

definition FLB_ENGINE_EV_STOP :: "64 word" where "FLB_ENGINE_EV_STOP = FLB_BITS_U64_SET 1 3"
definition FLB_ENGINE_EV_SHUTDOWN :: "64 word" where "FLB_ENGINE_EV_SHUTDOWN = FLB_BITS_U64_SET 1 4"
definition FLB_ENGINE_STOP :: int where "FLB_ENGINE_STOP = uint (FLB_BITS_U64_LOW FLB_ENGINE_EV_STOP)"
definition FLB_ENGINE_SHUTDOWN :: int where "FLB_ENGINE_SHUTDOWN = uint (FLB_BITS_U64_LOW FLB_ENGINE_EV_SHUTDOWN)"

definition disp_upd :: "('c disp \<Rightarrow> 'c disp) \<Rightarrow> 'c flb_loop \<Rightarrow> 'c flb_loop" where
  "disp_upd f l = l\<lparr>l_disp := f (l_disp l)\<rparr>"

section \<open>Operations on all inputs\<close>

definition flb_engine_destroy_tasks ::
  "'c cio_api \<Rightarrow> (cstr \<Rightarrow> 64 word) \<Rightarrow> addr list \<Rightarrow> 'c flb_engine \<Rightarrow> int \<times> 'c flb_engine" where
  "flb_engine_destroy_tasks io H ts s = fold (\<lambda>t (c, s). (c + 1, flb_task_destroy io H t False s)) ts (0, s)"

definition reschedule_retry :: "now_env \<Rightarrow> addr \<Rightarrow> flb_sched \<Rightarrow> flb_sched" where
  "reschedule_retry w r sc =
     snd (flb_sched_retry_now (w_timer_ok w r) (w_req_ok w r) (w_now w) (w_fd w r) (snd (flb_sched_request_invalidate sc r)) r)"

definition flb_engine_reschedule_retries :: "now_env \<Rightarrow> 'c flb_engine \<Rightarrow> 'c flb_engine" where
  "flb_engine_reschedule_retries w s =
     fold (\<lambda>ins s. fold (\<lambda>t s. fold (\<lambda>r s. s\<lparr>e_sched := reschedule_retry w r (e_sched s)\<rparr>) (tk_retries (tk s t)) s)
        (in_tasks ins) s) (e_inputs s) s"

definition flb_engine_flush ::
  "'c cio_api \<Rightarrow> (cstr \<Rightarrow> 64 word) \<Rightarrow> loop_env \<Rightarrow> addr option \<Rightarrow> 'c disp \<Rightarrow> int \<times> 'c disp" where
  "flb_engine_flush io H v in_force d =
     (0, fold (\<lambda>n d. if in_force \<noteq> None \<and> Some (v_plugin v n) \<noteq> in_force then d
                     else flb_engine_dispatch io H (v_create v n) (v_tests v) (v_workers v) (v_flush v n) 0 n d)
           [0..<length (e_inputs (d_eng d))] d)"

definition flb_input_pause_all :: "'c flb_engine \<Rightarrow> int \<times> 'c flb_engine" where
  "flb_input_pause_all s =
     (int (length (filter (\<lambda>i. \<not> flb_input_buf_paused i) (e_inputs s))), s\<lparr>e_inputs := map flb_input_pause (e_inputs s)\<rparr>)"

section \<open>Events from outputs\<close>

text \<open>\<open>result\<close> starts as what the uninitialised variable holds. The size of the batch is one, so at most the
  first of the values read is handled.\<close>

fun output_events_loop ::
  "'c cio_api \<Rightarrow> (cstr \<Rightarrow> 64 word) \<Rightarrow> bool \<Rightarrow> sched_env \<Rightarrow> flush_env \<Rightarrow> 64 word list \<Rightarrow> int \<Rightarrow> 'c disp \<Rightarrow> (int \<times> 'c disp) option" where
  "output_events_loop io H mem_ok e env [] result d = Some (result, d)"
| "output_events_loop io H mem_ok e env (v # vs) result d =
     (if v = 0 then Some (result, d)
      else case handle_output_event io H mem_ok e env v d of None \<Rightarrow> None
           | Some (result', d') \<Rightarrow> output_events_loop io H mem_ok e env vs result' d')"

definition FLB_ENGINE_OUTPUT_EVENT_BATCH_SIZE :: nat where "FLB_ENGINE_OUTPUT_EVENT_BATCH_SIZE = 1"

definition handle_output_events ::
  "'c cio_api \<Rightarrow> (cstr \<Rightarrow> 64 word) \<Rightarrow> bool \<Rightarrow> sched_env \<Rightarrow> flush_env \<Rightarrow> int \<Rightarrow> int \<Rightarrow> 64 word list \<Rightarrow> 'c disp
   \<Rightarrow> (int \<times> 'c disp) option" where
  "handle_output_events io H mem_ok e env junk bytes values d =
     (if bytes = -1 then Some (-1, d)
      else output_events_loop io H mem_ok e env (take (min (nat bytes div 8) FLB_ENGINE_OUTPUT_EVENT_BATCH_SIZE) values) junk d)"

section \<open>Core events\<close>

definition flb_engine_manager ::
  "'c cio_api \<Rightarrow> (cstr \<Rightarrow> 64 word) \<Rightarrow> loop_env \<Rightarrow> 'c flb_loop \<Rightarrow> int \<times> 'c flb_loop" where
  "flb_engine_manager io H v l =
     (case ch_manager l of
        [] \<Rightarrow> (-1, l)
      | val # vals \<Rightarrow>
          (let l1 = l\<lparr>ch_manager := vals\<rparr>; type = FLB_BITS_U64_HIGH val; key = FLB_BITS_U64_LOW val in
           if type = 1 \<and> uint key = FLB_ENGINE_STOP
           then (FLB_ENGINE_STOP, disp_upd (\<lambda>d. snd (flb_engine_flush io H v None d)) l1)
           else (0, l1)))"

text \<open>\<open>others\<close> stands for the collectors, the metrics exporter and the stream processor, which are tried
  in this order; it gives \<open>-1\<close> when the descriptor is none of theirs.\<close>

definition flb_engine_handle_event ::
  "'c cio_api \<Rightarrow> (cstr \<Rightarrow> 64 word) \<Rightarrow> loop_env \<Rightarrow> (int \<Rightarrow> 'c disp \<Rightarrow> int \<times> 'c disp) \<Rightarrow> int \<Rightarrow> bool \<Rightarrow> 'c flb_loop
   \<Rightarrow> int \<times> 'c flb_loop" where
  "flb_engine_handle_event io H v others fd readable l =
     (if \<not> e_is_running (d_eng (l_disp l)) then (0, l)
      else if readable then
        (if flush_fd l = fd then (0, disp_upd (\<lambda>d. snd (flb_engine_flush io H v None d)) l)
         else if shutdown_fd l = fd then (FLB_ENGINE_SHUTDOWN, l)
         else
           (let (ret, l1) = (if ch_manager_fd l = fd then flb_engine_manager io H v l else (0, l)) in
            if ch_manager_fd l = fd \<and> (ret = FLB_ENGINE_STOP \<or> ret = uint FLB_ENGINE_EV_STOP) then (FLB_ENGINE_STOP, l1)
            else case others fd (l_disp l1) of (ret2, d2) \<Rightarrow>
              (if ret2 \<noteq> -1 then ret2 else 0, l1\<lparr>l_disp := d2\<rparr>)))
      else (0, l))"

definition flb_engine_exit :: "bool \<Rightarrow> 'c flb_loop \<Rightarrow> int \<times> 'c flb_loop" where
  "flb_engine_exit pipe_ok l =
     (if pipe_ok then (8, l\<lparr>ch_manager := ch_manager l @ [FLB_ENGINE_EV_STOP]\<rparr>) else (-1, l))"

definition flb_engine_exit_status :: "bool \<Rightarrow> int \<Rightarrow> 'c flb_loop \<Rightarrow> int \<times> 'c flb_loop" where
  "flb_engine_exit_status pipe_ok status l = flb_engine_exit pipe_ok (l\<lparr>exit_status_code := status\<rparr>)"

text \<open>The release of the components that follows is not modelled.\<close>

definition flb_engine_shutdown :: "'c flb_loop \<Rightarrow> 'c flb_loop" where
  "flb_engine_shutdown l = disp_upd (eng_upd (\<lambda>s. snd (flb_input_pause_all (s\<lparr>e_is_running := False\<rparr>)))) l"

datatype 'c loop_result = Looping "'c flb_loop" | Stopped int "'c flb_loop"

definition engine_stop :: "loop_env \<Rightarrow> 'c flb_loop \<Rightarrow> 'c flb_loop" where
  "engine_stop v l =
     (let l1 = (if grace_count l = 0 then disp_upd (eng_upd (flb_engine_reschedule_retries (v_now v))) l else l);
          l2 = disp_upd (eng_upd (\<lambda>s. s\<lparr>e_is_ingestion_active := False\<rparr>)) l1\<lparr>is_shutting_down := True\<rparr>;
          l3 = disp_upd (eng_upd (\<lambda>s. snd (flb_input_pause_all s))) l2
      in l3\<lparr>shutdown_fd := v_timeout_fd v\<rparr>)"

definition engine_grace :: "loop_env \<Rightarrow> 'c flb_loop \<Rightarrow> 'c loop_result" where
  "engine_grace v l =
     (let l1 = l\<lparr>grace_count := grace_count l + 1\<rparr>; ret = flb_task_running_count (d_eng (l_disp l1)) in
      if ret > 0 \<and> (grace_count l1 < grace l1 \<or> grace l1 = -1)
      then Looping (snd (flb_engine_exit (v_pipe_ok v) l1))
      else Stopped (exit_status_code l1) (flb_engine_shutdown l1))"

definition engine_core_event ::
  "'c cio_api \<Rightarrow> (cstr \<Rightarrow> 64 word) \<Rightarrow> loop_env \<Rightarrow> (int \<Rightarrow> 'c disp \<Rightarrow> int \<times> 'c disp) \<Rightarrow> int \<Rightarrow> bool \<Rightarrow> 'c flb_loop
   \<Rightarrow> 'c loop_result" where
  "engine_core_event io H v others fd readable l =
     (case flb_engine_handle_event io H v others fd readable l of (ret, l1) \<Rightarrow>
        if ret = FLB_ENGINE_STOP then Looping (engine_stop v l1)
        else if ret = FLB_ENGINE_SHUTDOWN then engine_grace v l1
        else Looping l1)"

section \<open>Rescheduling\<close>

lemma retry_now_cases:
  assumes "sched_inv s" "flb_sched_retry_now mok rok now fd s r = (ret, s')"
  shows "sched_inv s'" "pending s' = (if mok \<and> rok \<and> fd \<noteq> -1 then add_mset r (pending s) else pending s)"
    "ret = (if mok \<and> rok \<and> fd \<noteq> -1 then 0 else -1)" "requests_wait s' = requests_wait s"
proof -
  have "sched_inv s' \<and> pending s' = (if mok \<and> rok \<and> fd \<noteq> -1 then add_mset r (pending s) else pending s) \<and>
    ret = (if mok \<and> rok \<and> fd \<noteq> -1 then 0 else -1) \<and> requests_wait s' = requests_wait s"
  proof (cases mok)
    case False
    then show ?thesis using assms by (auto simp: flb_sched_retry_now_def flb_sched_timer_create_def)
  next
    case True
    obtain t s1 where s1: "flb_sched_timer_create True s = (Some t, s1)" by (simp add: flb_sched_timer_create_def Let_def)
    obtain a s2 where s2: "request_new now 0 r t s1 = (a, s2)" by fastforce
    obtain x s3 where s3: "schedule_request_now fd 0 t a s2 = (x, s3)" by fastforce
    note q = request_enqueue [OF assms(1) s1 s2]
    have x: "x = (if fd = -1 then -1 else 0)" using s3 by (auto simp: schedule_request_now_def Let_def split: if_splits)
    have e: "(ret, s') = (if \<not> rok then (-1, flb_sched_timer_destroy t s1)
        else if x = -1 then (-1, request_free a (flb_sched_timer_destroy t s3)) else (0, s3))"
      using assms(2) True s1 by (auto simp: flb_sched_retry_now_def s2 s3 Let_def split: if_splits)
    have "tm_upd t (\<lambda>x. x) s1 = s1" using s1 by (auto simp: tm_upd_def flb_sched_timer_create_def Let_def tm_def)
    then have d: "flb_sched_timer_destroy t s1 = s\<lparr>sched_next := Suc (sched_next s)\<rparr>"
      using timer_create_destroy [OF assms(1) s1, of "\<lambda>x. x"] by simp
    have w: "requests_wait (request_free a (flb_sched_timer_destroy t s3)) = requests_wait s"
      using s1 s2 s3 by (auto simp: request_free_def flb_sched_timer_destroy_def flb_sched_timer_cb_disable_def tm_unlink_def
          schedule_request_now_def request_new_def flb_sched_timer_create_def Let_def split: if_splits)
    show ?thesis
      using e q(4) [OF s3] q(5) [of fd 0 s3] s3 x w d sched_inv_next [OF assms(1), of "Suc (sched_next s)"] True
      by (auto simp: pending_def split: if_splits)
  qed
  then show "sched_inv s'" "pending s' = (if mok \<and> rok \<and> fd \<noteq> -1 then add_mset r (pending s) else pending s)"
    "ret = (if mok \<and> rok \<and> fd \<noteq> -1 then 0 else -1)" "requests_wait s' = requests_wait s" by blast+
qed

text \<open>A retry is rescheduled when its timer, its request and its descriptor can be created.\<close>

definition now_ok :: "now_env \<Rightarrow> addr \<Rightarrow> bool" where
  "now_ok w r \<longleftrightarrow> w_timer_ok w r \<and> w_req_ok w r \<and> w_fd w r \<noteq> -1"

abbreviation all_retries :: "'c flb_engine \<Rightarrow> addr list" where
  "all_retries s \<equiv> concat (map (\<lambda>t. tk_retries (tk s t)) (concat (map in_tasks (e_inputs s))))"

lemma fold_sched: "fold (\<lambda>r s. s\<lparr>e_sched := f r (e_sched s)\<rparr>) rs s = s\<lparr>e_sched := fold f rs (e_sched s)\<rparr>"
  by (induction rs arbitrary: s) simp_all

lemma tk_sched: "tk (s\<lparr>e_sched := x\<rparr>) = tk s" and rt_sched: "rt (s\<lparr>e_sched := x\<rparr>) = rt s"
  by (simp_all add: tk_def rt_def fun_eq_iff)

lemma fold_sched_tasks:
  "fold (\<lambda>t s. fold (\<lambda>r s. s\<lparr>e_sched := f r (e_sched s)\<rparr>) (tk_retries (tk s t)) s) ts s =
   s\<lparr>e_sched := fold f (concat (map (\<lambda>t. tk_retries (tk s t)) ts)) (e_sched s)\<rparr>"
  by (induction ts arbitrary: s) (simp_all add: fold_sched tk_sched)

lemma reschedule_retries_eq:
  "flb_engine_reschedule_retries w s = s\<lparr>e_sched := fold (reschedule_retry w) (all_retries s) (e_sched s)\<rparr>"
proof -
  have "fold (\<lambda>ins s. fold (\<lambda>t s. fold (\<lambda>r s. s\<lparr>e_sched := reschedule_retry w r (e_sched s)\<rparr>) (tk_retries (tk s t)) s) (in_tasks ins) s) is s =
      s\<lparr>e_sched := fold (reschedule_retry w) (concat (map (\<lambda>t. tk_retries (tk s t)) (concat (map in_tasks is)))) (e_sched s)\<rparr>" for "is"
    by (induction "is" arbitrary: s) (simp_all add: fold_sched_tasks tk_sched)
  then show ?thesis by (simp add: flb_engine_reschedule_retries_def)
qed

lemma reschedule_retry_pending:
  assumes "sched_inv s"
  shows "sched_inv (reschedule_retry w r s)"
    "count (pending (reschedule_retry w r s)) q =
       (if q = r then count (pending s) r - 1 + (if now_ok w r then 1 else 0) else count (pending s) q)"
proof -
  obtain x s1 where 1: "flb_sched_request_invalidate s r = (x, s1)" by fastforce
  obtain y s2 where 2: "flb_sched_retry_now (w_timer_ok w r) (w_req_ok w r) (w_now w) (w_fd w r) s1 r = (y, s2)" by fastforce
  have e: "reschedule_retry w r s = s2" by (simp add: reschedule_retry_def 1 2)
  have i: "sched_inv s1" "pending s1 = pending s - {#r#}" using request_invalidate_cases [OF assms 1] by simp_all
  note n = retry_now_cases [OF i(1) 2, folded now_ok_def]
  show "sched_inv (reschedule_retry w r s)" using n(1) by (simp add: e)
  show "count (pending (reschedule_retry w r s)) q =
       (if q = r then count (pending s) r - 1 + (if now_ok w r then 1 else 0) else count (pending s) q)"
    by (simp add: e n(2) i(2))
qed

lemma fold_reschedule:
  assumes "sched_inv s" "distinct rs"
  shows "sched_inv (fold (reschedule_retry w) rs s) \<and>
    count (pending (fold (reschedule_retry w) rs s)) q =
      (if q \<in> set rs then count (pending s) q - 1 + (if now_ok w q then 1 else 0) else count (pending s) q)"
  using assms
proof (induction rs arbitrary: s)
  case (Cons r rs)
  from Cons.IH [OF reschedule_retry_pending(1) [OF Cons.prems(1)]] Cons.prems(2) reschedule_retry_pending(2) [OF Cons.prems(1), of w r]
  show ?case by auto
qed simp

lemma distinct_concat_owner:
  assumes "distinct ks" "\<And>k. k \<in> set ks \<Longrightarrow> distinct (f k) \<and> (\<forall>x\<in>set (f k). own x = k)"
  shows "distinct (concat (map f ks))"
  using assms
proof (induction ks)
  case (Cons k ks)
  have "distinct (concat (map f ks))" using Cons by simp
  moreover have "set (f k) \<inter> set (concat (map f ks)) = {}"
  proof -
    have "own x = j" if "x \<in> set (f j)" "j \<in> set (k # ks)" for x j using Cons.prems(2) that by blast
    then have "x \<notin> set (f j)" if "x \<in> set (f k)" "j \<in> set ks" for x j
      using Cons.prems(1) that by (metis distinct.simps(2) list.set_intros)
    then show ?thesis unfolding set_concat set_map by blast
  qed
  ultimately show ?case using Cons.prems(2) [of k] by simp
qed simp

lemma all_retries_listed:
  assumes "eng_inv K s"
  shows "distinct (all_retries s)" "r \<in> set (all_retries s) \<longleftrightarrow> (\<exists>t. live s t \<and> r \<in> set (tk_retries (tk s t)))"
proof -
  note l = eng_invD(4) [OF assms, unfolded lists_ok_def]
  define ts where "ts = concat (map (\<lambda>n. in_tasks (e_inputs s ! n)) [0..<length (e_inputs s)])"
  have m: "map in_tasks (e_inputs s) = map (\<lambda>n. in_tasks (e_inputs s ! n)) [0..<length (e_inputs s)]"
    by (rule nth_equalityI) simp_all
  have all: "all_retries s = concat (map (\<lambda>t. tk_retries (tk s t)) ts)" by (simp only: ts_def m)
  have d: "distinct ts" unfolding ts_def
    by (rule distinct_concat_owner [where own = "\<lambda>t. tk_i_ins (tk s t)"]) (use l in auto)
  have ts: "t \<in> set ts \<longleftrightarrow> live s t" for t
  proof
    assume "t \<in> set ts"
    then show "live s t" using l by (auto simp: ts_def)
  next
    assume "live s t"
    then have "tk_i_ins (tk s t) < length (e_inputs s)" "t \<in> set (in_tasks (e_inputs s ! tk_i_ins (tk s t)))"
      using eng_invD(7) [OF assms] by (simp_all add: task_linked_def)
    then show "t \<in> set ts" unfolding ts_def set_concat set_map set_upt by auto
  qed
  show "r \<in> set (all_retries s) \<longleftrightarrow> (\<exists>t. live s t \<and> r \<in> set (tk_retries (tk s t)))" unfolding all set_concat set_map using ts by blast
  show "distinct (all_retries s)" unfolding all
    by (rule distinct_concat_owner [OF d, where own = "\<lambda>r. rt_parent (rt s r)"])
      (use eng_invD(8) [OF assms] in \<open>simp add: ts task_retries_ok_def\<close>)
qed

text \<open>What is left waiting for a later frame.\<close>

definition wait_data :: "flb_sched \<Rightarrow> addr set" where
  "wait_data s = (\<lambda>a. r_data (rq s a)) ` set (requests_wait s)"

lemma wait_data_pending: "r \<in> wait_data s \<Longrightarrow> r \<in># pending s"
  by (auto simp: wait_data_def pending_def)

lemma wait_data_invalidate:
  assumes "sched_inv s"
  shows "wait_data (snd (flb_sched_request_invalidate s r)) \<subseteq> wait_data s"
proof -
  have *: "wait_data (flb_sched_request_destroy a s) \<subseteq> wait_data s" if a: "a \<in> set (requests s) \<union> set (requests_wait s)" for a
    using request_destroy_fields(2,9) [OF assms a] node_listsD(2) [OF sched_invD(1) [OF assms]]
    by (auto simp: wait_data_def rq_def)
  show ?thesis
    by (auto simp: flb_sched_request_invalidate_def split: option.split dest!: find_Some_in dest: subsetD [OF *, rotated])
qed

lemma wait_data_retry_now:
  assumes "sched_inv s"
  shows "wait_data (snd (flb_sched_retry_now mok rok now fd s r)) = wait_data s"
proof -
  obtain ret s' where e: "flb_sched_retry_now mok rok now fd s r = (ret, s')" by fastforce
  have "rq s' a = rq s a" if "a < sched_next s" for a
    using e that by (auto simp: flb_sched_retry_now_def flb_sched_timer_create_def request_new_def schedule_request_now_def request_free_def
        flb_sched_timer_destroy_def flb_sched_timer_cb_disable_def tm_unlink_def rq_def Let_def split: if_splits)
  moreover have "a < sched_next s" if "a \<in> set (requests_wait s)" for a
    using sched_invD(1) [OF assms] that by (simp add: node_lists_def)
  ultimately show ?thesis using retry_now_cases(4) [OF assms e] by (auto simp: wait_data_def e)
qed

lemma fold_reschedule_wait:
  assumes "sched_inv s" "\<forall>r. count (pending s) r \<le> 1"
  shows "wait_data (fold (reschedule_retry w) rs s) \<subseteq> wait_data s - set rs"
  using assms
proof (induction rs arbitrary: s)
  case (Cons r rs)
  define s1 where "s1 = reschedule_retry w r s"
  obtain x s0 where 0: "flb_sched_request_invalidate s r = (x, s0)" by fastforce
  note i = request_invalidate_cases [OF Cons.prems(1) 0]
  have "count (pending s0) r = 0" using i Cons.prems(2) by simp
  then have "r \<notin> wait_data s0" using wait_data_pending [of r s0] by (auto simp: count_eq_zero_iff)
  then have "wait_data s1 \<subseteq> wait_data s - {r}"
    using i wait_data_retry_now [of s0] wait_data_invalidate [OF Cons.prems(1), of r] by (auto simp: s1_def reschedule_retry_def 0)
  moreover have "wait_data (fold (reschedule_retry w) rs s1) \<subseteq> wait_data s1 - set rs"
    using Cons.IH [of s1] reschedule_retry_pending [OF Cons.prems(1), of w r] Cons.prems(2) by (simp add: s1_def)
  ultimately show ?case by (auto simp: s1_def)
qed simp

lemma reschedule_disp:
  fixes w :: now_env
  assumes "disp_ok d" "\<forall>t\<in>dom (e_task_heap (d_eng d)). \<forall>r\<in>set (tk_retries (tk (d_eng d) t)). tok {#} d t (rt_o_ins (rt (d_eng d) r)) = 0"
  defines "d' \<equiv> eng_upd (flb_engine_reschedule_retries w) d"
  shows "disp_ok d'" "pending (e_sched (d_eng d')) = mset (filter (now_ok w) (all_retries (d_eng d)))"
    "requests_wait (e_sched (d_eng d')) = []"
proof -
  define s where "s = d_eng d"
  define sc where "sc = fold (reschedule_retry w) (all_retries s) (e_sched s)"
  have i: "disp_inv {#} {#} d" using assms(1) by (simp add: disp_ok_def)
  note e = disp_invD(1) [OF i, folded s_def]
  note l = all_retries_listed [OF e]
  have one: "\<forall>r. count (pending (e_sched s)) r \<le> 1"
    using eng_invD(5) [OF e] unfolding requests_ok_def by (metis count_empty count_inI le0 add.right_neutral)
  have sub: "r \<in> set (all_retries s)" if "r \<in># pending (e_sched s)" for r
    using eng_invD(5) [OF e] that unfolding requests_ok_def l(2) by blast
  have d': "d' = eng_upd (\<lambda>s. s\<lparr>e_sched := sc\<rparr>) d"
    by (simp add: d'_def eng_upd_def reschedule_retries_eq sc_def s_def)
  have c: "sched_inv sc \<and> count (pending sc) q = (if q \<in> set (all_retries s) \<and> now_ok w q then 1 else 0)" for q
  proof -
    have "count (pending (e_sched s)) q = 0" if "q \<notin> set (all_retries s)" using sub that by (meson count_inI)
    then show ?thesis using fold_reschedule [OF eng_invD(6) [OF e] l(1), of w q] one unfolding sc_def by auto
  qed
  have "count (mset (filter (now_ok w) (all_retries s))) q = (if q \<in> set (all_retries s) \<and> now_ok w q then 1 else 0)" for q
    using distinct_count_atmost_1 [of "all_retries s"] l(1) by auto
  then have p: "pending sc = mset (filter (now_ok w) (all_retries s))" using c by (intro multiset_eqI) simp
  then show "pending (e_sched (d_eng d')) = mset (filter (now_ok w) (all_retries (d_eng d)))" by (simp add: d' s_def)
  have "wait_data sc = {}"
    using fold_reschedule_wait [OF eng_invD(6) [OF e] one, of w "all_retries s"] wait_data_pending [of _ "e_sched s"] sub unfolding sc_def by blast
  then show "requests_wait (e_sched (d_eng d')) = []" by (simp add: wait_data_def d')
  have "disp_inv {#} {#} d'" unfolding d'
  proof (rule disp_inv_sched [OF i])
    show "sched_inv sc" using c by blast
    show "r \<in># pending (e_sched (d_eng d)) \<or> live (d_eng d) (rt_parent (rt (d_eng d) r)) \<and> r \<in> set (tk_retries (tk (d_eng d) (rt_parent (rt (d_eng d) r))))"
      if "r \<in># pending sc" for r
    proof -
      have "r \<in> set (all_retries s)" using that c [of r] by (metis count_eq_zero_iff)
      then obtain t where t: "live s t" "r \<in> set (tk_retries (tk s t))" using l(2) by blast
      then have "rt_parent (rt s r) = t" using eng_invD(8) [OF e] by (simp add: task_retries_ok_def)
      then show ?thesis using t by (simp add: s_def)
    qed
    show "tok {#} d t (rt_o_ins (rt (d_eng d) r)) + count (pending sc) r \<le> 1 + count {#} r"
      if "live (d_eng d) t" "r \<in> set (tk_retries (tk (d_eng d) t))" for t r
      using assms(2) that c [of r] by auto
  qed
  then show "disp_ok d'" using assms(1) by (simp add: disp_ok_def d' queue_ok_def)
qed

text \<open>C13: in every state with the invariant of the engine, so in every state it reaches: when it is asked to stop
  while no retry is being flushed, rescheduling leaves exactly one request for each retry whose timer can be created, all armed at once and none waiting for a
  later frame, and no task comes into the hands of an output twice.\<close>

theorem engine_reschedule_exact:
  assumes "disp_ok d"
    "\<forall>t\<in>dom (e_task_heap (d_eng d)). \<forall>r\<in>set (tk_retries (tk (d_eng d) t)). tok {#} d t (rt_o_ins (rt (d_eng d) r)) = 0"
  shows "pending (e_sched (flb_engine_reschedule_retries w (d_eng d))) = mset (filter (now_ok w) (all_retries (d_eng d))) \<and>
    requests_wait (e_sched (flb_engine_reschedule_retries w (d_eng d))) = [] \<and> disp_ok (eng_upd (flb_engine_reschedule_retries w) d)"
  using reschedule_disp [OF assms, of w] by (simp add: eng_upd_def)

lemma is_sync_outputs:
  assumes "map (\<lambda>x. (o_id x, o_flags x)) (e_outputs s) = map (\<lambda>x. (o_id x, o_flags x)) (e_outputs (d_eng d))" "out \<in> out_ids s"
  shows "is_sync (d\<lparr>d_eng := s\<rparr>) out = is_sync d out"
proof -
  have f: "map_option o_flags (List.find (\<lambda>x. o_id x = out) xs) = map_option snd (List.find (\<lambda>p. fst p = out) (map (\<lambda>x. (o_id x, o_flags x)) xs))"
    for xs :: "out_state list" by (induction xs) simp_all
  have "List.find (\<lambda>x. o_id x = out) (e_outputs s) \<noteq> None" using assms(2) by (auto simp: find_None_iff out_ids_def)
  moreover have "map_option o_flags (List.find (\<lambda>x. o_id x = out) (e_outputs s)) =
      map_option o_flags (List.find (\<lambda>x. o_id x = out) (e_outputs (d_eng d)))" by (simp only: f assms(1))
  ultimately have "o_flags (the (List.find (\<lambda>x. o_id x = out) (e_outputs s))) =
      o_flags (the (List.find (\<lambda>x. o_id x = out) (e_outputs (d_eng d))))" by (auto simp: map_option_case split: option.splits)
  then show ?thesis by (simp add: is_sync_def out_ins_def)
qed

lemma chunk_flush_outputs:
  assumes "flb_input_chunk_flush io c s = (b, s')"
  shows "map (\<lambda>x. (o_id x, o_flags x)) (e_outputs s') = map (\<lambda>x. (o_id x, o_flags x)) (e_outputs s)"
  using assms unfolding flb_input_chunk_flush_def flb_input_chunk_update_output_instances_def chunk_call_def
  by (auto simp: Let_def case_prod_beta split: if_splits option.splits)

lemma dispatch_retry_flushed:
  assumes "flb_engine_dispatch_retry io Hf e env r d = Some (0, d')" "rt_parent (rt (d_eng d) r) = t" "rt_o_ins (rt (d_eng d) r) = out"
    "fst (flb_input_chunk_set_up io (tk_ic (tk (d_eng d) t)) (d_eng d)) \<noteq> -1" "\<not> is_sync d out" "out \<in> out_ids (d_eng d)" "\<not> f_threaded env out"
  shows "d_flushes d' = d_flushes d @ [\<lparr>fl_task = t, fl_out = out, fl_running = False\<rparr>]"
proof -
  define c where "c = tk_ic (tk (d_eng d) t)"
  obtain x s1 where s1: "flb_input_chunk_set_up io c (d_eng d) = (x, s1)" by fastforce
  have k1: "tk s1 = tk (d_eng d)" "rt s1 = rt (d_eng d)" "e_outputs s1 = e_outputs (d_eng d)"
    using s1 by (auto simp: flb_input_chunk_set_up_def chunk_call_def case_prod_beta rt_def fun_eq_iff split: if_splits)
  obtain buf n s2 where s2: "flb_input_chunk_flush io c s1 = ((buf, n), s2)" by (metis prod.collapse)
  note o2 = chunk_flush_outputs [OF s2, unfolded k1]
  have k2: "rt s2 = rt (d_eng d)"
    using s2 k1(2) unfolding flb_input_chunk_flush_def flb_input_chunk_update_output_instances_def chunk_call_def
    by (auto simp: rt_def fun_eq_iff Let_def case_prod_beta split: if_splits option.splits)
  have "out_ids s2 = out_ids (d_eng d)" using arg_cong [OF o2, of "\<lambda>xs. fst ` set xs"] by (simp add: out_ids_def image_image)
  then have ns: "\<not> is_sync (d\<lparr>d_eng := s2\<rparr>) out" using is_sync_outputs [OF o2] assms(5,6) by simp
  obtain ret d3 where f: "flb_output_task_flush env t out (d\<lparr>d_eng := s2\<rparr>) = (ret, d3)" by fastforce
  have x: "x \<noteq> -1" using assms(4) s1 by (simp add: c_def)
  have "flb_engine_dispatch_retry io Hf e env r d = (case buf of
      None \<Rightarrow> Some (-1, d\<lparr>d_eng := flb_task_retry_destroy r s2\<rparr>)
    | Some b \<Rightarrow> if ret = -1 then Some (-1, eng_upd (flb_task_retry_destroy r) d3) else Some (0, d3))"
    unfolding flb_engine_dispatch_retry_def Let_def assms(2) c_def [symmetric] s1 prod.case if_not_P [OF x] k1(1) s2 k2 assms(3) if_not_P [OF ns] f
    by (simp split: option.split)
  then have r: "ret \<noteq> -1 \<and> d' = d3" using assms(1) by (auto split: option.splits if_splits)
  then show ?thesis
    using f assms(7) by (auto simp: flb_output_task_flush_def flush_try_def eng_upd_def Let_def split: if_splits)
qed

text \<open>C14: a retry that is being flushed when the engine is asked to stop is scheduled again, because
  it has no request that could be cancelled, and when that request fires its task is flushed to the same
  output a second time while the first flush is still running.\<close>

theorem engine_reschedule_flushes_twice:
  assumes "disp_ok d" "f \<in> set (d_flushes d)" "fl_task f = t" "fl_out f = out"
    "r \<in> set (tk_retries (tk (d_eng d) t))" "rt_o_ins (rt (d_eng d) r) = out" "now_ok w r"
    "fst (flb_input_chunk_set_up io (tk_ic (tk (d_eng d) t)) (flb_engine_reschedule_retries w (d_eng d))) \<noteq> -1"
    "\<not> is_sync d out" "\<not> f_threaded env out"
    "flb_engine_dispatch_retry io Hf e env r (eng_upd (flb_engine_reschedule_retries w) d) = Some (0, d')"
  shows "r \<notin># pending (e_sched (d_eng d)) \<and> r \<in># pending (e_sched (flb_engine_reschedule_retries w (d_eng d))) \<and>
    length (filter (\<lambda>g. fl_task g = t \<and> fl_out g = out) (d_flushes d')) = 2"
proof -
  define s where "s = d_eng d"
  have i: "disp_inv {#} {#} d" using assms(1) by (simp add: disp_ok_def)
  note e = disp_invD(1) [OF i, folded s_def] and re = refs_okD(2) [OF disp_invD(2) [OF i] assms(2)]
  have lv: "live s t" "out \<in> out_ids s" using re assms(3,4) by (simp_all add: s_def)
  note tk = tokens_okD [OF disp_invD(3) [OF i] lv(1) [unfolded s_def]]
  have a1: "filter (\<lambda>g. fl_task g = t \<and> fl_out g = out) (d_flushes d) \<noteq> []" using assms(2-4) by (auto simp: filter_empty_conv)
  have one: "length (filter (\<lambda>g. fl_task g = t \<and> fl_out g = out) (d_flushes d)) = 1" "tok {#} d t out = 1"
  proof -
    define k where "k = length (filter (\<lambda>g. fl_task g = t \<and> fl_out g = out) (d_flushes d))"
    have "k \<noteq> 0" using a1 by (simp add: k_def)
    moreover have "k \<le> tok {#} d t out" by (simp add: tok_def k_def)
    ultimately show "length (filter (\<lambda>g. fl_task g = t \<and> fl_out g = out) (d_flushes d)) = 1" "tok {#} d t out = 1"
      using tk(2) [of out] unfolding k_def [symmetric] by linarith+
  qed
  then have np: "count (pending (e_sched s)) r = 0" using tk(3) [OF assms(5)] assms(6) by (simp add: s_def)
  note l = all_retries_listed [OF e]
  have "r \<in> set (all_retries s)" using l(2) lv assms(5) s_def by blast
  then have "count (pending (fold (reschedule_retry w) (all_retries s) (e_sched s))) r = 1"
    using fold_reschedule [OF eng_invD(6) [OF e] l(1), of w r] assms(7) np by simp
  then have p: "r \<in># pending (e_sched (flb_engine_reschedule_retries w s))"
    by (intro count_inI) (simp add: reschedule_retries_eq)
  have par: "rt_parent (rt s r) = t" using eng_invD(8) [OF e lv(1)] assms(5) by (simp add: task_retries_ok_def s_def)
  have "d_flushes d' = d_flushes d @ [\<lparr>fl_task = t, fl_out = out, fl_running = False\<rparr>]"
    using dispatch_retry_flushed [OF assms(11), of t out] assms(6,8-10) par lv(2)
    by (simp add: eng_upd_def reschedule_retries_eq tk_sched rt_def is_sync_def out_ins_def out_ids_def s_def)
  then show ?thesis using np p one by (simp add: s_def not_in_iff)
qed

section \<open>Shutting down\<close>

text \<open>The loop until it ends, with the number of timeouts of the shutdown timer it handled. Between core events
  the engine makes any step.\<close>

inductive loop_run :: "'c cio_api \<Rightarrow> (cstr \<Rightarrow> 64 word) \<Rightarrow> 'c flb_loop \<Rightarrow> nat \<Rightarrow> 'c flb_loop \<Rightarrow> bool" for io Hf l0 where
  start: "loop_run io Hf l0 0 l0"
| shutdown: "loop_run io Hf l0 n l \<Longrightarrow> flb_engine_handle_event io Hf v others fd readable l = (FLB_ENGINE_SHUTDOWN, l1) \<Longrightarrow>
    engine_core_event io Hf v others fd readable l = Looping l2 \<Longrightarrow> loop_run io Hf l0 (Suc n) l2"
| core: "loop_run io Hf l0 n l \<Longrightarrow> fst (flb_engine_handle_event io Hf v others fd readable l) \<noteq> FLB_ENGINE_SHUTDOWN \<Longrightarrow>
    engine_core_event io Hf v others fd readable l = Looping l2 \<Longrightarrow> loop_run io Hf l0 n l2"
| engine: "loop_run io Hf l0 n l \<Longrightarrow> engine_step io Hf (l_disp l) d \<Longrightarrow> loop_run io Hf l0 n (l\<lparr>l_disp := d\<rparr>)"

lemma engine_consts: "FLB_ENGINE_STOP = 3" "FLB_ENGINE_SHUTDOWN = 4" "uint FLB_ENGINE_EV_STOP = 2 ^ 32 + 3"
  by (simp_all add: FLB_ENGINE_STOP_def FLB_ENGINE_SHUTDOWN_def FLB_ENGINE_EV_STOP_def FLB_ENGINE_EV_SHUTDOWN_def
      FLB_BITS_U64_SET_def FLB_BITS_U64_LOW_def)

lemma handle_event_keeps:
  assumes "flb_engine_handle_event io Hf v others fd readable l = (ret, l1)"
  shows "grace l1 = grace l" "grace_count l1 = grace_count l" "exit_status_code l1 = exit_status_code l"
  using assms by (auto simp: flb_engine_handle_event_def flb_engine_manager_def disp_upd_def Let_def split: if_splits list.splits prod.splits)

lemma engine_stop_keeps: "grace (engine_stop v l) = grace l" "grace_count (engine_stop v l) = grace_count l"
  by (simp_all add: engine_stop_def disp_upd_def Let_def)

lemma core_event_count:
  assumes "flb_engine_handle_event io Hf v others fd readable l = (ret, l1)" "engine_core_event io Hf v others fd readable l = Looping l2"
  shows "grace l2 = grace l" "grace_count l2 = grace_count l + (if ret = FLB_ENGINE_SHUTDOWN then 1 else 0)"
    "ret = FLB_ENGINE_SHUTDOWN \<Longrightarrow> grace_count l2 < grace l2 \<or> grace l2 = -1"
  using assms(2) handle_event_keeps [OF assms(1)] engine_consts
  by (auto simp: engine_core_event_def assms(1) engine_stop_keeps engine_grace_def flb_engine_exit_def Let_def split: if_splits)

lemma loop_run_count:
  assumes "loop_run io Hf l0 n l"
  shows "grace l = grace l0" "grace_count l = grace_count l0 + int n" "n = 0 \<or> grace_count l < grace l \<or> grace l = -1"
proof -
  have "grace l = grace l0 \<and> grace_count l = grace_count l0 + int n \<and> (n = 0 \<or> grace_count l < grace l \<or> grace l = -1)"
    using assms
  proof (induction rule: loop_run.induct)
    case (shutdown n l v others fd readable l1 l2)
    then show ?case using core_event_count [OF shutdown.hyps(2,3)] by auto
  next
    case (core n l v others fd readable l2)
    obtain ret l1 where h: "flb_engine_handle_event io Hf v others fd readable l = (ret, l1)" by fastforce
    then show ?case using core_event_count [OF h core.hyps(3)] core.hyps(2) core.IH by auto
  qed auto
  then show "grace l = grace l0" "grace_count l = grace_count l0 + int n" "n = 0 \<or> grace_count l < grace l \<or> grace l = -1" by blast+
qed

text \<open>C15: the grace period bounds the shutdown. With a grace of \<open>g\<close> seconds, at most \<open>max 1 g\<close> timeouts of the
  shutdown timer are handled before the engine has stopped: while it is still running fewer than
  that have been, and the next one stops it, with the exit status set before, as soon as the grace
  is over or no task is in use.\<close>

theorem engine_shutdown_bounded:
  assumes "loop_run io Hf l0 n l" "grace_count l0 = 0" "0 \<le> grace l0"
    "flb_engine_handle_event io Hf v others fd readable l = (FLB_ENGINE_SHUTDOWN, l')"
  shows "int n < max 1 (grace l0) \<and>
    (grace l0 \<le> int n + 1 \<or> flb_task_running_count (d_eng (l_disp l')) = 0 \<longrightarrow>
       engine_core_event io Hf v others fd readable l =
         Stopped (exit_status_code l) (flb_engine_shutdown (l'\<lparr>grace_count := int n + 1\<rparr>)))"
proof -
  note c = loop_run_count [OF assms(1)] and h = handle_event_keeps [OF assms(4)]
  show ?thesis
    using c h assms(2,3) engine_consts
    by (auto simp: engine_core_event_def assms(4) engine_grace_def Let_def)
qed

section \<open>Concrete states\<close>

text \<open>Task 7 has failed once for its only output; \<open>fl\<close> are the flushes that run.\<close>

definition demo_retrying :: "flb_output_flush list \<Rightarrow> demo_chunk disp" where
  "demo_retrying fl = (demo_disp [])\<lparr>d_flushes := fl, d_eng := demo_tasks
     \<lparr>e_task_heap := [7 \<mapsto> demo_task\<lparr>tk_status := FLB_TASK_RUNNING, tk_retries := [5]\<rparr>],
      e_retry_heap := [5 \<mapsto> \<lparr>rt_attempts = 1, rt_o_ins = 0, rt_parent = 7\<rparr>],
      e_chunk_heap := [0 \<mapsto> (demo_chunk_of True 100)\<lparr>ic_busy := True, ic_task := Some 7\<rparr>]\<rparr>\<rparr>"

definition demo_now :: now_env where
  "demo_now = \<lparr>w_timer_ok = (\<lambda>_. True), w_req_ok = (\<lambda>_. True), w_fd = (\<lambda>_. 9), w_now = 100\<rparr>"

lemma demo_retrying_fields:
  "tk (d_eng (demo_retrying fl)) 7 = demo_task\<lparr>tk_status := FLB_TASK_RUNNING, tk_retries := [5]\<rparr>"
  "rt (d_eng (demo_retrying fl)) 5 = \<lparr>rt_attempts = 1, rt_o_ins = 0, rt_parent = 7\<rparr>"
  "dom (e_task_heap (d_eng (demo_retrying fl))) = {7}" "e_sched (d_eng (demo_retrying fl)) = demo_sched"
  "e_outputs (d_eng (demo_retrying fl)) = [demo_out 100]" "out_ids (d_eng (demo_retrying fl)) = {0}"
  "d_flushes (demo_retrying fl) = fl" "d_events (demo_retrying fl) = []" "pending_of (demo_retrying fl) out = []"
  "ic (d_eng (demo_retrying fl)) 0 = (demo_chunk_of True 100)\<lparr>ic_busy := True, ic_task := Some 7\<rparr>"
  "dom (e_chunk_heap (d_eng (demo_retrying fl))) = {0}" "e_next (d_eng (demo_retrying fl)) = 8"
  "e_inputs (d_eng (demo_retrying fl)) = [(demo_input 100)\<lparr>in_tasks := [7]\<rparr>]" "e_tasks_map (d_eng (demo_retrying fl)) = e_tasks_map demo_tasks"
  by (simp_all add: demo_retrying_def demo_tasks_def demo_disp_def demo_engine_fields tk_def rt_def ic_def out_ids_def demo_out_def
      map_set_task_id_def in_upd_def)

lemma demo_retrying_ok:
  assumes "fl = [] \<or> fl = [\<lparr>fl_task = 7, fl_out = 0, fl_running = True\<rparr>]"
  shows "disp_ok (demo_retrying fl)"
proof -
  note f = demo_retrying_fields
  have p: "pending demo_sched = {#}" by (simp add: pending_def demo_sched_def flb_sched_create_def flb_sched_timer_create_def sched_empty_def Let_def)
  have "task_ids_ok (d_eng (demo_retrying fl))"
  proof -
    have d: "dom (e_task_heap demo_tasks) = {7}" "e_next demo_tasks = 8" by (simp_all add: demo_tasks_def)
    have t: "tk_id (tk (d_eng (demo_retrying fl)) 7) = tk_id (tk demo_tasks 7)" by (simp add: f demo_tasks_fields)
    have a: "tk_id (tk demo_tasks 7) < TASKS_MAP_SIZE" "e_tasks_map demo_tasks ! tk_id (tk demo_tasks 7) = Some 7"
      "length (e_tasks_map demo_tasks) = TASKS_MAP_SIZE"
      using demo_tasks_ids unfolding task_ids_ok_def d by simp_all
    have b: "t \<in> {7} \<and> tk_id (tk (d_eng (demo_retrying fl)) t) = i" if "i < TASKS_MAP_SIZE" "e_tasks_map demo_tasks ! i = Some t" for i t
    proof -
      have "t = 7" "tk_id (tk demo_tasks t) = i" using demo_tasks_ids that unfolding task_ids_ok_def d by simp_all
      then show ?thesis using t by blast
    qed
    have "\<forall>u\<in>{7}. tk_id (tk (d_eng (demo_retrying fl)) u) < TASKS_MAP_SIZE \<and>
        e_tasks_map demo_tasks ! tk_id (tk (d_eng (demo_retrying fl)) u) = Some u \<and> u < 8"
      using a(1,2) by (simp add: t)
    then show ?thesis unfolding task_ids_ok_def f(3,12,14) using a(3) b by blast
  qed
  moreover have "task_ok (d_eng (demo_retrying fl)) 7"
    by (simp add: task_ok_def task_linked_def task_retries_ok_def f demo_task_def demo_chunk_of_def)
  moreover have "outs_ok (d_eng (demo_retrying fl))" "lists_ok (d_eng (demo_retrying fl))" "requests_ok {#} (d_eng (demo_retrying fl))"
    "links_ok (d_eng (demo_retrying fl))"
    by (simp_all add: outs_ok_def links_ok_def lists_ok_def requests_ok_def f demo_out_def demo_input_def demo_chunk_of_def demo_task_def demo_sched_inv p)
  ultimately have e: "eng_inv {#} (d_eng (demo_retrying fl))" by (simp add: eng_inv_def f)
  have t: "tok {#} (demo_retrying fl) 7 out = (if fl \<noteq> [] \<and> out = 0 then 1 else 0)" for out using assms by (auto simp: tok_def f)
  have "refs_ok {#} (demo_retrying fl)" using assms by (auto simp: refs_ok_def f)
  moreover have "tokens_ok {#} {#} (demo_retrying fl)"
    by (simp add: tokens_ok_def t f p demo_task_def task_consts)
  ultimately show ?thesis using e by (simp add: disp_ok_def disp_inv_def queue_ok_def f)
qed

theorem engine_reschedule_exact_witness:
  "pending (e_sched (flb_engine_reschedule_retries demo_now (d_eng (demo_retrying [])))) = {#5#}"
  using engine_reschedule_exact [OF demo_retrying_ok [of "[]"], of demo_now]
  by (simp add: demo_retrying_fields tok_def now_ok_def demo_now_def demo_task_def demo_input_def)

theorem engine_reschedule_flushes_twice_witness:
  "\<exists>d'. flb_engine_dispatch_retry demo_io (\<lambda>_. 0) demo_env (demo_flush_env 0) 5
       (eng_upd (flb_engine_reschedule_retries demo_now) (demo_retrying [\<lparr>fl_task = 7, fl_out = 0, fl_running = True\<rparr>])) = Some (0, d') \<and>
     length (filter (\<lambda>g. fl_task g = 7 \<and> fl_out g = 0) (d_flushes d')) = 2"
proof -
  let ?d = "demo_retrying [\<lparr>fl_task = 7, fl_out = 0, fl_running = True\<rparr>]"
  have ok: "disp_ok ?d" by (rule demo_retrying_ok) simp
  have "now_ok demo_now 5" by (simp add: now_ok_def demo_now_def)
  moreover have "\<not> is_sync ?d 0" by (simp add: is_sync_def out_ins_def demo_retrying_fields demo_out_def)
  moreover have "map_option fst (flb_engine_dispatch_retry demo_io (\<lambda>_. 0) demo_env (demo_flush_env 0) 5
      (eng_upd (flb_engine_reschedule_retries demo_now) ?d)) = Some 0"
    by (simp add: flb_engine_dispatch_retry_def eng_upd_def reschedule_retries_eq rt_sched demo_retrying_fields demo_task_def
        flb_input_chunk_set_up_def flb_input_chunk_is_up_def flb_input_chunk_flush_def demo_io_def demo_chunk_of_def
        is_sync_def out_ins_def demo_out_def flb_output_task_flush_def flush_try_def demo_flush_env_def Let_def)
  then obtain d' where d': "flb_engine_dispatch_retry demo_io (\<lambda>_. 0) demo_env (demo_flush_env 0) 5
      (eng_upd (flb_engine_reschedule_retries demo_now) ?d) = Some (0, d')" by auto
  moreover have "fst (flb_input_chunk_set_up demo_io 0 (flb_engine_reschedule_retries demo_now (d_eng ?d))) \<noteq> -1"
    by (simp add: flb_input_chunk_set_up_def chunk_call_def demo_io_def case_prod_beta)
  ultimately show ?thesis
    using engine_reschedule_flushes_twice [OF ok, of _ 7 0 5 demo_now demo_io "demo_flush_env 0" "\<lambda>_. 0" demo_env d']
    by (simp add: demo_retrying_fields demo_task_def demo_flush_env_def)
qed

definition demo_loop :: "demo_chunk flb_loop" where
  "demo_loop = \<lparr>l_disp = demo_retrying [], grace = 1, grace_count = 0, is_shutting_down = True, exit_status_code = 3,
     ch_manager = [], ch_manager_fd = 4, flush_fd = 5, shutdown_fd = 6\<rparr>"

definition demo_loop_env :: loop_env where
  "demo_loop_env = \<lparr>v_create = (\<lambda>_. demo_create_env), v_flush = (\<lambda>_. demo_flush_env 0), v_tests = (\<lambda>_. False), v_workers = (\<lambda>_. 0),
     v_plugin = (\<lambda>_. 0), v_now = demo_now, v_timeout_fd = 6, v_pipe_ok = True\<rparr>"

theorem engine_shutdown_bounded_witness:
  "engine_core_event demo_io (\<lambda>_. 0) demo_loop_env (\<lambda>_ d. (-1, d)) 6 True demo_loop =
     Stopped 3 (flb_engine_shutdown (demo_loop\<lparr>grace_count := 1\<rparr>))"
proof -
  have "flb_engine_handle_event demo_io (\<lambda>_. 0) demo_loop_env (\<lambda>_ d. (-1, d)) 6 True demo_loop = (FLB_ENGINE_SHUTDOWN, demo_loop)"
    by (simp add: flb_engine_handle_event_def demo_loop_def demo_retrying_def demo_tasks_def demo_engine_def map_set_task_id_def in_upd_def)
  from engine_shutdown_bounded [OF loop_run.start _ _ this] show ?thesis by (simp add: demo_loop_def)
qed

end
