(* ===== verification/Flb_Storage_Backlog.thy ===== *)
theory Flb_Storage_Backlog
  imports Flb_Task
begin

text \<open>
  \<^verbatim>\<open>plugins/in_storage_backlog/sb.c\<close>, the input that brings back the chunks an earlier run left on
  disk, and \<^verbatim>\<open>flb_input_chunk_map\<close> of \<^verbatim>\<open>src/flb_input_chunk.c\<close>, which hands such a
  chunk to the engine. At start-up the chunks are segregated into one queue per output; every second the
  queues are drained into the engine up to a memory limit; and when an output needs space its queue is
  released first.

  The chunks of the Chunk I/O context live in the store \<open>sb_store\<close>, because several queues refer to
  the same chunk: \<^verbatim>\<open>cio_chunk_close\<close> frees the chunk, and a later access to it is \<open>None\<close>.
  \<open>sb_deleted\<close> lists the chunks whose file was removed.
\<close>

section \<open>Data\<close>

definition CIO_OK :: int where "CIO_OK = 0"
definition CIO_ERROR :: int where "CIO_ERROR = -1"
definition CIO_RETRY :: int where "CIO_RETRY = -2"
definition CIO_CORRUPTED :: int where "CIO_CORRUPTED = -3"
definition CIO_ERR_BAD_FILE_SIZE :: int where "CIO_ERR_BAD_FILE_SIZE = -13"
definition CIO_ERR_BAD_LAYOUT :: int where "CIO_ERR_BAD_LAYOUT = -11"

lemmas cio_consts = CIO_OK_def CIO_ERROR_def CIO_RETRY_def CIO_CORRUPTED_def

record sb_out_chunk =
  sc_chunk :: addr
  sc_size :: int

record sb_out_queue =
  sq_ins :: int
  sq_chunks :: "sb_out_chunk list"

record 'c flb_sb =
  sb_mem_limit :: int
  sb_ins :: nat
  sb_backlogs :: "sb_out_queue list"
  sb_streams :: "addr list list"
  sb_store :: "addr \<Rightarrow> 'c option"
  sb_deleted :: "addr list"

type_synonym 'c sbe = "'c flb_sb \<times> 'c flb_engine"

definition sb_put :: "addr \<Rightarrow> 'c \<Rightarrow> 'c flb_sb \<Rightarrow> 'c flb_sb" where
  "sb_put a ch sb = sb\<lparr>sb_store := (sb_store sb)(a \<mapsto> ch)\<rparr>"

definition cio_chunk_close :: "addr \<Rightarrow> bool \<Rightarrow> 'c flb_sb \<Rightarrow> 'c flb_sb" where
  "cio_chunk_close a del sb =
     sb\<lparr>sb_store := (sb_store sb)(a := None), sb_streams := map (remove1 a) (sb_streams sb),
        sb_deleted := (if del then a # sb_deleted sb else sb_deleted sb)\<rparr>"

section \<open>The queues\<close>

definition backlog_add :: "int \<Rightarrow> int \<Rightarrow> 'c flb_engine \<Rightarrow> 'c flb_engine" where
  "backlog_add out n s =
     s\<lparr>e_outputs := map (\<lambda>x. if o_id x = out
          then x\<lparr>o_fs_backlog_chunks_size := o_fs_backlog_chunks_size x + n\<rparr> else x) (e_outputs s)\<rparr>"

definition sb_find_segregated_backlog_by_output_plugin_instance :: "int \<Rightarrow> 'c flb_sb \<Rightarrow> sb_out_queue option" where
  "sb_find_segregated_backlog_by_output_plugin_instance out sb = List.find (\<lambda>q. sq_ins q = out) (sb_backlogs sb)"

text \<open>The size that leaves the counter is the size the chunk has now, not the one kept in the queue.\<close>

definition sb_remove_chunk_from_segregated_backlog ::
  "'c cio_api \<Rightarrow> (addr \<Rightarrow> 'c option) \<Rightarrow> addr \<Rightarrow> sb_out_queue \<Rightarrow> 'c flb_engine \<Rightarrow> (sb_out_queue \<times> 'c flb_engine) option" where
  "sb_remove_chunk_from_segregated_backlog io store target backlog s =
     (case List.find (\<lambda>c. sc_chunk c = target) (sq_chunks backlog) of
        None \<Rightarrow> Some (backlog, s)
      | Some c \<Rightarrow>
          (case store target of
             None \<Rightarrow> None
           | Some ch \<Rightarrow> Some (backlog\<lparr>sq_chunks := remove1 c (sq_chunks backlog)\<rparr>,
                             backlog_add (sq_ins backlog) (- cio_real_size io ch) s)))"

fun remove_from_all ::
  "'c cio_api \<Rightarrow> (addr \<Rightarrow> 'c option) \<Rightarrow> addr \<Rightarrow> sb_out_queue list \<Rightarrow> 'c flb_engine \<Rightarrow> (sb_out_queue list \<times> 'c flb_engine) option" where
  "remove_from_all io store target [] s = Some ([], s)"
| "remove_from_all io store target (q # qs) s =
     (case sb_remove_chunk_from_segregated_backlog io store target q s of
        None \<Rightarrow> None
      | Some (q', s1) \<Rightarrow>
          (case remove_from_all io store target qs s1 of None \<Rightarrow> None | Some (qs', s2) \<Rightarrow> Some (q' # qs', s2)))"

definition sb_remove_chunk_from_segregated_backlogs :: "'c cio_api \<Rightarrow> addr \<Rightarrow> 'c sbe \<Rightarrow> 'c sbe option" where
  "sb_remove_chunk_from_segregated_backlogs io target st =
     (case remove_from_all io (sb_store (fst st)) target (sb_backlogs (fst st)) (snd st) of
        None \<Rightarrow> None | Some (qs, s) \<Rightarrow> Some ((fst st)\<lparr>sb_backlogs := qs\<rparr>, s))"

definition sb_append_chunk_to_segregated_backlog ::
  "bool \<Rightarrow> addr \<Rightarrow> int \<Rightarrow> sb_out_queue \<Rightarrow> 'c flb_engine \<Rightarrow> int \<times> sb_out_queue \<times> 'c flb_engine" where
  "sb_append_chunk_to_segregated_backlog mem_ok target target_bytes backlog s =
     (if \<not> mem_ok then (-1, backlog, s)
      else (0, backlog\<lparr>sq_chunks := mk_list_add \<lparr>sc_chunk = target, sc_size = target_bytes\<rparr> (sq_chunks backlog)\<rparr>,
            backlog_add (sq_ins backlog) target_bytes s))"

text \<open>\<open>mem_ok\<close> tells, for an output, whether there is memory for the entry in its queue.\<close>

fun append_to_all ::
  "(int \<Rightarrow> bool) \<Rightarrow> addr \<Rightarrow> int \<Rightarrow> routes_mask \<Rightarrow> sb_out_queue list \<Rightarrow> 'c flb_engine \<Rightarrow> int \<times> sb_out_queue list \<times> 'c flb_engine" where
  "append_to_all mem_ok target sz m [] s = (0, [], s)"
| "append_to_all mem_ok target sz m (q # qs) s =
     (if route_bit m (sq_ins q) then
        (case sb_append_chunk_to_segregated_backlog (mem_ok (sq_ins q)) target sz q s of
           (result, q', s1) \<Rightarrow>
             if result \<noteq> 0 then (-3, q' # qs, s1)
             else case append_to_all mem_ok target sz m qs s1 of (ret, qs', s2) \<Rightarrow> (ret, q' # qs', s2))
      else case append_to_all mem_ok target sz m qs s of (ret, qs', s2) \<Rightarrow> (ret, q # qs', s2))"

text \<open>The guard \<^verbatim>\<open>chunk_size < 0\<close> of the code is never true, because the variable is unsigned.
  \<open>None\<close> is a routes mask written out of its bounds.\<close>

definition sb_append_chunk_to_segregated_backlogs ::
  "'c cio_api \<Rightarrow> (nat \<Rightarrow> cstr \<Rightarrow> int) \<Rightarrow> (int \<Rightarrow> bool) \<Rightarrow> (int \<Rightarrow> bool) \<Rightarrow> addr \<Rightarrow> 'c \<Rightarrow> 'c sbe \<Rightarrow> (int \<times> 'c sbe) option" where
  "sb_append_chunk_to_segregated_backlogs io onig sds_ok mem_ok target ch st =
     (let chunk_size = cio_real_size io ch in
      case flb_input_chunk_get_tag io ch of (result, tag_buf) \<Rightarrow>
        if result = -1 then Some (-2, st)
        else let tag = (case tag_buf of None \<Rightarrow> [] | Some t \<Rightarrow> t) in
          case flb_routes_mask_set_by_tag onig sds_ok mask_zero tag (int (length tag))
                 (Some (map flb_output_instance.truncate (e_outputs (snd st)))) of
            None \<Rightarrow> None
          | Some (has_routes, m) \<Rightarrow>
              (case append_to_all mem_ok target chunk_size m (sb_backlogs (fst st)) (snd st) of
                 (ret, qs, s) \<Rightarrow> Some (ret, ((fst st)\<lparr>sb_backlogs := qs\<rparr>, s))))"

section \<open>Allocation and destruction of the queues\<close>

fun destroy_queue_chunks :: "'c cio_api \<Rightarrow> sb_out_chunk list \<Rightarrow> 'c sbe \<Rightarrow> 'c sbe option" where
  "destroy_queue_chunks io [] st = Some st"
| "destroy_queue_chunks io (c # cs) st =
     (case sb_remove_chunk_from_segregated_backlogs io (sc_chunk c) st of
        None \<Rightarrow> None | Some st' \<Rightarrow> destroy_queue_chunks io cs st')"

definition sb_destroy_backlog :: "'c cio_api \<Rightarrow> sb_out_queue \<Rightarrow> 'c sbe \<Rightarrow> 'c sbe option" where
  "sb_destroy_backlog io backlog st = destroy_queue_chunks io (sq_chunks backlog) st"

text \<open>A queue is unlinked before its chunks are removed from the queues that are still linked.\<close>

fun sb_destroy_loop :: "'c cio_api \<Rightarrow> nat \<Rightarrow> 'c sbe \<Rightarrow> 'c sbe option" where
  "sb_destroy_loop io 0 st = Some st"
| "sb_destroy_loop io (Suc k) st =
     (case sb_backlogs (fst st) of [] \<Rightarrow> Some st
      | q # qs \<Rightarrow>
          (case sb_destroy_backlog io q ((fst st)\<lparr>sb_backlogs := qs\<rparr>, snd st) of
             None \<Rightarrow> None | Some st' \<Rightarrow> sb_destroy_loop io k st'))"

definition sb_destroy_backlogs :: "'c cio_api \<Rightarrow> 'c sbe \<Rightarrow> 'c sbe option" where
  "sb_destroy_backlogs io st = sb_destroy_loop io (length (sb_backlogs (fst st))) st"

definition sb_allocate_backlogs :: "'c cio_api \<Rightarrow> (int \<Rightarrow> bool) \<Rightarrow> 'c sbe \<Rightarrow> (int \<times> 'c sbe) option" where
  "sb_allocate_backlogs io mem_ok st =
     (let outs = map o_id (e_outputs (snd st)); ok = takeWhile mem_ok outs;
          st1 = ((fst st)\<lparr>sb_backlogs := sb_backlogs (fst st) @ map (\<lambda>i. \<lparr>sq_ins = i, sq_chunks = []\<rparr>) ok\<rparr>, snd st)
      in if ok \<noteq> outs then (case sb_destroy_backlogs io st1 of None \<Rightarrow> None | Some st2 \<Rightarrow> Some (-1, st2))
         else Some (0, st1))"

section \<open>Segregation at start-up\<close>

record seg_env =
  sg_onig :: "nat \<Rightarrow> cstr \<Rightarrow> int"
  sg_sds_ok :: "int \<Rightarrow> bool"
  sg_queue_ok :: "int \<Rightarrow> bool"
  sg_entry_ok :: "addr \<Rightarrow> int \<Rightarrow> bool"
  sg_del_bad :: bool

text \<open>One chunk: minus three ends the segregation, zero goes on with the next chunk.\<close>

definition segregate_chunk :: "'c cio_api \<Rightarrow> seg_env \<Rightarrow> addr \<Rightarrow> 'c sbe \<Rightarrow> (int \<times> 'c sbe) option" where
  "segregate_chunk io g a st =
     (case sb_store (fst st) a of None \<Rightarrow> None | Some ch0 \<Rightarrow>
      case (if cio_is_up io ch0 then (CIO_OK, ch0) else cio_up_force io ch0) of (ret, ch) \<Rightarrow>
        let st1 = (sb_put a ch (fst st), snd st) in
        if \<not> cio_is_up io ch0 \<and> ret = CIO_CORRUPTED then
          Some (0, if sg_del_bad g \<and> (cio_error_get io ch = CIO_ERR_BAD_FILE_SIZE \<or> cio_error_get io ch = CIO_ERR_BAD_LAYOUT)
                   then (cio_chunk_close a True (fst st1), snd st1) else st1)
        else if \<not> cio_is_up io ch then Some (-3, st1)
        else case sb_append_chunk_to_segregated_backlogs io (sg_onig g) (sg_sds_ok g) (sg_entry_ok g a) a ch st1 of
          None \<Rightarrow> None
        | Some (ret, st2) \<Rightarrow>
            if ret = -2 then Some (0, (cio_chunk_close a True (fst st2), snd st2))
            else if ret \<noteq> 0 then Some (0, (cio_chunk_close a (cio_content_size io ch = 0) (fst st2), snd st2))
            else Some (0, (sb_put a (snd (cio_down io (cio_lock io ch))) (fst st2), snd st2)))"

fun segregate_chunks :: "'c cio_api \<Rightarrow> seg_env \<Rightarrow> addr list \<Rightarrow> 'c sbe \<Rightarrow> (int \<times> 'c sbe) option" where
  "segregate_chunks io g [] st = Some (0, st)"
| "segregate_chunks io g (a # as) st =
     (case segregate_chunk io g a st of
        None \<Rightarrow> None
      | Some (ret, st') \<Rightarrow> if ret \<noteq> 0 then Some (ret, st') else segregate_chunks io g as st')"

text \<open>The chunks of the streams, in order. \<open>None\<close> as the context is a configuration without storage.\<close>

definition sb_segregate_chunks :: "'c cio_api \<Rightarrow> seg_env \<Rightarrow> 'c flb_sb option \<Rightarrow> 'c flb_engine \<Rightarrow> (int \<times> 'c flb_sb option \<times> 'c flb_engine) option" where
  "sb_segregate_chunks io g ctx s =
     (case ctx of None \<Rightarrow> Some (0, None, s) | Some sb \<Rightarrow>
      case sb_allocate_backlogs io (sg_queue_ok g) (sb, s) of
        None \<Rightarrow> None
      | Some (ret, st) \<Rightarrow>
          if ret \<noteq> 0 then Some (-2, Some (fst st), snd st)
          else case segregate_chunks io g (concat (sb_streams (fst st))) st of
            None \<Rightarrow> None | Some (ret, st') \<Rightarrow> Some (ret, Some (fst st'), snd st'))"

section \<open>Releasing the queue of an output\<close>

fun releasable_loop :: "int \<Rightarrow> int \<Rightarrow> sb_out_chunk list \<Rightarrow> int" where
  "releasable_loop req acc [] = acc"
| "releasable_loop req acc (c # cs) = (if acc + sc_size c \<ge> req then acc + sc_size c else releasable_loop req (acc + sc_size c) cs)"

definition sb_get_releasable_output_queue_space :: "'c flb_sb option \<Rightarrow> int \<Rightarrow> int \<Rightarrow> int" where
  "sb_get_releasable_output_queue_space ctx out req =
     (case ctx of None \<Rightarrow> 0 | Some sb \<Rightarrow>
      case sb_find_segregated_backlog_by_output_plugin_instance out sb of
        None \<Rightarrow> 0 | Some q \<Rightarrow> releasable_loop req 0 (sq_chunks q))"

text \<open>The code compares a \<^verbatim>\<open>size_t\<close> with the requirement, a \<^verbatim>\<open>ssize_t\<close>; its callers require a positive number
  of bytes, for which this is the comparison of integers.\<close>

fun sb_release_loop :: "'c cio_api \<Rightarrow> int \<Rightarrow> int \<Rightarrow> sb_out_chunk list \<Rightarrow> 'c sbe \<Rightarrow> (int \<times> 'c sbe) option" where
  "sb_release_loop io req released [] st = Some (released, st)"
| "sb_release_loop io req released (c # cs) st =
     (case sb_remove_chunk_from_segregated_backlogs io (sc_chunk c) st of
        None \<Rightarrow> None
      | Some st1 \<Rightarrow>
          (let st2 = (cio_chunk_close (sc_chunk c) True (fst st1), snd st1); released = released + sc_size c in
           if released \<ge> req then Some (released, st2) else sb_release_loop io req released cs st2))"

text \<open>Result: the return value, what is still required, and the state.\<close>

definition sb_release_output_queue_space ::
  "'c cio_api \<Rightarrow> int \<Rightarrow> int \<Rightarrow> 'c flb_sb option \<times> 'c flb_engine \<Rightarrow> (int \<times> int \<times> 'c flb_sb option \<times> 'c flb_engine) option" where
  "sb_release_output_queue_space io out req st =
     (case fst st of None \<Rightarrow> Some (-1, req, st) | Some sb \<Rightarrow>
      case sb_find_segregated_backlog_by_output_plugin_instance out sb of
        None \<Rightarrow> Some (-2, req, st)
      | Some q \<Rightarrow>
          (case sb_release_loop io req 0 (sq_chunks q) (sb, snd st) of
             None \<Rightarrow> None | Some (released, st') \<Rightarrow> Some (0, req - released, Some (fst st'), snd st')))"

section \<open>Mapping a chunk into the engine\<close>

text \<open>\<open>vlog\<close> and \<open>vmetric\<close> are \<^verbatim>\<open>flb_mp_validate_log_chunk\<close> and
  \<^verbatim>\<open>flb_mp_validate_metric_chunk\<close>, which decode the content with the vendored MessagePack and
  CMetrics libraries: the return value, the number of valid records and the offset of the first invalid
  byte. For the other types the code validates nothing and counts no record.\<close>

record map_env =
  mp_onig :: "nat \<Rightarrow> cstr \<Rightarrow> int"
  mp_sds_ok :: "int \<Rightarrow> bool"
  mp_mem_ok :: bool
  mp_vlog :: "cstr option \<Rightarrow> int \<times> int \<times> int"
  mp_vmetric :: "cstr option \<Rightarrow> int \<times> int \<times> int"

definition map_validate :: "map_env \<Rightarrow> int \<Rightarrow> cstr option \<Rightarrow> int \<times> int \<times> int" where
  "map_validate v event_type buf =
     (if event_type = FLB_INPUT_LOGS then mp_vlog v buf
      else if event_type = FLB_INPUT_METRICS then mp_vmetric v buf
      else (0, 0, 0))"

text \<open>The chunk of the result is the one the caller holds, perhaps truncated. The whole result is
  \<open>None\<close> when the routes mask is written out of its bounds.\<close>

definition flb_input_chunk_map ::
  "'c cio_api \<Rightarrow> map_env \<Rightarrow> nat \<Rightarrow> int \<Rightarrow> 'c \<Rightarrow> 'c flb_engine \<Rightarrow> ((addr option \<times> 'c) \<times> 'c flb_engine) option" where
  "flb_input_chunk_map io v n event_type ch s =
     (if \<not> mp_mem_ok v then Some ((None, ch), s)
      else case cio_get_content io ch of None \<Rightarrow> Some ((None, ch), s) | Some buf \<Rightarrow>
      case map_validate v event_type buf of (ret, records, offset) \<Rightarrow>
        if ret = -1 \<and> (records \<le> 0 \<or> \<not> offset > 32) then Some ((None, ch), s)
        else let ch1 = (if ret = -1 then snd (cio_truncate io ch offset) else ch) in
          if records = 0 then Some ((None, ch1), s)
          else let bytes = cio_content_size io ch1 in
            if bytes = -1 then Some ((None, ch1), s)
            else let ch2 = (if offset < bytes then snd (cio_truncate io ch1 offset) else ch1);
                     buf_size = (case buf of None \<Rightarrow> 0 | Some b \<Rightarrow> int (length b));
                     s1 = (if records > 0 then in_upd n (\<lambda>i. i\<lparr>in_cmt_records := in_cmt_records i + records,
                             in_cmt_bytes := in_cmt_bytes i + buf_size\<rparr>) s else s)
                 in case flb_input_chunk_get_tag io ch2 of (ret, tag_buf) \<Rightarrow>
                   if ret = -1 then Some ((None, ch2), s1)
                   else let c = \<lparr>ic_event_type = event_type, ic_fs_counted = False, ic_busy = False,
                                 ic_fs_backlog = True, ic_total_records = records, ic_added_records = 0,
                                 ic_chunk = ch2, ic_in = n, ic_task = None, ic_routes_mask = mask_zero\<rparr>;
                            bytes = flb_input_chunk_get_real_size io c;
                            tag = (case tag_buf of None \<Rightarrow> [] | Some t \<Rightarrow> t)
                        in if bytes < 0 then Some ((None, ch2), s1)
                           else case flb_routes_mask_set_by_tag (mp_onig v) (mp_sds_ok v) mask_zero tag (int (length tag))
                                       (Some (map flb_output_instance.truncate (e_outputs s1))) of
                             None \<Rightarrow> None
                           | Some (has_routes, m) \<Rightarrow>
                               (let a = e_next s1;
                                    s2 = s1\<lparr>e_chunk_heap := (e_chunk_heap s1)(a \<mapsto> c\<lparr>ic_routes_mask := m\<rparr>), e_next := a + 1\<rparr>;
                                    s3 = in_upd n (\<lambda>i. i\<lparr>in_chunks := mk_list_add a (in_chunks i)\<rparr>) s2
                                in Some ((Some a, ch2), flb_input_chunk_update_output_instances a bytes s3)))"

section \<open>Draining the queues\<close>

text \<open>One visit of a queue: whether it was empty, and the bytes that entered the engine.\<close>

definition drop_first :: "'c cio_api \<Rightarrow> addr \<Rightarrow> bool \<Rightarrow> 'c sbe \<Rightarrow> (bool \<times> int \<times> 'c sbe) option" where
  "drop_first io a del st =
     (case sb_remove_chunk_from_segregated_backlogs io a (cio_chunk_close a del (fst st), snd st) of
        None \<Rightarrow> None | Some st' \<Rightarrow> Some (False, 0, st'))"

definition queue_visit :: "'c cio_api \<Rightarrow> map_env \<Rightarrow> nat \<Rightarrow> 'c sbe \<Rightarrow> (bool \<times> int \<times> 'c sbe) option" where
  "queue_visit io v k st =
     (case sq_chunks (sb_backlogs (fst st) ! k) of [] \<Rightarrow> Some (True, 0, st)
      | c # _ \<Rightarrow>
        let a = sc_chunk c in
        case sb_store (fst st) a of None \<Rightarrow> None | Some ch0 \<Rightarrow>
        case (if cio_is_up io ch0 then (CIO_OK, ch0) else cio_up_force io ch0) of (ret, ch) \<Rightarrow>
        let st1 = (sb_put a ch (fst st), snd st) in
        if \<not> cio_is_up io ch0 \<and> ret = CIO_CORRUPTED then drop_first io a False st1
        else if \<not> cio_is_up io ch0 \<and> (ret = CIO_ERROR \<or> ret = CIO_RETRY) then Some (False, 0, st1)
        else let event_type = flb_input_chunk_get_event_type io ch; sz = cio_content_size io ch in
          if event_type = -1 then drop_first io a True st1
          else if sz \<le> 0 then drop_first io a True st1
          else case flb_input_chunk_map io v (sb_ins (fst st1)) event_type ch (snd st1) of
            None \<Rightarrow> None
          | Some ((None, ch'), s') \<Rightarrow> drop_first io a True (sb_put a (snd (cio_down io ch')) (fst st1), s')
          | Some ((Some i, ch'), s') \<Rightarrow>
              (case sb_remove_chunk_from_segregated_backlogs io a (sb_put a ch' (fst st1), s') of
                 None \<Rightarrow> None
               | Some st2 \<Rightarrow> Some (False, sz, ((fst st2)\<lparr>sb_store := (sb_store (fst st2))(a := None)\<rparr>,
                    ic_upd i (\<lambda>c. c\<lparr>ic_chunk := snd (cio_down io ch')\<rparr>) (snd st2)))))"

text \<open>A round visits every queue; the result is the number of empty queues and the total.\<close>

fun queue_round :: "'c cio_api \<Rightarrow> map_env \<Rightarrow> nat list \<Rightarrow> nat \<Rightarrow> int \<Rightarrow> 'c sbe \<Rightarrow> (nat \<times> int \<times> 'c sbe) option" where
  "queue_round io v [] n_empty tot st = Some (n_empty, tot, st)"
| "queue_round io v (k # ks) n_empty tot st =
     (case queue_visit io v k st of
        None \<Rightarrow> None
      | Some (e, n, st') \<Rightarrow> queue_round io v ks (if e then n_empty + 1 else n_empty) (tot + n) st')"

text \<open>The \<^verbatim>\<open>while\<close> loop, cut after the given number of rounds. Its result has the total the loop
  counted and the state.\<close>

datatype 'a run = Finished 'a | Undefined | Running

fun queue_loop :: "'c cio_api \<Rightarrow> map_env \<Rightarrow> nat \<Rightarrow> nat \<Rightarrow> int \<Rightarrow> 'c sbe \<Rightarrow> (int \<times> 'c sbe) run" where
  "queue_loop io v 0 n_empty tot st =
     (if tot < sb_mem_limit (fst st) \<and> n_empty < length (sb_backlogs (fst st)) then Running else Finished (tot, st))"
| "queue_loop io v (Suc fuel) n_empty tot st =
     (if tot < sb_mem_limit (fst st) \<and> n_empty < length (sb_backlogs (fst st))
      then case queue_round io v [0..<length (sb_backlogs (fst st))] 0 tot st of
             None \<Rightarrow> Undefined
           | Some (e, tot', st') \<Rightarrow> queue_loop io v fuel e tot' st'
      else Finished (tot, st))"

definition cb_queue_chunks :: "'c cio_api \<Rightarrow> map_env \<Rightarrow> nat \<Rightarrow> 'c sbe \<Rightarrow> (int \<times> 'c sbe) run" where
  "cb_queue_chunks io v fuel st =
     (let tot = flb_input_chunk_total_size io (snd st) (sb_ins (fst st))
      in if tot \<ge> sb_mem_limit (fst st) then Finished (tot, st) else queue_loop io v fuel 0 tot st)"

section \<open>The counters of the queues\<close>

definition queue_bytes :: "sb_out_chunk list \<Rightarrow> int" where
  "queue_bytes cs = sum_list (map sc_size cs)"

definition backlog_bytes :: "sb_out_queue list \<Rightarrow> int \<Rightarrow> int" where
  "backlog_bytes qs i = sum_list (map (\<lambda>q. if sq_ins q = i then queue_bytes (sq_chunks q) else 0) qs)"

definition forget :: "addr set \<Rightarrow> sb_out_queue \<Rightarrow> sb_out_queue" where
  "forget A q = q\<lparr>sq_chunks := filter (\<lambda>c. sc_chunk c \<notin> A) (sq_chunks q)\<rparr>"

text \<open>The entries of a queue refer to different chunks that exist and have the size kept in the entry.\<close>

definition queue_wf :: "'c cio_api \<Rightarrow> (addr \<Rightarrow> 'c option) \<Rightarrow> sb_out_queue \<Rightarrow> bool" where
  "queue_wf io store q \<longleftrightarrow> distinct (map sc_chunk (sq_chunks q)) \<and>
     (\<forall>c\<in>set (sq_chunks q). \<exists>ch. store (sc_chunk c) = Some ch \<and> cio_real_size io ch = sc_size c)"

definition sb_inv :: "'c cio_api \<Rightarrow> 'c sbe \<Rightarrow> bool" where
  "sb_inv io st \<longleftrightarrow> (\<forall>q\<in>set (sb_backlogs (fst st)). queue_wf io (sb_store (fst st)) q) \<and>
     (\<forall>x\<in>set (e_outputs (snd st)). o_fs_backlog_chunks_size x = backlog_bytes (sb_backlogs (fst st)) (o_id x))"

lemma forget_fields [simp]:
  "sq_ins (forget A q) = sq_ins q" "sq_chunks (forget A q) = filter (\<lambda>c. sc_chunk c \<notin> A) (sq_chunks q)"
  by (simp_all add: forget_def)

lemma forget_forget: "forget A (forget B q) = forget (B \<union> A) q"
  by (simp add: forget_def conj_commute)

lemma forget_none [simp]: "forget {} q = q"
  by (simp add: forget_def)

lemma backlog_bytes_simps [simp]:
  "backlog_bytes [] i = 0"
  "backlog_bytes (q # qs) i = (if sq_ins q = i then queue_bytes (sq_chunks q) else 0) + backlog_bytes qs i"
  by (simp_all add: backlog_bytes_def)

lemma queue_bytes_simps [simp]:
  "queue_bytes [] = 0" "queue_bytes (c # cs) = sc_size c + queue_bytes cs"
  "queue_bytes (cs @ ds) = queue_bytes cs + queue_bytes ds"
  by (simp_all add: queue_bytes_def)

lemma queue_wf_forget: "queue_wf io store q \<Longrightarrow> queue_wf io store (forget A q)"
  by (auto simp: queue_wf_def distinct_map intro: inj_on_subset)

lemma forget_absent: "A \<inter> sc_chunk ` set (sq_chunks q) = {} \<Longrightarrow> forget A q = q"
proof -
  assume "A \<inter> sc_chunk ` set (sq_chunks q) = {}"
  then have "filter (\<lambda>c. sc_chunk c \<notin> A) (sq_chunks q) = sq_chunks q" by (auto intro: filter_True)
  then show ?thesis by (simp add: forget_def)
qed

lemma remove1_forget:
  assumes "distinct (map sc_chunk cs)" "List.find (\<lambda>c. sc_chunk c = a) cs = Some c"
  shows "remove1 c cs = filter (\<lambda>c. sc_chunk c \<noteq> a) cs \<and> queue_bytes cs = sc_size c + queue_bytes (filter (\<lambda>c. sc_chunk c \<noteq> a) cs)"
  using assms
proof (induction cs)
  case (Cons d ds)
  show ?case
  proof (cases "sc_chunk d = a")
    case True
    then have "filter (\<lambda>c. sc_chunk c \<noteq> a) ds = ds" using Cons.prems(1) by (auto simp: image_iff intro!: filter_True)
    then show ?thesis using Cons.prems True by simp
  next
    case False
    then have "c \<noteq> d" using Cons.prems(2) by (auto simp: find_Some_iff)
    then show ?thesis using Cons False by simp
  qed
qed simp

lemma backlog_add_outputs:
  "e_outputs (backlog_add i n s) = map (\<lambda>x. x\<lparr>o_fs_backlog_chunks_size := o_fs_backlog_chunks_size x + (if o_id x = i then n else 0)\<rparr>) (e_outputs s)"
  by (auto simp: backlog_add_def)

text \<open>What the queues operations may change of the engine: the counters of the queues.\<close>

definition shift_backlog :: "(int \<Rightarrow> int) \<Rightarrow> 'c flb_engine \<Rightarrow> 'c flb_engine" where
  "shift_backlog f s = s\<lparr>e_outputs := map (\<lambda>x. x\<lparr>o_fs_backlog_chunks_size := o_fs_backlog_chunks_size x + f (o_id x)\<rparr>) (e_outputs s)\<rparr>"

lemma backlog_add_shift: "backlog_add i n s = shift_backlog (\<lambda>j. if j = i then n else 0) s"
  by (auto simp: backlog_add_def shift_backlog_def)

lemma shift_shift: "shift_backlog f (shift_backlog g s) = shift_backlog (\<lambda>i. g i + f i) s"
  by (simp add: shift_backlog_def add.assoc)

lemma shift_zero [simp]: "shift_backlog (\<lambda>_. 0) s = s"
  by (simp add: shift_backlog_def)

lemma shift_refl: "\<exists>f. s = shift_backlog f s"
  by (rule exI [of _ "\<lambda>_. 0"]) simp

lemma shift_backlog_fields [simp]:
  "e_inputs (shift_backlog f s) = e_inputs s" "e_chunk_heap (shift_backlog f s) = e_chunk_heap s"
  "e_task_heap (shift_backlog f s) = e_task_heap s" "e_retry_heap (shift_backlog f s) = e_retry_heap s"
  "e_tasks_map (shift_backlog f s) = e_tasks_map s" "e_sched (shift_backlog f s) = e_sched s"
  "e_next (shift_backlog f s) = e_next s" "ic (shift_backlog f s) = ic s"
  "map o_id (e_outputs (shift_backlog f s)) = map o_id (e_outputs s)"
  by (simp_all add: shift_backlog_def)

lemma remove_one:
  assumes "queue_wf io store q"
  shows "sb_remove_chunk_from_segregated_backlog io store a q s =
    Some (forget {a} q, shift_backlog (\<lambda>i. backlog_bytes [forget {a} q] i - backlog_bytes [q] i) s)"
proof (cases "List.find (\<lambda>c. sc_chunk c = a) (sq_chunks q)")
  case None
  then have "forget {a} q = q" by (intro forget_absent) (auto simp: find_None_iff)
  then show ?thesis using None by (simp add: sb_remove_chunk_from_segregated_backlog_def)
next
  case (Some c)
  then have c: "c \<in> set (sq_chunks q)" "sc_chunk c = a" by (auto simp: find_Some_iff)
  then obtain ch where ch: "store a = Some ch" "cio_real_size io ch = sc_size c" using assms by (auto simp: queue_wf_def)
  have "distinct (map sc_chunk (sq_chunks q))" using assms by (simp add: queue_wf_def)
  from remove1_forget [OF this Some] show ?thesis
    using Some ch by (auto simp: sb_remove_chunk_from_segregated_backlog_def forget_def backlog_add_shift
        intro!: arg_cong [where f = "\<lambda>f. shift_backlog f s"])
qed

lemma remove_all:
  assumes "\<forall>q\<in>set qs. queue_wf io store q"
  shows "remove_from_all io store a qs s =
    Some (map (forget {a}) qs, shift_backlog (\<lambda>i. backlog_bytes (map (forget {a}) qs) i - backlog_bytes qs i) s)"
  using assms
proof (induction qs arbitrary: s)
  case (Cons q qs)
  then show ?case
    by (auto simp: remove_one shift_shift intro!: arg_cong [where f = "\<lambda>f. shift_backlog f s"])
qed simp

section \<open>Releasing the queue of an output\<close>

lemma sb_invD:
  assumes "sb_inv io st"
  shows "\<forall>q\<in>set (sb_backlogs (fst st)). queue_wf io (sb_store (fst st)) q"
    "x \<in> set (e_outputs (snd st)) \<Longrightarrow> o_fs_backlog_chunks_size x = backlog_bytes (sb_backlogs (fst st)) (o_id x)"
  using assms by (auto simp: sb_inv_def)

lemma remove_backlogs:
  assumes "sb_inv io st"
  shows "sb_remove_chunk_from_segregated_backlogs io a st =
      Some ((fst st)\<lparr>sb_backlogs := map (forget {a}) (sb_backlogs (fst st))\<rparr>,
        shift_backlog (\<lambda>i. backlog_bytes (map (forget {a}) (sb_backlogs (fst st))) i - backlog_bytes (sb_backlogs (fst st)) i) (snd st))"
  using remove_all [OF sb_invD(1) [OF assms]] by (simp add: sb_remove_chunk_from_segregated_backlogs_def)

lemma sb_inv_forget:
  assumes "sb_inv io st"
  shows "sb_inv io ((cio_chunk_close a del ((fst st)\<lparr>sb_backlogs := map (forget {a}) (sb_backlogs (fst st))\<rparr>)),
     shift_backlog (\<lambda>i. backlog_bytes (map (forget {a}) (sb_backlogs (fst st))) i - backlog_bytes (sb_backlogs (fst st)) i) (snd st))"
proof -
  have "queue_wf io ((sb_store (fst st))(a := None)) (forget {a} q)" if "q \<in> set (sb_backlogs (fst st))" for q
    using queue_wf_forget [of io "sb_store (fst st)" q "{a}"] sb_invD(1) [OF assms] that by (auto simp: queue_wf_def)
  then show ?thesis
    using assms by (auto simp: sb_inv_def cio_chunk_close_def shift_backlog_def)
qed

text \<open>The shortest prefix that reaches the required size, or everything.\<close>

fun oldest_until :: "('a \<Rightarrow> int) \<Rightarrow> int \<Rightarrow> 'a list \<Rightarrow> 'a list" where
  "oldest_until sz req [] = []"
| "oldest_until sz req (c # cs) = c # (if sz c \<ge> req then [] else oldest_until sz (req - sz c) cs)"

lemma oldest_until_prefix: "\<exists>rest. cs = oldest_until sz req cs @ rest"
  by (induction sz req cs rule: oldest_until.induct) auto

lemma oldest_until_enough: "req \<le> sum_list (map sz (oldest_until sz req cs)) \<or> oldest_until sz req cs = cs"
  by (induction sz req cs rule: oldest_until.induct) auto

lemma oldest_until_least: "req > 0 \<Longrightarrow> sum_list (map sz (butlast (oldest_until sz req cs))) < req"
proof (induction sz req cs rule: oldest_until.induct)
  case (2 sz req c cs)
  then show ?case by (cases "oldest_until sz (req - sz c) cs = []") auto
qed simp

lemma oldest_until_cong: "(\<And>c. c \<in> set cs \<Longrightarrow> f c = g c) \<Longrightarrow> oldest_until f req cs = oldest_until g req cs"
  by (induction cs arbitrary: req) auto

lemma releasable_oldest: "releasable_loop req acc cs = acc + queue_bytes (oldest_until sc_size (req - acc) cs)"
  by (induction req acc cs rule: releasable_loop.induct) (auto simp: algebra_simps)

lemma sb_release_loop_prefix:
  assumes "sb_inv io st"
  shows "\<exists>st'. sb_release_loop io req released cs st = Some (released + queue_bytes (oldest_until sc_size (req - released) cs), st') \<and>
    sb_inv io st' \<and>
    sb_backlogs (fst st') = map (forget (sc_chunk ` set (oldest_until sc_size (req - released) cs))) (sb_backlogs (fst st)) \<and>
    sb_deleted (fst st') = rev (map sc_chunk (oldest_until sc_size (req - released) cs)) @ sb_deleted (fst st) \<and>
    (\<exists>f. snd st' = shift_backlog f (snd st))"
  using assms
proof (induction cs arbitrary: released st)
  case Nil
  then show ?case using shift_refl by fastforce
next
  case (Cons c cs)
  define a where "a = sc_chunk c"
  define g where "g = (\<lambda>i. backlog_bytes (map (forget {a}) (sb_backlogs (fst st))) i - backlog_bytes (sb_backlogs (fst st)) i)"
  define st2 where "st2 = (cio_chunk_close a True ((fst st)\<lparr>sb_backlogs := map (forget {a}) (sb_backlogs (fst st))\<rparr>),
     shift_backlog g (snd st))"
  have inv: "sb_inv io st2" using sb_inv_forget [OF Cons.prems] by (simp add: st2_def g_def)
  have q: "sb_backlogs (fst st2) = map (forget {a}) (sb_backlogs (fst st))" "sb_deleted (fst st2) = a # sb_deleted (fst st)"
    "snd st2 = shift_backlog g (snd st)"
    by (simp_all add: st2_def cio_chunk_close_def)
  have step: "sb_release_loop io req released (c # cs) st =
      (if released + sc_size c \<ge> req then Some (released + sc_size c, st2) else sb_release_loop io req (released + sc_size c) cs st2)"
    using remove_backlogs [OF Cons.prems, of a] by (simp add: Let_def st2_def a_def g_def)
  show ?case
  proof (cases "released + sc_size c \<ge> req")
    case True
    then show ?thesis using step inv q by (auto simp: a_def)
  next
    case False
    have e: "req - (released + sc_size c) = req - released - sc_size c" by simp
    from Cons.IH [OF inv, of "released + sc_size c"] obtain st' where st': "sb_release_loop io req (released + sc_size c) cs st2 =
        Some (released + sc_size c + queue_bytes (oldest_until sc_size (req - released - sc_size c) cs), st')" "sb_inv io st'"
      "sb_backlogs (fst st') = map (forget (sc_chunk ` set (oldest_until sc_size (req - released - sc_size c) cs))) (sb_backlogs (fst st2))"
      "sb_deleted (fst st') = rev (map sc_chunk (oldest_until sc_size (req - released - sc_size c) cs)) @ sb_deleted (fst st2)"
      "\<exists>f. snd st' = shift_backlog f (snd st2)"
      unfolding e by blast
    then have "\<exists>f. snd st' = shift_backlog f (snd st)" using q(3) shift_shift by metis
    then show ?thesis using False step st'(1,2) st'(3,4) q by (auto simp: forget_forget a_def)
  qed
qed

section \<open>Segregation\<close>

definition enqueue :: "addr \<Rightarrow> int \<Rightarrow> routes_mask \<Rightarrow> sb_out_queue \<Rightarrow> sb_out_queue" where
  "enqueue a n m q = (if route_bit m (sq_ins q) then q\<lparr>sq_chunks := sq_chunks q @ [\<lparr>sc_chunk = a, sc_size = n\<rparr>]\<rparr> else q)"

lemma enqueue_fields [simp]:
  "sq_ins (enqueue a n m q) = sq_ins q"
  "sq_chunks (enqueue a n m q) = sq_chunks q @ (if route_bit m (sq_ins q) then [\<lparr>sc_chunk = a, sc_size = n\<rparr>] else [])"
  by (simp_all add: enqueue_def)

lemma append_all:
  "append_to_all (\<lambda>_. True) a n m qs s =
     (0, map (enqueue a n m) qs, shift_backlog (\<lambda>i. backlog_bytes (map (enqueue a n m) qs) i - backlog_bytes qs i) s)"
proof (induction qs arbitrary: s)
  case (Cons q qs)
  have one: "enqueue a n m q = q \<and> \<not> route_bit m (sq_ins q) \<or> route_bit m (sq_ins q)" by (auto simp: enqueue_def)
  show ?case
    using one Cons by (auto simp: sb_append_chunk_to_segregated_backlog_def backlog_add_shift shift_shift mk_list_add_def enqueue_def
        intro!: arg_cong [where f = "\<lambda>f. shift_backlog f s"])
qed simp

text \<open>The chunk after it was brought up, and what makes it fit for segregation: it comes up, and its tag
  can be read.\<close>

definition brought_up :: "'c cio_api \<Rightarrow> 'c \<Rightarrow> 'c" where
  "brought_up io ch = (if cio_is_up io ch then ch else snd (cio_up_force io ch))"

definition chunk_tag :: "'c cio_api \<Rightarrow> 'c \<Rightarrow> cstr" where
  "chunk_tag io ch = the (snd (flb_input_chunk_get_tag io ch))"

definition healthy :: "'c cio_api \<Rightarrow> 'c \<Rightarrow> bool" where
  "healthy io ch \<longleftrightarrow> cio_is_up io (brought_up io ch) \<and> (cio_is_up io ch \<or> fst (cio_up_force io ch) \<noteq> CIO_CORRUPTED) \<and>
     flb_input_chunk_get_tag io (brought_up io ch) = (0, Some (chunk_tag io (brought_up io ch))) \<and>
     nul_free (chunk_tag io (brought_up io ch))"

text \<open>Documented behaviour of Chunk I/O: locking a chunk and unmapping its file do not change the size of
  the file, unless files are trimmed (\<^verbatim>\<open>storage.trim_files\<close>, off by default).\<close>

definition parks_size :: "'c cio_api \<Rightarrow> bool" where
  "parks_size io \<longleftrightarrow> (\<forall>ch. cio_real_size io (snd (cio_down io (cio_lock io ch))) = cio_real_size io ch)"

lemma tag_mask:
  fixes os :: "out_state list"
  assumes "nul_free tag" "\<forall>x\<in>set os. match_nul_free (flb_output_instance.truncate x) \<and> mask_valid (o_id x)"
  shows "\<exists>h m. flb_routes_mask_set_by_tag onig (\<lambda>_. True) m0 tag (int (length tag)) (Some (map flb_output_instance.truncate os)) = Some (h, m) \<and>
    (\<forall>i. mask_valid i \<longrightarrow> route_bit m i = (\<exists>x\<in>set os. o_id x = i \<and> accepts onig tag (flb_output_instance.truncate x)))"
proof -
  have tr [simp]: "o_id (flb_output_instance.truncate x) = o_id x" for x :: out_state by (simp add: flb_output_instance.truncate_def)
  define ys where "ys = map flb_output_instance.truncate os"
  have "\<forall>y\<in>set ys. match_nul_free y \<and> mask_valid (o_id y)" using assms(2) by (simp add: ys_def)
  from set_by_tag_loop_elems [OF assms(1) _ _ this rmask.wf_zero, of "int (length tag)" onig False]
  obtain h m where m: "set_by_tag_loop onig (\<lambda>_. True) tag (int (length tag)) ys (False, mask_zero) = Some (h, m)" "mask_wf m"
    "mask_elems m = o_id ` {y \<in> set ys. accepts onig tag y}"
    using rmask.elems_zero by auto
  have ex: "i \<in> o_id ` {y \<in> set ys. accepts onig tag y} \<longleftrightarrow>
      (\<exists>x\<in>set os. o_id x = i \<and> accepts onig tag (flb_output_instance.truncate x))" for i
    by (auto simp: ys_def image_iff)
  have "route_bit m i = (\<exists>x\<in>set os. o_id x = i \<and> accepts onig tag (flb_output_instance.truncate x))" if "mask_valid i" for i
    using rmask.get_bit_law [OF m(2) that] unfolding m(3) ex route_bit_def by simp
  then show ?thesis using m(1) by (auto simp: flb_routes_mask_set_by_tag_def ys_def)
qed

lemma segregate_one:
  assumes "sb_inv io st" "sb_store (fst st) a = Some ch" "healthy io ch" "parks_size io"
    "sg_sds_ok g = (\<lambda>_. True)" "sg_entry_ok g = (\<lambda>_ _. True)"
    "\<forall>x\<in>set (e_outputs (snd st)). match_nul_free (flb_output_instance.truncate x) \<and> mask_valid (o_id x)"
    and fresh: "\<forall>q\<in>set (sb_backlogs (fst st)). a \<notin> sc_chunk ` set (sq_chunks q)"
  shows "\<exists>m st'. segregate_chunk io g a st = Some (0, st') \<and> sb_inv io st' \<and>
    sb_backlogs (fst st') = map (enqueue a (cio_real_size io (brought_up io ch)) m) (sb_backlogs (fst st)) \<and>
    (\<forall>b. b \<noteq> a \<longrightarrow> sb_store (fst st') b = sb_store (fst st) b) \<and> (\<exists>f. snd st' = shift_backlog f (snd st)) \<and>
    (\<forall>i. mask_valid i \<longrightarrow> route_bit m i = (\<exists>x\<in>set (e_outputs (snd st)). o_id x = i \<and>
      accepts (sg_onig g) (chunk_tag io (brought_up io ch)) (flb_output_instance.truncate x)))"
proof -
  define up where "up = brought_up io ch"
  define tag where "tag = chunk_tag io up"
  define n where "n = cio_real_size io up"
  have up: "cio_is_up io up" "cio_is_up io ch \<or> fst (cio_up_force io ch) \<noteq> CIO_CORRUPTED"
    "flb_input_chunk_get_tag io up = (0, Some tag)" "nul_free tag"
    using assms(3) by (auto simp: healthy_def up_def tag_def)
  have pair: "\<exists>r. (if cio_is_up io ch then (CIO_OK, ch) else cio_up_force io ch) = (r, up) \<and> (cio_is_up io ch \<or> r \<noteq> CIO_CORRUPTED)"
    using up(2) by (cases "cio_up_force io ch") (auto simp: up_def brought_up_def)
  then obtain r where r: "(if cio_is_up io ch then (CIO_OK, ch) else cio_up_force io ch) = (r, up)"
    "cio_is_up io ch \<or> r \<noteq> CIO_CORRUPTED" by blast
  obtain h m where m: "flb_routes_mask_set_by_tag (sg_onig g) (\<lambda>_. True) mask_zero tag (int (length tag))
      (Some (map flb_output_instance.truncate (e_outputs (snd st)))) = Some (h, m)"
    "\<forall>i. mask_valid i \<longrightarrow> route_bit m i = (\<exists>x\<in>set (e_outputs (snd st)). o_id x = i \<and> accepts (sg_onig g) tag (flb_output_instance.truncate x))"
    using tag_mask [OF up(4) assms(7), of "sg_onig g" mask_zero] by blast
  define qs where "qs = map (enqueue a n m) (sb_backlogs (fst st))"
  define f where "f = (\<lambda>i. backlog_bytes qs i - backlog_bytes (sb_backlogs (fst st)) i)"
  define st' where "st' = (sb_put a (snd (cio_down io (cio_lock io up))) ((sb_put a up (fst st))\<lparr>sb_backlogs := qs\<rparr>), shift_backlog f (snd st))"
  have "segregate_chunk io g a st = Some (0, st')"
    using assms(2) r up(1,3) m(1) append_all [of a n m "sb_backlogs (fst st)" "snd st"]
    by (auto simp: segregate_chunk_def sb_append_chunk_to_segregated_backlogs_def Let_def assms(5,6) st'_def f_def qs_def n_def sb_put_def)
  moreover have "queue_wf io (sb_store (fst st')) (enqueue a n m q)" if q: "q \<in> set (sb_backlogs (fst st))" for q
    using sb_invD(1) [OF assms(1)] fresh q assms(4) n_def
    by (auto simp: queue_wf_def st'_def sb_put_def parks_size_def)
  then have "sb_inv io st'"
    using sb_invD(2) [OF assms(1)] by (auto simp: sb_inv_def st'_def sb_put_def qs_def shift_backlog_def f_def)
  moreover have "sb_backlogs (fst st') = qs" "\<forall>b. b \<noteq> a \<longrightarrow> sb_store (fst st') b = sb_store (fst st) b"
    "snd st' = shift_backlog f (snd st)" by (auto simp: st'_def sb_put_def)
  ultimately show ?thesis using m(2) unfolding qs_def n_def up_def tag_def by blast
qed

text \<open>Whether an output accepts the tag of a chunk of the store.\<close>

definition goes_to :: "'c cio_api \<Rightarrow> seg_env \<Rightarrow> 'c sbe \<Rightarrow> int \<Rightarrow> addr \<Rightarrow> bool" where
  "goes_to io g st i a \<longleftrightarrow> (\<exists>x\<in>set (e_outputs (snd st)). o_id x = i \<and>
     accepts (sg_onig g) (chunk_tag io (brought_up io (the (sb_store (fst st) a)))) (flb_output_instance.truncate x))"

lemma accepts_shift:
  "(\<exists>x\<in>set (e_outputs (shift_backlog f s)). o_id x = i \<and> P (flb_output_instance.truncate x)) \<longleftrightarrow>
   (\<exists>x\<in>set (e_outputs s). o_id x = i \<and> P (flb_output_instance.truncate x))"
  "(\<forall>x\<in>set (e_outputs (shift_backlog f s)). Q (flb_output_instance.truncate x) \<and> R (o_id x)) \<longleftrightarrow>
   (\<forall>x\<in>set (e_outputs s). Q (flb_output_instance.truncate x) \<and> R (o_id x))"
  by (auto simp: shift_backlog_def flb_output_instance.truncate_def)

lemma segregate_all:
  assumes "parks_size io" "sg_sds_ok g = (\<lambda>_. True)" "sg_entry_ok g = (\<lambda>_ _. True)"
    and "sb_inv io st" "distinct as" "\<forall>a\<in>set as. \<exists>ch. sb_store (fst st) a = Some ch \<and> healthy io ch"
    "\<forall>x\<in>set (e_outputs (snd st)). match_nul_free (flb_output_instance.truncate x) \<and> mask_valid (o_id x)"
    "\<forall>q\<in>set (sb_backlogs (fst st)). mask_valid (sq_ins q) \<and> set as \<inter> sc_chunk ` set (sq_chunks q) = {}"
  shows "\<exists>st'. segregate_chunks io g as st = Some (0, st') \<and> sb_inv io st' \<and>
    map sq_ins (sb_backlogs (fst st')) = map sq_ins (sb_backlogs (fst st)) \<and>
    map (\<lambda>q. map sc_chunk (sq_chunks q)) (sb_backlogs (fst st')) =
      map (\<lambda>q. map sc_chunk (sq_chunks q) @ filter (goes_to io g st (sq_ins q)) as) (sb_backlogs (fst st)) \<and>
    (\<exists>f. snd st' = shift_backlog f (snd st))"
  using assms(4-)
proof (induction as arbitrary: st)
  case Nil
  then show ?case using shift_refl by auto
next
  case (Cons a as)
  obtain ch where ch: "sb_store (fst st) a = Some ch" "healthy io ch" using Cons.prems(3) by auto
  have fr: "\<forall>q\<in>set (sb_backlogs (fst st)). a \<notin> sc_chunk ` set (sq_chunks q)" using Cons.prems(5) by auto
  obtain m st1 f where st1: "segregate_chunk io g a st = Some (0, st1)" "sb_inv io st1"
    "sb_backlogs (fst st1) = map (enqueue a (cio_real_size io (brought_up io ch)) m) (sb_backlogs (fst st))"
    "\<forall>b. b \<noteq> a \<longrightarrow> sb_store (fst st1) b = sb_store (fst st) b" "snd st1 = shift_backlog f (snd st)"
    "\<forall>i. mask_valid i \<longrightarrow> route_bit m i = (\<exists>x\<in>set (e_outputs (snd st)). o_id x = i \<and>
      accepts (sg_onig g) (chunk_tag io (brought_up io ch)) (flb_output_instance.truncate x))"
    using segregate_one [OF Cons.prems(1) ch assms(1-3) Cons.prems(4) fr] by blast
  have m: "route_bit m i \<longleftrightarrow> goes_to io g st i a" if "mask_valid i" for i
    using st1(6) that ch(1) by (simp add: goes_to_def)
  have same: "goes_to io g st1 i b \<longleftrightarrow> goes_to io g st i b" if "b \<in> set as" for i b
  proof -
    have "b \<noteq> a" using that Cons.prems(2) by auto
    then have "sb_store (fst st1) b = sb_store (fst st) b" using st1(4) by blast
    then show ?thesis by (simp only: goes_to_def st1(5) accepts_shift)
  qed
  have fl: "filter (goes_to io g st1 i) as = filter (goes_to io g st i) as" for i
    using same by (intro filter_cong) auto
  have pre: "distinct as" "\<forall>b\<in>set as. \<exists>ch. sb_store (fst st1) b = Some ch \<and> healthy io ch"
    "\<forall>x\<in>set (e_outputs (snd st1)). match_nul_free (flb_output_instance.truncate x) \<and> mask_valid (o_id x)"
    "\<forall>q\<in>set (sb_backlogs (fst st1)). mask_valid (sq_ins q) \<and> set as \<inter> sc_chunk ` set (sq_chunks q) = {}"
    using Cons.prems(2-5) st1(3,4,5) by (auto simp: accepts_shift(2) disjoint_iff)
  obtain st' where st': "segregate_chunks io g as st1 = Some (0, st')" "sb_inv io st'"
    "map sq_ins (sb_backlogs (fst st')) = map sq_ins (sb_backlogs (fst st1))"
    "map (\<lambda>q. map sc_chunk (sq_chunks q)) (sb_backlogs (fst st')) =
      map (\<lambda>q. map sc_chunk (sq_chunks q) @ filter (goes_to io g st1 (sq_ins q)) as) (sb_backlogs (fst st1))"
    "\<exists>f. snd st' = shift_backlog f (snd st1)"
    using Cons.IH [OF st1(2) pre] by blast
  have "map (\<lambda>q. map sc_chunk (sq_chunks q)) (sb_backlogs (fst st')) =
      map (\<lambda>q. map sc_chunk (sq_chunks q) @ filter (goes_to io g st (sq_ins q)) (a # as)) (sb_backlogs (fst st))"
    unfolding st'(4) st1(3) using m Cons.prems(5) by (auto simp: fl)
  moreover have "\<exists>f. snd st' = shift_backlog f (snd st)" using st'(5) st1(5) shift_shift by metis
  ultimately show ?case using st1(1,3) st'(1-3) by auto
qed

section \<open>Draining\<close>



definition outputs_valid :: "out_state list \<Rightarrow> bool" where
  "outputs_valid os \<longleftrightarrow> (\<forall>x\<in>set os. match_nul_free (flb_output_instance.truncate x) \<and> mask_valid (o_id x))"





























section \<open>A chunk that stays down\<close>

text \<open>The first chunk of a queue cannot be brought up now and stays as it is.\<close>

definition stuck :: "'c cio_api \<Rightarrow> (addr \<Rightarrow> 'c option) \<Rightarrow> sb_out_queue \<Rightarrow> bool" where
  "stuck io store q \<longleftrightarrow> (case sq_chunks q of [] \<Rightarrow> True | c # _ \<Rightarrow>
     (\<exists>ch. store (sc_chunk c) = Some ch \<and> \<not> cio_is_up io ch \<and> cio_up_force io ch \<in> {(CIO_ERROR, ch), (CIO_RETRY, ch)}))"

lemma visit_stuck:
  assumes "stuck io (sb_store (fst st)) (sb_backlogs (fst st) ! k)"
  shows "queue_visit io v k st = Some (sq_chunks (sb_backlogs (fst st) ! k) = [], 0, st)"
proof (cases "sq_chunks (sb_backlogs (fst st) ! k)")
  case Nil
  then show ?thesis by (simp add: queue_visit_def)
next
  case (Cons c cs)
  then obtain ch where ch: "sb_store (fst st) (sc_chunk c) = Some ch" "\<not> cio_is_up io ch"
    "cio_up_force io ch = (CIO_ERROR, ch) \<or> cio_up_force io ch = (CIO_RETRY, ch)"
    using assms by (auto simp: stuck_def)
  have "sb_put (sc_chunk c) ch (fst st) = fst st" using ch(1) by (simp add: sb_put_def fun_upd_idem)
  then show ?thesis using Cons ch by (auto simp: queue_visit_def Let_def cio_consts)
qed

lemma round_stuck:
  assumes "\<forall>k\<in>set ks. stuck io (sb_store (fst st)) (sb_backlogs (fst st) ! k)"
  shows "queue_round io v ks e tot st = Some (e + length (filter (\<lambda>k. sq_chunks (sb_backlogs (fst st) ! k) = []) ks), tot, st)"
  using assms by (induction ks arbitrary: e) (auto simp: visit_stuck)

lemma loop_stuck:
  assumes "\<forall>q\<in>set (sb_backlogs (fst st)). stuck io (sb_store (fst st)) q"
    "\<exists>q\<in>set (sb_backlogs (fst st)). sq_chunks q \<noteq> []" "tot < sb_mem_limit (fst st)" "e < length (sb_backlogs (fst st))"
  shows "queue_loop io v fuel e tot st = Running"
  using assms(4)
proof (induction fuel arbitrary: e)
  case 0
  then show ?case using assms(3) by simp
next
  case (Suc fuel)
  define ks where "ks = [0..<length (sb_backlogs (fst st))]"
  have st: "\<forall>k\<in>set ks. stuck io (sb_store (fst st)) (sb_backlogs (fst st) ! k)" using assms(1) by (auto simp: ks_def)
  obtain k where "k < length (sb_backlogs (fst st))" "sq_chunks (sb_backlogs (fst st) ! k) \<noteq> []"
    using assms(2) by (auto simp: in_set_conv_nth)
  then have "length (filter (\<lambda>k. sq_chunks (sb_backlogs (fst st) ! k) = []) ks) < length ks"
    by (intro length_filter_less [of k]) (auto simp: ks_def)
  then show ?case using Suc.IH Suc.prems assms(3) round_stuck [OF st, of v 0 tot] by (simp add: ks_def)
qed

section \<open>A chunk that cannot be used\<close>

lemma remove_freed:
  assumes "store a = None" "q \<in> set qs" "a \<in> sc_chunk ` set (sq_chunks q)"
  shows "remove_from_all io store a qs s = None"
  using assms(2)
proof (induction qs arbitrary: s)
  case (Cons p ps)
  show ?case
  proof (cases "a \<in> sc_chunk ` set (sq_chunks p)")
    case True
    then obtain c where "List.find (\<lambda>c. sc_chunk c = a) (sq_chunks p) = Some c"
      by (metis (mono_tags, lifting) find_None_iff imageE not_None_eq)
    then show ?thesis using assms(1) by (simp add: sb_remove_chunk_from_segregated_backlog_def)
  next
    case False
    then have "List.find (\<lambda>c. sc_chunk c = a) (sq_chunks p) = None" by (auto simp: find_None_iff)
    moreover have "q \<in> set ps" using Cons.prems False assms(3) by auto
    ultimately show ?thesis using Cons.IH by (simp add: sb_remove_chunk_from_segregated_backlog_def)
  qed
qed simp

lemma drop_first_freed:
  assumes "q \<in> set (sb_backlogs (fst st))" "a \<in> sc_chunk ` set (sq_chunks q)"
  shows "drop_first io a del st = None"
  using remove_freed [of "sb_store (cio_chunk_close a del (fst st))" a q "sb_backlogs (fst st)" io "snd st"] assms
  by (simp add: drop_first_def sb_remove_chunk_from_segregated_backlogs_def cio_chunk_close_def)

section \<open>Properties\<close>

definition demo_header :: "cstr \<Rightarrow> cstr" where
  "demo_header tag = [MAGIC_BYTE_0, MAGIC_BYTE_1, CHR 0x00, CHR 0x00] @ tag"

definition demo_sb :: "demo_chunk flb_sb" where
  "demo_sb = \<lparr>sb_mem_limit = 1000, sb_ins = 0,
     sb_backlogs = [\<lparr>sq_ins = 0, sq_chunks = [\<lparr>sc_chunk = 5, sc_size = 40\<rparr>, \<lparr>sc_chunk = 6, sc_size = 30\<rparr>]\<rparr>],
     sb_streams = [[5, 6]],
     sb_store = [5 \<mapsto> (False, 40, Some (demo_header ''cpu'')), 6 \<mapsto> (False, 30, Some (demo_header ''mem''))], sb_deleted = []\<rparr>"

definition demo_sb_engine :: "demo_chunk flb_engine" where
  "demo_sb_engine = (demo_engine True 100 100)\<lparr>e_outputs := [(demo_out 100)\<lparr>o_fs_backlog_chunks_size := 70\<rparr>]\<rparr>"

lemma demo_sb_inv: "sb_inv demo_io (demo_sb, demo_sb_engine)"
  by (auto simp: sb_inv_def queue_wf_def demo_sb_def demo_sb_engine_def demo_io_def demo_out_def)

text \<open>C21: releasing the queue of an output drops its oldest chunks, no more than needed. The dropped
  entries are the shortest prefix of the queue that reaches the required size, or the whole queue; the
  chunks leave the queues of all outputs, their files are deleted, the counters of all outputs stay
  exact, and \<^verbatim>\<open>sb_get_releasable_output_queue_space\<close> foretells the number of bytes.\<close>

theorem sb_release_oldest_first:
  assumes "sb_inv io (sb, s)" "sb_find_segregated_backlog_by_output_plugin_instance out sb = Some q" "req > 0"
  shows "\<exists>P rest sb' s'. sq_chunks q = P @ rest \<and> (req \<le> queue_bytes P \<or> rest = []) \<and> queue_bytes (butlast P) < req \<and>
    sb_release_output_queue_space io out req (Some sb, s) = Some (0, req - queue_bytes P, Some sb', s') \<and>
    sb_get_releasable_output_queue_space (Some sb) out req = queue_bytes P \<and>
    sb_inv io (sb', s') \<and> sb_backlogs sb' = map (forget (sc_chunk ` set P)) (sb_backlogs sb) \<and>
    sb_deleted sb' = rev (map sc_chunk P) @ sb_deleted sb"
proof -
  define P where "P = oldest_until sc_size req (sq_chunks q)"
  obtain rest where rest: "sq_chunks q = P @ rest" using oldest_until_prefix [of "sq_chunks q" sc_size req] unfolding P_def by blast
  have "req \<le> queue_bytes P \<or> P = sq_chunks q" using oldest_until_enough [of req sc_size "sq_chunks q"] unfolding P_def queue_bytes_def .
  then have "req \<le> queue_bytes P \<or> rest = []" using rest by simp
  moreover have "queue_bytes (butlast P) < req" using oldest_until_least [OF assms(3)] by (simp add: P_def queue_bytes_def)
  moreover obtain st' where st': "sb_release_loop io req 0 (sq_chunks q) (sb, s) = Some (queue_bytes P, st')" "sb_inv io st'"
    "sb_backlogs (fst st') = map (forget (sc_chunk ` set P)) (sb_backlogs sb)" "sb_deleted (fst st') = rev (map sc_chunk P) @ sb_deleted sb"
    using sb_release_loop_prefix [OF assms(1), of req 0 "sq_chunks q"] by (auto simp: P_def)
  moreover have "sb_release_output_queue_space io out req (Some sb, s) = Some (0, req - queue_bytes P, Some (fst st'), snd st')"
    using st'(1) assms(2) by (simp add: sb_release_output_queue_space_def)
  moreover have "sb_get_releasable_output_queue_space (Some sb) out req = queue_bytes P"
    using assms(2) by (simp add: sb_get_releasable_output_queue_space_def releasable_oldest P_def)
  ultimately show ?thesis using rest by (intro exI [of _ P] exI [of _ rest] exI [of _ "fst st'"] exI [of _ "snd st'"]) simp
qed

theorem sb_release_oldest_first_witness:
  "\<exists>sb' s'. sb_release_output_queue_space demo_io 0 35 (Some demo_sb, demo_sb_engine) = Some (0, -5, Some sb', s') \<and>
     sb_deleted sb' = [5] \<and> sb_inv demo_io (sb', s')"
proof -
  define q where "q = \<lparr>sq_ins = 0, sq_chunks = [\<lparr>sc_chunk = 5, sc_size = 40\<rparr>, \<lparr>sc_chunk = 6, sc_size = 30\<rparr>]\<rparr>"
  have find: "sb_find_segregated_backlog_by_output_plugin_instance 0 demo_sb = Some q"
    by (simp add: sb_find_segregated_backlog_by_output_plugin_instance_def demo_sb_def q_def)
  obtain P rest sb' s' where P: "sq_chunks q = P @ rest" "35 \<le> queue_bytes P \<or> rest = []" "queue_bytes (butlast P) < 35"
    "sb_release_output_queue_space demo_io 0 35 (Some demo_sb, demo_sb_engine) = Some (0, 35 - queue_bytes P, Some sb', s')"
    "sb_inv demo_io (sb', s')" "sb_deleted sb' = rev (map sc_chunk P) @ sb_deleted demo_sb"
    using sb_release_oldest_first [OF demo_sb_inv find, of 35] by auto
  have "P = [\<lparr>sc_chunk = 5, sc_size = 40\<rparr>]"
    using P(1-3) by (auto simp: q_def Cons_eq_append_conv)
  then show ?thesis using P(4-6) by (auto simp: demo_sb_def)
qed

text \<open>C19: at start-up every output gets a queue that holds exactly the chunks left on disk whose tag the
  output accepts, in the order of the streams, and its counter is the sum of their sizes. All chunks are
  taken to be readable, allocations to succeed, and Chunk I/O to keep the size of a file it unmaps.\<close>

theorem sb_segregate_exact:
  assumes "parks_size io" "sg_sds_ok g = (\<lambda>_. True)" "sg_entry_ok g = (\<lambda>_ _. True)" "sg_queue_ok g = (\<lambda>_. True)"
    and "sb_backlogs sb = []" "distinct (concat (sb_streams sb))"
    and "\<forall>a\<in>set (concat (sb_streams sb)). \<exists>ch. sb_store sb a = Some ch \<and> healthy io ch"
    and "outputs_valid (e_outputs s)" "\<forall>x\<in>set (e_outputs s). o_fs_backlog_chunks_size x = 0"
  shows "\<exists>sb' s'. sb_segregate_chunks io g (Some sb) s = Some (0, Some sb', s') \<and> sb_inv io (sb', s') \<and>
    map sq_ins (sb_backlogs sb') = map o_id (e_outputs s) \<and>
    map (\<lambda>q. map sc_chunk (sq_chunks q)) (sb_backlogs sb') =
      map (\<lambda>x. filter (goes_to io g (sb, s) (o_id x)) (concat (sb_streams sb))) (e_outputs s)"
proof -
  define sb1 where "sb1 = sb\<lparr>sb_backlogs := map (\<lambda>i. \<lparr>sq_ins = i, sq_chunks = []\<rparr>) (map o_id (e_outputs s))\<rparr>"
  have alloc: "sb_allocate_backlogs io (sg_queue_ok g) (sb, s) = Some (0, (sb1, s))"
    using assms(4,5) by (simp add: sb_allocate_backlogs_def sb1_def takeWhile_eq_all_conv [THEN iffD2])
  have zero: "backlog_bytes (map (\<lambda>i. \<lparr>sq_ins = i, sq_chunks = []\<rparr>) is) j = 0" for "is" j
    by (induction "is") auto
  have inv: "sb_inv io (sb1, s)"
    using assms(9) zero [of "map o_id (e_outputs s)"] by (auto simp: sb_inv_def sb1_def queue_wf_def comp_def)
  have outs: "\<forall>x\<in>set (e_outputs (snd (sb1, s))). match_nul_free (flb_output_instance.truncate x) \<and> mask_valid (o_id x)"
    using assms(8) by (simp add: outputs_valid_def)
  have qs: "\<forall>q\<in>set (sb_backlogs (fst (sb1, s))). mask_valid (sq_ins q) \<and> set (concat (sb_streams sb)) \<inter> sc_chunk ` set (sq_chunks q) = {}"
    using outs by (auto simp: sb1_def)
  have st: "\<forall>a\<in>set (concat (sb_streams sb)). \<exists>ch. sb_store (fst (sb1, s)) a = Some ch \<and> healthy io ch"
    using assms(7) by (simp add: sb1_def)
  obtain st' where st': "segregate_chunks io g (concat (sb_streams sb)) (sb1, s) = Some (0, st')" "sb_inv io st'"
    "map sq_ins (sb_backlogs (fst st')) = map sq_ins (sb_backlogs sb1)"
    "map (\<lambda>q. map sc_chunk (sq_chunks q)) (sb_backlogs (fst st')) =
      map (\<lambda>q. map sc_chunk (sq_chunks q) @ filter (goes_to io g (sb1, s) (sq_ins q)) (concat (sb_streams sb))) (sb_backlogs sb1)"
    using segregate_all [OF assms(1-3) inv assms(6) st outs qs] by auto
  have "goes_to io g (sb1, s) = goes_to io g (sb, s)" by (intro ext) (simp add: goes_to_def sb1_def)
  then have "map (\<lambda>q. map sc_chunk (sq_chunks q)) (sb_backlogs (fst st')) =
      map (\<lambda>x. filter (goes_to io g (sb, s) (o_id x)) (concat (sb_streams sb))) (e_outputs s)"
    using st'(4) by (simp add: sb1_def comp_def)
  moreover have "sb_segregate_chunks io g (Some sb) s = Some (0, Some (fst st'), snd st')"
    using alloc st'(1) by (simp add: sb_segregate_chunks_def sb1_def)
  ultimately show ?thesis using st'(2,3) by (auto simp: sb1_def comp_def)
qed

definition demo_seg :: seg_env where
  "demo_seg = \<lparr>sg_onig = (\<lambda>_ _. 0), sg_sds_ok = (\<lambda>_. True), sg_queue_ok = (\<lambda>_. True), sg_entry_ok = (\<lambda>_ _. True), sg_del_bad = False\<rparr>"

lemma demo_tag: "flb_input_chunk_get_tag demo_io (u, n, Some (demo_header tag)) = (0, Some tag)"
  by (simp add: flb_input_chunk_get_tag_def demo_io_def input_chunk_has_magic_bytes_def demo_header_def meta_consts)

lemma demo_up: "brought_up demo_io (u, n, m) = (True, n, m)"
  by (cases u) (simp_all add: brought_up_def demo_io_def)

lemma demo_outputs_valid: "outputs_valid [demo_out n]" "outputs_valid [(demo_out n)\<lparr>o_fs_backlog_chunks_size := k\<rparr>]"
  by (simp_all add: outputs_valid_def demo_out_def flb_output_instance.truncate_def match_nul_free_def mask_valid_def nul_free_def)

theorem sb_segregate_exact_witness:
  "\<exists>sb' s'. sb_segregate_chunks demo_io demo_seg (Some (demo_sb\<lparr>sb_backlogs := []\<rparr>)) (demo_engine True 100 100) = Some (0, Some sb', s') \<and>
     map (\<lambda>q. map sc_chunk (sq_chunks q)) (sb_backlogs sb') = [[5, 6]]"
proof -
  define sb where "sb = demo_sb\<lparr>sb_backlogs := []\<rparr>"
  have h: "healthy demo_io (u, n, Some (demo_header tag))" if "nul_free tag" for u n tag
    using that by (simp add: healthy_def demo_up demo_tag chunk_tag_def) (simp add: demo_io_def cio_consts)
  have g: "goes_to demo_io demo_seg (sb, demo_engine True 100 100) 0 a" if "a \<in> {5, 6}" for a
    using that by (auto simp: goes_to_def sb_def demo_sb_def demo_engine_def demo_out_def demo_up chunk_tag_def demo_tag
        accepts_def flb_output_instance.truncate_def)
  have p: "parks_size demo_io" by (simp add: parks_size_def demo_io_def case_prod_beta)
  have "nul_free ''cpu''" "nul_free ''mem''" by (simp_all add: nul_free_def)
  then have "\<forall>a\<in>set (concat (sb_streams sb)). \<exists>ch. sb_store sb a = Some ch \<and> healthy demo_io ch"
    by (auto simp: sb_def demo_sb_def h)
  moreover have "sg_sds_ok demo_seg = (\<lambda>_. True)" "sg_entry_ok demo_seg = (\<lambda>_ _. True)" "sg_queue_ok demo_seg = (\<lambda>_. True)"
    "sb_backlogs sb = []" "distinct (concat (sb_streams sb))" "outputs_valid (e_outputs (demo_engine True 100 100))"
    "\<forall>x\<in>set (e_outputs (demo_engine True 100 100)). o_fs_backlog_chunks_size x = 0"
    using demo_outputs_valid(1) [of 100] by (simp_all add: demo_seg_def sb_def demo_sb_def demo_engine_def) (simp add: demo_out_def)
  ultimately obtain sb' s' where "sb_segregate_chunks demo_io demo_seg (Some sb) (demo_engine True 100 100) = Some (0, Some sb', s')"
    "map (\<lambda>q. map sc_chunk (sq_chunks q)) (sb_backlogs sb') =
      map (\<lambda>x. filter (goes_to demo_io demo_seg (sb, demo_engine True 100 100) (o_id x)) (concat (sb_streams sb)))
        (e_outputs (demo_engine True 100 100))"
    using sb_segregate_exact [OF p, of demo_seg sb "demo_engine True 100 100"] by blast
  then show ?thesis using g by (auto simp: sb_def demo_sb_def demo_engine_def demo_out_def)
qed


definition demo_map :: map_env where
  "demo_map = \<lparr>mp_onig = (\<lambda>_ _. 0), mp_sds_ok = (\<lambda>_. True), mp_mem_ok = True, mp_vlog = (\<lambda>_. (0, 1, 40)), mp_vmetric = (\<lambda>_. (0, 1, 40))\<rparr>"


text \<open>Draining does not end while a chunk cannot be brought up. If the chunk at the head of every queue
  that is not empty fails with \<^verbatim>\<open>CIO_ERROR\<close> or \<^verbatim>\<open>CIO_RETRY\<close> each time, and the limit
  is not reached, \<^verbatim>\<open>cb_queue_chunks\<close> is still running after any number of rounds.\<close>

theorem cb_queue_chunks_never_ends:
  assumes "\<forall>q\<in>set (sb_backlogs sb). stuck io (sb_store sb) q" "\<exists>q\<in>set (sb_backlogs sb). sq_chunks q \<noteq> []"
    and "flb_input_chunk_total_size io s (sb_ins sb) < sb_mem_limit sb"
  shows "cb_queue_chunks io v fuel (sb, s) = Running"
proof -
  have "0 < length (sb_backlogs sb)" using assms(2) by auto
  then show ?thesis using loop_stuck [of "(sb, s)" io] assms by (simp add: cb_queue_chunks_def Let_def)
qed

theorem cb_queue_chunks_never_ends_witness:
  "cb_queue_chunks (demo_io\<lparr>cio_up_force := (\<lambda>c. (CIO_ERROR, c))\<rparr>) demo_map 100 (demo_sb, demo_sb_engine) = Running"
proof (rule cb_queue_chunks_never_ends)
  show "\<forall>q\<in>set (sb_backlogs demo_sb). stuck (demo_io\<lparr>cio_up_force := (\<lambda>c. (CIO_ERROR, c))\<rparr>) (sb_store demo_sb) q"
    by (auto simp: stuck_def demo_sb_def demo_io_def)
  show "\<exists>q\<in>set (sb_backlogs demo_sb). sq_chunks q \<noteq> []" by (simp add: demo_sb_def)
  show "flb_input_chunk_total_size (demo_io\<lparr>cio_up_force := (\<lambda>c. (CIO_ERROR, c))\<rparr>) demo_sb_engine (sb_ins demo_sb) < sb_mem_limit demo_sb"
    by (simp add: flb_input_chunk_total_size_def flb_input_chunk_is_up_def flb_input_chunk_get_size_def Let_def demo_sb_def demo_io_def
        demo_sb_engine_def demo_engine_def demo_input_def demo_chunk_of_def ic_def)
qed

text \<open>C40: a queued chunk that is corrupt, has no event type or is empty is freed before it leaves the
  queues: \<^verbatim>\<open>cb_queue_chunks\<close> then reads the size of the freed chunk.\<close>

theorem cb_queue_chunks_use_after_free:
  assumes "k < length (sb_backlogs sb)" "sq_chunks (sb_backlogs sb ! k) = c # cs" "sb_store sb (sc_chunk c) = Some ch"
    and "\<not> cio_is_up io ch" "cio_up_force io ch = (ret, ch')"
    and "ret = CIO_CORRUPTED \<or> ret = CIO_OK \<and> (flb_input_chunk_get_event_type io ch' = -1 \<or> cio_content_size io ch' \<le> 0)"
  shows "queue_visit io v k (sb, s) = None"
proof -
  have "sb_backlogs sb ! k \<in> set (sb_backlogs (sb_put (sc_chunk c) ch' sb))" "sc_chunk c \<in> sc_chunk ` set (sq_chunks (sb_backlogs sb ! k))"
    using assms(1,2) by (simp_all add: sb_put_def)
  from drop_first_freed [where st = "(sb_put (sc_chunk c) ch' sb, s)", simplified, OF this]
  have "drop_first io (sc_chunk c) del (sb_put (sc_chunk c) ch' sb, s) = None" for del .
  then show ?thesis using assms(2-6) by (auto simp: queue_visit_def Let_def cio_consts)
qed

theorem cb_queue_chunks_use_after_free_witness:
  "queue_visit (demo_io\<lparr>cio_up_force := (\<lambda>c. (CIO_CORRUPTED, c))\<rparr>) demo_map 0 (demo_sb, demo_sb_engine) = None"
  by (rule cb_queue_chunks_use_after_free [where c = "\<lparr>sc_chunk = 5, sc_size = 40\<rparr>" and cs = "[\<lparr>sc_chunk = 6, sc_size = 30\<rparr>]"
        and ch = "(False, 40, Some (demo_header ''cpu''))" and ret = CIO_CORRUPTED and ch' = "(False, 40, Some (demo_header ''cpu''))"])
    (simp_all add: demo_sb_def demo_io_def)

text \<open>Chunks of traces do not survive a restart. A chunk that was created for traces is recognised as
  such, and \<^verbatim>\<open>flb_input_chunk_map\<close> refuses it whatever it contains, because it counts no records
  for traces and takes a chunk without records to be corrupt.\<close>

theorem flb_input_chunk_map_refuses_traces:
  assumes "meta_faithful io" "input_chunk_write_header io mem_ok ch0 FLB_INPUT_TRACES tag tag_len = (0, ch)"
  shows "flb_input_chunk_get_event_type io ch = FLB_INPUT_TRACES \<and>
    flb_input_chunk_map io v n (flb_input_chunk_get_event_type io ch) ch s = Some ((None, ch), s)"
proof -
  have et: "flb_input_chunk_get_event_type io ch = FLB_INPUT_TRACES"
    using write_header_meta [OF assms]
    by (auto simp: flb_input_chunk_get_event_type_def input_chunk_has_magic_bytes_def
        FLB_INPUT_CHUNK_META_HEADER_def meta_type_byte_def flb_event_type_defs)
  show ?thesis unfolding et
    by (auto simp: flb_input_chunk_map_def map_validate_def flb_event_type_defs split: option.splits)
qed

theorem flb_input_chunk_map_refuses_traces_witness:
  "flb_input_chunk_map demo_io demo_map 0 FLB_INPUT_TRACES (snd (input_chunk_write_header demo_io True (True, 0, None) FLB_INPUT_TRACES ''t'' 1))
     demo_sb_engine = Some ((None, snd (input_chunk_write_header demo_io True (True, 0, None) FLB_INPUT_TRACES ''t'' 1)), demo_sb_engine)"
proof -
  have w: "input_chunk_write_header demo_io True (True, 0, None) FLB_INPUT_TRACES ''t'' 1 =
      (0, snd (input_chunk_write_header demo_io True (True, 0, None) FLB_INPUT_TRACES ''t'' 1))"
    by (simp add: input_chunk_write_header_def demo_io_def Let_def)
  from flb_input_chunk_map_refuses_traces [OF demo_io_meta w, of demo_map 0 demo_sb_engine] show ?thesis by metis
qed

end
