(* ===== verification/Flb_Chunk_Tables.thy ===== *)
theory Flb_Chunk_Tables
  imports Flb_Storage_Backlog Flb_Engine_Inv
begin

text \<open>
  The hash tables in which an input keeps the open chunk of every tag. Every reference in a table is to a
  chunk that exists, belongs to the input and the event type of the table and carries the tag it is filed under;
  the operations that create, move and destroy chunks keep this.
\<close>

section \<open>The tag of a chunk\<close>

text \<open>The tag that can be read once the chunk is brought up.\<close>

definition tag_up :: "'c cio_api \<Rightarrow> 'c \<Rightarrow> cstr option" where
  "tag_up io ch = snd (flb_input_chunk_get_tag io (brought_up io ch))"

text \<open>Documented behaviour of Chunk I/O: mapping, unmapping, locking and writing the content of a chunk leave
  its metadata alone, and the metadata of a chunk that was unmapped can be read again.\<close>

definition meta_kept :: "'c cio_api \<Rightarrow> bool" where
  "meta_kept io \<longleftrightarrow> (\<forall>ch. tag_up io (snd (cio_up io ch)) = tag_up io ch \<and> tag_up io (snd (cio_up_force io ch)) = tag_up io ch \<and>
     tag_up io (snd (cio_down io ch)) = tag_up io ch \<and> tag_up io (cio_lock io ch) = tag_up io ch \<and>
     tag_up io (cio_tx_rollback io ch) = tag_up io ch \<and> (\<forall>b. tag_up io (snd (cio_write io ch b)) = tag_up io ch))"

lemma meta_keptD:
  assumes "meta_kept io"
  shows "tag_up io (snd (cio_up io ch)) = tag_up io ch" "tag_up io (snd (cio_up_force io ch)) = tag_up io ch"
    "tag_up io (snd (cio_down io ch)) = tag_up io ch" "tag_up io (cio_lock io ch) = tag_up io ch"
    "tag_up io (cio_tx_rollback io ch) = tag_up io ch" "tag_up io (snd (cio_write io ch b)) = tag_up io ch"
  using assms by (simp_all add: meta_kept_def)

section \<open>The invariant\<close>

definition chunk_table :: "int \<Rightarrow> input_state \<Rightarrow> flb_hash_table option" where
  "chunk_table event_type i =
     (if event_type = FLB_INPUT_LOGS then Some (in_ht_log_chunks i)
      else if event_type = FLB_INPUT_METRICS then Some (in_ht_metric_chunks i)
      else if event_type = FLB_INPUT_TRACES then Some (in_ht_trace_chunks i)
      else None)"

definition filed :: "'c cio_api \<Rightarrow> 'c flb_engine \<Rightarrow> nat \<Rightarrow> int \<Rightarrow> cstr \<Rightarrow> hval \<Rightarrow> bool" where
  "filed io s n et k v \<longleftrightarrow> (\<exists>a\<in>dom (e_chunk_heap s). v = HRef a \<and> ic_in (ic s a) = n \<and> ic_event_type (ic s a) = et \<and>
     tag_up io (ic_chunk (ic s a)) = Some k)"

definition table_ok :: "'c cio_api \<Rightarrow> (cstr \<Rightarrow> 64 word) \<Rightarrow> 'c flb_engine \<Rightarrow> nat \<Rightarrow> int \<Rightarrow> flb_hash_table \<Rightarrow> bool" where
  "table_ok io H s n et ht \<longleftrightarrow> ht_plain H ht \<and> (\<forall>k v. ht_abs ht k = Some v \<longrightarrow> filed io s n et k v)"

definition tables_ok :: "'c cio_api \<Rightarrow> (cstr \<Rightarrow> 64 word) \<Rightarrow> 'c flb_engine \<Rightarrow> bool" where
  "tables_ok io H s \<longleftrightarrow> (\<forall>n<length (e_inputs s). \<forall>et ht. chunk_table et (e_inputs s ! n) = Some ht \<longrightarrow> table_ok io H s n et ht)"

text \<open>What the tables depend on.\<close>

definition tables_frame :: "'c cio_api \<Rightarrow> 'c flb_engine \<Rightarrow> 'c flb_engine \<Rightarrow> bool" where
  "tables_frame io s s' \<longleftrightarrow> length (e_inputs s') = length (e_inputs s) \<and>
     (\<forall>n<length (e_inputs s). \<forall>et. chunk_table et (e_inputs s' ! n) = chunk_table et (e_inputs s ! n)) \<and>
     (\<forall>a\<in>dom (e_chunk_heap s). a \<in> dom (e_chunk_heap s') \<and> ic_in (ic s' a) = ic_in (ic s a) \<and>
        ic_event_type (ic s' a) = ic_event_type (ic s a) \<and> tag_up io (ic_chunk (ic s' a)) = tag_up io (ic_chunk (ic s a)))"

lemma tables_frame_refl [simp]: "tables_frame io s s"
  by (simp add: tables_frame_def)

lemma tables_frame_trans: "tables_frame io s s' \<Longrightarrow> tables_frame io s' s'' \<Longrightarrow> tables_frame io s s''"
  by (auto simp: tables_frame_def)

lemma filed_frame: "tables_frame io s s' \<Longrightarrow> filed io s n et k v \<Longrightarrow> filed io s' n et k v"
  unfolding filed_def tables_frame_def by (metis (no_types, lifting))

lemma tables_ok_frame: "tables_ok io H s \<Longrightarrow> tables_frame io s s' \<Longrightarrow> tables_ok io H s'"
  using filed_frame [of io s s'] by (auto simp: tables_ok_def table_ok_def tables_frame_def)

text \<open>Operations that touch neither the chunks nor the tables.\<close>

lemma tables_frame_same:
  assumes "e_chunk_heap s' = e_chunk_heap s" "e_inputs s' = e_inputs s"
  shows "tables_frame io s s'"
proof -
  have "ic s' = ic s" using assms(1) by (simp add: ic_def fun_eq_iff)
  then show ?thesis using assms by (simp add: tables_frame_def)
qed

lemma tables_frame_in_upd:
  assumes "\<And>i et. chunk_table et (f i) = chunk_table et i"
  shows "tables_frame io s (in_upd n f s)"
proof (cases "n < length (e_inputs s)")
  case True
  then show ?thesis using assms by (auto simp: tables_frame_def)
next
  case False
  then have "e_inputs (in_upd n f s) = e_inputs s" by (simp add: in_upd_def list_update_beyond)
  moreover have "e_chunk_heap (in_upd n f s) = e_chunk_heap s" by simp
  ultimately show ?thesis using tables_frame_same by blast
qed

lemma tables_frame_ic_upd:
  assumes "a \<in> dom (e_chunk_heap s)" "\<And>c. ic_in (f c) = ic_in c" "\<And>c. ic_event_type (f c) = ic_event_type c"
    "tag_up io (ic_chunk (f (ic s a))) = tag_up io (ic_chunk (ic s a))"
  shows "tables_frame io s (ic_upd a f s)"
  using assms by (auto simp: tables_frame_def)

lemma tables_frame_chunk_call:
  assumes "a \<in> dom (e_chunk_heap s)" "\<And>ch. tag_up io (snd (f ch)) = tag_up io ch"
  shows "tables_frame io s (snd (chunk_call f a s))"
  using assms by (auto simp: chunk_call_def case_prod_beta intro!: tables_frame_ic_upd)

lemma chunk_table_fields [simp]:
  "chunk_table et (i\<lparr>in_tasks := x\<rparr>) = chunk_table et i" "chunk_table et (i\<lparr>in_chunks := y\<rparr>) = chunk_table et i"
  "chunk_table et (i\<lparr>in_mem_chunks_size := z\<rparr>) = chunk_table et i" "chunk_table et (i\<lparr>in_mem_buf_paused := b\<rparr>) = chunk_table et i"
  "chunk_table et (i\<lparr>in_storage_buf_paused := b\<rparr>) = chunk_table et i" "chunk_table et (i\<lparr>in_resumes := r\<rparr>) = chunk_table et i"
  "chunk_table et (i\<lparr>in_pauses := r\<rparr>) = chunk_table et i" "chunk_table et (i\<lparr>in_cmt_records := z\<rparr>) = chunk_table et i"
  "chunk_table et (i\<lparr>in_cmt_bytes := z\<rparr>) = chunk_table et i" "chunk_table et (i\<lparr>in_cmt_memrb_dropped_chunks := z\<rparr>) = chunk_table et i"
  "chunk_table et (i\<lparr>in_cmt_memrb_dropped_bytes := z\<rparr>) = chunk_table et i"
  by (simp_all add: chunk_table_def)

lemma chunk_table_of_type: "chunk_table et (ht_of_type et' f i) = (if et = et' then map_option f (chunk_table et i) else chunk_table et i)"
  by (auto simp: chunk_table_def ht_of_type_def FLB_INPUT_LOGS_def FLB_INPUT_METRICS_def FLB_INPUT_TRACES_def)

lemma tables_frame_set_limits: "tables_frame io s (flb_input_chunk_set_limits io' n s)"
  unfolding flb_input_chunk_set_limits_def Let_def by (rule tables_frame_in_upd) (simp add: in_resume_def)

lemma tables_frame_protect: "tables_frame io s (snd (flb_input_chunk_protect io' n s))"
  by (auto simp: flb_input_chunk_protect_def Let_def flb_input_pause_def intro!: tables_frame_in_upd)

lemma tables_frame_update_outputs:
  assumes "a \<in> dom (e_chunk_heap s)"
  shows "tables_frame io s (flb_input_chunk_update_output_instances a m s)"
  using assms by (auto simp: flb_input_chunk_update_output_instances_def Let_def tables_frame_def ic_def)

section \<open>Destroying a chunk\<close>

lemma del_ptr_cases:
  assumes "ht_inv H ht"
  obtains b where "b \<in> set (ht_entries ht)" "e_val (ent ht b) = p"
      "flb_hash_table_del_ptr H ht k (int (length k)) p = (0, flb_hash_table_entry_free ht b)"
  | "flb_hash_table_del_ptr H ht k (int (length k)) p = (-1, ht)" "ht_abs ht k \<noteq> Some p"
proof (cases "List.find (\<lambda>a. strncmp_eq (length k) (e_key (ent ht a)) k \<and> e_val (ent ht a) = p) (c_chains (ht_table ht ! ht_bucket H ht k))")
  case None
  have ch: "c_chains (ht_table ht ! ht_bucket H ht k) = filter (\<lambda>a. e_table (ent ht a) = ht_bucket H ht k) (ht_entries ht)"
    by (rule ht_inv_chain(1) [OF assms ht_bucket_less [OF ht_invD(1) [OF assms]]])
  have "ht_abs ht k \<noteq> Some p"
  proof
    assume "ht_abs ht k = Some p"
    then obtain a where a: "a \<in> set (ht_entries ht)" "e_key (ent ht a) = k" "e_val (ent ht a) = p"
      using ht_abs_Some_iff [OF assms] by blast
    then have "strncmp_eq (length k) (e_key (ent ht a)) k"
      using strncmp_eq_nul_free [of k k "length k"] ht_inv_entry(4) [OF assms a(1)] by simp
    moreover have "a \<in> set (c_chains (ht_table ht ! ht_bucket H ht k))"
      unfolding ch using a ht_inv_entry(1) [OF assms a(1)] by simp
    ultimately show False using None a by (auto simp: find_None_iff)
  qed
  then show ?thesis using that(2) None by (simp add: flb_hash_table_del_ptr_def)
next
  case (Some b)
  have ch: "c_chains (ht_table ht ! ht_bucket H ht k) = filter (\<lambda>a. e_table (ent ht a) = ht_bucket H ht k) (ht_entries ht)"
    by (rule ht_inv_chain(1) [OF assms ht_bucket_less [OF ht_invD(1) [OF assms]]])
  have "b \<in> set (c_chains (ht_table ht ! ht_bucket H ht k))" "e_val (ent ht b) = p" using Some by (auto dest: find_Some_in)
  then show ?thesis using that(1) [of b] Some ch by (simp add: flb_hash_table_del_ptr_def)
qed

text \<open>A chunk is taken out of the table it is filed in, and nothing else is.\<close>

lemma del_ptr_table:
  assumes "table_ok io H s n et ht" "tag_up io (ic_chunk (ic s a)) = Some k"
    and ht': "ht' = snd (flb_hash_table_del_ptr H ht k (int (length k)) (HRef a))"
  shows "ht_plain H ht'" "ht_abs ht' j = Some v \<Longrightarrow> ht_abs ht j = Some v \<and> v \<noteq> HRef a"
proof -
  have inv: "ht_inv H ht" "max_entries ht \<le> 0" "cache_ttl ht \<le> 0" and e: "\<And>j v. ht_abs ht j = Some v \<Longrightarrow> filed io s n et j v"
    using assms(1) by (auto simp: table_ok_def ht_plain_def)
  have key: "j = k" if "ht_abs ht j = Some (HRef a)" for j using e [OF that] assms(2) by (auto simp: filed_def)
  have "ht_plain H ht' \<and> (\<forall>j v. ht_abs ht' j = Some v \<longrightarrow> ht_abs ht j = Some v \<and> v \<noteq> HRef a)"
    using inv(1)
  proof (cases rule: del_ptr_cases [where k = k and p = "HRef a"])
    case (1 b)
    have "e_key (ent ht b) = k" using key ht_abs_Some_iff [OF inv(1)] 1(1,2) by blast
    then have k: "e_key (ent ht b) = k" .
    have f: "max_entries (flb_hash_table_entry_free ht b) = max_entries ht" "cache_ttl (flb_hash_table_entry_free ht b) = cache_ttl ht"
      by (simp_all add: flb_hash_table_entry_free_def Let_def)
    have h: "ht' = flb_hash_table_entry_free ht b" using 1(3) ht' by simp
    have "ht_abs ht' = (ht_abs ht)(k := None)" using entry_free_abs [OF inv(1) 1(1)] k h by simp
    then have "ht_abs ht j = Some v \<and> v \<noteq> HRef a" if "ht_abs ht' j = Some v" for j v
      using that key [of j] by (auto split: if_splits)
    then show ?thesis using entry_free_inv [OF inv(1) 1(1)] inv(2,3) h f by (simp add: ht_plain_def)
  next
    case 2
    then have "ht' = ht" using ht' by simp
    then show ?thesis using inv key 2(2) by (auto simp: ht_plain_def)
  qed
  then show "ht_plain H ht'" "ht_abs ht' j = Some v \<Longrightarrow> ht_abs ht j = Some v \<and> v \<noteq> HRef a" by blast+
qed

lemma tables_ok_release:
  assumes "tables_ok io H s" "a \<in> dom (e_chunk_heap s)" "ic_in (ic s a) < length (e_inputs s)"
    and tag: "tag_up io (ic_chunk (ic s a)) = tag"
  shows "tables_ok io H (chunk_release H a True tag s)"
proof -
  define m et0 s' where "m = ic_in (ic s a)" and "et0 = ic_event_type (ic s a)" and "s' = chunk_release H a True tag s"
  define f where "f = (\<lambda>ht. case tag of Some k \<Rightarrow> snd (flb_hash_table_del_ptr H ht k (int (length k)) (HRef a)) | None \<Rightarrow> ht)"
  have heap: "dom (e_chunk_heap s') = dom (e_chunk_heap s) - {a}" "\<And>b. b \<noteq> a \<Longrightarrow> ic s' b = ic s b" "length (e_inputs s') = length (e_inputs s)"
    by (auto simp: s'_def chunk_release_def Let_def ic_def split: option.splits)
  have tbl: "chunk_table et (e_inputs s' ! n) = (if n = m \<and> et = et0 then map_option f (chunk_table et (e_inputs s ! n)) else chunk_table et (e_inputs s ! n))"
    if "n < length (e_inputs s)" for n et
    using that assms(3) by (auto simp: s'_def chunk_release_def Let_def m_def et0_def f_def chunk_table_of_type option.map_ident split: option.splits)
  have keep: "filed io s' n et k v" if "filed io s n et k v" "v \<noteq> HRef a" for n et k v
    using that heap by (auto simp: filed_def)
  show ?thesis
    unfolding tables_ok_def s'_def [symmetric]
  proof (intro allI impI)
    fix n et ht' assume n: "n < length (e_inputs s')" and t: "chunk_table et (e_inputs s' ! n) = Some ht'"
    have n0: "n < length (e_inputs s)" using n heap(3) by simp
    show "table_ok io H s' n et ht'"
    proof (cases "n = m \<and> et = et0 \<and> tag \<noteq> None")
      case True
      then obtain ht k where ht: "chunk_table et (e_inputs s ! n) = Some ht" "ht' = f ht" "tag = Some k" using t tbl [OF n0] by auto
      have ok: "table_ok io H s n et ht" using assms(1) n0 ht(1) by (simp add: tables_ok_def)
      have "ht' = snd (flb_hash_table_del_ptr H ht k (int (length k)) (HRef a))" by (simp add: ht f_def)
      note d = del_ptr_table [OF ok tag [unfolded ht(3)] this]
      then show ?thesis using d ok keep by (simp add: table_ok_def)
    next
      case False
      then have ht: "chunk_table et (e_inputs s ! n) = Some ht'"
        using t tbl [OF n0, of et] by (auto simp: f_def option.map_ident split: if_splits option.splits)
      have ok: "table_ok io H s n et ht'" using assms(1) n0 ht by (simp add: tables_ok_def)
      have "v \<noteq> HRef a" if "filed io s n et k v" for k v
        using that False tag by (auto simp: filed_def m_def et0_def)
      then show ?thesis using ok keep unfolding table_ok_def by blast
    qed
  qed
qed

lemma tables_ok_chunk_destroy:
  assumes "meta_kept io" "tables_ok io H s" "a \<in> dom (e_chunk_heap s)" "ic_in (ic s a) < length (e_inputs s)"
  shows "tables_ok io H (flb_input_chunk_destroy io H a True s)"
proof -
  note mk = meta_keptD [OF assms(1)]
  define s1 where "s1 = (if \<not> flb_input_chunk_is_up io s a then snd (flb_input_chunk_set_up io a s) else s)"
  define s2 where "s2 = chunk_uncount io a s1"
  define s3 where "s3 = (if \<not> flb_input_chunk_is_up io s2 a then snd (chunk_call (cio_up_force io) a s2) else s2)"
  have 1: "tables_frame io s s1" "dom (e_chunk_heap s1) = dom (e_chunk_heap s)" "ic_in (ic s1 a) = ic_in (ic s a)" "e_inputs s1 = e_inputs s"
    using tables_frame_chunk_call [OF assms(3), of io "cio_up io"] mk(1) assms(3)
    by (auto simp: s1_def flb_input_chunk_set_up_def chunk_call_def case_prod_beta)
  have 2: "tables_frame io s1 s2" "e_chunk_heap s2 = e_chunk_heap s1" "ic s2 = ic s1" "e_inputs s2 = e_inputs s1"
    by (auto simp: s2_def chunk_uncount_def Let_def intro!: tables_frame_same)
  have d2: "a \<in> dom (e_chunk_heap s2)" using 1(2) 2(2) assms(3) by simp
  have 3: "tables_frame io s2 s3" "a \<in> dom (e_chunk_heap s3)" "ic_in (ic s3 a) = ic_in (ic s2 a)" "e_inputs s3 = e_inputs s2"
    "ic_chunk (ic s3 a) = brought_up io (ic_chunk (ic s2 a))"
    using tables_frame_chunk_call [OF d2, of io "cio_up_force io"] mk(2) d2
    by (auto simp: s3_def chunk_call_def case_prod_beta brought_up_def flb_input_chunk_is_up_def)
  have ok: "tables_ok io H s3" using tables_ok_frame [OF assms(2)] tables_frame_trans 1(1) 2(1) 3(1) by blast
  have t2: "tag_up io (ic_chunk (ic s2 a)) = snd (flb_input_chunk_get_tag io (ic_chunk (ic s3 a)))" by (simp add: tag_up_def 3(5))
  have "tag_up io (ic_chunk (ic s3 a)) = tag_up io (ic_chunk (ic s2 a))" using 3(1) d2 by (simp add: tables_frame_def)
  then have tag: "tag_up io (ic_chunk (ic s3 a)) = snd (flb_input_chunk_get_tag io (ic_chunk (ic s3 a)))" using t2 by simp
  have "ic_in (ic s3 a) < length (e_inputs s3)" using assms(4) 1(3,4) 2(3,4) 3(3,4) by simp
  from tables_ok_release [OF ok 3(2) this tag] show ?thesis
    unfolding flb_input_chunk_destroy_def Let_def s1_def [symmetric] s2_def [symmetric] s3_def [symmetric] by (simp add: case_prod_beta)
qed

lemma retries_destroy_tables: "e_chunk_heap (fold flb_task_retry_destroy rs s) = e_chunk_heap s \<and> e_inputs (fold flb_task_retry_destroy rs s) = e_inputs s"
  by (induction rs arbitrary: s) (simp_all add: flb_task_retry_destroy_def Let_def)

lemma tables_ok_task_destroy:
  assumes "meta_kept io" "tables_ok io H s" "tk_ic (tk s t) \<in> dom (e_chunk_heap s)" "ic_in (ic s (tk_ic (tk s t))) < length (e_inputs s)"
  shows "tables_ok io H (flb_task_destroy io H t True s)"
proof -
  define s3 where "s3 = in_upd (tk_i_ins (tk s t)) (\<lambda>i. i\<lparr>in_tasks := mk_list_del t (in_tasks i)\<rparr>)
    (tk_upd t (\<lambda>x. x\<lparr>tk_routes := []\<rparr>) (map_free_task_id (tk_id (tk s t)) s))"
  define s4 where "s4 = flb_input_chunk_destroy io H (tk_ic (tk s t)) True s3"
  have "tables_frame io s (tk_upd t (\<lambda>x. x\<lparr>tk_routes := []\<rparr>) (map_free_task_id (tk_id (tk s t)) s))"
    by (rule tables_frame_same) (simp_all add: map_free_task_id_def)
  then have "tables_frame io s s3" unfolding s3_def by (rule tables_frame_trans) (rule tables_frame_in_upd, simp)
  from tables_ok_frame [OF assms(2) this] have "tables_ok io H s4"
    unfolding s4_def by (rule tables_ok_chunk_destroy [OF assms(1)]) (use assms(3,4) in \<open>simp_all add: s3_def map_free_task_id_def\<close>)
  moreover define s5 where "s5 = fold flb_task_retry_destroy (tk_retries (tk s4 t)) s4"
  ultimately have "tables_ok io H s5" using tables_frame_same retries_destroy_tables by (metis tables_ok_frame)
  then have "tables_ok io H (flb_input_chunk_set_limits io (tk_i_ins (tk s5 t)) s5)" by (rule tables_ok_frame [OF _ tables_frame_set_limits])
  then have "tables_ok io H ((flb_input_chunk_set_limits io (tk_i_ins (tk s5 t)) s5)
      \<lparr>e_task_heap := (e_task_heap (flb_input_chunk_set_limits io (tk_i_ins (tk s5 t)) s5))(t := None)\<rparr>)"
    by (rule tables_ok_frame [OF _ tables_frame_same]) simp_all
  moreover have "tk_ic (tk s3 t) = tk_ic (tk s t)" by (simp add: s3_def map_free_task_id_def)
  ultimately show ?thesis
    unfolding flb_task_destroy_def Let_def s5_def s4_def s3_def by (simp add: map_free_task_id_def)
qed

end
