(* ===== verification/Flb_Chunk_Space.thy ===== *)
theory Flb_Chunk_Space
  imports Flb_Chunk_Tables Flb_Engine_Safety
begin

text \<open>
  The part of \<^verbatim>\<open>src/flb_input_chunk.c\<close> that makes room: when the chunks of an output would exceed
  its limit on disk, the oldest chunks routed to it are dropped, first those brought back from disk, then
  those still queued on disk, then those of the input that has the new data, then those of the other inputs;
  and when an input that keeps a ring buffer in memory is full, its oldest chunks are destroyed.

  \<open>mp_count\<close> is \<^verbatim>\<open>flb_mp_count\<close> on the content of a chunk.
\<close>

section \<open>Dropping the route of one chunk\<close>

definition FLB_INPUT_CHUNK_RELEASE_SCOPE_LOCAL :: int where "FLB_INPUT_CHUNK_RELEASE_SCOPE_LOCAL = 0"
definition FLB_INPUT_CHUNK_RELEASE_SCOPE_GLOBAL :: int where "FLB_INPUT_CHUNK_RELEASE_SCOPE_GLOBAL = 1"

definition get_input_chunk_record_count ::
  "'c cio_api \<Rightarrow> (cstr option \<Rightarrow> int) \<Rightarrow> addr \<Rightarrow> 'c flb_engine \<Rightarrow> int \<times> 'c flb_engine" where
  "get_input_chunk_record_count io mp_count a s =
     (let set_down = (\<not> flb_input_chunk_is_up io s a);
          (ret, s1) = (if set_down then chunk_call (cio_up_force io) a s else (0, s))
      in if set_down \<and> ret = -1 then (-1, s1)
         else let n = (case cio_get_content io (ic_chunk (ic s1 a)) of None \<Rightarrow> -1 | Some buf \<Rightarrow> mp_count buf)
              in (n, if set_down then snd (chunk_call (cio_down io) a s1) else s1))"

definition fs_sub :: "int \<Rightarrow> int \<Rightarrow> 'c flb_engine \<Rightarrow> 'c flb_engine" where
  "fs_sub out n s = s\<lparr>e_outputs := map (\<lambda>x. if o_id x = out then x\<lparr>o_fs_chunks_size := o_fs_chunks_size x - n\<rparr> else x) (e_outputs s)\<rparr>"

text \<open>The bit is cleared only after it was read, so that its number is in range.\<close>

definition route_clear :: "addr \<Rightarrow> int \<Rightarrow> 'c flb_engine \<Rightarrow> 'c flb_engine" where
  "route_clear a out s = ic_upd a (\<lambda>c. c\<lparr>ic_routes_mask :=
     (case flb_routes_mask_clear_bit (ic_routes_mask c) out of None \<Rightarrow> ic_routes_mask c | Some m \<Rightarrow> m)\<rparr>) s"

text \<open>In the local scope the chunk loses its route to the output and the output the bytes of the chunk.\<close>

definition turn_clear :: "'c cio_api \<Rightarrow> int \<Rightarrow> int \<Rightarrow> addr \<Rightarrow> 'c flb_engine \<Rightarrow> 'c flb_engine" where
  "turn_clear io out scope a s =
     (if scope = FLB_INPUT_CHUNK_RELEASE_SCOPE_LOCAL
      then fs_sub out (flb_input_chunk_get_real_size io (ic s a)) (route_clear a out s) else s)"

text \<open>Destroying the chunk, with its task when nobody uses it; the flag tells whether it was destroyed.\<close>

definition turn_destroy :: "'c cio_api \<Rightarrow> (cstr \<Rightarrow> 64 word) \<Rightarrow> addr \<Rightarrow> 'c flb_engine \<Rightarrow> bool \<times> 'c flb_engine" where
  "turn_destroy io H a s =
     (case ic_task (ic s a) of
        Some t \<Rightarrow> if tk_users (tk s t) = 0 then (True, flb_task_destroy io H t True s) else (False, s)
      | None \<Rightarrow> (True, flb_input_chunk_destroy io H a True s))"

text \<open>One turn of the loop of \<^verbatim>\<open>flb_input_chunk_release_space\<close>. The first component is \<open>None\<close> for
  \<^verbatim>\<open>continue\<close>, else the bytes added to the released space. The records of the chunk are counted as
  dropped only when the task of the chunk did not give their number.\<close>

definition release_chunk ::
  "'c cio_api \<Rightarrow> (cstr \<Rightarrow> 64 word) \<Rightarrow> (cstr option \<Rightarrow> int) \<Rightarrow> addr \<Rightarrow> int \<Rightarrow> int \<Rightarrow> addr \<Rightarrow> 'c disp \<Rightarrow> int option \<times> 'c disp" where
  "release_chunk io H mp_count new_ic out scope a d =
     (if \<not> route_bit (ic_routes_mask (ic (d_eng d) a)) out then (None, d)
      else if \<not> flb_input_chunk_safe_delete (d_eng d) new_ic a out then (None, d)
      else case flb_input_chunk_drop_task_route (ic_task (ic (d_eng d) a)) (Some out) (d_eng d) of ((ok, dropped), s1) \<Rightarrow>
        if \<not> ok then (None, d\<lparr>d_eng := s1\<rparr>)
        else let chunk_size = flb_input_chunk_get_real_size io (ic s1 a);
                 s2 = turn_clear io out scope a s1;
                 destroy = (if scope = FLB_INPUT_CHUNK_RELEASE_SCOPE_LOCAL then flb_routes_mask_is_empty (ic_routes_mask (ic s2 a))
                            else scope = FLB_INPUT_CHUNK_RELEASE_SCOPE_GLOBAL)
             in case (if dropped = 0 then get_input_chunk_record_count io mp_count a s2 else (-1, s2)) of (n, s3) \<Rightarrow>
                case (if destroy then turn_destroy io H a s3 else (False, s3)) of (destroyed, s4) \<Rightarrow>
                  (Some (if scope = FLB_INPUT_CHUNK_RELEASE_SCOPE_LOCAL \<or> destroyed then chunk_size else 0),
                   (if n = -1 then d else metrics_upd out (\<lambda>m. m\<lparr>mt_dropped_records := mt_dropped_records m + n\<rparr>) d)\<lparr>d_eng := s4\<rparr>))"

fun release_loop ::
  "'c cio_api \<Rightarrow> (cstr \<Rightarrow> 64 word) \<Rightarrow> (cstr option \<Rightarrow> int) \<Rightarrow> addr \<Rightarrow> int \<Rightarrow> int \<Rightarrow> int \<Rightarrow> addr list \<Rightarrow> int \<Rightarrow> 'c disp \<Rightarrow> int \<times> 'c disp" where
  "release_loop io H mp_count new_ic out scope req [] released d = (released, d)"
| "release_loop io H mp_count new_ic out scope req (a # as) released d =
     (case release_chunk io H mp_count new_ic out scope a d of
        (None, d1) \<Rightarrow> release_loop io H mp_count new_ic out scope req as released d1
      | (Some n, d1) \<Rightarrow>
          if released + n \<ge> req then (released + n, d1)
          else release_loop io H mp_count new_ic out scope req as (released + n) d1)"

text \<open>The chunks of the input, oldest first. Result: what is still required, and the state.\<close>

definition flb_input_chunk_release_space ::
  "'c cio_api \<Rightarrow> (cstr \<Rightarrow> 64 word) \<Rightarrow> (cstr option \<Rightarrow> int) \<Rightarrow> addr \<Rightarrow> nat \<Rightarrow> int \<Rightarrow> int \<Rightarrow> int \<Rightarrow> 'c disp \<Rightarrow> int \<times> 'c disp" where
  "flb_input_chunk_release_space io H mp_count new_ic n out scope req d =
     (case release_loop io H mp_count new_ic out scope req (in_chunks (e_inputs (d_eng d) ! n)) 0 d of
        (released, d') \<Rightarrow> (req - released, d'))"

section \<open>The sources of space\<close>

fun release_inputs ::
  "'c cio_api \<Rightarrow> (cstr \<Rightarrow> 64 word) \<Rightarrow> (cstr option \<Rightarrow> int) \<Rightarrow> addr \<Rightarrow> nat \<Rightarrow> int \<Rightarrow> nat list \<Rightarrow> int \<Rightarrow> 'c disp \<Rightarrow> int \<times> 'c disp" where
  "release_inputs io H mp_count new_ic own out [] remainder d = (remainder, d)"
| "release_inputs io H mp_count new_ic own out (n # ns) remainder d =
     (case (if n \<noteq> own then flb_input_chunk_release_space io H mp_count new_ic n out FLB_INPUT_CHUNK_RELEASE_SCOPE_LOCAL remainder d
            else (remainder, d)) of (rem1, d1) \<Rightarrow>
        if rem1 \<le> 0 then (rem1, d1) else release_inputs io H mp_count new_ic own out ns rem1 d1)"

text \<open>\<open>sb_in\<close> is the position of the backlog input. Result: the size that could not be released and the
  states of the backlog and of the engine; \<open>None\<close> comes from the backlog.\<close>

definition flb_input_chunk_release_space_compound ::
  "'c cio_api \<Rightarrow> (cstr \<Rightarrow> 64 word) \<Rightarrow> (cstr option \<Rightarrow> int) \<Rightarrow> nat \<Rightarrow> addr \<Rightarrow> int \<Rightarrow> bool \<Rightarrow> 'c flb_sb option \<times> 'c disp
   \<Rightarrow> (int \<times> 'c flb_sb option \<times> 'c disp) option" where
  "flb_input_chunk_release_space_compound io H mp_count sb_in new_ic out release_local st =
     (let d = snd st; own = ic_in (ic (d_eng d) new_ic);
          rem0 = flb_input_chunk_get_real_size io (ic (d_eng d) new_ic);
          (rem1, d1) = (if rem0 > 0
             then flb_input_chunk_release_space io H mp_count new_ic sb_in out FLB_INPUT_CHUNK_RELEASE_SCOPE_GLOBAL rem0 d else (rem0, d))
      in case (if rem1 > 0 then sb_release_output_queue_space io out rem1 (fst st, d_eng d1) else Some (0, rem1, fst st, d_eng d1)) of
           None \<Rightarrow> None
         | Some (result, rem2, ctx, s2) \<Rightarrow>
             (let d2 = d1\<lparr>d_eng := s2\<rparr>;
                  (rem3, d3) = (if release_local \<and> rem2 > 0
                     then flb_input_chunk_release_space io H mp_count new_ic own out FLB_INPUT_CHUNK_RELEASE_SCOPE_LOCAL rem2 d2 else (rem2, d2));
                  (rem4, d4) = (if rem3 > 0
                     then release_inputs io H mp_count new_ic own out [0..<length (e_inputs (d_eng d3))] rem3 d3 else (rem3, d3))
              in Some (if rem4 < 0 then 0 else rem4, ctx, d4)))"

text \<open>The result is the number of outputs whose space could not be released, which the code only logs; it
  returns zero in every case.\<close>

fun find_space_loop ::
  "'c cio_api \<Rightarrow> (cstr \<Rightarrow> 64 word) \<Rightarrow> (cstr option \<Rightarrow> int) \<Rightarrow> nat \<Rightarrow> addr \<Rightarrow> 32 word \<Rightarrow> out_state list \<Rightarrow> nat \<Rightarrow> 'c flb_sb option \<times> 'c disp
   \<Rightarrow> (nat \<times> 'c flb_sb option \<times> 'c disp) option" where
  "find_space_loop io H mp_count sb_in new_ic overlimit [] cnt st = Some (cnt, st)"
| "find_space_loop io H mp_count sb_in new_ic overlimit (x # xs) cnt st =
     (if o_total_limit_size x = -1 \<or> overlimit_bit (o_id x) AND overlimit = 0 \<or>
         \<not> route_bit (ic_routes_mask (ic (d_eng (snd st)) new_ic)) (o_id x)
      then find_space_loop io H mp_count sb_in new_ic overlimit xs cnt st
      else case flb_input_chunk_release_space_compound io H mp_count sb_in new_ic (o_id x) True st of
        None \<Rightarrow> None
      | Some (requirement, st1) \<Rightarrow>
          find_space_loop io H mp_count sb_in new_ic overlimit xs (if requirement \<noteq> 0 then cnt + 1 else cnt) st1)"

definition flb_input_chunk_find_space_new_data ::
  "'c cio_api \<Rightarrow> (cstr \<Rightarrow> 64 word) \<Rightarrow> (cstr option \<Rightarrow> int) \<Rightarrow> nat \<Rightarrow> addr \<Rightarrow> 32 word \<Rightarrow> 'c flb_sb option \<times> 'c disp
   \<Rightarrow> (nat \<times> 'c flb_sb option \<times> 'c disp) option" where
  "flb_input_chunk_find_space_new_data io H mp_count sb_in new_ic overlimit st =
     find_space_loop io H mp_count sb_in new_ic overlimit (e_outputs (d_eng (snd st))) 0 st"

definition CIO_STORE_FS :: int where "CIO_STORE_FS = 0"

definition flb_input_chunk_place_new_chunk ::
  "'c cio_api \<Rightarrow> (cstr \<Rightarrow> 64 word) \<Rightarrow> (cstr option \<Rightarrow> int) \<Rightarrow> nat \<Rightarrow> addr \<Rightarrow> int \<Rightarrow> 'c flb_sb option \<times> 'c disp
   \<Rightarrow> (bool \<times> 'c flb_sb option \<times> 'c disp) option" where
  "flb_input_chunk_place_new_chunk io H mp_count sb_in a chunk_size st =
     (let s = d_eng (snd st); overlimit = flb_input_chunk_has_overlimit_routes s a chunk_size in
      case (if in_storage_type (e_inputs s ! ic_in (ic s a)) = CIO_STORE_FS \<and> overlimit \<noteq> 0
            then flb_input_chunk_find_space_new_data io H mp_count sb_in a overlimit st else Some (0, st)) of
        None \<Rightarrow> None
      | Some (cnt, st1) \<Rightarrow> Some (\<not> flb_routes_mask_is_empty (ic_routes_mask (ic (d_eng (snd st1)) a)), st1))"

section \<open>The ring buffer in memory\<close>

text \<open>\<^verbatim>\<open>released_space >= required_space\<close> compares a signed with an unsigned number: the signed one is
  converted.\<close>

definition to_size :: "int \<Rightarrow> int" where "to_size n = n mod 2 ^ 64"

fun memrb_loop ::
  "'c cio_api \<Rightarrow> (cstr \<Rightarrow> 64 word) \<Rightarrow> int \<Rightarrow> addr list \<Rightarrow> int \<Rightarrow> int \<Rightarrow> 'c flb_engine \<Rightarrow> int \<times> int \<times> 'c flb_engine" where
  "memrb_loop io H req [] released removed s = (released, removed, s)"
| "memrb_loop io H req (a # as) released removed s =
     (if \<not> flb_input_chunk_is_task_safe_delete s (ic_task (ic s a)) then memrb_loop io H req as released removed s
      else let chunk_size = flb_input_chunk_get_real_size io (ic s a);
               (gone, s1) = turn_destroy io H a s;
               (released, removed) = (if gone then (released + chunk_size, removed + 1) else (released, removed))
           in if to_size released \<ge> req then (released, removed, s1) else memrb_loop io H req as released removed s1)"

text \<open>Results: the return value, the dropped chunks, the dropped bytes, the state.\<close>

definition memrb_input_chunk_release_space ::
  "'c cio_api \<Rightarrow> (cstr \<Rightarrow> 64 word) \<Rightarrow> nat \<Rightarrow> int \<Rightarrow> 'c flb_engine \<Rightarrow> int \<times> int \<times> int \<times> 'c flb_engine" where
  "memrb_input_chunk_release_space io H n required_space s =
     (case memrb_loop io H required_space (in_chunks (e_inputs s ! n)) 0 0 s of (released, removed, s') \<Rightarrow>
        (if to_size released \<ge> required_space then 0 else -1, removed, to_size released, s'))"

section \<open>The pieces keep the invariant of the engine\<close>

lemma route_set_outs: "map tr_out (route_set o_ins st rs) = map tr_out rs"
  by (induction rs) auto

lemma disp_route_status_any:
  assumes "disp_inv H K d" "live (d_eng d) t"
  shows "disp_inv H K (eng_upd (flb_task_set_route_status t out st) d)"
proof (rule disp_inv_mono [OF assms(1)])
  show s: "same_eng (d_eng d) (d_eng (eng_upd (flb_task_set_route_status t out st) d))"
    using assms(2) by (simp add: flb_task_set_route_status_def same_eng_tk_upd)
  show "refs_ok H (eng_upd (flb_task_set_route_status t out st) d)" by (rule refs_ok_same [OF disp_invD(2) [OF assms(1)] s]) simp_all
qed (auto simp: flb_task_set_route_status_def tok_def route_set_outs split: if_splits)

lemma same_eng_fs_sub: "same_eng s (fs_sub out n s)"
  unfolding fs_sub_def by (rule same_eng_outputs) simp

lemma same_eng_route_clear: "a \<in> dom (e_chunk_heap s) \<Longrightarrow> same_eng s (route_clear a out s)"
  unfolding route_clear_def by (rule same_eng_ic_upd) simp_all

lemma ic_chunk_twice [simp]:
  "ic_upd a (\<lambda>c. c\<lparr>ic_chunk := y\<rparr>) (ic_upd a (\<lambda>c. c\<lparr>ic_chunk := x\<rparr>) s) = ic_upd a (\<lambda>c. c\<lparr>ic_chunk := y\<rparr>) s"
  by (simp add: ic_upd_def ic_def)

lemma ic_chunk_same: "a \<in> dom (e_chunk_heap s) \<Longrightarrow> ic_upd a (\<lambda>c. c\<lparr>ic_chunk := ic_chunk (ic s a)\<rparr>) s = s"
  by (auto simp: ic_upd_def ic_def fun_upd_idem)

text \<open>A chunk without a task can be destroyed.\<close>

lemma eng_inv_chunk_destroy:
  assumes "eng_inv K s" "c \<in> dom (e_chunk_heap s)" "ic_task (ic s c) = None" "ic_in (ic s c) < length (e_inputs s)"
    and s'_def: "s' = flb_input_chunk_destroy io H c del s"
  shows "eng_inv K s'" "tk s' = tk s" "rt s' = rt s" "out_ids s' = out_ids s"
proof -
  note f = chunk_destroy_fields(1-7) [where io = io and H = H and a = c and del = del and s = s, folded s'_def] and dm = chunk_destroy_heap [OF assms(2), where io = io and H = H and del = del, folded s'_def]
    and l = chunk_destroy_inputs [OF assms(4), where io = io and H = H and del = del, folded s'_def]
  have oi: "map o_id (e_outputs s') = map o_id (e_outputs s)" unfolding s'_def by (rule chunk_destroy_out_ids)
  show tk': "tk s' = tk s" "rt s' = rt s" by (simp_all add: tk_def rt_def f fun_eq_iff)
  show oo: "out_ids s' = out_ids s" unfolding out_ids_def using arg_cong [OF oi, of set] by simp
  have nt: "tk_ic (tk s u) \<noteq> c" if "live s u" for u
    using eng_invD(3) [OF assms(1) that] assms(3) by (auto simp: task_ok_def)
  have "task_ids_ok s'" using eng_invD(1) [OF assms(1)] by (simp add: task_ids_ok_def tk' f)
  moreover have "outs_ok s'" using eng_invD(2) [OF assms(1)] by (simp add: outs_ok_def oo oi)
  moreover have "task_ok s' u" if "live s' u" for u
  proof -
    have u: "live s u" using that by (simp add: f)
    have "ic s' (tk_ic (tk s u)) = ic s (tk_ic (tk s u))" using f(7) nt [OF u] by simp
    then show ?thesis using eng_invD(3) [OF assms(1) u] nt [OF u] that
      unfolding task_ok_def task_linked_def task_retries_ok_def tk' oo f(5) f(6) dm l(2) by simp
  qed
  moreover have "lists_ok s'"
  proof -
    have o: "distinct (in_chunks (e_inputs s ! n))" "\<And>b. b \<in> set (in_chunks (e_inputs s ! n)) \<Longrightarrow> b \<in> dom (e_chunk_heap s) \<and> ic_in (ic s b) = n"
      if "n < length (e_inputs s)" for n using eng_invD(4) [OF assms(1)] that by (simp_all add: lists_ok_def)
    have "distinct (in_chunks (e_inputs s' ! n)) \<and> (\<forall>b\<in>set (in_chunks (e_inputs s' ! n)). b \<in> dom (e_chunk_heap s') \<and> ic_in (ic s' b) = n)"
      if n: "n < length (e_inputs s)" for n
    proof -
      have sub: "set (in_chunks (e_inputs s' ! n)) = set (in_chunks (e_inputs s ! n)) - {c}"
        using o(1) [OF n] o(2) [OF n, of c] by (auto simp: l(1))
      have "b \<in> dom (e_chunk_heap s') \<and> ic_in (ic s' b) = n" if "b \<in> set (in_chunks (e_inputs s' ! n))" for b
      proof -
        have b: "b \<in> set (in_chunks (e_inputs s ! n))" "b \<noteq> c" using that sub by auto
        then show ?thesis using o(2) [OF n b(1)] f(7) [OF b(2)] unfolding dm by simp
      qed
      then show ?thesis using o(1) [OF n] by (auto simp: l(1))
    qed
    then show ?thesis using eng_invD(4) [OF assms(1)] unfolding lists_ok_def tk' f(1,5,6) oo l(2,3) dm by simp
  qed
  moreover have "requests_ok K s'" using eng_invD(5) [OF assms(1)] by (simp add: requests_ok_def tk' f)
  moreover have "links_ok s'"
    unfolding links_ok_def tk' f(1) dm
  proof (intro ballI allI impI)
    fix b t assume b: "b \<in> dom (e_chunk_heap s) - {c}" "ic_task (ic s' b) = Some t"
    then have "ic_task (ic s b) = Some t" using f(7) [of b] by simp
    then show "live s t \<and> tk_ic (tk s t) = b" using eng_invD(9) [OF assms(1)] b(1) unfolding links_ok_def by blast
  qed
  ultimately show "eng_inv K s'" by (simp add: eng_inv_def)
qed

lemma disp_chunk_destroy:
  assumes "disp_inv H K d" "c \<in> dom (e_chunk_heap (d_eng d))" "ic_task (ic (d_eng d) c) = None"
    "ic_in (ic (d_eng d) c) < length (e_inputs (d_eng d))"
  shows "disp_inv H K (eng_upd (flb_input_chunk_destroy io Hf c del) d)"
proof -
  define s s' where "s = d_eng d" and "s' = flb_input_chunk_destroy io Hf c del s"
  note e = eng_inv_chunk_destroy [OF disp_invD(1) [OF assms(1)] assms(2-4), folded s_def, OF s'_def]
  have f: "e_task_heap s' = e_task_heap s" "e_sched s' = e_sched s" by (simp_all add: s'_def chunk_destroy_fields)
  define d' where "d' = eng_upd (flb_input_chunk_destroy io Hf c del) d"
  have ds: "d_eng d' = s'" "d_queues d' = d_queues d" "d_flushes d' = d_flushes d" "d_events d' = d_events d"
    by (simp_all add: d'_def s'_def s_def)
  have t: "tok H d' = tok H d" by (simp add: tok_def fun_eq_iff ds e(2) s_def)
  have "refs_ok H d'" using disp_invD(2) [OF assms(1)] by (simp add: refs_ok_def ds e f s_def)
  moreover have "tokens_ok H K d'" using disp_invD(3) [OF assms(1)] by (simp add: tokens_ok_def t ds e f s_def routes_ok_def)
  ultimately show ?thesis using e(1) by (simp add: disp_inv_def d'_def [symmetric] ds)
qed

lemma disp_task_unused:
  assumes "disp_inv H {#} d" "live (d_eng d) t" "tk_users (tk (d_eng d) t) = 0"
  shows "disp_inv H {#} (eng_upd (flb_task_destroy io Hf t del) d)"
proof -
  have "int (\<Sum>out\<in>out_ids (d_eng d). tok H d t out) \<le> 0"
    using tokens_okD(1) [OF disp_invD(3) [OF assms(1)] assms(2)] assms(3) by simp
  then have "(\<Sum>out\<in>out_ids (d_eng d). tok H d t out) = 0" by linarith
  then have "\<forall>out\<in>out_ids (d_eng d). tok H d t out = 0" by simp
  from disp_task_destroy [OF assms(1,2) this] show ?thesis by simp
qed

section \<open>One turn of the loop\<close>

text \<open>What a turn may change: the chunk it looks at, and the task of that chunk.\<close>

definition out_rest :: "out_state \<Rightarrow> out_state" where "out_rest x = x\<lparr>o_fs_chunks_size := 0\<rparr>"

lemma out_rest_fields: "o_id (out_rest x) = o_id x" "o_fs_backlog_chunks_size (out_rest x) = o_fs_backlog_chunks_size x"
  by (simp_all add: out_rest_def)

lemma out_rest_upd [simp]: "out_rest (x\<lparr>o_fs_chunks_size := n\<rparr>) = out_rest x"
  by (simp add: out_rest_def)

text \<open>The tag and the name of an input never change.\<close>

definition in_conf :: "input_state \<Rightarrow> cstr option \<times> cstr" where "in_conf i = (in_tag i, in_name i)"

lemma in_conf_fields [simp]:
  "in_conf (i\<lparr>in_tasks := x\<rparr>) = in_conf i" "in_conf (i\<lparr>in_chunks := y\<rparr>) = in_conf i" "in_conf (ht_of_type et f i) = in_conf i"
  by (simp_all add: in_conf_def ht_of_type_def)

lemma in_conf_upd:
  assumes "\<And>i. in_conf (f i) = in_conf i"
  shows "map in_conf (e_inputs (in_upd n f s)) = map in_conf (e_inputs s)"
  unfolding in_upd_def using assms by (simp add: map_update) (metis list_update_id map_update)

lemma chunk_destroy_conf: "map in_conf (e_inputs (flb_input_chunk_destroy io H a del s)) = map in_conf (e_inputs s)"
proof -
  have rel: "map in_conf (e_inputs (chunk_release H a del tag x)) = map in_conf (e_inputs x)" for tag and x :: "'a flb_engine"
    by (cases tag) (simp_all add: chunk_release_def Let_def in_conf_upd)
  show ?thesis
    by (simp add: flb_input_chunk_destroy_def Let_def rel flb_input_chunk_set_up_def chunk_call_def chunk_uncount_def case_prod_beta)
qed

lemma task_destroy_conf: "map in_conf (e_inputs (flb_task_destroy io H t del s)) = map in_conf (e_inputs s)"
proof -
  have lim: "map in_conf (e_inputs (flb_input_chunk_set_limits io n x)) = map in_conf (e_inputs x)" for n and x :: "'a flb_engine"
    unfolding flb_input_chunk_set_limits_def Let_def by (rule in_conf_upd) (simp add: in_conf_def in_resume_def)
  show ?thesis
    by (simp add: flb_task_destroy_def Let_def lim retries_destroy_tables chunk_destroy_conf in_conf_upd map_free_task_id_def)
qed

definition turn_frame :: "addr \<Rightarrow> 'c flb_engine \<Rightarrow> 'c flb_engine \<Rightarrow> bool" where
  "turn_frame a s s' \<longleftrightarrow>
     (\<forall>b. b \<noteq> a \<longrightarrow> ic s' b = ic s b) \<and> dom (e_chunk_heap s) - {a} \<subseteq> dom (e_chunk_heap s') \<and> dom (e_chunk_heap s') \<subseteq> dom (e_chunk_heap s) \<and>
     length (e_inputs s') = length (e_inputs s) \<and>
     (\<forall>n<length (e_inputs s). set (in_chunks (e_inputs s ! n)) - {a} \<subseteq> set (in_chunks (e_inputs s' ! n))) \<and>
     (\<forall>n<length (e_inputs s). set (in_chunks (e_inputs s' ! n)) \<subseteq> set (in_chunks (e_inputs s ! n))) \<and>
     map out_rest (e_outputs s') = map out_rest (e_outputs s) \<and>
     (\<forall>u. live s u \<longrightarrow> ic_task (ic s a) \<noteq> Some u \<longrightarrow> live s' u \<and> tk s' u = tk s u) \<and>
     map in_conf (e_inputs s') = map in_conf (e_inputs s)"

lemma turn_frame_refl [simp]: "turn_frame a s s"
  by (simp add: turn_frame_def)

text \<open>Steps that leave the chunk and the tasks where they are.\<close>

lemma turn_frame_step:
  assumes "\<And>b. b \<noteq> a \<Longrightarrow> ic s' b = ic s b" "dom (e_chunk_heap s') = dom (e_chunk_heap s)" "map in_chunks (e_inputs s') = map in_chunks (e_inputs s)"
    "map out_rest (e_outputs s') = map out_rest (e_outputs s)"
    "dom (e_task_heap s') = dom (e_task_heap s)" "\<And>u. ic_task (ic s a) \<noteq> Some u \<Longrightarrow> tk s' u = tk s u"
    "map in_conf (e_inputs s') = map in_conf (e_inputs s)"
  shows "turn_frame a s s'"
proof -
  have len: "length (e_inputs s') = length (e_inputs s)" using assms(3) map_eq_imp_length_eq by blast
  then have "in_chunks (e_inputs s' ! n) = in_chunks (e_inputs s ! n)" if "n < length (e_inputs s)" for n
    using arg_cong [OF assms(3), of "\<lambda>xs. xs ! n"] that by simp
  then show ?thesis using assms len unfolding turn_frame_def by auto
qed

lemma turn_frameD:
  assumes "turn_frame a s s'"
  shows "b \<noteq> a \<Longrightarrow> ic s' b = ic s b" "dom (e_chunk_heap s) - {a} \<subseteq> dom (e_chunk_heap s')"
    "dom (e_chunk_heap s') \<subseteq> dom (e_chunk_heap s)" "length (e_inputs s') = length (e_inputs s)"
    "n < length (e_inputs s) \<Longrightarrow> set (in_chunks (e_inputs s ! n)) - {a} \<subseteq> set (in_chunks (e_inputs s' ! n))"
    "n < length (e_inputs s) \<Longrightarrow> set (in_chunks (e_inputs s' ! n)) \<subseteq> set (in_chunks (e_inputs s ! n))"
    "map out_rest (e_outputs s') = map out_rest (e_outputs s)"
    "live s u \<Longrightarrow> ic_task (ic s a) \<noteq> Some u \<Longrightarrow> live s' u" "live s u \<Longrightarrow> ic_task (ic s a) \<noteq> Some u \<Longrightarrow> tk s' u = tk s u"
    "map in_conf (e_inputs s') = map in_conf (e_inputs s)"
  using assms unfolding turn_frame_def by blast+

lemma turn_frame_trans:
  assumes "turn_frame a s s'" "turn_frame a s' s''" "ic_task (ic s' a) = ic_task (ic s a)"
  shows "turn_frame a s s''"
proof -
  note 1 = turn_frameD [OF assms(1)] and 2 = turn_frameD [OF assms(2)]
  have "set (in_chunks (e_inputs s ! n)) - {a} \<subseteq> set (in_chunks (e_inputs s'' ! n))" if "n < length (e_inputs s)" for n
    using 1(5) [OF that] 2(5) [of n] that 1(4) by auto
  moreover have "set (in_chunks (e_inputs s'' ! n)) \<subseteq> set (in_chunks (e_inputs s ! n))" if "n < length (e_inputs s)" for n
    using order_trans [OF 2(6) [of n] 1(6) [OF that]] that 1(4) by simp
  moreover have "dom (e_chunk_heap s) - {a} \<subseteq> dom (e_chunk_heap s'')"
  proof
    fix x assume "x \<in> dom (e_chunk_heap s) - {a}"
    then have "x \<in> dom (e_chunk_heap s') - {a}" using 1(2) by blast
    then show "x \<in> dom (e_chunk_heap s'')" using 2(2) by blast
  qed
  moreover have "dom (e_chunk_heap s'') \<subseteq> dom (e_chunk_heap s)" by (rule order_trans [OF 2(3) 1(3)])
  moreover have "live s'' u" "tk s'' u = tk s u" if "live s u" "ic_task (ic s a) \<noteq> Some u" for u
    using 1(8,9) [OF that] 2(8,9) [of u] assms(3) that(2) by simp_all
  moreover have "\<forall>b. b \<noteq> a \<longrightarrow> ic s'' b = ic s b" using 1(1) 2(1) by simp
  moreover have "length (e_inputs s'') = length (e_inputs s)"
    "map out_rest (e_outputs s'') = map out_rest (e_outputs s)" "map in_conf (e_inputs s'') = map in_conf (e_inputs s)"
    using 1(4,7,10) 2(4,7,10) by simp_all
  ultimately show ?thesis unfolding turn_frame_def by blast
qed

text \<open>The list of chunks without one of them.\<close>

lemma mk_list_del_bounds: "set (mk_list_del a xs) \<subseteq> set xs" "set xs - {a} \<subseteq> set (mk_list_del a xs)"
proof -
  show "set (mk_list_del a xs) \<subseteq> set xs" by (simp add: mk_list_del_def set_remove1_subset)
  show "set xs - {a} \<subseteq> set (mk_list_del a xs)"
  proof
    fix x assume "x \<in> set xs - {a}"
    then show "x \<in> set (mk_list_del a xs)" by (simp add: mk_list_del_def)
  qed
qed

lemma turn_frame_chunk_destroy:
  assumes "a \<in> dom (e_chunk_heap s)" "ic_in (ic s a) < length (e_inputs s)"
  shows "turn_frame a s (flb_input_chunk_destroy io H a del s)"
proof -
  define s' where "s' = flb_input_chunk_destroy io H a del s"
  have "map out_rest (e_outputs s') = map out_rest (e_outputs s)"
    by (simp add: s'_def chunk_destroy_fields(8) chunk_uncount_outputs)
  moreover have "in_chunks (e_inputs s' ! n) = in_chunks (e_inputs s ! n) \<or> in_chunks (e_inputs s' ! n) = mk_list_del a (in_chunks (e_inputs s ! n))" for n
    using chunk_destroy_inputs(1) [OF assms(2)] by (simp add: s'_def)
  then have "set (in_chunks (e_inputs s ! n)) - {a} \<subseteq> set (in_chunks (e_inputs s' ! n))" "set (in_chunks (e_inputs s' ! n)) \<subseteq> set (in_chunks (e_inputs s ! n))" for n
    using mk_list_del_bounds [where a = a and xs = "in_chunks (e_inputs s ! n)"] by (metis Diff_subset order_refl)+
  moreover have "dom (e_chunk_heap s') = dom (e_chunk_heap s) - {a}" using chunk_destroy_heap [OF assms(1)] by (simp add: s'_def)
  moreover have "tk s' = tk s" by (simp add: s'_def tk_def chunk_destroy_fields fun_eq_iff)
  moreover have "\<forall>b. b \<noteq> a \<longrightarrow> ic s' b = ic s b" "length (e_inputs s') = length (e_inputs s)"
    "e_task_heap s' = e_task_heap s" "map in_conf (e_inputs s') = map in_conf (e_inputs s)"
    by (simp_all add: s'_def chunk_destroy_fields(1,6,7) chunk_destroy_conf)
  ultimately show ?thesis unfolding turn_frame_def s'_def [symmetric] by simp
qed

text \<open>What destroying a task does to the counters is what destroying its chunk does.\<close>

lemma prepared_cong: "ic s' a = ic s a \<Longrightarrow> ic (destroy_prepared io a s') a = ic (destroy_prepared io a s) a"
  by (simp add: destroy_prepared_def flb_input_chunk_set_up_def flb_input_chunk_is_up_def)

lemma task_destroy_outputs:
  "e_outputs (flb_task_destroy io H t del s) =
     map (\<lambda>x. if o_total_limit_size x = -1 then x
       else x\<lparr>o_fs_chunks_size := o_fs_chunks_size x - chunk_bytes io (ic (destroy_prepared io (tk_ic (tk s t)) s) (tk_ic (tk s t))) (o_id x)\<rparr>)
     (e_outputs s)"
proof -
  define s3 where "s3 = in_upd (tk_i_ins (tk s t)) (\<lambda>i. i\<lparr>in_tasks := mk_list_del t (in_tasks i)\<rparr>)
    (tk_upd t (\<lambda>x. x\<lparr>tk_routes := []\<rparr>) (map_free_task_id (tk_id (tk s t)) s))"
  have 3: "ic s3 = ic s" "e_outputs s3 = e_outputs s" "tk_ic (tk s3 t) = tk_ic (tk s t)"
    by (simp_all add: s3_def map_free_task_id_def ic_def fun_eq_iff)
  have "e_outputs (flb_task_destroy io H t del s) = e_outputs (flb_input_chunk_destroy io H (tk_ic (tk s t)) del s3)"
    by (simp add: flb_task_destroy_def Let_def s3_def map_free_task_id_def fold_retry_destroy_frame)
  then show ?thesis
    by (simp add: chunk_destroy_fields(8) chunk_uncount_outputs 3(2) prepared_cong [of s3 "tk_ic (tk s t)" s] 3(1))
qed

lemma turn_frame_task_destroy:
  assumes "eng_inv K s" "live s t" "tk_ic (tk s t) = a" "\<forall>r\<in>set (tk_retries (tk s t)). r \<notin># K"
  shows "turn_frame a s (flb_task_destroy io H t del s)"
proof -
  have lk: "task_linked s t" by (rule eng_invD(7) [OF assms(1,2)])
  define s' where "s' = flb_task_destroy io H t del s"
  note d = task_destroy_spec [OF lk eng_invD(6) [OF assms(1)] s'_def] and f = task_destroy_rest [OF lk s'_def]
  have ta: "ic_task (ic s a) = Some t" using eng_invD(3) [OF assms(1,2)] assms(3) by (simp add: task_ok_def)
  have "set (in_chunks (e_inputs s ! n)) - {a} \<subseteq> set (in_chunks (e_inputs s' ! n))"
    "set (in_chunks (e_inputs s' ! n)) \<subseteq> set (in_chunks (e_inputs s ! n))" if "n < length (e_inputs s)" for n
    using mk_list_del_bounds [where a = a and xs = "in_chunks (e_inputs s ! n)"] f(4) [OF that] assms(3) by auto
  moreover have "map out_rest (e_outputs s') = map out_rest (e_outputs s)"
    by (simp add: s'_def task_destroy_outputs)
  moreover have "live s' u \<and> tk s' u = tk s u" if "live s u" "u \<noteq> t" for u using that d(1) by (simp add: tk_def)
  moreover have "map in_conf (e_inputs s') = map in_conf (e_inputs s)" by (simp add: s'_def task_destroy_conf)
  ultimately show ?thesis using f(1-3) d(5) assms(3) ta unfolding turn_frame_def s'_def [symmetric] by auto
qed

text \<open>What a chunk in the list of an input refers to.\<close>

lemma listed_chunk:
  assumes "eng_inv K s" "n < length (e_inputs s)" "a \<in> set (in_chunks (e_inputs s ! n))"
  shows "a \<in> dom (e_chunk_heap s)" "ic_in (ic s a) = n" "ic_task (ic s a) = Some t \<Longrightarrow> live s t \<and> tk_ic (tk s t) = a"
proof -
  show a: "a \<in> dom (e_chunk_heap s)" "ic_in (ic s a) = n" using eng_invD(4) [OF assms(1)] assms(2,3) by (simp_all add: lists_ok_def)
  show "live s t \<and> tk_ic (tk s t) = a" if "ic_task (ic s a) = Some t" using eng_invD(9) [OF assms(1)] a(1) that by (simp add: links_ok_def)
qed

lemma turn_frame_ic_upd:
  "a \<in> dom (e_chunk_heap s) \<Longrightarrow> turn_frame a s (ic_upd a f s)"
  by (rule turn_frame_step) (auto simp: ic_upd_simps)

lemma turn_frame_fs_sub: "turn_frame a s (fs_sub out n s)"
  by (rule turn_frame_step) (auto simp: fs_sub_def tk_def ic_def)

lemma turn_frame_route_status:
  assumes "live s t" "ic_task (ic s a) = Some t"
  shows "turn_frame a s (flb_task_set_route_status t out st s)"
  using assms by (intro turn_frame_step) (auto simp: flb_task_set_route_status_def)


section \<open>Sizes\<close>

text \<open>Documented behaviour of Chunk I/O: whether a chunk is mapped does not change its size, unless files are trimmed
  (\<^verbatim>\<open>storage.trim_files\<close>, off by default).\<close>

definition size_of :: "'c cio_api \<Rightarrow> 'c \<Rightarrow> int" where
  "size_of io ch = (let sz = cio_real_size io ch in if sz \<noteq> 0 then sz else
     if cio_content_size io ch = 0 then -1 else cio_content_size io ch + cio_meta_size io ch + 2 + 4 + 16 + 2)"

lemma real_size_of: "flb_input_chunk_get_real_size io c = size_of io (ic_chunk c)"
  by (simp add: flb_input_chunk_get_real_size_def flb_input_chunk_get_size_def size_of_def Let_def)

definition map_keeps_size :: "'c cio_api \<Rightarrow> bool" where
  "map_keeps_size io \<longleftrightarrow> (\<forall>ch. size_of io (snd (cio_up io ch)) = size_of io ch \<and>
     size_of io (snd (cio_up_force io ch)) = size_of io ch \<and> size_of io (snd (cio_down io ch)) = size_of io ch)"

lemma record_count_chunk:
  assumes "get_input_chunk_record_count io mp_count a s = (n, s')" "a \<in> dom (e_chunk_heap s)"
  obtains ch where "s' = ic_upd a (\<lambda>c. c\<lparr>ic_chunk := ch\<rparr>) s" "map_keeps_size io \<longrightarrow> size_of io ch = size_of io (ic_chunk (ic s a))"
    "meta_kept io \<longrightarrow> tag_up io ch = tag_up io (ic_chunk (ic s a))"
proof (cases "flb_input_chunk_is_up io s a")
  case True
  then have "s' = s" using assms by (simp add: get_input_chunk_record_count_def)
  then have "s' = ic_upd a (\<lambda>c. c\<lparr>ic_chunk := ic_chunk (ic s a)\<rparr>) s" using ic_chunk_same [OF assms(2)] by simp
  then show ?thesis using that by blast
next
  case False
  obtain r1 c1 where 1: "cio_up_force io (ic_chunk (ic s a)) = (r1, c1)" by fastforce
  obtain r2 c2 where 2: "cio_down io c1 = (r2, c2)" by fastforce
  have "s' = ic_upd a (\<lambda>c. c\<lparr>ic_chunk := if r1 = -1 then c1 else c2\<rparr>) s"
    using assms(1) False 1 2 by (auto simp: get_input_chunk_record_count_def chunk_call_def Let_def split: if_splits)
  moreover have "map_keeps_size io \<longrightarrow> size_of io (if r1 = -1 then c1 else c2) = size_of io (ic_chunk (ic s a))"
    using 1 2 by (auto simp: map_keeps_size_def) (metis snd_conv)+
  moreover have "meta_kept io \<longrightarrow> tag_up io (if r1 = -1 then c1 else c2) = tag_up io (ic_chunk (ic s a))"
    using meta_keptD(2) [of io "ic_chunk (ic s a)"] meta_keptD(3) [of io c1] 1 2 by simp
  ultimately show ?thesis by (rule that)
qed

section \<open>A turn keeps the invariant of the engine\<close>

definition droppable :: "'c flb_engine \<Rightarrow> addr \<Rightarrow> int \<Rightarrow> addr \<Rightarrow> bool" where
  "droppable s new_ic out a \<longleftrightarrow> route_bit (ic_routes_mask (ic s a)) out \<and> a \<noteq> new_ic \<and>
     (case ic_task (ic s a) of None \<Rightarrow> True
      | Some t \<Rightarrow> tk_users (tk s t) = 0 \<or> flb_task_get_route_status (tk s t) out = FLB_TASK_ROUTE_INACTIVE)"

text \<open>The states a turn goes through.\<close>

lemma release_chunk_cases:
  assumes "release_chunk io H mp_count new_ic out scope a d = (r, d')" "a \<in> dom (e_chunk_heap (d_eng d))"
  obtains "\<not> droppable (d_eng d) new_ic out a" "r = None" "d' = d"
  | s1 ch s3 destroyed f where "droppable (d_eng d) new_ic out a"
    "s1 = d_eng d \<or> (\<exists>t. ic_task (ic (d_eng d) a) = Some t \<and> tk_users (tk (d_eng d) t) \<noteq> 0 \<and>
        s1 = flb_task_set_route_status t out FLB_TASK_ROUTE_DROPPED (d_eng d))"
    "s3 = ic_upd a (\<lambda>c. c\<lparr>ic_chunk := ch\<rparr>) (turn_clear io out scope a s1)"
    "(map_keeps_size io \<longrightarrow> size_of io ch = size_of io (ic_chunk (ic (d_eng d) a))) \<and>
      (meta_kept io \<longrightarrow> tag_up io ch = tag_up io (ic_chunk (ic (d_eng d) a)))"
    "(destroyed, d_eng d') = (if (if scope = FLB_INPUT_CHUNK_RELEASE_SCOPE_LOCAL then flb_routes_mask_is_empty (ic_routes_mask (ic s3 a))
                        else scope = FLB_INPUT_CHUNK_RELEASE_SCOPE_GLOBAL) then turn_destroy io H a s3 else (False, s3))"
    "r = Some (if scope = FLB_INPUT_CHUNK_RELEASE_SCOPE_LOCAL \<or> destroyed then flb_input_chunk_get_real_size io (ic (d_eng d) a) else 0)"
    "d' = (metrics_upd out f d)\<lparr>d_eng := d_eng d'\<rparr>"
proof (cases "route_bit (ic_routes_mask (ic (d_eng d) a)) out \<and> a \<noteq> new_ic")
  case False
  then have "\<not> route_bit (ic_routes_mask (ic (d_eng d) a)) out \<or> \<not> flb_input_chunk_safe_delete (d_eng d) new_ic a out"
    by (auto simp: flb_input_chunk_safe_delete_def)
  then have "r = None" "d' = d" using assms(1) by (auto simp: release_chunk_def split: if_splits)
  then show ?thesis using that(1) False by (simp add: droppable_def)
next
  case True
  obtain ok dropped s1 where dr: "flb_input_chunk_drop_task_route (ic_task (ic (d_eng d) a)) (Some out) (d_eng d) = ((ok, dropped), s1)"
    by (metis surj_pair)
  have okd: "ok \<longleftrightarrow> droppable (d_eng d) new_ic out a"
    using dr True by (auto simp: flb_input_chunk_drop_task_route_def droppable_def split: option.splits if_splits)
  have s1: "s1 = d_eng d \<or> (\<exists>t. ic_task (ic (d_eng d) a) = Some t \<and> tk_users (tk (d_eng d) t) \<noteq> 0 \<and>
        s1 = flb_task_set_route_status t out FLB_TASK_ROUTE_DROPPED (d_eng d))" and no: "\<not> ok \<Longrightarrow> s1 = d_eng d"
    using dr by (auto simp: flb_input_chunk_drop_task_route_def split: option.splits if_splits)
  have sd: "flb_input_chunk_safe_delete (d_eng d) new_ic a out" using True by (simp add: flb_input_chunk_safe_delete_def)
  show ?thesis
  proof (cases ok)
    case False
    then have "r = None" "d' = d\<lparr>d_eng := s1\<rparr>" using assms(1) True sd dr by (auto simp: release_chunk_def)
    then show ?thesis using that(1) no [OF False] okd False by simp
  next
    case ok: True
    define s2 where "s2 = turn_clear io out scope a s1"
    obtain n s3 where n: "(if dropped = 0 then get_input_chunk_record_count io mp_count a s2 else (-1, s2)) = (n, s3)" by fastforce
    have icd: "ic s1 = ic (d_eng d)" "dom (e_chunk_heap s1) = dom (e_chunk_heap (d_eng d))"
      using s1 by (auto simp: flb_task_set_route_status_def)
    have ics: "ic_chunk (ic s2 a) = ic_chunk (ic (d_eng d) a)" "a \<in> dom (e_chunk_heap s2)"
      using assms(2) icd by (auto simp: s2_def turn_clear_def fs_sub_def route_clear_def ic_upd_simps)
    have "\<exists>ch. s3 = ic_upd a (\<lambda>c. c\<lparr>ic_chunk := ch\<rparr>) s2 \<and> (map_keeps_size io \<longrightarrow> size_of io ch = size_of io (ic_chunk (ic (d_eng d) a))) \<and>
        (meta_kept io \<longrightarrow> tag_up io ch = tag_up io (ic_chunk (ic (d_eng d) a)))"
    proof (cases "dropped = 0")
      case True
      then have "get_input_chunk_record_count io mp_count a s2 = (n, s3)" using n by simp
      from record_count_chunk [OF this ics(2)] show ?thesis using ics(1) by metis
    next
      case False
      then have "s3 = ic_upd a (\<lambda>c. c\<lparr>ic_chunk := ic_chunk (ic (d_eng d) a)\<rparr>) s2"
        using n ic_chunk_same [OF ics(2)] unfolding ics(1) by simp
      then show ?thesis by blast
    qed
    then obtain ch where ch: "s3 = ic_upd a (\<lambda>c. c\<lparr>ic_chunk := ch\<rparr>) s2"
      "(map_keeps_size io \<longrightarrow> size_of io ch = size_of io (ic_chunk (ic (d_eng d) a))) \<and> (meta_kept io \<longrightarrow> tag_up io ch = tag_up io (ic_chunk (ic (d_eng d) a)))"
      by blast
    then have mask: "ic_routes_mask (ic s3 a) = ic_routes_mask (ic s2 a)" by simp
    obtain destroyed s4 where s4: "(if (if scope = FLB_INPUT_CHUNK_RELEASE_SCOPE_LOCAL then flb_routes_mask_is_empty (ic_routes_mask (ic s3 a))
        else scope = FLB_INPUT_CHUNK_RELEASE_SCOPE_GLOBAL) then turn_destroy io H a s3 else (False, s3)) = (destroyed, s4)" by fastforce
    define f :: "out_metrics \<Rightarrow> out_metrics" where "f = (if n = -1 then id else (\<lambda>m. m\<lparr>mt_dropped_records := mt_dropped_records m + n\<rparr>))"
    have mu: "metrics_upd out id d = d" by (simp add: metrics_upd_def)
    have res: "r = Some (if scope = FLB_INPUT_CHUNK_RELEASE_SCOPE_LOCAL \<or> destroyed then flb_input_chunk_get_real_size io (ic s1 a) else 0)"
      "d' = (if n = -1 then d else metrics_upd out (\<lambda>m. m\<lparr>mt_dropped_records := mt_dropped_records m + n\<rparr>) d)\<lparr>d_eng := s4\<rparr>"
      using assms(1) True sd dr ok n s4 unfolding release_chunk_def mask s2_def by (simp_all add: Let_def)
    then have "d_eng d' = s4" "d' = (metrics_upd out f d)\<lparr>d_eng := d_eng d'\<rparr>" using mu by (auto simp: f_def)
    then show ?thesis using that(2) [of s1 s3 ch destroyed f] okd ok s1 ch s4 res(1) icd(1) unfolding s2_def by simp
  qed
qed


lemma disp_eng_set:
  assumes "disp_inv H K d" "same_eng (d_eng d) s'" "tk s' = tk (d_eng d)"
  shows "disp_inv H K (d\<lparr>d_eng := s'\<rparr>)"
  by (rule disp_inv_move [OF assms(1)])
    (use assms(2,3) refs_ok_same [OF disp_invD(2) [OF assms(1)], of "d\<lparr>d_eng := s'\<rparr>"] in \<open>auto simp: tok_def\<close>)

lemma disp_eng_metrics: "(metrics_upd out f d)\<lparr>d_eng := s\<rparr> = metrics_upd out f (d\<lparr>d_eng := s\<rparr>)"
  by (simp add: metrics_upd_def)

lemma turn_clear_fields [simp]:
  "ic_task (ic (turn_clear io out scope a s) b) = ic_task (ic s b)" "ic_in (ic (turn_clear io out scope a s) b) = ic_in (ic s b)"
  "tk (turn_clear io out scope a s) = tk s" "e_inputs (turn_clear io out scope a s) = e_inputs s"
  by (auto simp: turn_clear_def fs_sub_def route_clear_def ic_upd_def ic_def tk_def)

lemma fs_sub_heap [simp]: "e_chunk_heap (fs_sub out n s) = e_chunk_heap s" "ic (fs_sub out n s) = ic s"
  by (simp_all add: fs_sub_def ic_def fun_eq_iff)

lemma turn_clear_same:
  assumes "a \<in> dom (e_chunk_heap s)"
  shows "same_eng s (turn_clear io out scope a s)" "turn_frame a s (turn_clear io out scope a s)"
    "dom (e_chunk_heap (turn_clear io out scope a s)) = dom (e_chunk_heap s)"
proof -
  note c = same_eng_route_clear [OF assms, of out]
  show "same_eng s (turn_clear io out scope a s)"
    using same_eng_trans [OF c same_eng_fs_sub] by (simp add: turn_clear_def)
  have "turn_frame a s (route_clear a out s)" unfolding route_clear_def by (rule turn_frame_ic_upd [OF assms])
  then show "turn_frame a s (turn_clear io out scope a s)"
    using turn_frame_trans [of a s "route_clear a out s" "fs_sub out (flb_input_chunk_get_real_size io (ic s a)) (route_clear a out s)"]
      turn_frame_fs_sub [of a "route_clear a out s"] by (simp add: turn_clear_def) (simp add: route_clear_def)
  show "dom (e_chunk_heap (turn_clear io out scope a s)) = dom (e_chunk_heap s)"
    using assms by (auto simp: turn_clear_def route_clear_def)
qed

text \<open>The states between the start of a turn and the destruction of the chunk.\<close>

lemma turn_before:
  assumes "disp_inv H {#} d" "a \<in> dom (e_chunk_heap (d_eng d))" "ic_task (ic (d_eng d) a) = Some t \<Longrightarrow> live (d_eng d) t"
    and s1: "s1 = d_eng d \<or> ic_task (ic (d_eng d) a) = Some t \<and> s1 = flb_task_set_route_status t out FLB_TASK_ROUTE_DROPPED (d_eng d)"
    and s3: "s3 = ic_upd a (\<lambda>c. c\<lparr>ic_chunk := ch\<rparr>) (turn_clear io out scope a s1)"
  shows "disp_inv H {#} (d\<lparr>d_eng := s3\<rparr>)" "turn_frame a (d_eng d) s3" "dom (e_chunk_heap s3) = dom (e_chunk_heap (d_eng d))"
    "e_inputs s3 = e_inputs (d_eng d)" "ic_task (ic s3 a) = ic_task (ic (d_eng d) a)"
proof -
  have 1: "disp_inv H {#} (d\<lparr>d_eng := s1\<rparr>)" "turn_frame a (d_eng d) s1" "ic s1 = ic (d_eng d)"
    "e_chunk_heap s1 = e_chunk_heap (d_eng d)" "e_inputs s1 = e_inputs (d_eng d)"
    using s1 assms(1) disp_route_status_any [OF assms(1), of t out FLB_TASK_ROUTE_DROPPED] assms(3)
      turn_frame_route_status [of t "d_eng d" a out FLB_TASK_ROUTE_DROPPED]
    by (auto simp: eng_upd_def flb_task_set_route_status_def)
  have a1: "a \<in> dom (e_chunk_heap s1)" using 1(4) assms(2) by simp
  note c = turn_clear_same [OF a1, of io out scope]
  have "same_eng s1 s3" unfolding s3 by (rule same_eng_trans [OF c(1) same_eng_ic_upd]) (use c(3) a1 in simp_all)
  then show "disp_inv H {#} (d\<lparr>d_eng := s3\<rparr>)" using disp_eng_set [OF 1(1), of s3] by (simp add: s3)
  have "turn_frame a s1 s3" unfolding s3 by (rule turn_frame_trans [OF c(2) turn_frame_ic_upd]) (use c(3) a1 in simp_all)
  then show "turn_frame a (d_eng d) s3" by (rule turn_frame_trans [OF 1(2)]) (simp add: 1(3))
  show "dom (e_chunk_heap s3) = dom (e_chunk_heap (d_eng d))" using c(3) a1 1(4) by (auto simp: s3)
  show "e_inputs s3 = e_inputs (d_eng d)" "ic_task (ic s3 a) = ic_task (ic (d_eng d) a)" using 1(3,5) by (simp_all add: s3)
qed


text \<open>The destruction.\<close>

lemma turn_destroy_ok:
  assumes "disp_inv H {#} d" "n < length (e_inputs (d_eng d))" "a \<in> set (in_chunks (e_inputs (d_eng d) ! n))"
    "turn_destroy io Hf a (d_eng d) = (g, s')"
  shows "disp_inv H {#} (d\<lparr>d_eng := s'\<rparr>)" "turn_frame a (d_eng d) s'" "if g then a \<notin> dom (e_chunk_heap s') else s' = d_eng d"
proof -
  define s where "s = d_eng d"
  note inv = disp_invD(1) [OF assms(1), folded s_def]
  note l = listed_chunk [OF inv assms(2,3) [folded s_def]]
  have ds: "d\<lparr>d_eng := s\<rparr> = d" by (simp add: s_def)
  have "disp_inv H {#} (d\<lparr>d_eng := s'\<rparr>) \<and> turn_frame a s s' \<and> (if g then a \<notin> dom (e_chunk_heap s') else s' = s)"
  proof (cases "ic_task (ic s a)")
    case None
    then have s': "g" "s' = flb_input_chunk_destroy io Hf a True s" using assms(4) by (simp_all add: turn_destroy_def s_def)
    have "ic_in (ic s a) < length (e_inputs s)" using l(2) assms(2) by (simp add: s_def)
    then show ?thesis using s' disp_chunk_destroy [OF assms(1), of a io Hf True] turn_frame_chunk_destroy [OF l(1), of io Hf True]
        chunk_destroy_heap [OF l(1), of io Hf True] l(1) None by (simp add: s_def eng_upd_def)
  next
    case (Some t)
    show ?thesis
    proof (cases "tk_users (tk s t) = 0")
      case True
      note lt = l(3) [OF Some]
      have s': "g" "s' = flb_task_destroy io Hf t True s" using assms(4) Some True by (simp_all add: turn_destroy_def s_def)
      have "a \<notin> dom (e_chunk_heap s')"
        using task_destroy_spec(5) [OF eng_invD(7) [OF inv conjunct1 [OF lt]] eng_invD(6) [OF inv] s'(2)] conjunct2 [OF lt] by simp
      moreover have "disp_inv H {#} (d\<lparr>d_eng := s'\<rparr>)"
        using disp_task_unused [OF assms(1), of t io Hf True] lt True by (simp add: s' s_def eng_upd_def)
      moreover have "turn_frame a s s'"
        unfolding s'(2) by (rule turn_frame_task_destroy [OF inv conjunct1 [OF lt] conjunct2 [OF lt]]) simp
      ultimately show ?thesis using s'(1) by simp
    next
      case False
      then have "\<not> g \<and> s' = s" using assms(4) Some by (simp add: turn_destroy_def s_def [symmetric])
      then show ?thesis using assms(1) ds by simp
    qed
  qed
  then show "disp_inv H {#} (d\<lparr>d_eng := s'\<rparr>)" "turn_frame a (d_eng d) s'" "if g then a \<notin> dom (e_chunk_heap s') else s' = d_eng d"
    by (simp_all add: s_def)
qed

text \<open>A turn, whatever its scope and its outcome, keeps the invariant and touches one chunk and its task.\<close>

lemma release_chunk_ok:
  assumes "disp_inv H {#} d" "n < length (e_inputs (d_eng d))" "a \<in> set (in_chunks (e_inputs (d_eng d) ! n))"
    "release_chunk io Hf mp_count new_ic out scope a d = (r, d')"
  shows "disp_inv H {#} d'" "turn_frame a (d_eng d) (d_eng d')"
proof -
  note l = listed_chunk [OF disp_invD(1) [OF assms(1)] assms(2,3)]
  have "disp_inv H {#} d' \<and> turn_frame a (d_eng d) (d_eng d')"
    using assms(4) l(1)
  proof (cases rule: release_chunk_cases)
    case 1
    then show ?thesis using assms(1) by simp
  next
    case (2 s1 ch s3 destroyed f)
    obtain t where s1: "ic_task (ic (d_eng d) a) = Some t \<Longrightarrow> live (d_eng d) t"
      "s1 = d_eng d \<or> ic_task (ic (d_eng d) a) = Some t \<and> s1 = flb_task_set_route_status t out FLB_TASK_ROUTE_DROPPED (d_eng d)"
      using 2(2) l(3) by blast
    note b = turn_before [OF assms(1) l(1) s1 2(3)]
    have m: "disp_inv H {#} d' \<longleftrightarrow> disp_inv H {#} (d\<lparr>d_eng := d_eng d'\<rparr>)"
      using disp_metrics(1) [of H "{#}" out f "d\<lparr>d_eng := d_eng d'\<rparr>"] 2(7) by (metis disp_eng_metrics)
    show ?thesis
    proof (cases "d_eng d' = s3")
      case True
      then show ?thesis using b m by simp
    next
      case False
      then have td: "turn_destroy io Hf a s3 = (destroyed, d_eng d')" using 2(5) by (auto split: if_splits)
      note t = turn_destroy_ok [OF b(1), of n a io Hf destroyed "d_eng d'"]
      have "disp_inv H {#} (d\<lparr>d_eng := d_eng d'\<rparr>)" "turn_frame a s3 (d_eng d')" using t(1,2) td assms(2,3) b(4) by simp_all
      then show ?thesis using m turn_frame_trans [OF b(2) _ b(5)] by blast
    qed
  qed
  then show "disp_inv H {#} d'" "turn_frame a (d_eng d) (d_eng d')" by simp_all
qed

section \<open>The tables of open chunks\<close>

lemma turn_destroy_tables:
  assumes "meta_kept io" "tables_ok io Hf s" "eng_inv {#} s" "n < length (e_inputs s)" "a \<in> set (in_chunks (e_inputs s ! n))"
  shows "tables_ok io Hf (snd (turn_destroy io Hf a s))"
proof -
  note l = listed_chunk [OF assms(3-5)]
  have c: "ic_in (ic s a) < length (e_inputs s)" using l(2) assms(4) by simp
  show ?thesis
  proof (cases "ic_task (ic s a)")
    case None
    then show ?thesis using tables_ok_chunk_destroy [OF assms(1,2) l(1) c] by (simp add: turn_destroy_def)
  next
    case (Some t)
    then show ?thesis using tables_ok_task_destroy [OF assms(1,2), of t] l(1) c conjunct2 [OF l(3) [OF Some]] assms(2)
      by (simp add: turn_destroy_def)
  qed
qed

lemma release_chunk_tables:
  assumes "meta_kept io" "tables_ok io Hf (d_eng d)" "disp_inv {#} {#} d" "n < length (e_inputs (d_eng d))"
    "a \<in> set (in_chunks (e_inputs (d_eng d) ! n))" "release_chunk io Hf mp_count new_ic out scope a d = (r, d')"
  shows "tables_ok io Hf (d_eng d')"
proof -
  note l = listed_chunk [OF disp_invD(1) [OF assms(3)] assms(4,5)]
  show ?thesis
    using assms(6) l(1)
  proof (cases rule: release_chunk_cases)
    case 1
    then show ?thesis using assms(2) by simp
  next
    case (2 s1 ch s3 destroyed f)
    obtain t where s1: "ic_task (ic (d_eng d) a) = Some t \<Longrightarrow> live (d_eng d) t"
      "s1 = d_eng d \<or> ic_task (ic (d_eng d) a) = Some t \<and> s1 = flb_task_set_route_status t out FLB_TASK_ROUTE_DROPPED (d_eng d)"
      using 2(2) l(3) by blast
    note b = turn_before [OF assms(3) l(1) s1 2(3)]
    have e1: "e_chunk_heap s1 = e_chunk_heap (d_eng d)" "e_inputs s1 = e_inputs (d_eng d)" "ic s1 = ic (d_eng d)"
      using s1(2) by (auto simp: flb_task_set_route_status_def)
    have "ic_chunk (ic (turn_clear io out scope a s1) a) = ic_chunk (ic (d_eng d) a)"
      by (simp add: turn_clear_def route_clear_def e1)
    moreover have d1: "dom (e_chunk_heap (turn_clear io out scope a s1)) = dom (e_chunk_heap s1)" "a \<in> dom (e_chunk_heap s1)"
      using turn_clear_same(3) [of a s1] l(1) by (simp_all add: e1)
    have "tables_frame io s1 (turn_clear io out scope a s1)"
      unfolding tables_frame_def d1(1) by (simp add: turn_clear_def route_clear_def ic_upd_def ic_def fs_sub_def)
    moreover have "tables_frame io (turn_clear io out scope a s1) s3"
      unfolding 2(3) by (rule tables_frame_ic_upd) (use calculation d1 2(4) assms(1) in simp_all)
    ultimately have "tables_frame io s1 s3" using tables_frame_trans by blast
    then have ok3: "tables_ok io Hf s3" using tables_ok_frame [OF assms(2) tables_frame_same [OF e1(1,2)]] tables_ok_frame by blast
    have "tables_ok io Hf (snd (turn_destroy io Hf a s3))"
      by (rule turn_destroy_tables [OF assms(1) ok3, of n]) (use disp_invD(1) [OF b(1)] b(4) assms(4,5) in simp_all)
    then show ?thesis using 2(5) ok3 by (metis (full_types) prod.sel(2))
  qed
qed

section \<open>The counters of the outputs\<close>

lemma route_bit_valid: "mask_wf m \<Longrightarrow> route_bit m i \<Longrightarrow> mask_valid i"
  by (cases "i = 256") (auto simp: route_bit_def flb_routes_mask_get_bit_def mask_valid_def mask_wf_def mask_index_def mask_consts split: if_splits)

lemma clear_bit_routes:
  assumes "mask_wf m" "mask_valid out"
  obtains m' where "flb_routes_mask_clear_bit m out = Some m'" "mask_wf m'" "\<And>i. route_bit m' i \<longleftrightarrow> i \<noteq> out \<and> route_bit m i"
proof -
  obtain m' where m': "flb_routes_mask_clear_bit m out = Some m'" "mask_wf m'" "mask_elems m' = mask_elems m - {out}"
    using rmask.clear_bit_law [OF assms] by blast
  have "route_bit x i \<longleftrightarrow> mask_valid i \<and> i \<in> mask_elems x" if "mask_wf x" for x i
    using route_bit_valid [OF that, of i] rmask.get_bit_law [OF that, of i] by (auto simp: route_bit_def)
  then have "route_bit m' i \<longleftrightarrow> i \<noteq> out \<and> route_bit m i" for i using m' assms(1) by auto
  then show ?thesis using that m' by blast
qed

text \<open>One chunk changes or goes away, and the counters move by the difference.\<close>

lemma accounted_change:
  assumes "fs_accounted io s" "a \<in> dom (e_chunk_heap s)" "dom (e_chunk_heap s') - {a} = dom (e_chunk_heap s) - {a}"
    and "\<And>b. b \<noteq> a \<Longrightarrow> ic s' b = ic s b"
    and "e_outputs s' = map (\<lambda>x. x\<lparr>o_fs_chunks_size := o_fs_chunks_size x + f x\<rparr>) (e_outputs s)"
    and "\<And>x. x \<in> set (e_outputs s) \<Longrightarrow> o_total_limit_size x \<noteq> -1 \<Longrightarrow>
      f x = (if a \<in> dom (e_chunk_heap s') then chunk_bytes io (ic s' a) (o_id x) else 0) - chunk_bytes io (ic s a) (o_id x)"
  shows "fs_accounted io s'"
proof -
  define R where "R = dom (e_chunk_heap s) - {a}"
  have fin: "finite R" using assms(1) by (simp add: fs_accounted_def R_def)
  have dm: "dom (e_chunk_heap s) = insert a R" "dom (e_chunk_heap s') = (if a \<in> dom (e_chunk_heap s') then insert a R else R)" "a \<notin> R"
    using assms(2,3) by (auto simp: R_def)
  have eq: "(\<Sum>b\<in>R. chunk_bytes io (ic s' b) i) = (\<Sum>b\<in>R. chunk_bytes io (ic s b) i)" for i
    by (rule sum.cong [OF refl]) (metis assms(4) dm(3))
  have "o_fs_chunks_size x + f x = (\<Sum>b\<in>dom (e_chunk_heap s'). chunk_bytes io (ic s' b) (o_id x))"
    if "x \<in> set (e_outputs s)" "o_total_limit_size x \<noteq> -1" for x
  proof -
    have "o_fs_chunks_size x = (\<Sum>b\<in>insert a R. chunk_bytes io (ic s b) (o_id x))"
      using assms(1) that dm(1) by (simp add: fs_accounted_def)
    then show ?thesis using assms(6) [OF that] fin dm(3) eq by (subst dm(2)) auto
  qed
  moreover have "finite (dom (e_chunk_heap s'))" using fin by (subst dm(2)) simp
  ultimately show ?thesis by (auto simp: fs_accounted_def assms(5))
qed

lemma prepared_size:
  "map_keeps_size io \<Longrightarrow> chunk_bytes io (ic (destroy_prepared io a s) a) i = chunk_bytes io (ic s a) i"
  by (auto simp: chunk_bytes_def real_size_of destroy_prepared_def flb_input_chunk_set_up_def chunk_call_def map_keeps_size_def case_prod_beta)

lemma accounted_destroy:
  assumes "fs_accounted io s" "map_keeps_size io" "turn_destroy io Hf a s = (g, s')"
    "eng_inv {#} s" "n < length (e_inputs s)" "a \<in> set (in_chunks (e_inputs s ! n))"
  shows "fs_accounted io s'"
proof -
  note l = listed_chunk [OF assms(4-6)]
  have sz: "flb_input_chunk_get_real_size io (ic (destroy_prepared io a s) a) = flb_input_chunk_get_real_size io (ic s a)"
    using assms(2) by (auto simp: real_size_of destroy_prepared_def flb_input_chunk_set_up_def chunk_call_def map_keeps_size_def case_prod_beta)
  show ?thesis
  proof (cases "ic_task (ic s a)")
    case None
    then show ?thesis using assms(3) chunk_destroy_accounted [OF assms(1) l(1) sz] by (auto simp: turn_destroy_def)
  next
    case (Some t)
    note lt = l(3) [OF Some]
    show ?thesis
    proof (cases "tk_users (tk s t) = 0")
      case True
      then have s': "s' = flb_task_destroy io Hf t True s" using assms(3) Some by (simp add: turn_destroy_def)
      note lk = eng_invD(7) [OF assms(4) conjunct1 [OF lt]]
      note h = task_destroy_spec(5) [OF lk eng_invD(6) [OF assms(4)] s'] and fr = task_destroy_rest(3) [OF lk s']
      show ?thesis
      proof (rule accounted_change [OF assms(1) l(1), of s' "\<lambda>x. if o_total_limit_size x = -1 then 0 else - chunk_bytes io (ic s a) (o_id x)"])
        show "e_outputs s' = map (\<lambda>x. x\<lparr>o_fs_chunks_size := o_fs_chunks_size x +
            (if o_total_limit_size x = -1 then 0 else - chunk_bytes io (ic s a) (o_id x))\<rparr>) (e_outputs s)"
          using lt by (auto simp: s' task_destroy_outputs prepared_size [OF assms(2)])
        show "\<And>b. b \<noteq> a \<Longrightarrow> ic s' b = ic s b" using fr lt by simp
      qed (use h lt in auto)
    next
      case False
      then show ?thesis using assms(1,3) Some by (simp add: turn_destroy_def)
    qed
  qed
qed

text \<open>A chunk whose bytes the counter of the output holds.\<close>

definition held :: "'c cio_api \<Rightarrow> 'c flb_engine \<Rightarrow> addr \<Rightarrow> bool" where
  "held io s a \<longleftrightarrow> mask_wf (ic_routes_mask (ic s a)) \<and> ic_fs_counted (ic s a) \<and> flb_input_chunk_get_real_size io (ic s a) \<noteq> -1"

lemma accounted_clear:
  assumes "fs_accounted io s" "a \<in> dom (e_chunk_heap s)" "mask_valid out" "held io s a" "route_bit (ic_routes_mask (ic s a)) out"
    "size_of io ch = size_of io (ic_chunk (ic s a))"
    and s3: "s3 = ic_upd a (\<lambda>c. c\<lparr>ic_chunk := ch\<rparr>) (turn_clear io out FLB_INPUT_CHUNK_RELEASE_SCOPE_LOCAL a s)"
  shows "fs_accounted io s3" "\<not> route_bit (ic_routes_mask (ic s3 a)) out"
proof -
  obtain m where m: "flb_routes_mask_clear_bit (ic_routes_mask (ic s a)) out = Some m" "\<And>i. route_bit m i \<longleftrightarrow> i \<noteq> out \<and> route_bit (ic_routes_mask (ic s a)) i"
    using clear_bit_routes [OF _ assms(3)] assms(4) unfolding held_def by metis
  define n where "n = flb_input_chunk_get_real_size io (ic s a)"
  have ic3: "ic s3 a = (ic s a)\<lparr>ic_chunk := ch, ic_routes_mask := m\<rparr>" "\<And>b. b \<noteq> a \<Longrightarrow> ic s3 b = ic s b"
    "dom (e_chunk_heap s3) = dom (e_chunk_heap s)"
    using m(1) assms(2) by (auto simp: s3 turn_clear_def route_clear_def)
  show "\<not> route_bit (ic_routes_mask (ic s3 a)) out" using m(2) by (simp add: ic3(1))
  show "fs_accounted io s3"
  proof (rule accounted_change [OF assms(1,2), of s3 "\<lambda>x. if o_id x = out then - n else 0"])
    show "e_outputs s3 = map (\<lambda>x. x\<lparr>o_fs_chunks_size := o_fs_chunks_size x + (if o_id x = out then - n else 0)\<rparr>) (e_outputs s)"
      by (simp add: s3 turn_clear_def fs_sub_def route_clear_def n_def)
    show "(if o_id x = out then - n else 0) =
      (if a \<in> dom (e_chunk_heap s3) then chunk_bytes io (ic s3 a) (o_id x) else 0) - chunk_bytes io (ic s a) (o_id x)" for x
      using assms(2,4,5,6) m(2) by (simp add: ic3 chunk_bytes_def real_size_of held_def n_def)
  qed (use ic3 in auto)
qed

lemma accounted_cong:
  "e_chunk_heap s' = e_chunk_heap s \<Longrightarrow> e_outputs s' = e_outputs s \<Longrightarrow> fs_accounted io s' = fs_accounted io s"
  by (simp add: fs_accounted_def ic_def)

text \<open>A turn in the local scope.\<close>

lemma release_chunk_local:
  assumes "disp_inv H {#} d" "n < length (e_inputs (d_eng d))" "a \<in> set (in_chunks (e_inputs (d_eng d) ! n))"
    "release_chunk io Hf mp_count new_ic out FLB_INPUT_CHUNK_RELEASE_SCOPE_LOCAL a d = (r, d')"
    and "map_keeps_size io" "mask_valid out" "fs_accounted io (d_eng d)" "droppable (d_eng d) new_ic out a \<longrightarrow> held io (d_eng d) a"
  shows "r = (if droppable (d_eng d) new_ic out a then Some (flb_input_chunk_get_real_size io (ic (d_eng d) a)) else None)"
    "droppable (d_eng d) new_ic out a \<Longrightarrow> a \<notin> dom (e_chunk_heap (d_eng d')) \<or> \<not> route_bit (ic_routes_mask (ic (d_eng d') a)) out"
    "\<not> droppable (d_eng d) new_ic out a \<Longrightarrow> d' = d" "fs_accounted io (d_eng d')"
proof -
  define s where "s = d_eng d"
  note l = listed_chunk [OF disp_invD(1) [OF assms(1)] assms(2,3)]
  define P where "P \<longleftrightarrow> fs_accounted io (d_eng d') \<and> (if droppable s new_ic out a
    then r = Some (flb_input_chunk_get_real_size io (ic s a)) \<and> (a \<notin> dom (e_chunk_heap (d_eng d')) \<or> \<not> route_bit (ic_routes_mask (ic (d_eng d') a)) out)
    else r = None \<and> d' = d)"
  have P
    using assms(4) l(1)
  proof (cases rule: release_chunk_cases)
    case 1
    then show ?thesis using assms(7) by (simp add: P_def s_def)
  next
    case (2 s1 ch s3 destroyed f)
    obtain t where s1: "ic_task (ic (d_eng d) a) = Some t \<Longrightarrow> live (d_eng d) t"
      "s1 = d_eng d \<or> ic_task (ic (d_eng d) a) = Some t \<and> s1 = flb_task_set_route_status t out FLB_TASK_ROUTE_DROPPED (d_eng d)"
      using 2(2) l(3) by blast
    note b = turn_before [OF assms(1) l(1) s1 2(3)]
    have e1: "e_chunk_heap s1 = e_chunk_heap s" "e_outputs s1 = e_outputs s" "ic s1 = ic s"
      using s1(2) by (auto simp: s_def flb_task_set_route_status_def)
    have h: "held io s a" "route_bit (ic_routes_mask (ic s a)) out" using assms(8) 2(1) by (simp_all add: s_def droppable_def)
    then have h1: "held io s1 a" "route_bit (ic_routes_mask (ic s1 a)) out" by (simp_all add: held_def e1)
    have acc1: "fs_accounted io s1" using assms(7) accounted_cong [OF e1(1,2)] by (simp add: s_def)
    have sz: "size_of io ch = size_of io (ic_chunk (ic s1 a))" using 2(4) assms(5) by (simp add: e1 s_def)
    note c = accounted_clear [OF acc1 _ assms(6) h1 sz 2(3)]
    have 3: "fs_accounted io s3" "\<not> route_bit (ic_routes_mask (ic s3 a)) out" using c l(1) by (simp_all add: e1 s_def)
    have "fs_accounted io (d_eng d') \<and> (a \<notin> dom (e_chunk_heap (d_eng d')) \<or> \<not> route_bit (ic_routes_mask (ic (d_eng d') a)) out)"
    proof (cases "d_eng d' = s3")
      case True
      then show ?thesis using 3 by simp
    next
      case False
      then have td: "turn_destroy io Hf a s3 = (destroyed, d_eng d')" using 2(5) by (auto split: if_splits)
      have n3: "n < length (e_inputs s3)" "a \<in> set (in_chunks (e_inputs s3 ! n))" using b(4) assms(2,3) by simp_all
      have "if destroyed then a \<notin> dom (e_chunk_heap (d_eng d')) else d_eng d' = s3"
        using turn_destroy_ok(3) [OF b(1), of n a io Hf destroyed "d_eng d'"] td n3 by simp
      then show ?thesis using accounted_destroy [OF 3(1) assms(5) td _ n3] disp_invD(1) [OF b(1)] 3(2) by (auto split: if_splits)
    qed
    then show ?thesis using 2(1,6) by (simp add: P_def s_def)
  qed
  then show "r = (if droppable (d_eng d) new_ic out a then Some (flb_input_chunk_get_real_size io (ic (d_eng d) a)) else None)"
    "droppable (d_eng d) new_ic out a \<Longrightarrow> a \<notin> dom (e_chunk_heap (d_eng d')) \<or> \<not> route_bit (ic_routes_mask (ic (d_eng d') a)) out"
    "\<not> droppable (d_eng d) new_ic out a \<Longrightarrow> d' = d" "fs_accounted io (d_eng d')"
    by (simp_all add: P_def s_def split: if_splits)
qed

section \<open>The loop in the local scope\<close>

lemma droppable_frame:
  assumes "turn_frame a s s'" "eng_inv {#} s" "n < length (e_inputs s)" "a \<in> set (in_chunks (e_inputs s ! n))"
    "b \<in> set (in_chunks (e_inputs s ! n))" "b \<noteq> a"
  shows "droppable s' new_ic out b = droppable s new_ic out b"
proof -
  have "tk s' t = tk s t" if "ic_task (ic s b) = Some t" for t
    using turn_frameD(9) [OF assms(1), of t] listed_chunk(3) [OF assms(2,3,5) that] listed_chunk(3) [OF assms(2-4), of t] assms(6) by blast
  then show ?thesis using turn_frameD(1) [OF assms(1,6)] by (auto simp: droppable_def split: option.splits)
qed

definition bytes_of :: "'c cio_api \<Rightarrow> 'c flb_engine \<Rightarrow> addr \<Rightarrow> int" where
  "bytes_of io s a = flb_input_chunk_get_real_size io (ic s a)"

definition released_set :: "int \<Rightarrow> addr set \<Rightarrow> 'c flb_engine \<Rightarrow> 'c flb_engine \<Rightarrow> bool" where
  "released_set out P s s' \<longleftrightarrow> dom (e_chunk_heap s') \<subseteq> dom (e_chunk_heap s) \<and>
     (\<forall>a\<in>P. a \<notin> dom (e_chunk_heap s') \<or> \<not> route_bit (ic_routes_mask (ic s' a)) out) \<and>
     (\<forall>b. b \<notin> P \<longrightarrow> ic s' b = ic s b \<and> (b \<in> dom (e_chunk_heap s) \<longrightarrow> b \<in> dom (e_chunk_heap s')))"

lemma released_set_step:
  assumes "turn_frame a s s1" "a \<notin> dom (e_chunk_heap s1) \<or> \<not> route_bit (ic_routes_mask (ic s1 a)) out" "released_set out P s1 s'"
  shows "released_set out (insert a P) s s'"
proof -
  note f = turn_frameD(1-3) [OF assms(1)]
  have r: "dom (e_chunk_heap s') \<subseteq> dom (e_chunk_heap s1)" "\<And>b. b \<in> P \<Longrightarrow> b \<notin> dom (e_chunk_heap s') \<or> \<not> route_bit (ic_routes_mask (ic s' b)) out"
    "\<And>b. b \<notin> P \<Longrightarrow> ic s' b = ic s1 b" "\<And>b. b \<notin> P \<Longrightarrow> b \<in> dom (e_chunk_heap s1) \<Longrightarrow> b \<in> dom (e_chunk_heap s')"
    using assms(3) unfolding released_set_def by blast+
  have "a \<notin> dom (e_chunk_heap s') \<or> \<not> route_bit (ic_routes_mask (ic s' a)) out"
    using r(1) r(2,3) [of a] assms(2) by (cases "a \<in> P") auto
  moreover have "ic s' b = ic s b \<and> (b \<in> dom (e_chunk_heap s) \<longrightarrow> b \<in> dom (e_chunk_heap s'))" if "b \<notin> insert a P" for b
  proof -
    have b: "b \<noteq> a" "b \<notin> P" using that by simp_all
    then have "b \<in> dom (e_chunk_heap s) \<Longrightarrow> b \<in> dom (e_chunk_heap s1)" using f(2) by blast
    then show ?thesis using f(1) [OF b(1)] r(3,4) [OF b(2)] by simp
  qed
  ultimately show ?thesis using r(1,2) f(3) unfolding released_set_def by blast
qed

lemma release_loop_local:
  assumes io: "map_keeps_size io" "mask_valid out"
    and "disp_inv H {#} d" "n < length (e_inputs (d_eng d))" "set as \<subseteq> set (in_chunks (e_inputs (d_eng d) ! n))" "distinct as"
    "fs_accounted io (d_eng d)" "\<forall>a\<in>set as. droppable (d_eng d) new_ic out a \<longrightarrow> held io (d_eng d) a"
    and P: "P = oldest_until (bytes_of io (d_eng d)) (req - released) (filter (droppable (d_eng d) new_ic out) as)"
  shows "\<exists>d'. release_loop io Hf mp_count new_ic out FLB_INPUT_CHUNK_RELEASE_SCOPE_LOCAL req as released d =
      (released + sum_list (map (bytes_of io (d_eng d)) P), d') \<and>
    disp_inv H {#} d' \<and> fs_accounted io (d_eng d') \<and> released_set out (set P) (d_eng d) (d_eng d')"
  using assms(3-)
proof (induction as arbitrary: released d P)
  case Nil
  then show ?case by (simp add: released_set_def)
next
  case (Cons a as)
  obtain r d1 where t: "release_chunk io Hf mp_count new_ic out FLB_INPUT_CHUNK_RELEASE_SCOPE_LOCAL a d = (r, d1)" by fastforce
  have a: "a \<in> set (in_chunks (e_inputs (d_eng d) ! n))" using Cons.prems(3) by simp
  note ok = release_chunk_ok [OF Cons.prems(1,2) a t]
  have hd: "droppable (d_eng d) new_ic out a \<longrightarrow> held io (d_eng d) a" using Cons.prems(6) by simp
  note lc = release_chunk_local [OF Cons.prems(1,2) a t io Cons.prems(5) hd]
  note fr = turn_frameD [OF ok(2)]
  have same: "ic (d_eng d1) b = ic (d_eng d) b \<and> droppable (d_eng d1) new_ic out b = droppable (d_eng d) new_ic out b" if "b \<in> set as" for b
    using droppable_frame [OF ok(2) disp_invD(1) [OF Cons.prems(1)] Cons.prems(2) a, of b] fr(1) [of b] that Cons.prems(3,4) by auto
  have n1: "n < length (e_inputs (d_eng d1))" using fr(4) Cons.prems(2) by simp
  have sub: "set as \<subseteq> set (in_chunks (e_inputs (d_eng d1) ! n))" using fr(5) [OF Cons.prems(2)] Cons.prems(3,4) by auto
  have h1: "\<forall>b\<in>set as. droppable (d_eng d1) new_ic out b \<longrightarrow> held io (d_eng d1) b"
    using same Cons.prems(6) by (simp add: held_def)
  define F where "F = filter (droppable (d_eng d) new_ic out) as"
  have F: "filter (droppable (d_eng d1) new_ic out) as = F" unfolding F_def by (rule filter_cong) (use same in auto)
  have o1: "oldest_until (bytes_of io (d_eng d1)) k F = oldest_until (bytes_of io (d_eng d)) k F" for k
    by (rule oldest_until_cong) (use same in \<open>auto simp: F_def bytes_of_def\<close>)
  have s1: "sum_list (map (bytes_of io (d_eng d1)) (oldest_until (bytes_of io (d_eng d)) k F)) =
      sum_list (map (bytes_of io (d_eng d)) (oldest_until (bytes_of io (d_eng d)) k F))" for k
  proof -
    have "set (oldest_until (bytes_of io (d_eng d)) k F) \<subseteq> set F" using oldest_until_prefix [of F "bytes_of io (d_eng d)" k] by (metis set_append sup_ge1)
    then show ?thesis using same by (intro arg_cong [of _ _ sum_list] map_cong) (auto simp: F_def bytes_of_def)
  qed
  have IH: "\<exists>d'. release_loop io Hf mp_count new_ic out FLB_INPUT_CHUNK_RELEASE_SCOPE_LOCAL req as m d1 =
      (m + sum_list (map (bytes_of io (d_eng d)) (oldest_until (bytes_of io (d_eng d)) (req - m) F)), d') \<and>
    disp_inv H {#} d' \<and> fs_accounted io (d_eng d') \<and>
    released_set out (set (oldest_until (bytes_of io (d_eng d)) (req - m) F)) (d_eng d1) (d_eng d')" for m
    using Cons.IH [OF ok(1) n1 sub _ lc(4) h1 refl, of m] Cons.prems(4) by (simp add: F o1 s1)
  show ?case
  proof (cases "droppable (d_eng d) new_ic out a")
    case False
    then show ?thesis using IH [of released] lc(1,3) t Cons.prems(7) by (simp add: F_def)
  next
    case True
    define sz where "sz = bytes_of io (d_eng d) a"
    have r: "r = Some sz" using lc(1) True by (simp add: sz_def bytes_of_def)
    note g = lc(2) [OF True]
    show ?thesis
    proof (cases "released + sz \<ge> req")
      case True': True
      have "released_set out {a} (d_eng d) (d_eng d1)"
        using released_set_step [OF ok(2) g, of "{}" "d_eng d1"] by (simp add: released_set_def)
      then show ?thesis using True True' t r ok(1) lc(4) Cons.prems(7) by (simp add: F_def sz_def)
    next
      case False
      then have Pe: "P = a # oldest_until (bytes_of io (d_eng d)) (req - (released + sz)) F"
        using True Cons.prems(7) by (simp add: F_def sz_def algebra_simps)
      obtain d' where d': "release_loop io Hf mp_count new_ic out FLB_INPUT_CHUNK_RELEASE_SCOPE_LOCAL req as (released + sz) d1 =
        (released + sz + sum_list (map (bytes_of io (d_eng d)) (oldest_until (bytes_of io (d_eng d)) (req - (released + sz)) F)), d')"
        "disp_inv H {#} d'" "fs_accounted io (d_eng d')"
        "released_set out (set (oldest_until (bytes_of io (d_eng d)) (req - (released + sz)) F)) (d_eng d1) (d_eng d')"
        using IH [of "released + sz"] by blast
      then show ?thesis using released_set_step [OF ok(2) g d'(4)] False t r by (simp add: Pe sz_def)
    qed
  qed
qed

section \<open>Every source of space keeps the invariants\<close>

lemma release_chunk_queues: "release_chunk io Hf mp_count new_ic out scope a d = (r, d') \<Longrightarrow> d_queues d' = d_queues d"
  by (auto simp: release_chunk_def Let_def split: if_splits prod.splits)

lemma release_loop_queues: "d_queues (snd (release_loop io Hf mp_count new_ic out scope req as m d)) = d_queues d"
proof (induction as arbitrary: m d)
  case (Cons a as)
  obtain r d1 where "release_chunk io Hf mp_count new_ic out scope a d = (r, d1)" by fastforce
  then show ?case using Cons.IH release_chunk_queues by (auto split: option.splits)
qed simp

lemma disp_ok_engine: "disp_ok d \<Longrightarrow> disp_inv {#} {#} d' \<Longrightarrow> d_queues d' = d_queues d \<Longrightarrow> disp_ok d'"
  by (simp add: disp_ok_def queue_ok_def)

text \<open>The invariants of the engine, of the tables of open chunks and of the backlog; Chunk I/O keeps metadata, the
  numbers of the outputs fit the masks, and inputs have a name; names and tags are C strings.\<close>

definition named :: "cstr option \<times> cstr \<Rightarrow> bool" where
  "named c \<longleftrightarrow> snd c \<noteq> [] \<and> nul_free (snd c) \<and> (case fst c of None \<Rightarrow> True | Some t \<Rightarrow> nul_free t)"

definition stores_ok :: "'c cio_api \<Rightarrow> (cstr \<Rightarrow> 64 word) \<Rightarrow> nat \<Rightarrow> 'c flb_sb option \<times> 'c disp \<Rightarrow> bool" where
  "stores_ok io Hf k st \<longleftrightarrow> disp_ok (snd st) \<and> length (e_inputs (d_eng (snd st))) = k \<and> meta_kept io \<and> tables_ok io Hf (d_eng (snd st)) \<and>
     (\<forall>x\<in>set (e_outputs (d_eng (snd st))). mask_valid (o_id x)) \<and> (\<forall>c\<in>set (map in_conf (e_inputs (d_eng (snd st)))). named c) \<and>
     (case fst st of None \<Rightarrow> True | Some sb \<Rightarrow> sb_inv io (sb, d_eng (snd st)))"

lemma stores_okD:
  assumes "stores_ok io Hf k (ctx, d)"
  shows "disp_ok d" "disp_inv {#} {#} d" "eng_inv {#} (d_eng d)" "length (e_inputs (d_eng d)) = k" "meta_kept io" "tables_ok io Hf (d_eng d)"
    "x \<in> set (e_outputs (d_eng d)) \<Longrightarrow> mask_valid (o_id x)" "ctx = Some sb \<Longrightarrow> sb_inv io (sb, d_eng d)"
    "n < k \<Longrightarrow> named (in_conf (e_inputs (d_eng d) ! n))"
  using assms by (auto simp: stores_ok_def disp_ok_def disp_inv_def)

text \<open>What holds throughout the search for space for the chunk \<open>a\<close> with contents \<open>c\<close>: the invariants and the
  chunk itself.\<close>

definition space_ok :: "'c cio_api \<Rightarrow> (cstr \<Rightarrow> 64 word) \<Rightarrow> addr \<Rightarrow> 'c flb_input_chunk \<Rightarrow> nat \<Rightarrow> 'c flb_sb option \<times> 'c disp \<Rightarrow> bool" where
  "space_ok io Hf a c k st \<longleftrightarrow> stores_ok io Hf k st \<and> ic (d_eng (snd st)) a = c \<and> a \<in> dom (e_chunk_heap (d_eng (snd st)))"

lemma space_okD:
  assumes "space_ok io Hf a c k (ctx, d)"
  shows "stores_ok io Hf k (ctx, d)" "ic (d_eng d) a = c" "a \<in> dom (e_chunk_heap (d_eng d))" "length (e_inputs (d_eng d)) = k" "disp_inv {#} {#} d"
  using assms by (simp_all add: space_ok_def stores_ok_def disp_ok_def)

lemma sb_inv_rest:
  assumes "map out_rest (e_outputs s') = map out_rest (e_outputs s)" "sb_inv io (sb, s)"
  shows "sb_inv io (sb, s')"
proof -
  have "o_fs_backlog_chunks_size x' = backlog_bytes (sb_backlogs sb) (o_id x')" if "x' \<in> set (e_outputs s')" for x'
  proof -
    have "out_rest x' \<in> set (map out_rest (e_outputs s))" using that assms(1) by (metis image_eqI list.set_map)
    then obtain x where x: "x \<in> set (e_outputs s)" "out_rest x' = out_rest x" by auto
    then have "o_id x' = o_id x" "o_fs_backlog_chunks_size x' = o_fs_backlog_chunks_size x"
      by (metis out_rest_fields x(2))+
    then show ?thesis using x(1) assms(2) by (simp add: sb_inv_def)
  qed
  then show ?thesis using assms(2) by (simp add: sb_inv_def)
qed

lemma out_rest_ids:
  assumes "map out_rest (e_outputs s') = map out_rest (e_outputs s)"
  shows "o_id ` set (e_outputs s') = o_id ` set (e_outputs s)"
proof -
  have "map o_id (map out_rest (e_outputs s')) = map o_id (map out_rest (e_outputs s))" using assms by simp
  then have "map o_id (e_outputs s') = map o_id (e_outputs s)" by (simp add: comp_def out_rest_fields)
  then show ?thesis by (metis list.set_map)
qed

lemma stores_ok_step:
  assumes "stores_ok io Hf k (ctx, d)" "disp_ok d'" "map in_conf (e_inputs (d_eng d')) = map in_conf (e_inputs (d_eng d))"
    "tables_ok io Hf (d_eng d')" "map out_rest (e_outputs (d_eng d')) = map out_rest (e_outputs (d_eng d))"
  shows "stores_ok io Hf k (ctx, d')"
proof -
  have "mask_valid (o_id x)" if "x \<in> set (e_outputs (d_eng d'))" for x
    using that out_rest_ids [OF assms(5)] stores_okD(7) [OF assms(1)] by (metis (no_types, lifting) image_iff)
  moreover have "length (e_inputs (d_eng d')) = length (e_inputs (d_eng d))" using assms(3) map_eq_imp_length_eq by blast
  ultimately show ?thesis using assms(1,2,4) sb_inv_rest [OF assms(5)] unfolding stores_ok_def snd_conv assms(3) by (auto split: option.splits)
qed

lemma release_chunk_space_ok:
  assumes "space_ok io Hf a c k (ctx, d)" "n < k" "b \<in> set (in_chunks (e_inputs (d_eng d) ! n))"
    "release_chunk io Hf mp_count a out scope b d = (r, d')"
  shows "space_ok io Hf a c k (ctx, d')" "turn_frame b (d_eng d) (d_eng d')"
proof -
  note sp = space_okD [OF assms(1)] and d = space_okD(5,4) [OF assms(1)]
  note ok = release_chunk_ok [OF d(1) _ assms(3,4), unfolded d(2), OF assms(2)]
  show "turn_frame b (d_eng d) (d_eng d')" by (rule ok(2))
  have b: "b \<in> dom (e_chunk_heap (d_eng d))" using listed_chunk(1) [OF disp_invD(1) [OF d(1)] _ assms(3)] d(2) assms(2) by simp
  have "ic (d_eng d') a = ic (d_eng d) a \<and> (a \<in> dom (e_chunk_heap (d_eng d)) \<longrightarrow> a \<in> dom (e_chunk_heap (d_eng d')))"
    using assms(4) b
  proof (cases rule: release_chunk_cases)
    case (2 s1 ch s3 destroyed f)
    then have "a \<noteq> b" by (auto simp: droppable_def)
    then show ?thesis using turn_frameD(1,2) [OF ok(2)] by blast
  qed simp
  moreover have "tables_ok io Hf (d_eng d')"
    using release_chunk_tables [OF stores_okD(5,6) [OF sp(1)] d(1) _ assms(3,4)] assms(2) d(2) by simp
  moreover have "disp_ok d'" by (rule disp_ok_engine [OF stores_okD(1) [OF sp(1)] ok(1) release_chunk_queues [OF assms(4)]])
  ultimately show "space_ok io Hf a c k (ctx, d')"
    using stores_ok_step [OF sp(1)] turn_frameD(7,10) [OF ok(2)] sp(2,3) by (simp add: space_ok_def)
qed

lemma release_loop_space_ok:
  assumes "space_ok io Hf a c k (ctx, d)" "n < k" "set bs \<subseteq> set (in_chunks (e_inputs (d_eng d) ! n))" "distinct bs"
  shows "space_ok io Hf a c k (ctx, snd (release_loop io Hf mp_count a out scope req bs m d))"
  using assms
proof (induction bs arbitrary: d m)
  case (Cons b bs)
  obtain r d1 where t: "release_chunk io Hf mp_count a out scope b d = (r, d1)" by fastforce
  have b: "b \<in> set (in_chunks (e_inputs (d_eng d) ! n))" using Cons.prems(3) by simp
  note ok = release_chunk_space_ok [OF Cons.prems(1,2) b t]
  have k: "n < length (e_inputs (d_eng d))" using Cons.prems(2) space_okD(4) [OF Cons.prems(1)] by simp
  have "set bs \<subseteq> set (in_chunks (e_inputs (d_eng d1) ! n))" using turn_frameD(5) [OF ok(2) k] Cons.prems(3,4) by auto
  then have "space_ok io Hf a c k (ctx, snd (release_loop io Hf mp_count a out scope req bs m' d1))" for m'
    using Cons.IH [OF ok(1) Cons.prems(2)] Cons.prems(4) by simp
  then show ?case using ok(1) t by (auto split: option.splits)
qed simp

lemma release_space_ok:
  assumes "space_ok io Hf a c k (ctx, d)" "n < k" "flb_input_chunk_release_space io Hf mp_count a n out scope req d = (rem, d')"
  shows "space_ok io Hf a c k (ctx, d')"
proof -
  have "distinct (in_chunks (e_inputs (d_eng d) ! n))"
    using eng_invD(4) [OF disp_invD(1) [OF space_okD(5) [OF assms(1)]]] space_okD(4) [OF assms(1)] assms(2) by (simp add: lists_ok_def)
  from release_loop_space_ok [OF assms(1,2) subset_refl this, of mp_count out scope req 0] show ?thesis
    using assms(3) by (auto simp: flb_input_chunk_release_space_def split: prod.splits)
qed

lemma release_inputs_ok:
  assumes "space_ok io Hf a c k (ctx, d)" "\<forall>n\<in>set ns. n < k"
  shows "space_ok io Hf a c k (ctx, snd (release_inputs io Hf mp_count a own out ns rem d))"
  using assms
proof (induction ns arbitrary: rem d)
  case (Cons n ns)
  obtain rem1 d1 where 1: "(if n \<noteq> own then flb_input_chunk_release_space io Hf mp_count a n out FLB_INPUT_CHUNK_RELEASE_SCOPE_LOCAL rem d
      else (rem, d)) = (rem1, d1)" by fastforce
  have "space_ok io Hf a c k (ctx, d1)"
    using 1 Cons.prems release_space_ok [OF Cons.prems(1), of n mp_count out FLB_INPUT_CHUNK_RELEASE_SCOPE_LOCAL rem rem1 d1]
    by (auto split: if_splits)
  then show ?case using 1 Cons.IH [of d1 rem1] Cons.prems(2) by simp
qed simp

lemma sb_release_space_ok:
  assumes "space_ok io Hf a c k (ctx, d)"
  shows "\<exists>ret rem ctx' s'. sb_release_output_queue_space io out req (ctx, d_eng d) = Some (ret, rem, ctx', s') \<and>
    space_ok io Hf a c k (ctx', d\<lparr>d_eng := s'\<rparr>)"
proof (cases "\<exists>sb q. ctx = Some sb \<and> sb_find_segregated_backlog_by_output_plugin_instance out sb = Some q")
  case True
  then obtain sb q where q: "ctx = Some sb" "sb_find_segregated_backlog_by_output_plugin_instance out sb = Some q" by blast
  note sp = space_okD(1-3) [OF assms]
  have inv: "sb_inv io (sb, d_eng d)" "disp_inv {#} {#} d" using stores_okD(2,8) [OF sp(1)] q(1) by simp_all
  obtain m st' f where st': "sb_release_loop io req 0 (sq_chunks q) (sb, d_eng d) = Some (m, st')" "sb_inv io st'" "snd st' = shift_backlog f (d_eng d)"
    using sb_release_loop_prefix [OF inv(1), of req 0 "sq_chunks q"] by auto
  have "same_eng (d_eng d) (snd st')" unfolding st'(3) shift_backlog_def by (rule same_eng_outputs) simp
  then have "disp_inv {#} {#} (d\<lparr>d_eng := snd st'\<rparr>)" by (rule disp_eng_set [OF inv(2)]) (simp add: st'(3) tk_def fun_eq_iff)
  moreover have e: "ic (snd st') = ic (d_eng d)" "e_inputs (snd st') = e_inputs (d_eng d)" "e_chunk_heap (snd st') = e_chunk_heap (d_eng d)"
    by (simp_all add: st'(3))
  moreover have "tables_ok io Hf (snd st')"
    by (rule tables_ok_frame [OF stores_okD(6) [OF sp(1)] tables_frame_same [OF e(3,2)]])
  moreover have "mask_valid (o_id x)" if "x \<in> set (e_outputs (snd st'))" for x
    using that stores_okD(7) [OF sp(1)] by (auto simp: st'(3) shift_backlog_def)
  ultimately show ?thesis using q st'(1,2) sp disp_ok_engine [OF stores_okD(1) [OF sp(1)], of "d\<lparr>d_eng := snd st'\<rparr>"]
    by (auto simp: sb_release_output_queue_space_def space_ok_def stores_ok_def)
next
  case False
  then show ?thesis using assms by (auto simp: sb_release_output_queue_space_def split: option.splits)
qed

lemma compound_ok:
  assumes "space_ok io Hf a c k st" "sb_in < k" "ic_in c < k"
  shows "\<exists>m st'. flb_input_chunk_release_space_compound io Hf mp_count sb_in a out loc st = Some (m, st') \<and> space_ok io Hf a c k st'"
proof -
  obtain ctx d where st: "st = (ctx, d)" by fastforce
  have own: "ic (d_eng d) a = c" by (rule space_okD(2) [OF assms(1) [unfolded st]])
  define rem0 where "rem0 = flb_input_chunk_get_real_size io c"
  obtain rem1 d1 where 1: "(if rem0 > 0 then flb_input_chunk_release_space io Hf mp_count a sb_in out FLB_INPUT_CHUNK_RELEASE_SCOPE_GLOBAL rem0 d
      else (rem0, d)) = (rem1, d1)" by fastforce
  have s1: "space_ok io Hf a c k (ctx, d1)"
    using 1 assms(1,2) release_space_ok [of io Hf a c k ctx d sb_in mp_count out FLB_INPUT_CHUNK_RELEASE_SCOPE_GLOBAL rem0 rem1 d1]
    by (auto simp: st split: if_splits)
  obtain ret rem2 ctx2 s2 where 2: "(if rem1 > 0 then sb_release_output_queue_space io out rem1 (ctx, d_eng d1) else Some (0, rem1, ctx, d_eng d1)) =
      Some (ret, rem2, ctx2, s2)" "space_ok io Hf a c k (ctx2, d1\<lparr>d_eng := s2\<rparr>)"
    using sb_release_space_ok [OF s1, of out rem1] s1 by (cases "rem1 > 0") auto
  obtain rem3 d3 where 3: "(if loc \<and> rem2 > 0
      then flb_input_chunk_release_space io Hf mp_count a (ic_in c) out FLB_INPUT_CHUNK_RELEASE_SCOPE_LOCAL rem2 (d1\<lparr>d_eng := s2\<rparr>)
      else (rem2, d1\<lparr>d_eng := s2\<rparr>)) = (rem3, d3)" by fastforce
  have s3: "space_ok io Hf a c k (ctx2, d3)"
    using 3 2(2) assms(3) release_space_ok [OF 2(2), of "ic_in c" mp_count out FLB_INPUT_CHUNK_RELEASE_SCOPE_LOCAL rem2 rem3 d3]
    by (auto split: if_splits)
  then have len: "length (e_inputs (d_eng d3)) = k" by (rule space_okD(4))
  obtain rem4 d4 where 4: "(if rem3 > 0 then release_inputs io Hf mp_count a (ic_in c) out [0..<length (e_inputs (d_eng d3))] rem3 d3 else (rem3, d3)) =
      (rem4, d4)" by fastforce
  have "space_ok io Hf a c k (ctx2, d4)"
    using 4 s3 release_inputs_ok [OF s3, of "[0..<k]" mp_count "ic_in c" out rem3] by (auto simp: len split: if_splits)
  moreover have "flb_input_chunk_release_space_compound io Hf mp_count sb_in a out loc st = Some (if rem4 < 0 then 0 else rem4, ctx2, d4)"
    unfolding flb_input_chunk_release_space_compound_def Let_def st fst_conv snd_conv own rem0_def [symmetric] 1 prod.case 2(1) option.case 3 4 ..
  ultimately show ?thesis by blast
qed

lemma find_space_ok:
  assumes "space_ok io Hf a c k st" "sb_in < k" "ic_in c < k"
  shows "\<exists>m st'. find_space_loop io Hf mp_count sb_in a ov xs cnt st = Some (m, st') \<and> space_ok io Hf a c k st'"
  using assms(1)
proof (induction xs arbitrary: cnt st)
  case (Cons x xs)
  obtain m st1 where 1: "flb_input_chunk_release_space_compound io Hf mp_count sb_in a (o_id x) True st = Some (m, st1)" "space_ok io Hf a c k st1"
    using compound_ok [OF Cons.prems assms(2,3)] by blast
  show ?case
  proof (cases "o_total_limit_size x = -1 \<or> overlimit_bit (o_id x) AND ov = 0 \<or> \<not> route_bit (ic_routes_mask (ic (d_eng (snd st)) a)) (o_id x)")
    case True
    then show ?thesis using Cons.IH [OF Cons.prems, of cnt] by simp
  next
    case False
    then show ?thesis using 1 Cons.IH [OF 1(2), of "if m \<noteq> 0 then cnt + 1 else cnt"] by auto
  qed
qed simp

lemma place_new_chunk_ok:
  assumes "space_ok io Hf a c k st" "sb_in < k" "ic_in c < k"
  shows "\<exists>st'. flb_input_chunk_place_new_chunk io Hf mp_count sb_in a chunk_size st =
      Some (\<not> flb_routes_mask_is_empty (ic_routes_mask c), st') \<and> space_ok io Hf a c k st'"
proof -
  define ov where "ov = flb_input_chunk_has_overlimit_routes (d_eng (snd st)) a chunk_size"
  obtain m st1 where "flb_input_chunk_find_space_new_data io Hf mp_count sb_in a ov st = Some (m, st1)" "space_ok io Hf a c k st1"
    using find_space_ok [OF assms] unfolding flb_input_chunk_find_space_new_data_def by blast
  then have "\<exists>m st1. (if in_storage_type (e_inputs (d_eng (snd st)) ! ic_in (ic (d_eng (snd st)) a)) = CIO_STORE_FS \<and> ov \<noteq> 0
      then flb_input_chunk_find_space_new_data io Hf mp_count sb_in a ov st else Some (0, st)) = Some (m, st1) \<and> space_ok io Hf a c k st1"
    using assms(1) by (metis (full_types))
  then obtain m st1 where 1: "(if in_storage_type (e_inputs (d_eng (snd st)) ! ic_in (ic (d_eng (snd st)) a)) = CIO_STORE_FS \<and> ov \<noteq> 0
      then flb_input_chunk_find_space_new_data io Hf mp_count sb_in a ov st else Some (0, st)) = Some (m, st1)" "space_ok io Hf a c k st1" by blast
  have "ic (d_eng (snd st1)) a = c" using 1(2) by (simp add: space_ok_def)
  then show ?thesis using 1 unfolding flb_input_chunk_place_new_chunk_def Let_def ov_def [symmetric] 1(1) by simp
qed

section \<open>The ring buffer in memory: what a turn does\<close>

definition gone_set :: "addr set \<Rightarrow> 'c flb_engine \<Rightarrow> 'c flb_engine \<Rightarrow> bool" where
  "gone_set P s s' \<longleftrightarrow> dom (e_chunk_heap s') = dom (e_chunk_heap s) - P \<and> (\<forall>b. b \<notin> P \<longrightarrow> ic s' b = ic s b)"

lemma gone_set_step:
  assumes "turn_frame a s s1" "a \<notin> dom (e_chunk_heap s1)" "gone_set P s1 s'"
  shows "gone_set (insert a P) s s'"
proof -
  note f = turn_frameD(1-3) [OF assms(1)]
  have "dom (e_chunk_heap s1) = dom (e_chunk_heap s) - {a}" using f(2,3) assms(2) by blast
  then have "dom (e_chunk_heap s') = dom (e_chunk_heap s) - insert a P" using assms(3) unfolding gone_set_def by blast
  moreover have "ic s' b = ic s b" if "b \<notin> insert a P" for b using that f(1) [of b] assms(3) by (simp add: gone_set_def)
  ultimately show ?thesis by (simp add: gone_set_def)
qed

definition unused :: "'c flb_engine \<Rightarrow> addr \<Rightarrow> bool" where
  "unused s a \<longleftrightarrow> (case ic_task (ic s a) of None \<Rightarrow> True | Some t \<Rightarrow> tk_users (tk s t) = 0)"

lemma unused_frame:
  assumes "turn_frame a s s'" "eng_inv {#} s" "n < length (e_inputs s)" "a \<in> set (in_chunks (e_inputs s ! n))"
    "b \<in> set (in_chunks (e_inputs s ! n))" "b \<noteq> a"
  shows "unused s' b = unused s b"
proof -
  have "tk s' t = tk s t" if "ic_task (ic s b) = Some t" for t
    using turn_frameD(9) [OF assms(1), of t] listed_chunk(3) [OF assms(2,3,5) that] listed_chunk(3) [OF assms(2-4), of t] assms(6) by blast
  then show ?thesis using turn_frameD(1) [OF assms(1,6)] by (auto simp: unused_def split: option.splits)
qed

lemma to_size_id: "0 \<le> x \<Longrightarrow> x < 2 ^ 64 \<Longrightarrow> to_size x = x"
  by (simp add: to_size_def)

lemma turn_destroy_unused: "unused s a \<Longrightarrow> fst (turn_destroy io Hf a s)"
  by (cases "ic_task (ic s a)") (simp_all add: unused_def turn_destroy_def)

lemma memrb_unused: "flb_input_chunk_is_task_safe_delete s (ic_task (ic s a)) = unused s a"
  by (simp add: flb_input_chunk_is_task_safe_delete_def unused_def split: option.splits)

lemma memrb_loop_oldest:
  assumes "disp_inv {#} {#} d" "n < length (e_inputs (d_eng d))" "set as \<subseteq> set (in_chunks (e_inputs (d_eng d) ! n))" "distinct as"
    "\<forall>a\<in>set as. 0 \<le> bytes_of io (d_eng d) a" "0 \<le> m" "m + sum_list (map (bytes_of io (d_eng d)) as) < 2 ^ 64"
    and "P = oldest_until (bytes_of io (d_eng d)) (req - m) (filter (unused (d_eng d)) as)"
  shows "\<exists>s'. memrb_loop io Hf req as m j (d_eng d) = (m + sum_list (map (bytes_of io (d_eng d)) P), j + int (length P), s') \<and>
    disp_inv {#} {#} (d\<lparr>d_eng := s'\<rparr>) \<and> gone_set (set P) (d_eng d) s'"
  using assms
proof (induction as arbitrary: m j d P)
  case Nil
  then show ?case by (simp add: gone_set_def)
next
  case (Cons a as)
  define s where "s = d_eng d"
  have a: "a \<in> set (in_chunks (e_inputs s ! n))" using Cons.prems(3) by (simp add: s_def)
  have szs: "0 \<le> sum_list (map (bytes_of io s) as)" using Cons.prems(5) by (intro sum_list_nonneg) (auto simp: s_def)
  show ?case
  proof (cases "unused s a")
    case False
    have "0 \<le> bytes_of io s a" using Cons.prems(5) by (simp add: s_def)
    then have "m + sum_list (map (bytes_of io s) as) < 2 ^ 64" using Cons.prems(7) by (simp add: s_def)
    moreover have "P = oldest_until (bytes_of io s) (req - m) (filter (unused s) as)" using Cons.prems(8) False by (simp add: s_def)
    ultimately show ?thesis using Cons.IH [OF Cons.prems(1,2), of m P j] Cons.prems(3-6) False by (simp add: memrb_unused s_def)
  next
    case True
    obtain s1 where t: "turn_destroy io Hf a s = (True, s1)" using turn_destroy_unused [OF True, of io Hf] by (metis (full_types) prod.collapse)
    note ok = turn_destroy_ok [OF Cons.prems(1,2) a [unfolded s_def] t [unfolded s_def]]
    define d1 where "d1 = d\<lparr>d_eng := s1\<rparr>"
    have d1: "d_eng d1 = s1" "disp_inv {#} {#} d1" "turn_frame a s s1" "a \<notin> dom (e_chunk_heap s1)" using ok by (simp_all add: d1_def s_def)
    note fr = turn_frameD [OF d1(3)]
    define sz where "sz = bytes_of io s a"
    have sz0: "0 \<le> sz" "m + sz < 2 ^ 64" using Cons.prems(5,7) szs by (simp_all add: sz_def s_def)
    have step: "memrb_loop io Hf req (a # as) m j s = (if m + sz \<ge> req then (m + sz, j + 1, s1) else memrb_loop io Hf req as (m + sz) (j + 1) s1)"
      using True t sz0 Cons.prems(6) by (simp add: memrb_unused sz_def bytes_of_def to_size_id)
    show ?thesis
    proof (cases "m + sz \<ge> req")
      case True': True
      have "gone_set {a} s s1" using gone_set_step [OF d1(3,4), of "{}" s1] by (simp add: gone_set_def)
      then show ?thesis using True True' step ok(1) Cons.prems(8) by (simp add: s_def [symmetric] sz_def)
    next
      case False
      have same: "ic s1 b = ic s b \<and> unused s1 b = unused s b" if "b \<in> set as" for b
        using unused_frame [OF d1(3) disp_invD(1) [OF Cons.prems(1), folded s_def] _ a, of b] fr(1) [of b] that Cons.prems(2-4) by (auto simp: s_def)
      have n1: "n < length (e_inputs (d_eng d1))" using fr(4) Cons.prems(2) by (simp add: d1(1) s_def)
      have sub: "set as \<subseteq> set (in_chunks (e_inputs (d_eng d1) ! n))"
        using fr(5) [of n] Cons.prems(2-4) by (auto simp: d1(1) s_def)
      define F where "F = filter (unused s) as"
      have F: "filter (unused s1) as = F" unfolding F_def by (rule filter_cong) (use same in auto)
      have by1: "map (bytes_of io s1) xs = map (bytes_of io s) xs" if "set xs \<subseteq> set as" for xs
        using same that by (intro map_cong) (auto simp: bytes_of_def)
      define Q where "Q = oldest_until (bytes_of io s) (req - (m + sz)) F"
      have Q: "Q = oldest_until (bytes_of io s1) (req - (m + sz)) F"
        unfolding Q_def by (rule oldest_until_cong) (use same in \<open>auto simp: F_def bytes_of_def\<close>)
      have Qs: "set Q \<subseteq> set as" using oldest_until_prefix [of F "bytes_of io s" "req - (m + sz)"] unfolding Q_def F_def
        by (metis filter_is_subset le_sup_iff set_append)
      have "\<forall>b\<in>set as. 0 \<le> bytes_of io (d_eng d1) b" using same Cons.prems(5) by (simp add: d1(1) bytes_of_def s_def)
      moreover have "m + sz + sum_list (map (bytes_of io (d_eng d1)) as) < 2 ^ 64"
        using Cons.prems(7) unfolding d1(1) by1 [OF subset_refl] by (simp add: sz_def s_def)
      ultimately obtain s' where s': "memrb_loop io Hf req as (m + sz) (j + 1) s1 = (m + sz + sum_list (map (bytes_of io s) Q), j + 1 + int (length Q), s')"
        "disp_inv {#} {#} (d1\<lparr>d_eng := s'\<rparr>)" "gone_set (set Q) s1 s'"
        using Cons.IH [OF d1(2) n1 sub _ _ _ _ refl, of "m + sz" "j + 1"] Cons.prems(4,6) sz0 by (auto simp: d1(1) F Q [symmetric] by1 [OF Qs])
      have "P = a # Q" using False True Cons.prems(8) by (simp add: Q_def F_def sz_def s_def [symmetric] diff_diff_eq)
      then show ?thesis using step False s' gone_set_step [OF d1(3,4) s'(3)] by (simp add: s_def [symmetric] sz_def d1_def)
    qed
  qed
qed

section \<open>Properties\<close>

text \<open>C16: making room drops the oldest chunks first and no more than needed. Among the chunks of the input that
  are routed to the output and can be dropped (not the new chunk, and not one that a flush to this output uses),
  \<^verbatim>\<open>flb_input_chunk_release_space\<close> takes, in the order of the list, the fewest that give the required size, or all
  of them. These chunks lose their route to the output or are gone; every other chunk is as before; the references
  and tokens of the engine and the counters of all outputs stay right. The chunks that can be dropped are taken to be
  counted and not empty: the code subtracts the size of a chunk from the counter of the output without asking whether it
  was added. Chunk I/O is taken to report the same size for a chunk whether it is mapped or not.\<close>

theorem flb_input_chunk_release_space_oldest_first:
  assumes "disp_ok d" "n < length (e_inputs (d_eng d))" "fs_accounted io (d_eng d)" "map_keeps_size io" "mask_valid out" "req > 0"
    and "\<forall>a\<in>set (in_chunks (e_inputs (d_eng d) ! n)). droppable (d_eng d) new_ic out a \<longrightarrow> held io (d_eng d) a"
  shows "\<exists>P rest d'. filter (droppable (d_eng d) new_ic out) (in_chunks (e_inputs (d_eng d) ! n)) = P @ rest \<and>
    flb_input_chunk_release_space io Hf mp_count new_ic n out FLB_INPUT_CHUNK_RELEASE_SCOPE_LOCAL req d =
      (req - sum_list (map (bytes_of io (d_eng d)) P), d') \<and>
    (req \<le> sum_list (map (bytes_of io (d_eng d)) P) \<or> rest = []) \<and> sum_list (map (bytes_of io (d_eng d)) (butlast P)) < req \<and>
    released_set out (set P) (d_eng d) (d_eng d') \<and> disp_ok d' \<and> fs_accounted io (d_eng d')"
proof -
  define as where "as = in_chunks (e_inputs (d_eng d) ! n)"
  define D where "D = filter (droppable (d_eng d) new_ic out) as"
  define P where "P = oldest_until (bytes_of io (d_eng d)) req D"
  obtain rest where rest: "D = P @ rest" using oldest_until_prefix [of D "bytes_of io (d_eng d)" req] unfolding P_def by blast
  have "req \<le> sum_list (map (bytes_of io (d_eng d)) P) \<or> P = D" unfolding P_def by (rule oldest_until_enough)
  then have enough: "req \<le> sum_list (map (bytes_of io (d_eng d)) P) \<or> rest = []" using rest by simp
  have dis: "distinct as" using eng_invD(4) [OF disp_invD(1)] assms(1,2) by (auto simp: disp_ok_def lists_ok_def as_def)
  have "disp_inv {#} {#} d" using assms(1) by (simp add: disp_ok_def)
  from release_loop_local [OF assms(4,5) this assms(2) _ dis assms(3) _ refl, where new_ic = new_ic and req = req and released = 0 and Hf = Hf and mp_count = mp_count]
  obtain d' where "release_loop io Hf mp_count new_ic out FLB_INPUT_CHUNK_RELEASE_SCOPE_LOCAL req as 0 d = (sum_list (map (bytes_of io (d_eng d)) P), d')"
    "disp_inv {#} {#} d'" "fs_accounted io (d_eng d')" "released_set out (set P) (d_eng d) (d_eng d')"
    using assms(7) by (auto simp: P_def D_def as_def)
  note l = this
  have "d_queues d' = d_queues d" using release_loop_queues [of io Hf mp_count new_ic out FLB_INPUT_CHUNK_RELEASE_SCOPE_LOCAL req as 0 d] l(1) by simp
  then have "disp_ok d'" by (rule disp_ok_engine [OF assms(1) l(2)])
  then show ?thesis using l rest enough oldest_until_least [OF assms(6), of "bytes_of io (d_eng d)" D]
    unfolding as_def [symmetric] D_def [symmetric] P_def [symmetric]
    by - (rule exI [of _ P], rule exI [of _ rest], rule exI [of _ d'], simp add: flb_input_chunk_release_space_def as_def)
qed

text \<open>C17: placing a chunk is safe and refuses nothing. Whatever is released from the chunks brought back from disk,
  from the queues of the backlog, from the input of the chunk and from the other inputs, for however many outputs,
  the search ends, the invariants of the engine, of the backlog and of the tables of open chunks hold, and the chunk itself
  is as it was. The numbers of the outputs fit the masks. The answer
  is therefore whether the chunk had a route in the first place, also when an output has no room left.\<close>

theorem flb_input_chunk_place_new_chunk_safe:
  assumes "space_ok io Hf a c k st" "sb_in < k" "ic_in c < k"
  shows "\<exists>st'. flb_input_chunk_place_new_chunk io Hf mp_count sb_in a chunk_size st =
      Some (\<not> flb_routes_mask_is_empty (ic_routes_mask c), st') \<and> space_ok io Hf a c k st'"
  by (rule place_new_chunk_ok [OF assms])

text \<open>C18: the ring buffer in memory drops its oldest chunks. Of the chunks that no flush uses,
  \<^verbatim>\<open>memrb_input_chunk_release_space\<close> destroys the fewest oldest ones that give the required size, or all of
  them, with their tasks; it reports their number, their bytes and success exactly when they are enough, and keeps
  the invariant of the engine. Sizes are those of chunks with content, and their sum fits a \<^verbatim>\<open>size_t\<close>.\<close>

theorem memrb_input_chunk_release_space_oldest_first:
  assumes "disp_ok d" "n < length (e_inputs (d_eng d))" "req > 0"
    "\<forall>a\<in>set (in_chunks (e_inputs (d_eng d) ! n)). 0 \<le> bytes_of io (d_eng d) a"
    "sum_list (map (bytes_of io (d_eng d)) (in_chunks (e_inputs (d_eng d) ! n))) < 2 ^ 64"
  shows "\<exists>P rest s'. filter (unused (d_eng d)) (in_chunks (e_inputs (d_eng d) ! n)) = P @ rest \<and>
    memrb_input_chunk_release_space io Hf n req (d_eng d) =
      (if req \<le> sum_list (map (bytes_of io (d_eng d)) P) then 0 else -1, int (length P), sum_list (map (bytes_of io (d_eng d)) P), s') \<and>
    (req \<le> sum_list (map (bytes_of io (d_eng d)) P) \<or> rest = []) \<and> sum_list (map (bytes_of io (d_eng d)) (butlast P)) < req \<and>
    gone_set (set P) (d_eng d) s' \<and> disp_ok (d\<lparr>d_eng := s'\<rparr>)"
proof -
  define as where "as = in_chunks (e_inputs (d_eng d) ! n)"
  define D where "D = filter (unused (d_eng d)) as"
  define P where "P = oldest_until (bytes_of io (d_eng d)) req D"
  define m where "m = sum_list (map (bytes_of io (d_eng d)) P)"
  obtain rest where rest: "D = P @ rest" using oldest_until_prefix [of D "bytes_of io (d_eng d)" req] unfolding P_def by blast
  have "req \<le> m \<or> P = D" unfolding P_def m_def by (rule oldest_until_enough)
  then have enough: "req \<le> m \<or> rest = []" using rest by simp
  have dis: "distinct as" using eng_invD(4) [OF disp_invD(1)] assms(1,2) by (auto simp: disp_ok_def lists_ok_def as_def)
  have nonneg: "0 \<le> bytes_of io (d_eng d) a" if "a \<in> set as" for a using assms(4) that by (simp add: as_def)
  have "sum_list (map (bytes_of io (d_eng d)) D) \<le> sum_list (map (bytes_of io (d_eng d)) as)"
    using nonneg unfolding D_def by (induction as) (auto intro: add_increasing)
  moreover have "set P \<union> set rest \<subseteq> set as" using arg_cong [OF rest, of set] by (auto simp: D_def)
  then have "0 \<le> sum_list (map (bytes_of io (d_eng d)) rest)" "0 \<le> m"
    unfolding m_def by (auto intro!: sum_list_nonneg nonneg)
  ultimately have m: "0 \<le> m" "m < 2 ^ 64" using assms(5) rest by (simp_all add: m_def as_def)
  have "disp_inv {#} {#} d" using assms(1) by (simp add: disp_ok_def)
  from memrb_loop_oldest [OF this assms(2) _ dis, of io 0 P req Hf 0]
  obtain s' where "memrb_loop io Hf req as 0 0 (d_eng d) = (m, int (length P), s')" "disp_inv {#} {#} (d\<lparr>d_eng := s'\<rparr>)" "gone_set (set P) (d_eng d) s'"
    using assms(4,5) by (auto simp: P_def D_def as_def m_def)
  note l = this
  have "disp_ok (d\<lparr>d_eng := s'\<rparr>)" by (rule disp_ok_engine [OF assms(1) l(2)]) simp
  then show ?thesis using l rest enough oldest_until_least [OF assms(3), of "bytes_of io (d_eng d)" D] m
    unfolding as_def [symmetric] D_def [symmetric] P_def [symmetric] m_def [symmetric]
    by - (rule exI [of _ P], rule exI [of _ rest], rule exI [of _ s'], simp add: memrb_input_chunk_release_space_def as_def to_size_id m_def [symmetric])
qed

lemma demo_start_fields:
  "e_inputs (d_eng demo_start) = [demo_input 100]" "e_outputs (d_eng demo_start) = [demo_out 100]"
  "ic (d_eng demo_start) 0 = (demo_chunk_of True 100)\<lparr>ic_chunk := (True, 100, Some ''t'')\<rparr>"
  "dom (e_chunk_heap (d_eng demo_start)) = {0}"
  by (simp_all add: demo_start_def demo_disp_def demo_engine_def ic_def)

lemma demo_start_space:
  "fs_accounted demo_io (d_eng demo_start)" "map_keeps_size demo_io" "bytes_of demo_io (d_eng demo_start) 0 = 100"
  "droppable (d_eng demo_start) 9 0 0" "held demo_io (d_eng demo_start) 0" "unused (d_eng demo_start) 0" "mask_valid 0"
proof -
  have r: "route_bit [1, 0, 0, 0] 0" by code_simp
  then show "fs_accounted demo_io (d_eng demo_start)"
    by (simp add: fs_accounted_def demo_start_fields demo_out_def demo_chunk_of_def chunk_bytes_def flb_input_chunk_get_real_size_def demo_io_def)
  show "map_keeps_size demo_io" by (auto simp: map_keeps_size_def size_of_def demo_io_def Let_def)
  show "bytes_of demo_io (d_eng demo_start) 0 = 100"
    by (simp add: bytes_of_def demo_start_fields flb_input_chunk_get_real_size_def demo_io_def)
  show "droppable (d_eng demo_start) 9 0 0" "unused (d_eng demo_start) 0"
    using r by (simp_all add: droppable_def unused_def demo_start_fields demo_chunk_of_def)
  show "held demo_io (d_eng demo_start) 0"
    by (simp add: held_def demo_start_fields demo_chunk_of_def flb_input_chunk_get_real_size_def demo_io_def mask_wf_def mask_consts)
  show "mask_valid 0" by (simp add: mask_valid_def mask_consts)
qed

lemma demo_tables: "meta_kept demo_io" "tables_ok demo_io (\<lambda>_. 0) (d_eng demo_start)"
proof -
  show "meta_kept demo_io"
    by (auto simp: meta_kept_def tag_up_def brought_up_def demo_io_def flb_input_chunk_get_tag_def)
  have e: "ht_abs demo_ht k = None" for k
    by (simp add: demo_ht_def flb_hash_table_create_def ht_abs_def)
  have "table_ok demo_io (\<lambda>_. 0) (d_eng demo_start) 0 et ht" if "chunk_table et (demo_input 100) = Some ht" for et ht
  proof -
    have "ht = demo_ht" using that by (auto simp: chunk_table_def demo_input_def split: if_splits)
    then show ?thesis using demo_ht_plain [of "\<lambda>_. 0"] by (simp add: table_ok_def e)
  qed
  then show "tables_ok demo_io (\<lambda>_. 0) (d_eng demo_start)" by (simp add: tables_ok_def demo_start_fields)
qed

lemma demo_stores: "stores_ok demo_io (\<lambda>_. 0) 1 (None, demo_start)"
  using engine_start_ok [OF demo_start_ok] demo_tables demo_start_space(7)
  by (simp add: stores_ok_def demo_start_fields demo_out_def demo_input_def named_def in_conf_def nul_free_def)

theorem flb_input_chunk_release_space_oldest_first_witness:
  "\<exists>d'. flb_input_chunk_release_space demo_io (\<lambda>_. 0) (\<lambda>_. 1) 9 0 0 FLB_INPUT_CHUNK_RELEASE_SCOPE_LOCAL 40 demo_start = (-60, d') \<and>
     released_set 0 {0} (d_eng demo_start) (d_eng d') \<and> disp_ok d' \<and> fs_accounted demo_io (d_eng d')"
proof -
  have l: "in_chunks (e_inputs (d_eng demo_start) ! 0) = [0]" by (simp add: demo_start_fields demo_input_def)
  obtain P rest d' where P: "[0] = P @ rest" "flb_input_chunk_release_space demo_io (\<lambda>_. 0) (\<lambda>_. 1) 9 0 0 FLB_INPUT_CHUNK_RELEASE_SCOPE_LOCAL 40 demo_start =
      (40 - sum_list (map (bytes_of demo_io (d_eng demo_start)) P), d')" "40 \<le> sum_list (map (bytes_of demo_io (d_eng demo_start)) P) \<or> rest = []"
    "released_set 0 (set P) (d_eng demo_start) (d_eng d')" "disp_ok d'" "fs_accounted demo_io (d_eng d')"
    using flb_input_chunk_release_space_oldest_first [OF engine_start_ok [OF demo_start_ok] _ demo_start_space(1,2,7), of 0 40 9 "\<lambda>_. 0" "\<lambda>_. 1"]
      demo_start_space l by (auto simp: demo_start_fields)
  have "P = [0]" using P(1,3) by (cases P) auto
  from P(2,4-6) show ?thesis unfolding \<open>P = [0]\<close> using demo_start_space(3) by simp
qed

theorem flb_input_chunk_place_new_chunk_safe_witness:
  "\<exists>st'. flb_input_chunk_place_new_chunk demo_io (\<lambda>_. 0) (\<lambda>_. 1) 0 0 5000 (None, demo_start) = Some (True, st')"
proof -
  define c where "c = (demo_chunk_of True 100)\<lparr>ic_chunk := (True, 100, Some ''t'')\<rparr>"
  have "space_ok demo_io (\<lambda>_. 0) 0 c 1 (None, demo_start)"
    using demo_stores by (simp add: space_ok_def demo_start_fields c_def)
  moreover have "\<not> flb_routes_mask_is_empty [1, 0, 0, 0]" by code_simp
  then have "ic_in c < 1" "\<not> flb_routes_mask_is_empty (ic_routes_mask c)" by (simp_all add: c_def demo_chunk_of_def)
  ultimately show ?thesis using flb_input_chunk_place_new_chunk_safe [of demo_io "\<lambda>_. 0" 0 c 1 "(None, demo_start)" 0 "\<lambda>_. 1" 5000] by auto
qed

theorem memrb_input_chunk_release_space_oldest_first_witness:
  "\<exists>s'. memrb_input_chunk_release_space demo_io (\<lambda>_. 0) 0 40 (d_eng demo_start) = (0, 1, 100, s') \<and> dom (e_chunk_heap s') = {}"
proof -
  have l: "in_chunks (e_inputs (d_eng demo_start) ! 0) = [0]" by (simp add: demo_start_fields demo_input_def)
  obtain P rest s' where P: "[0] = P @ rest" "memrb_input_chunk_release_space demo_io (\<lambda>_. 0) 0 40 (d_eng demo_start) =
      (if 40 \<le> sum_list (map (bytes_of demo_io (d_eng demo_start)) P) then 0 else -1, int (length P), sum_list (map (bytes_of demo_io (d_eng demo_start)) P), s')"
    "40 \<le> sum_list (map (bytes_of demo_io (d_eng demo_start)) P) \<or> rest = []" "gone_set (set P) (d_eng demo_start) s'"
    using memrb_input_chunk_release_space_oldest_first [OF engine_start_ok [OF demo_start_ok], of 0 40 demo_io "\<lambda>_. 0"]
      demo_start_space l by (auto simp: demo_start_fields)
  have "P = [0]" using P(1,3) by (cases P) auto
  from P(2,4) show ?thesis unfolding \<open>P = [0]\<close> using demo_start_space(3) by (simp add: gone_set_def demo_start_fields)
qed

end
