(* ===== verification/Flb_Filter.thy ===== *)
theory Flb_Filter
  imports Flb_Router
begin

text \<open>
  \<^verbatim>\<open>flb_filter_do\<close> of \<^verbatim>\<open>src/flb_filter.c\<close>, the chain of filters that the records of an
  input go through before they are written to a chunk, and \<^verbatim>\<open>flb_mp_count\<close> of
  \<^verbatim>\<open>src/flb_mp.c\<close>, which counts the records of a buffer.

  A filter is a plugin: \<open>cb\<close> is its callback, an argument of the definitions that gives, for the
  position of the filter, the buffer and the tag, the return value and the buffer the filter produced.
  \<open>discard\<close> is \<^verbatim>\<open>mpack_discard\<close> of the vendored MessagePack reader: the number of bytes of the
  object at the start of the buffer, \<open>None\<close> when there is none.
\<close>

section \<open>Counting records\<close>

text \<open>The loop of \<^verbatim>\<open>flb_mp_count_remaining\<close>: the count and the bytes that remain. Every object has at
  least one byte, so the length of the buffer is enough fuel.\<close>

fun mp_count_loop :: "(cstr \<Rightarrow> nat option) \<Rightarrow> nat \<Rightarrow> cstr \<Rightarrow> int \<Rightarrow> int \<times> nat" where
  "mp_count_loop discard 0 buf count = (count, length buf)"
| "mp_count_loop discard (Suc fuel) buf count =
     (if buf = [] then (count, 0)
      else case discard buf of
        None \<Rightarrow> (count, length buf)
      | Some n \<Rightarrow> mp_count_loop discard fuel (drop n buf) (count + 1))"

definition flb_mp_count_remaining :: "(cstr \<Rightarrow> nat option) \<Rightarrow> cstr \<Rightarrow> int \<times> nat" where
  "flb_mp_count_remaining discard buf = mp_count_loop discard (length buf) buf 0"

definition flb_mp_count :: "(cstr \<Rightarrow> nat option) \<Rightarrow> cstr \<Rightarrow> int" where
  "flb_mp_count discard buf = fst (flb_mp_count_remaining discard buf)"

section \<open>Filter instances\<close>

definition FLB_FILTER_MODIFIED :: int where "FLB_FILTER_MODIFIED = 1"
definition FLB_FILTER_NOTOUCH :: int where "FLB_FILTER_NOTOUCH = 2"

record flb_filter_instance =
  f_match :: "cstr option"
  f_match_regex :: "nat option"
  f_properties :: "(cstr \<times> cstr) list"
  f_cmt_records :: int
  f_cmt_bytes :: int
  f_cmt_add_records :: int
  f_cmt_drop_records :: int
  f_cmt_drop_bytes :: int

text \<open>\<^verbatim>\<open>strcasecmp(a, b) == 0\<close>.\<close>

definition tolower :: "char \<Rightarrow> char" where
  "tolower c = (if of_char c \<ge> (65 :: nat) \<and> of_char c \<le> (90 :: nat) then char_of (of_char c + 32 :: nat) else c)"

definition strcasecmp_eq :: "cstr \<Rightarrow> cstr \<Rightarrow> bool" where
  "strcasecmp_eq a b = strcmp_eq (map tolower a) (map tolower b)"

definition is_active :: "(cstr \<times> cstr) list \<Rightarrow> bool" where
  "is_active props =
     (\<not> list_ex (\<lambda>(key, val). strcasecmp_eq key ''active'' \<and> (strcasecmp_eq val ''FALSE'' \<or> strcmp_eq val ''0'')) props)"

section \<open>The chain of filters\<close>

text \<open>The counters of a filter that changed the buffer: \<open>dropped\<close> bytes are counted against the size of the
  data that entered the chain.\<close>

definition filter_count :: "int \<Rightarrow> int \<Rightarrow> int \<Rightarrow> flb_filter_instance \<Rightarrow> flb_filter_instance" where
  "filter_count in_records out_records dropped f =
     (if out_records > in_records then f\<lparr>f_cmt_add_records := f_cmt_add_records f + (out_records - in_records),
                                         f_cmt_drop_bytes := f_cmt_drop_bytes f + dropped\<rparr>
      else if out_records < in_records then f\<lparr>f_cmt_drop_records := f_cmt_drop_records f + (in_records - out_records),
                                              f_cmt_drop_bytes := f_cmt_drop_bytes f + dropped\<rparr>
      else f)"

definition filter_matches :: "(nat \<Rightarrow> cstr \<Rightarrow> int) \<Rightarrow> cstr \<Rightarrow> flb_filter_instance \<Rightarrow> bool" where
  "filter_matches onig ntag f =
     (is_active (f_properties f) \<and> flb_router_match onig True ntag (int (length ntag)) (f_match f) (f_match_regex f))"

text \<open>The loop over the filters from position \<open>i\<close> on: the buffer, the total of records of the chunk and the
  filters with their counters.\<close>

fun filter_loop ::
  "(nat \<Rightarrow> cstr \<Rightarrow> int) \<Rightarrow> (nat \<Rightarrow> cstr \<Rightarrow> cstr \<Rightarrow> int \<times> cstr) \<Rightarrow> (cstr \<Rightarrow> int) \<Rightarrow> cstr \<Rightarrow> int \<Rightarrow> int
   \<Rightarrow> nat \<Rightarrow> flb_filter_instance list \<Rightarrow> cstr \<Rightarrow> int \<Rightarrow> int \<Rightarrow> cstr \<times> int \<times> flb_filter_instance list" where
  "filter_loop onig cb count ntag ingested pre i [] work in_records tot = (work, tot, [])"
| "filter_loop onig cb count ntag ingested pre i (f # fs) work in_records tot =
     (if \<not> filter_matches onig ntag f then
        (case filter_loop onig cb count ntag ingested pre (i + 1) fs work in_records tot of (w, t, fs') \<Rightarrow> (w, t, f # fs'))
      else case cb i work ntag of (ret, out_buf) \<Rightarrow>
        let out_size = int (length out_buf);
            f1 = f\<lparr>f_cmt_records := f_cmt_records f + in_records, f_cmt_bytes := f_cmt_bytes f + out_size\<rparr>
        in if ret = FLB_FILTER_MODIFIED then
             (let dropped = (if ingested > out_size then ingested - out_size else 0) in
              if out_size = 0 then
                ([], pre, f1\<lparr>f_cmt_drop_records := f_cmt_drop_records f1 + in_records,
                             f_cmt_drop_bytes := f_cmt_drop_bytes f1 + dropped\<rparr> # fs)
              else let out_records = count out_buf in
                case filter_loop onig cb count ntag ingested pre (i + 1) fs out_buf out_records (pre + out_records) of
                  (w, t, fs') \<Rightarrow> (w, t, filter_count in_records out_records dropped f1 # fs'))
           else case filter_loop onig cb count ntag ingested pre (i + 1) fs work in_records tot of (w, t, fs') \<Rightarrow> (w, t, f1 # fs'))"

text \<open>\<open>mem_ok\<close> is the outcome of the allocation of the terminated tag. Results: the buffer, the total of records
  of the chunk, the filters.\<close>

definition flb_filter_do ::
  "(nat \<Rightarrow> cstr \<Rightarrow> int) \<Rightarrow> (nat \<Rightarrow> cstr \<Rightarrow> cstr \<Rightarrow> int \<times> cstr) \<Rightarrow> (cstr \<Rightarrow> int) \<Rightarrow> bool \<Rightarrow> int \<Rightarrow> int \<Rightarrow> cstr \<Rightarrow> cstr \<Rightarrow> int
   \<Rightarrow> flb_filter_instance list \<Rightarrow> cstr \<times> int \<times> flb_filter_instance list" where
  "flb_filter_do onig cb count mem_ok added total_records buf tag tag_len filters =
     (if \<not> mem_ok then ([], total_records, filters)
      else filter_loop onig cb count (take (nat tag_len) tag) (int (length buf)) (total_records - added) 0 filters buf
             added total_records)"

section \<open>Lemmas\<close>

text \<open>More fuel than bytes makes no difference when every object has a byte.\<close>

lemma mp_count_loop_fuel:
  assumes "\<And>b n. discard b = Some n \<Longrightarrow> 0 < n" "length buf \<le> fuel"
  shows "mp_count_loop discard fuel buf c = mp_count_loop discard (length buf) buf c"
  using assms(2)
proof (induction fuel arbitrary: buf c rule: less_induct)
  case (less fuel)
  show ?case
  proof (cases "buf = [] \<or> discard buf = None")
    case True
    then show ?thesis by (cases fuel; cases "length buf") auto
  next
    case False
    then obtain n where n: "discard buf = Some n" "buf \<noteq> []" by auto
    then obtain m k where m: "length buf = Suc m" "fuel = Suc k" using less.prems by (cases fuel; cases buf) auto
    have d: "length (drop n buf) \<le> m" "length (drop n buf) \<le> k" using assms(1) [OF n(1)] m less.prems by auto
    show ?thesis
      using less.IH [of k "drop n buf" "c + 1"] less.IH [of m "drop n buf" "c + 1"] d m n less.prems
      by (cases "m = fuel") auto
  qed
qed

lemma mp_count_loop_shift: "fst (mp_count_loop discard fuel buf (c + d)) = fst (mp_count_loop discard fuel buf c) + d"
  by (induction fuel arbitrary: buf c) (auto split: option.splits, metis add.commute add.left_commute)

lemma flb_mp_count_empty [simp]: "flb_mp_count discard [] = 0"
  by (simp add: flb_mp_count_def flb_mp_count_remaining_def)

text \<open>The unfolding of the count, without fuel.\<close>

lemma flb_mp_count_rec:
  assumes "\<And>b n. discard b = Some n \<Longrightarrow> 0 < n" "buf \<noteq> []"
  shows "flb_mp_count discard buf = (case discard buf of None \<Rightarrow> 0 | Some n \<Rightarrow> 1 + flb_mp_count discard (drop n buf))"
proof (cases "discard buf")
  case None
  then show ?thesis using assms(2) by (cases buf) (simp_all add: flb_mp_count_def flb_mp_count_remaining_def)
next
  case (Some n)
  obtain m where m: "length buf = Suc m" using assms(2) by (cases buf) auto
  have "length (drop n buf) \<le> m" using assms(1) [OF Some] m by simp
  from mp_count_loop_fuel [OF assms(1) this, where c = 1] mp_count_loop_shift [of discard "length (drop n buf)" "drop n buf" 0 1]
  show ?thesis using Some m assms(2) by (simp add: flb_mp_count_def flb_mp_count_remaining_def)
qed

section \<open>The chain as a composition\<close>

text \<open>What the chain promises: the filters that are active and match are applied in order, until one leaves
  nothing.\<close>

definition filter_apply :: "(nat \<Rightarrow> cstr \<Rightarrow> int) \<Rightarrow> (nat \<Rightarrow> cstr \<Rightarrow> cstr \<Rightarrow> int \<times> cstr) \<Rightarrow> cstr \<Rightarrow> nat \<Rightarrow> flb_filter_instance \<Rightarrow> cstr \<Rightarrow> cstr" where
  "filter_apply onig cb ntag i f d =
     (if filter_matches onig ntag f \<and> fst (cb i d ntag) = FLB_FILTER_MODIFIED then snd (cb i d ntag) else d)"

fun pipeline :: "(nat \<Rightarrow> cstr \<Rightarrow> int) \<Rightarrow> (nat \<Rightarrow> cstr \<Rightarrow> cstr \<Rightarrow> int \<times> cstr) \<Rightarrow> cstr \<Rightarrow> nat \<Rightarrow> flb_filter_instance list \<Rightarrow> cstr \<Rightarrow> cstr" where
  "pipeline onig cb ntag i [] d = d"
| "pipeline onig cb ntag i (f # fs) d =
     (let d' = filter_apply onig cb ntag i f d in if d' = [] then [] else pipeline onig cb ntag (i + 1) fs d')"

definition net_added :: "flb_filter_instance list \<Rightarrow> int" where
  "net_added fs = sum_list (map (\<lambda>f. f_cmt_add_records f - f_cmt_drop_records f) fs)"

lemma net_added_Cons [simp]: "net_added (f # fs) = f_cmt_add_records f - f_cmt_drop_records f + net_added fs"
  by (simp add: net_added_def)

lemma filter_count_net:
  "f_cmt_add_records (filter_count m n k f) - f_cmt_drop_records (filter_count m n k f) =
     f_cmt_add_records f - f_cmt_drop_records f + (n - m)"
  by (simp add: filter_count_def)

lemma filter_loop_correct:
  assumes "count [] = 0" "work \<noteq> []" "in_records = count work" "tot = pre + in_records"
    "filter_loop onig cb count ntag ingested pre i fs work in_records tot = (out, tot', fs')"
  shows "out = pipeline onig cb ntag i fs work \<and> tot' = pre + count out \<and>
    net_added fs' = net_added fs + (count out - count work) \<and>
    map f_match fs' = map f_match fs"
  using assms(2-)
proof (induction fs arbitrary: i work in_records tot out tot' fs')
  case (Cons f fs)
  obtain ret b where b: "cb i work ntag = (ret, b)" by fastforce
  show ?case
  proof (cases "filter_matches onig ntag f \<and> ret = FLB_FILTER_MODIFIED")
    case False
    then have ap: "filter_apply onig cb ntag i f work = work" using b by (auto simp: filter_apply_def)
    obtain w t gs where rec: "filter_loop onig cb count ntag ingested pre (i + 1) fs work in_records tot = (w, t, gs)"
      by (metis prod_cases3)
    have "w = out" "t = tot'" "\<exists>g. fs' = g # gs \<and> f_cmt_add_records g = f_cmt_add_records f \<and>
        f_cmt_drop_records g = f_cmt_drop_records f \<and> f_match g = f_match f"
      using Cons.prems(4) False b rec by (auto simp: Let_def split: if_splits)
    then show ?thesis using Cons.IH [OF Cons.prems(1-3) rec] ap Cons.prems(1) by auto
  next
    case True
    then have ap: "filter_apply onig cb ntag i f work = b" using b by (simp add: filter_apply_def)
    show ?thesis
    proof (cases "b = []")
      case empty: True
      then show ?thesis using Cons.prems True b ap assms(1) by (auto simp: Let_def)
    next
      case False
      obtain w t gs where rec: "filter_loop onig cb count ntag ingested pre (i + 1) fs b (count b) (pre + count b) = (w, t, gs)"
        by (metis prod_cases3)
      define g where "g = f\<lparr>f_cmt_records := f_cmt_records f + in_records, f_cmt_bytes := f_cmt_bytes f + int (length b)\<rparr>"
      define k where "k = (if ingested > int (length b) then ingested - int (length b) else 0)"
      have g: "f_cmt_add_records g = f_cmt_add_records f" "f_cmt_drop_records g = f_cmt_drop_records f" "f_match g = f_match f"
        by (simp_all add: g_def)
      have eq: "w = out" "t = tot'" "fs' = filter_count in_records (count b) k g # gs"
        using Cons.prems(4) True False b rec by (auto simp: Let_def k_def g_def)
      have "f_match (filter_count m n k g) = f_match g" for m n k g by (simp add: filter_count_def)
      then show ?thesis using Cons.IH [OF False refl refl rec] ap False eq g Cons.prems(2) by (simp add: filter_count_net)
    qed
  qed
qed simp

section \<open>Properties\<close>

text \<open>C9: the chain of filters applies the filters that are active and match the tag, in order, until one
  leaves nothing; the number of records of the chunk follows the data, and what the filters count as
  added and dropped is the difference between what entered the chain and what left it.\<close>

theorem flb_filter_do_correct:
  assumes "buf \<noteq> []" "added = flb_mp_count discard buf"
    "flb_filter_do onig cb (flb_mp_count discard) True added total_records buf tag tag_len fs = (out, tot', fs')"
  shows "out = pipeline onig cb (take (nat tag_len) tag) 0 fs buf \<and>
    tot' = total_records - flb_mp_count discard buf + flb_mp_count discard out \<and>
    net_added fs' - net_added fs = flb_mp_count discard out - flb_mp_count discard buf"
  using filter_loop_correct [of "flb_mp_count discard" buf added total_records "total_records - added" onig cb
      "take (nat tag_len) tag" "int (length buf)" 0 fs out tot' fs'] assms
  by (simp add: flb_filter_do_def)

text \<open>Objects of one byte, a filter that keeps every byte but \<^verbatim>\<open>x\<close>, and one for another tag.\<close>

definition demo_filter :: "cstr \<Rightarrow> flb_filter_instance" where
  "demo_filter m = \<lparr>f_match = Some m, f_match_regex = None, f_properties = [], f_cmt_records = 0, f_cmt_bytes = 0,
     f_cmt_add_records = 0, f_cmt_drop_records = 0, f_cmt_drop_bytes = 0\<rparr>"

definition demo_cb :: "nat \<Rightarrow> cstr \<Rightarrow> cstr \<Rightarrow> int \<times> cstr" where
  "demo_cb i d tag = (FLB_FILTER_MODIFIED, filter (\<lambda>c. c \<noteq> CHR ''x'') d)"

theorem flb_filter_do_correct_witness:
  "fst (snd (flb_filter_do (\<lambda>_ _. 0) demo_cb (flb_mp_count (\<lambda>_. Some 1)) True 3 10 ''axb'' ''cpu'' 3 [demo_filter ''c*'', demo_filter ''d'']))
     = 9"
proof -
  define r where "r = flb_filter_do (\<lambda>_ _. 0) demo_cb (flb_mp_count (\<lambda>_. Some 1)) True 3 10 ''axb'' ''cpu'' 3 [demo_filter ''c*'', demo_filter ''d'']"
  have 1: "flb_mp_count (\<lambda>_. Some 1) ''axb'' = 3" "flb_mp_count (\<lambda>_. Some 1) ''ab'' = 2"
    by (simp_all add: flb_mp_count_def flb_mp_count_remaining_def)
  have 2: "filter_matches (\<lambda>_ _. 0) ''cpu'' (demo_filter ''c*'')" "\<not> filter_matches (\<lambda>_ _. 0) ''cpu'' (demo_filter ''d'')"
    by code_simp+
  have p: "pipeline (\<lambda>_ _. 0) demo_cb ''cpu'' 0 [demo_filter ''c*'', demo_filter ''d''] ''axb'' = ''ab''"
    using 2 by (simp add: filter_apply_def demo_cb_def)
  have "flb_filter_do (\<lambda>_ _. 0) demo_cb (flb_mp_count (\<lambda>_. Some 1)) True 3 10 ''axb'' ''cpu'' 3 [demo_filter ''c*'', demo_filter ''d'']
      = (fst r, fst (snd r), snd (snd r))" by (simp add: r_def)
  from flb_filter_do_correct [OF _ _ this] 1 p show ?thesis by (simp add: r_def)
qed

end
