(* ===== verification/Flb_Ingest.thy ===== *)
theory Flb_Ingest
  imports Flb_Chunk_Space Flb_Filter
begin

text \<open>
  How records enter a chunk: \<^verbatim>\<open>input_chunk_get\<close>, \<^verbatim>\<open>input_chunk_append_raw\<close> and the ring
  buffer of threaded inputs, the rest of \<^verbatim>\<open>src/flb_input_chunk.c\<close>. The open chunk of a tag is
  found in the hash table of its input, or created; room is made for it; the records go through the filters and are
  written; sizes, limits and counters are brought up to date.

  The stream processor and the chunk traces, which the build can leave out, are not modelled. A filter is a
  function of its input, so a filter that appends records of its own (as \<^verbatim>\<open>rewrite_tag\<close> does) is outside
  of the model.
\<close>

section \<open>State and environment\<close>

text \<open>\<open>y_rb\<close> is what the ring buffer of an input holds, oldest first.\<close>

record input_chunk_raw =
  cr_ins :: nat
  cr_event_type :: int
  cr_records :: int
  cr_tag :: "cstr option"
  cr_buf :: cstr

record 'c flb_sys =
  y_sb :: "'c flb_sb option"
  y_disp :: "'c disp"
  y_filters :: "flb_filter_instance list"
  y_rb :: "nat \<Rightarrow> input_chunk_raw list"
  y_flush_pending :: "nat \<Rightarrow> bool"

text \<open>What comes from outside of an append: the regular expression engine, the outcomes of allocations, the clock, the chunk
  \<^verbatim>\<open>cio_chunk_open\<close> returns, the setting \<^verbatim>\<open>storage_del_bad_chunks\<close>, the position of the backlog input, the callbacks of the
  filters and the count of records of a buffer.\<close>

record 'c ingest_env =
  g_onig :: "nat \<Rightarrow> cstr \<Rightarrow> int"
  g_sds_ok :: "int \<Rightarrow> bool"
  g_now :: int
  g_meta_ok :: bool
  g_mem_ok :: bool
  g_opened :: "'c option"
  g_del_bad :: bool
  g_sb_in :: nat
  g_cb :: "nat \<Rightarrow> cstr \<Rightarrow> cstr \<Rightarrow> int \<times> cstr"
  g_count :: "cstr \<Rightarrow> int"
  g_ntag_ok :: bool

definition FLB_INPUT_CHUNK_FS_MAX_SIZE :: int where "FLB_INPUT_CHUNK_FS_MAX_SIZE = 2048000"

type_synonym 'c space_st = "'c flb_sb option \<times> 'c disp"

definition st_upd :: "('c flb_engine \<Rightarrow> 'c flb_engine) \<Rightarrow> 'c space_st \<Rightarrow> 'c space_st" where
  "st_upd f st = (fst st, eng_upd f (snd st))"

section \<open>Finding or creating the chunk\<close>

definition input_chunk_lookup ::
  "(cstr \<Rightarrow> 64 word) \<Rightarrow> int \<Rightarrow> nat \<Rightarrow> int \<Rightarrow> cstr \<Rightarrow> int \<Rightarrow> 'c flb_engine \<Rightarrow> hval option \<times> 'c flb_engine" where
  "input_chunk_lookup H now n event_type tag tag_len s =
     (case chunk_table event_type (e_inputs s ! n) of
        None \<Rightarrow> (None, s)
      | Some ht \<Rightarrow>
          (case flb_hash_table_get H now ht (Some tag) tag_len of
             (bid, v, ht') \<Rightarrow> (if bid \<ge> 0 then map_option fst v else None, in_upd n (ht_of_type event_type (\<lambda>_. ht')) s)))"

text \<open>A chunk that was found: whether it can be used, and \<^verbatim>\<open>set_down\<close>.\<close>

definition input_chunk_found ::
  "'c cio_api \<Rightarrow> (cstr \<Rightarrow> 64 word) \<Rightarrow> bool \<Rightarrow> addr \<Rightarrow> cstr \<Rightarrow> 'c flb_engine \<Rightarrow> (addr option \<times> bool) \<times> 'c flb_engine" where
  "input_chunk_found io H del_bad a tag s =
     (if ic_busy (ic s a) \<or> cio_is_locked io (ic_chunk (ic s a)) then ((None, False), s)
      else if \<not> cio_is_up io (ic_chunk (ic s a)) then
        (case chunk_call (cio_up_force io) a s of (ret, s1) \<Rightarrow>
           if ret = CIO_CORRUPTED then ((None, True), flb_input_chunk_destroy_corrupted io H a (Some tag) del_bad s1)
           else if ret \<noteq> CIO_OK then ((None, True), s1)
           else ((Some a, True), s1))
      else ((Some a, False), s))"

text \<open>The chunk of the tag, if one is found and usable. A reference to a chunk that is gone, or a NULL value,
  is an access the code does not survive: \<open>None\<close>.\<close>

definition input_chunk_open ::
  "'c cio_api \<Rightarrow> (cstr \<Rightarrow> 64 word) \<Rightarrow> 'c ingest_env \<Rightarrow> nat \<Rightarrow> int \<Rightarrow> cstr \<Rightarrow> int \<Rightarrow> 'c flb_engine
   \<Rightarrow> ((addr option \<times> bool) \<times> 'c flb_engine) option" where
  "input_chunk_open io H g n event_type tag tag_len s =
     (case input_chunk_lookup H (g_now g) n event_type tag tag_len s of
        (None, s1) \<Rightarrow> Some ((None, False), s1)
      | (Some (HRef a), s1) \<Rightarrow>
          if e_chunk_heap s1 a = None then None
          else Some (input_chunk_found io H (g_del_bad g) a (take (nat tag_len) tag) s1)
      | (Some HNull, s1) \<Rightarrow> None
      | (Some (HBuf b), s1) \<Rightarrow> None)"

text \<open>The routes of the chunk: whether there is room for the data. The third argument from the end tells whether the chunk is new.\<close>

definition input_chunk_place ::
  "'c cio_api \<Rightarrow> (cstr \<Rightarrow> 64 word) \<Rightarrow> 'c ingest_env \<Rightarrow> int \<Rightarrow> bool \<Rightarrow> addr \<Rightarrow> 'c space_st \<Rightarrow> (addr option \<times> 'c space_st) option" where
  "input_chunk_place io H g chunk_size is_new a st =
     (if flb_routes_mask_is_empty (ic_routes_mask (ic (d_eng (snd st)) a)) then Some (Some a, st)
      else case flb_input_chunk_place_new_chunk io H (\<lambda>b. case b of None \<Rightarrow> 0 | Some x \<Rightarrow> g_count g x) (g_sb_in g) a chunk_size st of
        None \<Rightarrow> None
      | Some (ok, st') \<Rightarrow>
          if ok then Some (Some a, st')
          else Some (None, if is_new \<or> flb_routes_mask_is_empty (ic_routes_mask (ic (d_eng (snd st')) a))
                           then st_upd (flb_input_chunk_destroy io H a True) st' else st'))"

definition input_chunk_get ::
  "'c cio_api \<Rightarrow> (cstr \<Rightarrow> 64 word) \<Rightarrow> 'c ingest_env \<Rightarrow> nat \<Rightarrow> int \<Rightarrow> cstr \<Rightarrow> int \<Rightarrow> int \<Rightarrow> 'c space_st
   \<Rightarrow> ((addr option \<times> bool) \<times> 'c space_st) option" where
  "input_chunk_get io H g n event_type tag tag_len0 chunk_size st =
     (let tag_len = (if tag_len0 > FLB_INPUT_CHUNK_TAG_MAX then FLB_INPUT_CHUNK_TAG_MAX else tag_len0) in
      case input_chunk_open io H g n event_type tag tag_len (d_eng (snd st)) of
        None \<Rightarrow> None
      | Some ((found, set_down), s1) \<Rightarrow>
          case (case found of
                  Some a \<Rightarrow> Some (Some a, s1)
                | None \<Rightarrow> flb_input_chunk_create io H (g_onig g) (g_sds_ok g) (g_now g) (g_meta_ok g) (g_mem_ok g) (g_opened g)
                            n event_type tag tag_len s1) of
            None \<Rightarrow> None
          | Some (None, s2) \<Rightarrow> Some ((None, set_down), st_upd (\<lambda>_. s2) st)
          | Some (Some a, s2) \<Rightarrow>
              map_option (\<lambda>(r, st'). ((r, set_down), st')) (input_chunk_place io H g chunk_size (found = None) a (st_upd (\<lambda>_. s2) st)))"

section \<open>Appending\<close>

text \<open>The check of a ring buffer in memory: whether to go on.\<close>

definition memrb_check :: "'c cio_api \<Rightarrow> (cstr \<Rightarrow> 64 word) \<Rightarrow> nat \<Rightarrow> int \<Rightarrow> 'c flb_engine \<Rightarrow> bool \<times> 'c flb_engine" where
  "memrb_check io H n buf_size s =
     (if in_storage_type (e_inputs s ! n) = FLB_STORAGE_MEMRB \<and> flb_input_chunk_is_mem_overlimit (e_inputs s ! n) then
        (case memrb_input_chunk_release_space io H n buf_size s of (ret, dropped_chunks, dropped_bytes, s1) \<Rightarrow>
           (ret = 0,
            if dropped_chunks > 0 \<or> dropped_bytes > 0 then
              in_upd n (\<lambda>i. i\<lparr>in_cmt_memrb_dropped_chunks := in_cmt_memrb_dropped_chunks i + dropped_chunks,
                              in_cmt_memrb_dropped_bytes := in_cmt_memrb_dropped_bytes i + dropped_bytes\<rparr>) s1
            else s1))
      else (True, s))"

definition default_tag :: "input_state \<Rightarrow> cstr option \<Rightarrow> int \<Rightarrow> cstr \<times> int" where
  "default_tag i tag tag_len =
     (case tag of Some t \<Rightarrow> (t, tag_len)
      | None \<Rightarrow> case in_tag i of
          Some t \<Rightarrow> if length t > 0 then (t, int (length t)) else (in_name i, int (strlen (in_name i)))
        | None \<Rightarrow> (in_name i, int (strlen (in_name i))))"

text \<open>Counting, filtering and writing the records: the result of the write, the filters, the state.\<close>

definition append_write ::
  "'c cio_api \<Rightarrow> 'c ingest_env \<Rightarrow> nat \<Rightarrow> addr \<Rightarrow> int \<Rightarrow> int \<Rightarrow> cstr \<Rightarrow> int \<Rightarrow> cstr \<Rightarrow> flb_filter_instance list \<Rightarrow> 'c flb_engine
   \<Rightarrow> int \<times> flb_filter_instance list \<times> 'c flb_engine" where
  "append_write io g n a event_type n_records tag tag_len buf filters s =
     (let start = ic_total_records (ic s a); tot = start + n_records;
          s1 = (if tot > 0 then in_upd n (\<lambda>i. i\<lparr>in_cmt_records := in_cmt_records i + n_records,
                                                in_cmt_bytes := in_cmt_bytes i + int (length buf)\<rparr>) s else s);
          (data, tot', filters') = (if event_type = FLB_INPUT_LOGS
             then flb_filter_do (g_onig g) (g_cb g) (g_count g) (g_ntag_ok g) n_records tot buf tag tag_len filters
             else (buf, tot, filters));
          s2 = ic_upd a (\<lambda>c. c\<lparr>ic_added_records := n_records, ic_total_records := tot'\<rparr>) s1;
          (ret, s3) = (if length data > 0 then chunk_call (\<lambda>ch. cio_write io ch data) a s2 else (0, s2));
          s4 = (if ret \<noteq> CIO_OK then ic_upd a (\<lambda>c. c\<lparr>ic_added_records := 0, ic_total_records := start\<rparr>) s3 else s3)
      in (ret, filters', s4))"

text \<open>After a write that did not fail. The available space of a chunk is computed with unsigned numbers.\<close>

definition append_finish :: "'c cio_api \<Rightarrow> (cstr \<Rightarrow> 64 word) \<Rightarrow> nat \<Rightarrow> addr \<Rightarrow> bool \<Rightarrow> int \<Rightarrow> 'c flb_engine \<Rightarrow> 'c flb_engine" where
  "append_finish io H n a set_down pre_real_size s =
     (let content_size = cio_content_size io (ic_chunk (ic s a));
          s1 = (if to_size content_size > FLB_INPUT_CHUNK_FS_MAX_SIZE
                then ic_upd a (\<lambda>c. c\<lparr>ic_chunk := cio_lock io (ic_chunk c)\<rparr>) s else s)
      in if content_size = 0 then flb_input_chunk_set_limits io n (flb_input_chunk_destroy io H a True s1)
         else let s2 = (if set_down then snd (chunk_call (cio_down io) a s1) else s1) in
           if \<not> in_routable (e_inputs s2 ! n) then flb_input_chunk_destroy io H a True s2
           else let s3 = flb_input_chunk_set_limits io n s2;
                    s4 = (if flb_input_chunk_is_mem_overlimit (e_inputs s3 ! n) \<and> in_stream_type (e_inputs s3 ! n) = FLB_STORAGE_FS \<and>
                             cio_is_up io (ic_chunk (ic s3 a)) \<and>
                             to_size (FLB_INPUT_CHUNK_FS_MAX_SIZE - cio_content_size io (ic_chunk (ic s3 a))) < 20480
                          then snd (chunk_call (cio_down io) a s3) else s3);
                    real_diff = flb_input_chunk_get_real_size io (ic s4 a) - pre_real_size;
                    s5 = (if real_diff \<noteq> 0 then flb_input_chunk_update_output_instances a real_diff s4 else s4)
                in snd (flb_input_chunk_protect io n s5))"

text \<open>The part of \<^verbatim>\<open>input_chunk_append_raw\<close> that has a chunk.\<close>

definition append_to_chunk ::
  "'c cio_api \<Rightarrow> (cstr \<Rightarrow> 64 word) \<Rightarrow> 'c ingest_env \<Rightarrow> nat \<Rightarrow> int \<Rightarrow> int \<Rightarrow> cstr \<Rightarrow> int \<Rightarrow> cstr \<Rightarrow> addr \<Rightarrow> bool
   \<Rightarrow> flb_filter_instance list \<Rightarrow> 'c flb_engine \<Rightarrow> int \<times> flb_filter_instance list \<times> 'c flb_engine" where
  "append_to_chunk io H g n event_type n_records tag tag_len buf a set_down0 filters s =
     (let new_chunk = (flb_input_chunk_get_size io (ic s a) = 0);
          up = flb_input_chunk_is_up io s a;
          (r, s1) = (if up then (0, s) else chunk_call (cio_up_force io) a s);
          set_down = (set_down0 \<or> \<not> up)
      in if \<not> up \<and> r = -1 then (-1, filters, s1)
         else let pre_real_size = (if new_chunk then 0 else flb_input_chunk_get_real_size io (ic s1 a)) in
           case append_write io g n a event_type n_records tag tag_len buf filters s1 of (ret, filters', s2) \<Rightarrow>
             if ret = -1 then (-1, filters', ic_upd a (\<lambda>c. c\<lparr>ic_chunk := cio_tx_rollback io (ic_chunk c)\<rparr>) s2)
             else (0, filters', append_finish io H n a set_down pre_real_size s2))"

definition sys_eng :: "('c flb_engine \<Rightarrow> 'c flb_engine) \<Rightarrow> 'c flb_sys \<Rightarrow> 'c flb_sys" where
  "sys_eng f y = y\<lparr>y_disp := eng_upd f (y_disp y)\<rparr>"

definition input_chunk_append_raw ::
  "'c cio_api \<Rightarrow> (cstr \<Rightarrow> 64 word) \<Rightarrow> 'c ingest_env \<Rightarrow> nat \<Rightarrow> int \<Rightarrow> int \<Rightarrow> cstr option \<Rightarrow> int \<Rightarrow> cstr \<Rightarrow> 'c flb_sys
   \<Rightarrow> (int \<times> 'c flb_sys) option" where
  "input_chunk_append_raw io H g n event_type n_records tag0 tag_len0 buf y =
     (case memrb_check io H n (int (length buf)) (d_eng (y_disp y)) of (go, s1) \<Rightarrow>
        let y1 = sys_eng (\<lambda>_. s1) y in
        if \<not> go then Some (-1, y1)
        else if flb_input_buf_paused (e_inputs s1 ! n) then Some (-1, y1)
        else if buf = [] then Some (-1, y1)
        else case default_tag (e_inputs s1 ! n) tag0 tag_len0 of (tag, tag_len) \<Rightarrow>
          case input_chunk_get io H g n event_type tag tag_len (int (length buf)) (y_sb y1, y_disp y1) of
            None \<Rightarrow> None
          | Some ((None, set_down), st) \<Rightarrow> Some (-1, y1\<lparr>y_sb := fst st, y_disp := snd st\<rparr>)
          | Some ((Some a, set_down), st) \<Rightarrow>
              (case append_to_chunk io H g n event_type n_records tag tag_len buf a set_down (y_filters y1) (d_eng (snd st)) of
                 (ret, filters', s') \<Rightarrow>
                   Some (ret, y1\<lparr>y_sb := fst st, y_disp := eng_upd (\<lambda>_. s') (snd st), y_filters := filters'\<rparr>)))"

section \<open>Threaded inputs\<close>

text \<open>The writes of \<^verbatim>\<open>append_to_ring_buffer\<close>: \<open>ok\<close> tells whether the attempt finds room in the ring buffer.\<close>

fun rb_attempts :: "(nat \<Rightarrow> bool) \<Rightarrow> nat \<Rightarrow> nat \<Rightarrow> bool" where
  "rb_attempts ok retries 0 = False"
| "rb_attempts ok retries (Suc k) = (if ok retries then True else rb_attempts ok (retries + 1) k)"

definition append_to_ring_buffer ::
  "bool \<Rightarrow> bool \<Rightarrow> bool \<Rightarrow> (nat \<Rightarrow> bool) \<Rightarrow> nat \<Rightarrow> int \<Rightarrow> int \<Rightarrow> cstr option \<Rightarrow> int \<Rightarrow> cstr \<Rightarrow> 'c flb_sys \<Rightarrow> int \<times> 'c flb_sys" where
  "append_to_ring_buffer raw_ok tag_ok buf_ok ok n event_type records tag tag_len buf y =
     (let with_tag = (tag \<noteq> None \<and> tag_len > 0) in
      if \<not> raw_ok then (-1, y)
      else if with_tag \<and> \<not> tag_ok then (-1, y)
      else if \<not> buf_ok then (-1, y)
      else if \<not> rb_attempts ok 0 10 then (-1, y)
      else (0, y\<lparr>y_rb := (y_rb y)(n := mk_list_add
             \<lparr>cr_ins = n, cr_event_type = event_type, cr_records = records,
              cr_tag = (if with_tag then map_option (take (nat tag_len)) tag else None), cr_buf = buf\<rparr> (y_rb y n))\<rparr>))"

definition flb_input_chunk_ring_buffer_cleanup :: "nat \<Rightarrow> 'c flb_sys \<Rightarrow> 'c flb_sys" where
  "flb_input_chunk_ring_buffer_cleanup n y = y\<lparr>y_rb := (y_rb y)(n := [])\<rparr>"

text \<open>The loop over the ring buffer of an input; \<open>g\<close> gives the environment of every append.\<close>

fun rb_collect ::
  "'c cio_api \<Rightarrow> (cstr \<Rightarrow> 64 word) \<Rightarrow> (nat \<Rightarrow> 'c ingest_env) \<Rightarrow> nat \<Rightarrow> nat \<Rightarrow> input_chunk_raw list \<Rightarrow> 'c flb_sys \<Rightarrow> 'c flb_sys option" where
  "rb_collect io H g n k [] y = Some (y\<lparr>y_rb := (y_rb y)(n := [])\<rparr>)"
| "rb_collect io H g n k (cr # crs) y =
     (if flb_input_buf_paused (e_inputs (d_eng (y_disp y)) ! n) then Some (y\<lparr>y_rb := (y_rb y)(n := cr # crs)\<rparr>)
      else case input_chunk_append_raw io H (g k) (cr_ins cr) (cr_event_type cr) (cr_records cr) (cr_tag cr)
                  (case cr_tag cr of None \<Rightarrow> 0 | Some t \<Rightarrow> int (length t)) (cr_buf cr) y of
             None \<Rightarrow> None
           | Some (ret, y') \<Rightarrow> rb_collect io H g n (k + 1) crs y')"

fun collect_inputs ::
  "'c cio_api \<Rightarrow> (cstr \<Rightarrow> 64 word) \<Rightarrow> (nat \<Rightarrow> nat \<Rightarrow> 'c ingest_env) \<Rightarrow> nat list \<Rightarrow> 'c flb_sys \<Rightarrow> 'c flb_sys option" where
  "collect_inputs io H g [] y = Some y"
| "collect_inputs io H g (n # ns) y =
     (case rb_collect io H (g n) n 0 (y_rb y n) y of
        None \<Rightarrow> None
      | Some y' \<Rightarrow> collect_inputs io H g ns (y'\<lparr>y_flush_pending := (y_flush_pending y')(n := False)\<rparr>))"

definition flb_input_chunk_ring_buffer_collector ::
  "'c cio_api \<Rightarrow> (cstr \<Rightarrow> 64 word) \<Rightarrow> (nat \<Rightarrow> nat \<Rightarrow> 'c ingest_env) \<Rightarrow> 'c flb_sys \<Rightarrow> 'c flb_sys option" where
  "flb_input_chunk_ring_buffer_collector io H g y = collect_inputs io H g [0..<length (e_inputs (d_eng (y_disp y)))] y"

text \<open>\<open>raw_ok\<close>, \<open>tag_ok\<close> and \<open>buf_ok\<close> are the allocations of the ring buffer entry.\<close>

definition flb_input_chunk_append_raw ::
  "'c cio_api \<Rightarrow> (cstr \<Rightarrow> 64 word) \<Rightarrow> 'c ingest_env \<Rightarrow> bool \<Rightarrow> bool \<Rightarrow> bool \<Rightarrow> (nat \<Rightarrow> bool) \<Rightarrow> nat \<Rightarrow> int \<Rightarrow> int \<Rightarrow> cstr option \<Rightarrow> int
   \<Rightarrow> cstr \<Rightarrow> 'c flb_sys \<Rightarrow> (int \<times> 'c flb_sys) option" where
  "flb_input_chunk_append_raw io H g raw_ok tag_ok buf_ok ok n event_type records tag tag_len buf y =
     (if in_threaded (e_inputs (d_eng (y_disp y)) ! n)
      then Some (append_to_ring_buffer raw_ok tag_ok buf_ok ok n event_type records tag tag_len buf y)
      else input_chunk_append_raw io H g n event_type records tag tag_len buf y)"

section \<open>Steps that keep the invariants\<close>

text \<open>A step that moves no reference and leaves tasks, tables and all but one counter of the outputs alone.\<close>

definition quiet :: "'c cio_api \<Rightarrow> 'c flb_engine \<Rightarrow> 'c flb_engine \<Rightarrow> bool" where
  "quiet io s s' \<longleftrightarrow> same_eng s s' \<and> tk s' = tk s \<and> tables_frame io s s' \<and> map out_rest (e_outputs s') = map out_rest (e_outputs s) \<and>
     map in_conf (e_inputs s') = map in_conf (e_inputs s)"

lemma quiet_refl [simp]: "quiet io s s"
  by (simp add: quiet_def)

lemma quiet_trans: "quiet io s s' \<Longrightarrow> quiet io s' s'' \<Longrightarrow> quiet io s s''"
  unfolding quiet_def using same_eng_trans tables_frame_trans by (metis (no_types, lifting))

lemma quiet_in_upd:
  assumes "\<And>i. in_tasks (f i) = in_tasks i" "\<And>i. in_chunks (f i) = in_chunks i" "\<And>i. in_routes_direct (f i) = in_routes_direct i"
    "\<And>i et. chunk_table et (f i) = chunk_table et i" "\<And>i. in_conf (f i) = in_conf i"
  shows "quiet io s (in_upd n f s)"
  unfolding quiet_def using same_eng_in_upd [of f s n, OF assms(1-3)] tables_frame_in_upd [of f io s n, OF assms(4)] in_conf_upd [of f n s, OF assms(5)] by simp

lemma quiet_ic_upd:
  assumes "a \<in> dom (e_chunk_heap s)" "\<And>c. ic_in (f c) = ic_in c" "\<And>c. ic_task (f c) = ic_task c" "\<And>c. ic_busy (f c) = ic_busy c"
    "\<And>c. ic_event_type (f c) = ic_event_type c" "tag_up io (ic_chunk (f (ic s a))) = tag_up io (ic_chunk (ic s a))"
  shows "quiet io s (ic_upd a f s)"
  unfolding quiet_def using same_eng_ic_upd [of a s f] tables_frame_ic_upd [of a s f io] assms by simp

lemma quiet_chunk_call:
  assumes "a \<in> dom (e_chunk_heap s)" "\<And>ch. tag_up io (snd (f ch)) = tag_up io ch"
  shows "quiet io s (snd (chunk_call f a s))"
  using assms by (auto simp: chunk_call_def case_prod_beta intro!: quiet_ic_upd)

lemma quiet_set_limits: "quiet io s (flb_input_chunk_set_limits io' n s)"
  unfolding flb_input_chunk_set_limits_def Let_def by (rule quiet_in_upd) (simp_all add: in_resume_def in_conf_def)

lemma quiet_protect: "quiet io s (snd (flb_input_chunk_protect io' n s))"
  by (auto simp: flb_input_chunk_protect_def Let_def flb_input_pause_def in_conf_def intro!: quiet_in_upd)

lemma quiet_update_outputs:
  assumes "a \<in> dom (e_chunk_heap s)"
  shows "quiet io s (flb_input_chunk_update_output_instances a m s)"
  unfolding quiet_def using same_eng_update_outputs [OF assms] tables_frame_update_outputs [OF assms]
  by (auto simp: flb_input_chunk_update_output_instances_def Let_def)

lemma quietD:
  assumes "quiet io s s'"
  shows "dom (e_chunk_heap s') = dom (e_chunk_heap s)" "a \<in> dom (e_chunk_heap s) \<Longrightarrow> ic_in (ic s' a) = ic_in (ic s a)"
    "a \<in> dom (e_chunk_heap s) \<Longrightarrow> ic_task (ic s' a) = ic_task (ic s a)" "length (e_inputs s') = length (e_inputs s)"
  using assms same_engD(9) by (auto simp: quiet_def same_eng_def)

text \<open>Without the tables.\<close>

definition base_ok :: "'c cio_api \<Rightarrow> nat \<Rightarrow> 'c space_st \<Rightarrow> bool" where
  "base_ok io k st \<longleftrightarrow> disp_ok (snd st) \<and> length (e_inputs (d_eng (snd st))) = k \<and> (\<forall>x\<in>set (e_outputs (d_eng (snd st))). mask_valid (o_id x)) \<and>
     (\<forall>c\<in>set (map in_conf (e_inputs (d_eng (snd st)))). named c) \<and> (case fst st of None \<Rightarrow> True | Some sb \<Rightarrow> sb_inv io (sb, d_eng (snd st)))"

lemma stores_ok_base: "stores_ok io H k st \<longleftrightarrow> base_ok io k st \<and> meta_kept io \<and> tables_ok io H (d_eng (snd st))"
  by (auto simp: stores_ok_def base_ok_def)

lemma base_ok_step:
  assumes "base_ok io k (ctx, d)" "disp_ok d'" "map in_conf (e_inputs (d_eng d')) = map in_conf (e_inputs (d_eng d))"
    "map out_rest (e_outputs (d_eng d')) = map out_rest (e_outputs (d_eng d))"
  shows "base_ok io k (ctx, d')"
proof -
  have "mask_valid (o_id x)" if "x \<in> set (e_outputs (d_eng d'))" for x
  proof -
    have "o_id x \<in> o_id ` set (e_outputs (d_eng d))" using that out_rest_ids [OF assms(4)] by auto
    then show ?thesis using assms(1) by (auto simp: base_ok_def)
  qed
  moreover have "length (e_inputs (d_eng d')) = length (e_inputs (d_eng d))" using assms(3) map_eq_imp_length_eq by blast
  ultimately show ?thesis using assms(1,2) sb_inv_rest [OF assms(4)] unfolding base_ok_def snd_conv assms(3) by (auto split: option.splits)
qed

lemma disp_ok_quiet:
  assumes "disp_ok d" "quiet io (d_eng d) s'"
  shows "disp_ok (d\<lparr>d_eng := s'\<rparr>)"
proof -
  have "disp_inv {#} {#} d" using assms(1) by (simp add: disp_ok_def)
  from disp_eng_set [OF this] assms(2) have "disp_inv {#} {#} (d\<lparr>d_eng := s'\<rparr>)" by (simp add: quiet_def)
  from disp_ok_engine [OF assms(1) this] show ?thesis by simp
qed

lemma stores_ok_quiet:
  assumes "stores_ok io H k (ctx, d)" "quiet io (d_eng d) s'"
  shows "stores_ok io H k (ctx, d\<lparr>d_eng := s'\<rparr>)"
  by (rule stores_ok_step [OF assms(1) disp_ok_quiet [OF stores_okD(1) [OF assms(1)] assms(2)]])
    (use assms tables_ok_frame [OF stores_okD(6) [OF assms(1)]] in \<open>simp_all add: quiet_def\<close>)

text \<open>A chunk of one of the inputs that no task uses: it can be written to and destroyed.\<close>

definition open_ok :: "'c flb_engine \<Rightarrow> addr \<Rightarrow> bool" where
  "open_ok s a \<longleftrightarrow> a \<in> dom (e_chunk_heap s) \<and> ic_task (ic s a) = None \<and> ic_in (ic s a) < length (e_inputs s)"

lemma open_ok_quiet: "quiet io s s' \<Longrightarrow> open_ok s a \<Longrightarrow> open_ok s' a"
  using quietD [of io s s'] by (simp add: open_ok_def)

lemma disp_ok_chunk_destroy:
  assumes "disp_ok d" "open_ok (d_eng d) a" "s' = flb_input_chunk_destroy io H a del (d_eng d)"
  shows "disp_ok (d\<lparr>d_eng := s'\<rparr>)" "map in_conf (e_inputs s') = map in_conf (e_inputs (d_eng d))"
    "map out_rest (e_outputs s') = map out_rest (e_outputs (d_eng d))"
proof -
  have "disp_inv {#} {#} (d\<lparr>d_eng := s'\<rparr>)"
    using disp_chunk_destroy [of "{#}" "{#}" d a io H del] assms by (simp add: disp_ok_def open_ok_def eng_upd_def)
  from disp_ok_engine [OF assms(1) this] show "disp_ok (d\<lparr>d_eng := s'\<rparr>)" by simp
  have "turn_frame a (d_eng d) s'" using turn_frame_chunk_destroy [of a "d_eng d" io H del] assms(2,3) by (simp add: open_ok_def)
  from turn_frameD(10,7) [OF this] show "map in_conf (e_inputs s') = map in_conf (e_inputs (d_eng d))"
    "map out_rest (e_outputs s') = map out_rest (e_outputs (d_eng d))" by simp_all
qed

lemma stores_ok_destroy:
  assumes "stores_ok io H k (ctx, d)" "open_ok (d_eng d) a"
  shows "stores_ok io H k (ctx, d\<lparr>d_eng := flb_input_chunk_destroy io H a True (d_eng d)\<rparr>)"
proof -
  note d = disp_ok_chunk_destroy [OF stores_okD(1) [OF assms(1)] assms(2) refl, of io H True]
  have "tables_ok io H (flb_input_chunk_destroy io H a True (d_eng d))"
    by (rule tables_ok_chunk_destroy [OF stores_okD(5,6) [OF assms(1)]]) (use assms(2) in \<open>simp_all add: open_ok_def\<close>)
  then show ?thesis by (intro stores_ok_step [OF assms(1) d(1)]) (use d in simp_all)
qed

text \<open>Destroying a corrupted chunk is destroying a chunk whose tag need not be read.\<close>

lemma destroy_corrupted_eq:
  fixes io :: "'c cio_api" and tag :: cstr
  defines "io' \<equiv> io\<lparr>cio_is_up := \<lambda>_. True, cio_meta_read := \<lambda>_. Some ([MAGIC_BYTE_0, MAGIC_BYTE_1, CHR 0x00, CHR 0x00] @ tag)\<rparr>"
  shows "flb_input_chunk_destroy_corrupted io H a (Some tag) del s = flb_input_chunk_destroy io' H a del s"
proof -
  have "flb_input_chunk_get_real_size io' c = flb_input_chunk_get_real_size io c" for c
    by (simp add: real_size_of size_of_def io'_def Let_def)
  then have "chunk_uncount io' a s = chunk_uncount io a s" by (simp add: chunk_uncount_def)
  then show ?thesis
    by (simp add: flb_input_chunk_destroy_corrupted_def flb_input_chunk_destroy_def Let_def flb_input_chunk_is_up_def flb_input_chunk_get_tag_def
        input_chunk_has_magic_bytes_def FLB_INPUT_CHUNK_META_HEADER_def io'_def)
qed

section \<open>Writing keeps the invariants\<close>

lemma append_write_quiet:
  assumes "meta_kept io" "a \<in> dom (e_chunk_heap s)" "append_write io g n a event_type n_records tag tag_len buf filters s = (ret, filters', s')"
  shows "quiet io s s'"
proof -
  define s1 where "s1 = (if ic_total_records (ic s a) + n_records > 0 then in_upd n (\<lambda>i. i\<lparr>in_cmt_records := in_cmt_records i + n_records,
      in_cmt_bytes := in_cmt_bytes i + int (length buf)\<rparr>) s else s)"
  obtain data tot' fs where f: "(if event_type = FLB_INPUT_LOGS
      then flb_filter_do (g_onig g) (g_cb g) (g_count g) (g_ntag_ok g) n_records (ic_total_records (ic s a) + n_records) buf tag tag_len filters
      else (buf, ic_total_records (ic s a) + n_records, filters)) = (data, tot', fs)" by (metis prod_cases3)
  define s2 where "s2 = ic_upd a (\<lambda>c. c\<lparr>ic_added_records := n_records, ic_total_records := tot'\<rparr>) s1"
  define s3 where "s3 = (if length data > 0 then snd (chunk_call (\<lambda>ch. cio_write io ch data) a s2) else s2)"
  have q1: "quiet io s s1" unfolding s1_def by (auto simp: in_conf_def intro!: quiet_in_upd)
  have d1: "a \<in> dom (e_chunk_heap s1)" using quietD(1) [OF q1] assms(2) by simp
  have q2: "quiet io s1 s2" unfolding s2_def by (rule quiet_ic_upd [OF d1]) simp_all
  have d2: "a \<in> dom (e_chunk_heap s2)" using quietD(1) [OF q2] d1 by simp
  have q3: "quiet io s2 s3" unfolding s3_def using quiet_chunk_call [OF d2, of io "\<lambda>ch. cio_write io ch data"] meta_keptD(6) [OF assms(1)] by simp
  have d3: "a \<in> dom (e_chunk_heap s3)" using quietD(1) [OF q3] d2 by simp
  have "quiet io s3 (ic_upd a (\<lambda>c. c\<lparr>ic_added_records := 0, ic_total_records := x\<rparr>) s3)" for x by (rule quiet_ic_upd [OF d3]) simp_all
  then have "quiet io s3 s'"
    using assms(3) f unfolding append_write_def Let_def s1_def [symmetric] s2_def s3_def
    by (auto simp: split_beta split: if_splits prod.splits)
  then show ?thesis using q1 q2 q3 quiet_trans by blast
qed

lemma append_finish_ok:
  assumes "stores_ok io H k (ctx, d)" "open_ok (d_eng d) a"
  shows "stores_ok io H k (ctx, d\<lparr>d_eng := append_finish io H n a set_down pre (d_eng d)\<rparr>)"
proof -
  note mk = meta_keptD [OF stores_okD(5) [OF assms(1)]]
  define s where "s = d_eng d"
  have q: "quiet io x (snd (chunk_call (cio_down io) a x))" "quiet io x (ic_upd a (\<lambda>c. c\<lparr>ic_chunk := cio_lock io (ic_chunk c)\<rparr>) x)"
    "quiet io x (flb_input_chunk_update_output_instances a m x)" if "quiet io s x" for x m
    using quietD(1) [OF that] assms(2) mk quiet_chunk_call [of a x io "cio_down io"] quiet_ic_upd [of a x "\<lambda>c. c\<lparr>ic_chunk := cio_lock io (ic_chunk c)\<rparr>" io]
      quiet_update_outputs [of a x] by (simp_all add: open_ok_def s_def)
  have ok: "stores_ok io H k (ctx, d\<lparr>d_eng := x\<rparr>)" "stores_ok io H k (ctx, d\<lparr>d_eng := flb_input_chunk_destroy io H a True x\<rparr>)"
    if "quiet io s x" for x
    using stores_ok_quiet [OF assms(1), of x] stores_ok_destroy [of io H k ctx "d\<lparr>d_eng := x\<rparr>" a] open_ok_quiet [OF that] assms(2) that
    by (simp_all add: s_def)
  have lim: "stores_ok io H k (ctx, d\<lparr>d_eng := flb_input_chunk_set_limits io n x\<rparr>)" if "stores_ok io H k (ctx, d\<lparr>d_eng := x\<rparr>)" for x
    using stores_ok_quiet [OF that, of "flb_input_chunk_set_limits io n x"] quiet_set_limits [of io x io n] by simp
  define s1 where "s1 = (if to_size (cio_content_size io (ic_chunk (ic s a))) > FLB_INPUT_CHUNK_FS_MAX_SIZE
      then ic_upd a (\<lambda>c. c\<lparr>ic_chunk := cio_lock io (ic_chunk c)\<rparr>) s else s)"
  define s2 where "s2 = (if set_down then snd (chunk_call (cio_down io) a s1) else s1)"
  define s3 where "s3 = flb_input_chunk_set_limits io n s2"
  define s4 where "s4 = (if flb_input_chunk_is_mem_overlimit (e_inputs s3 ! n) \<and> in_stream_type (e_inputs s3 ! n) = FLB_STORAGE_FS \<and>
      cio_is_up io (ic_chunk (ic s3 a)) \<and> to_size (FLB_INPUT_CHUNK_FS_MAX_SIZE - cio_content_size io (ic_chunk (ic s3 a))) < 20480
      then snd (chunk_call (cio_down io) a s3) else s3)"
  define s5 where "s5 = (if flb_input_chunk_get_real_size io (ic s4 a) - pre \<noteq> 0
      then flb_input_chunk_update_output_instances a (flb_input_chunk_get_real_size io (ic s4 a) - pre) s4 else s4)"
  have q1: "quiet io s s1" using q(2) [of s] by (simp add: s1_def)
  have q2: "quiet io s s2" using q(1) [OF q1] q1 quiet_trans by (auto simp: s2_def)
  have q3: "quiet io s s3" unfolding s3_def by (rule quiet_trans [OF q2 quiet_set_limits])
  have q4: "quiet io s s4" using q(1) [OF q3] q3 quiet_trans by (auto simp: s4_def)
  have q5: "quiet io s s5" using quiet_trans [OF q4 q(3) [OF q4]] q4 by (simp add: s5_def)
  have "quiet io s (snd (flb_input_chunk_protect io n s5))" by (rule quiet_trans [OF q5 quiet_protect])
  then show ?thesis using ok(1) lim [OF ok(2) [OF q1]] ok(2) [OF q2]
    unfolding append_finish_def Let_def s_def [symmetric] s1_def [symmetric] s2_def [symmetric] s3_def [symmetric] s4_def [symmetric] s5_def [symmetric]
    by simp
qed

lemma append_to_chunk_ok:
  assumes "stores_ok io H k (ctx, d)" "open_ok (d_eng d) a"
    "append_to_chunk io H g n event_type n_records tag tag_len buf a set_down filters (d_eng d) = (ret, filters', s')"
  shows "stores_ok io H k (ctx, d\<lparr>d_eng := s'\<rparr>)" "ret = 0 \<or> ret = -1"
proof -
  note mk = stores_okD(5) [OF assms(1)]
  define s where "s = d_eng d"
  define up where "up = flb_input_chunk_is_up io s a"
  obtain r s1 where r: "(if up then (0, s) else chunk_call (cio_up_force io) a s) = (r, s1)" by fastforce
  have da: "a \<in> dom (e_chunk_heap s)" using assms(2) by (simp add: open_ok_def s_def)
  then have q1: "quiet io s s1" using r quiet_chunk_call [of a s io "cio_up_force io"] meta_keptD(2) [OF mk] by (auto split: if_splits)
  then have d1: "a \<in> dom (e_chunk_heap s1)" using quietD(1) da by blast
  obtain ret0 f0 s2 where w: "append_write io g n a event_type n_records tag tag_len buf filters s1 = (ret0, f0, s2)" by (metis prod_cases3)
  have q2: "quiet io s s2" by (rule quiet_trans [OF q1 append_write_quiet [OF mk d1 w]])
  have "a \<in> dom (e_chunk_heap s2)" using quietD(1) [OF q2] da by blast
  then have q3: "quiet io s (ic_upd a (\<lambda>c. c\<lparr>ic_chunk := cio_tx_rollback io (ic_chunk c)\<rparr>) s2)"
    by (intro quiet_trans [OF q2 quiet_ic_upd]) (simp_all add: meta_keptD(5) [OF mk])
  have ok2: "stores_ok io H k (ctx, d\<lparr>d_eng := s2\<rparr>)" using stores_ok_quiet [OF assms(1)] q2 by (simp add: s_def)
  have "open_ok (d_eng (d\<lparr>d_eng := s2\<rparr>)) a" using open_ok_quiet [OF q2] assms(2) by (simp add: s_def)
  from append_finish_ok [OF ok2 this] have fin: "stores_ok io H k (ctx, d\<lparr>d_eng := append_finish io H n a sd pre s2\<rparr>)" for sd pre by simp
  have "stores_ok io H k (ctx, d\<lparr>d_eng := s1\<rparr>)" "stores_ok io H k (ctx, d\<lparr>d_eng := ic_upd a (\<lambda>c. c\<lparr>ic_chunk := cio_tx_rollback io (ic_chunk c)\<rparr>) s2\<rparr>)"
    using stores_ok_quiet [OF assms(1)] q1 q3 by (simp_all add: s_def)
  then have "stores_ok io H k (ctx, d\<lparr>d_eng := s'\<rparr>) \<and> (ret = 0 \<or> ret = -1)"
    using assms(3) fin unfolding append_to_chunk_def Let_def s_def [symmetric] up_def [symmetric] r prod.case w
    by (auto split: if_splits)
  then show "stores_ok io H k (ctx, d\<lparr>d_eng := s'\<rparr>)" "ret = 0 \<or> ret = -1" by simp_all
qed

section \<open>Finding a chunk keeps the invariants\<close>

definition tag_ok :: "cstr \<Rightarrow> int \<Rightarrow> bool" where
  "tag_ok tag tag_len \<longleftrightarrow> 0 < tag_len \<and> nat tag_len \<le> length tag \<and> nul_free (take (nat tag_len) tag)"

text \<open>A tag with its length stands for the string it starts with, so the operations of the table are those of the interface.\<close>

lemma tag_len: "tag_ok tag tag_len \<Longrightarrow> int (length (take (nat tag_len) tag)) = tag_len"
  by (simp add: tag_ok_def min.absorb2)

lemma tag_cut:
  assumes "ht_plain H ht" "tag_ok tag tag_len"
  shows "ht_valid_key (take (nat tag_len) tag)"
    and "hash_get_entry H ht (Some tag) tag_len = hash_get_entry H ht (Some (take (nat tag_len) tag)) (int (length (take (nat tag_len) tag)))"
proof -
  have inv: "ht_inv H ht" using assms(1) by (simp add: ht_plain_def)
  show "ht_valid_key (take (nat tag_len) tag)" using assms(2) by (auto simp: tag_ok_def ht_valid_key_def)
  show "hash_get_entry H ht (Some tag) tag_len = hash_get_entry H ht (Some (take (nat tag_len) tag)) (int (length (take (nat tag_len) tag)))"
    using hash_get_entry_spec [OF inv, of tag_len tag] hash_get_entry_spec [OF inv, of tag_len "take (nat tag_len) tag"] assms(2)
    unfolding tag_len [OF assms(2)] by (simp add: tag_ok_def min.absorb2)
qed

lemma plain_get:
  assumes "ht_plain H ht" "tag_ok tag tag_len" "flb_hash_table_get H now ht (Some tag) tag_len = (bid, v, ht')"
  shows "ht_plain H ht'" "ht_abs ht' = ht_abs ht" "(if bid \<ge> 0 then map_option fst v else None) = ht_abs ht (take (nat tag_len) tag)"
proof -
  note cut = tag_cut [OF assms(1,2)]
  have look: "ht_look H now (take (nat tag_len) tag) ht = (map_option fst v, ht')"
    using assms(3) cut(2) by (simp add: ht_look_def flb_hash_table_get_def)
  have "bid \<ge> 0 \<or> v = None" using assms(3) by (auto simp: flb_hash_table_get_def Let_def split: option.splits if_splits)
  then show "ht_plain H ht'" "ht_abs ht' = ht_abs ht" "(if bid \<ge> 0 then map_option fst v else None) = ht_abs ht (take (nat tag_len) tag)"
    using ht.look_law [OF assms(1) cut(1), of now] unfolding look by auto
qed

lemma plain_add:
  assumes "ht_plain H ht" "tag_ok tag tag_len" "ht' = snd (flb_hash_table_add H now 0 True True ht (Some tag) tag_len a [] 0)"
  shows "ht_plain H ht'" "ht_abs ht' = (ht_abs ht)(take (nat tag_len) tag \<mapsto> HRef a)"
proof -
  note cut = tag_cut [OF assms(1,2)]
  note len = tag_len [OF assms(2)]
  have "max_entries ht \<le> 0" using assms(1) by (simp add: ht_plain_def)
  then have "ht' = ht_put H now (take (nat tag_len) tag) (HRef a) ht"
    using cut(2) unfolding assms(3) ht_put_def hval.case len by (simp add: flb_hash_table_add_def ht_check_capacity_plain split: option.split)
  then show "ht_plain H ht'" "ht_abs ht' = (ht_abs ht)(take (nat tag_len) tag \<mapsto> HRef a)"
    using ht.put_law [OF assms(1) cut(1), of "HRef a" now] by (simp_all add: ht_storable_def)
qed

lemma filed_same: "e_chunk_heap s' = e_chunk_heap s \<Longrightarrow> filed io s' n et k v = filed io s n et k v"
  by (simp add: filed_def ic_def)

lemma tables_ok_swap:
  assumes "tables_ok io H s" "n < length (e_inputs s)" "chunk_table et (e_inputs s ! n) = Some ht" "ht_plain H ht'" "ht_abs ht' = ht_abs ht"
  shows "tables_ok io H (in_upd n (ht_of_type et (\<lambda>_. ht')) s)"
proof -
  define s' where "s' = in_upd n (ht_of_type et (\<lambda>_. ht')) s"
  have f: "filed io s' j e k v = filed io s j e k v" for j e k v by (rule filed_same) (simp add: s'_def)
  have "table_ok io H s' j e t" if "j < length (e_inputs s')" "chunk_table e (e_inputs s' ! j) = Some t" for j e t
  proof (cases "j = n \<and> e = et")
    case True
    then have "t = ht'" using that assms(2,3) by (simp add: s'_def chunk_table_of_type)
    then show ?thesis using assms True by (simp add: tables_ok_def table_ok_def f)
  next
    case False
    then have "chunk_table e (e_inputs s ! j) = Some t" using that assms(2) by (cases "j = n") (auto simp: s'_def chunk_table_of_type)
    then show ?thesis using assms(1) that(1) by (simp add: tables_ok_def table_ok_def f s'_def [unfolded s'_def])  (simp add: s'_def)
  qed
  then show ?thesis by (simp add: tables_ok_def s'_def [symmetric])
qed

lemma lookup_ok:
  assumes "stores_ok io H k (ctx, d)" "n < k" "tag_ok tag tag_len" "input_chunk_lookup H now n et tag tag_len (d_eng d) = (v, s1)"
  shows "stores_ok io H k (ctx, d\<lparr>d_eng := s1\<rparr>)" "v = None \<or> (\<exists>a. v = Some (HRef a) \<and> filed io s1 n et (take (nat tag_len) tag) (HRef a))"
proof -
  have "stores_ok io H k (ctx, d\<lparr>d_eng := s1\<rparr>) \<and> (v = None \<or> (\<exists>a. v = Some (HRef a) \<and> filed io s1 n et (take (nat tag_len) tag) (HRef a)))"
  proof (cases "chunk_table et (e_inputs (d_eng d) ! n)")
    case None
    then show ?thesis using assms(1,4) by (auto simp: input_chunk_lookup_def)
  next
    case (Some ht)
    obtain bid w ht' where g: "flb_hash_table_get H now ht (Some tag) tag_len = (bid, w, ht')" by (metis prod_cases3)
    have n: "n < length (e_inputs (d_eng d))" using stores_okD(4) [OF assms(1)] assms(2) by simp
    have ok: "ht_plain H ht" "\<And>j x. ht_abs ht j = Some x \<Longrightarrow> filed io (d_eng d) n et j x"
      using stores_okD(6) [OF assms(1)] n Some by (auto simp: tables_ok_def table_ok_def)
    note p = plain_get [OF ok(1) assms(3) g]
    have v: "v = ht_abs ht (take (nat tag_len) tag)" "s1 = in_upd n (ht_of_type et (\<lambda>_. ht')) (d_eng d)"
      using assms(4) Some g p(3) by (auto simp: input_chunk_lookup_def)
    have fs: "in_tasks (ht_of_type et f i) = in_tasks i" "in_chunks (ht_of_type et f i) = in_chunks i"
      "in_routes_direct (ht_of_type et f i) = in_routes_direct i" for f i by (simp_all add: ht_of_type_def)
    have "same_eng (d_eng d) s1" unfolding v(2) by (rule same_eng_in_upd) (simp_all add: fs)
    then have "disp_inv {#} {#} (d\<lparr>d_eng := s1\<rparr>)" by (rule disp_eng_set [OF stores_okD(2) [OF assms(1)]]) (simp add: v(2))
    from disp_ok_engine [OF stores_okD(1) [OF assms(1)] this] have "disp_ok (d\<lparr>d_eng := s1\<rparr>)" by simp
    moreover have "tables_ok io H s1" unfolding v(2) by (rule tables_ok_swap [OF stores_okD(6) [OF assms(1)] n Some p(1,2)])
    ultimately have "stores_ok io H k (ctx, d\<lparr>d_eng := s1\<rparr>)" by (intro stores_ok_step [OF assms(1)]) (simp_all add: v(2) in_conf_upd)
    moreover have "\<exists>a. v = Some (HRef a) \<and> filed io s1 n et (take (nat tag_len) tag) (HRef a)" if x: "v = Some x" for x
    proof -
      have "filed io (d_eng d) n et (take (nat tag_len) tag) x" using ok(2) v(1) x by simp
      then have "filed io s1 n et (take (nat tag_len) tag) x" using filed_same [of s1 "d_eng d"] by (simp add: v(2))
      then show ?thesis using x by (auto simp: filed_def)
    qed
    ultimately show ?thesis by (cases v) auto
  qed
  then show "stores_ok io H k (ctx, d\<lparr>d_eng := s1\<rparr>)" "v = None \<or> (\<exists>a. v = Some (HRef a) \<and> filed io s1 n et (take (nat tag_len) tag) (HRef a))"
    by simp_all
qed

text \<open>The tables but for one entry.\<close>

definition tables_but :: "'c cio_api \<Rightarrow> (cstr \<Rightarrow> 64 word) \<Rightarrow> nat \<Rightarrow> int \<Rightarrow> cstr \<Rightarrow> 'c flb_engine \<Rightarrow> bool" where
  "tables_but io H n0 et0 k0 s \<longleftrightarrow> (\<forall>n<length (e_inputs s). \<forall>et ht. chunk_table et (e_inputs s ! n) = Some ht \<longrightarrow>
     ht_plain H ht \<and> (\<forall>k v. ht_abs ht k = Some v \<longrightarrow> filed io s n et k v \<or> n = n0 \<and> et = et0 \<and> k = k0))"

lemma tables_ok_but: "tables_ok io H s \<Longrightarrow> tables_but io H n0 et0 k0 s"
  by (simp add: tables_ok_def tables_but_def table_ok_def)

lemma release_keeps_but:
  assumes "tables_ok io H s" "filed io s n et key (HRef a)"
  shows "tables_but io H n et key (chunk_release H a False tag s)"
proof -
  define s' where "s' = chunk_release H a False tag s"
  have h: "dom (e_chunk_heap s') = dom (e_chunk_heap s) - {a}" "\<And>b. b \<noteq> a \<Longrightarrow> ic s' b = ic s b" "length (e_inputs s') = length (e_inputs s)"
    by (auto simp: s'_def chunk_release_def Let_def ic_def split: option.splits)
  have c: "chunk_table e (e_inputs s' ! j) = chunk_table e (e_inputs s ! j)" if "j < length (e_inputs s)" for e j
    using that by (cases "j = ic_in (ic s a)") (auto simp: s'_def chunk_release_def Let_def in_upd_def split: option.splits)
  have keep: "filed io s' j e k v" if "filed io s j e k v" "v \<noteq> HRef a" for j e k v using that h by (auto simp: filed_def)
  have only: "j = n \<and> e = et \<and> k = key" if "filed io s j e k (HRef a)" for j e k using that assms(2) by (auto simp: filed_def)
  have "ht_plain H ht \<and> (\<forall>k v. ht_abs ht k = Some v \<longrightarrow> filed io s' j e k v \<or> j = n \<and> e = et \<and> k = key)"
    if j: "j < length (e_inputs s')" "chunk_table e (e_inputs s' ! j) = Some ht" for j e ht
  proof -
    have "table_ok io H s j e ht" using assms(1) j h(3) c by (simp add: tables_ok_def)
    then show ?thesis using keep only unfolding table_ok_def by metis
  qed
  then show ?thesis unfolding tables_but_def s'_def [symmetric] by simp
qed

lemma idle_chunk:
  assumes "eng_inv K s" "a \<in> dom (e_chunk_heap s)" "\<not> ic_busy (ic s a)"
  shows "ic_task (ic s a) = None"
proof (rule ccontr)
  assume "ic_task (ic s a) \<noteq> None"
  then obtain t where t: "ic_task (ic s a) = Some t" by blast
  then have "live s t" "tk_ic (tk s t) = a" using eng_invD(9) [OF assms(1)] assms(2) by (auto simp: links_ok_def)
  then show False using eng_invD(3) [OF assms(1)] assms(3) by (auto simp: task_ok_def)
qed

lemma destroy_corrupted_ok:
  assumes "stores_ok io H k (ctx, d)" "open_ok (d_eng d) a" "filed io (d_eng d) n et key (HRef a)"
    and s': "s' = flb_input_chunk_destroy_corrupted io H a (Some key) del (d_eng d)"
  shows "base_ok io k (ctx, d\<lparr>d_eng := s'\<rparr>)" "tables_but io H n et key s'" "del \<Longrightarrow> tables_ok io H s'"
proof -
  note d = disp_ok_chunk_destroy [OF stores_okD(1) [OF assms(1)] assms(2) s' [unfolded destroy_corrupted_eq]]
  show "base_ok io k (ctx, d\<lparr>d_eng := s'\<rparr>)"
    by (rule base_ok_step [OF _ d(1)]) (use assms(1) d(2,3) in \<open>simp_all add: stores_ok_base\<close>)
  define u where "u = chunk_uncount io a (d_eng d)"
  have f: "e_chunk_heap u = e_chunk_heap (d_eng d)" "e_inputs u = e_inputs (d_eng d)" by (simp_all add: u_def chunk_uncount_def Let_def)
  then have ic: "ic u = ic (d_eng d)" by (simp add: ic_def fun_eq_iff)
  have ok: "tables_ok io H u" by (rule tables_ok_frame [OF stores_okD(6) [OF assms(1)] tables_frame_same [OF f]])
  have fl: "filed io u n et key (HRef a)" using assms(3) filed_same [OF f(1)] by simp
  have su: "s' = chunk_release H a del (Some key) u" by (simp add: s' u_def flb_input_chunk_destroy_corrupted_def)
  show t: "tables_ok io H s'" if del
    using tables_ok_release [OF ok, of a "Some key"] fl assms(2) that f ic by (auto simp: su filed_def open_ok_def)
  show "tables_but io H n et key s'"
    using tables_ok_but [OF t] release_keeps_but [OF ok fl, of "Some key"] su by (cases del) simp_all
qed

lemma found_ok:
  assumes "stores_ok io H k (ctx, d)" "n < k" "filed io (d_eng d) n et key (HRef a)" "input_chunk_found io H del a key (d_eng d) = ((r, sd), s')"
  shows "r = Some b \<Longrightarrow> stores_ok io H k (ctx, d\<lparr>d_eng := s'\<rparr>) \<and> open_ok s' b"
    "r = None \<Longrightarrow> base_ok io k (ctx, d\<lparr>d_eng := s'\<rparr>) \<and> tables_but io H n et key s' \<and> (del \<longrightarrow> tables_ok io H s')"
proof -
  define s where "s = d_eng d"
  have a: "a \<in> dom (e_chunk_heap s)" "ic_in (ic s a) = n" using assms(3) by (auto simp: filed_def s_def)
  have n: "n < length (e_inputs s)" using stores_okD(4) [OF assms(1)] assms(2) by (simp add: s_def)
  have base: "base_ok io k (ctx, d\<lparr>d_eng := x\<rparr>) \<and> tables_but io H n et key x \<and> (del \<longrightarrow> tables_ok io H x)"
    if "stores_ok io H k (ctx, d\<lparr>d_eng := x\<rparr>)" for x using that tables_ok_but by (auto simp: stores_ok_base)
  have ds: "d\<lparr>d_eng := s\<rparr> = d" by (simp add: s_def)
  define P where "P \<longleftrightarrow> (case r of Some b \<Rightarrow> stores_ok io H k (ctx, d\<lparr>d_eng := s'\<rparr>) \<and> open_ok s' b
    | None \<Rightarrow> base_ok io k (ctx, d\<lparr>d_eng := s'\<rparr>) \<and> tables_but io H n et key s' \<and> (del \<longrightarrow> tables_ok io H s'))"
  have P
  proof (cases "ic_busy (ic s a) \<or> cio_is_locked io (ic_chunk (ic s a))")
    case True
    then have "r = None" "s' = s" using assms(4) by (simp_all add: input_chunk_found_def s_def)
    then show ?thesis using base [of s] assms(1) ds by (simp add: P_def)
  next
    case False
    then have op: "open_ok s a" using idle_chunk [OF stores_okD(3) [OF assms(1)]] a n by (simp add: open_ok_def s_def)
    obtain ret s1 where c: "chunk_call (cio_up_force io) a s = (ret, s1)" by fastforce
    have q: "quiet io s s1" using quiet_chunk_call [OF a(1), of io "cio_up_force io"] c meta_keptD(2) [OF stores_okD(5) [OF assms(1)]] by simp
    have ok1: "stores_ok io H k (ctx, d\<lparr>d_eng := s1\<rparr>)" using stores_ok_quiet [OF assms(1)] q by (simp add: s_def)
    have op1: "open_ok s1 a" by (rule open_ok_quiet [OF q op])
    have fl: "filed io s1 n et key (HRef a)" using filed_frame [of io s s1] q assms(3) by (simp add: quiet_def s_def)
    note dc = destroy_corrupted_ok [OF ok1, of a n et key _ del, simplified, OF op1 fl refl]
    have "stores_ok io H k (ctx, d\<lparr>d_eng := s\<rparr>)" using assms(1) ds by simp
    then show ?thesis using assms(4) False c ok1 op1 base [OF ok1] dc op
      by (auto simp: input_chunk_found_def P_def s_def [symmetric] split: if_splits)
  qed
  then show "r = Some b \<Longrightarrow> stores_ok io H k (ctx, d\<lparr>d_eng := s'\<rparr>) \<and> open_ok s' b"
    "r = None \<Longrightarrow> base_ok io k (ctx, d\<lparr>d_eng := s'\<rparr>) \<and> tables_but io H n et key s' \<and> (del \<longrightarrow> tables_ok io H s')"
    by (auto simp: P_def)
qed

section \<open>A new chunk keeps the invariants\<close>

text \<open>Documented behaviour of Chunk I/O: metadata that was written, and that is not empty, can be read when the chunk is up.\<close>

definition meta_stored :: "'c cio_api \<Rightarrow> bool" where
  "meta_stored io \<longleftrightarrow> (\<forall>ch m. m \<noteq> [] \<and> fst (cio_meta_write io ch m) \<noteq> -1 \<longrightarrow> cio_meta_read io (brought_up io (snd (cio_meta_write io ch m))) = Some m)"

lemma write_header_tag:
  assumes "meta_stored io" "input_chunk_write_header io meta_ok ch et tag tag_len = (ret, ch')" "ret \<noteq> -1" "tag_len \<le> FLB_INPUT_CHUNK_TAG_MAX"
  shows "tag_up io ch' = Some (take (nat tag_len) tag)"
proof -
  define m where "m = [MAGIC_BYTE_0, MAGIC_BYTE_1, meta_type_byte et, CHR 0x00] @ take (nat tag_len) tag"
  have "\<not> tag_len > FLB_INPUT_CHUNK_TAG_MAX" using assms(4) by simp
  then have "fst (cio_meta_write io ch m) \<noteq> -1" "ch' = snd (cio_meta_write io ch m)"
    using assms(2,3) by (auto simp: input_chunk_write_header_def Let_def m_def split: if_splits prod.splits)
  then have "cio_meta_read io (brought_up io ch') = Some m" using assms(1) by (simp add: meta_stored_def m_def)
  then show ?thesis by (simp add: tag_up_def flb_input_chunk_get_tag_def m_def input_chunk_has_magic_bytes_def FLB_INPUT_CHUNK_META_HEADER_def)
qed

text \<open>Whether a chunk can be created does not depend on the state.\<close>

definition chunk_opens :: "'c cio_api \<Rightarrow> bool \<Rightarrow> bool \<Rightarrow> 'c option \<Rightarrow> int \<Rightarrow> cstr \<Rightarrow> int \<Rightarrow> bool" where
  "chunk_opens io meta_ok mem_ok opened et tag tag_len \<longleftrightarrow>
     (case opened of None \<Rightarrow> False | Some ch0 \<Rightarrow>
        case (if cio_is_up io ch0 then (0, ch0) else cio_up_force io ch0) of (r, ch1) \<Rightarrow>
          r \<noteq> -1 \<and> fst (input_chunk_write_header io meta_ok ch1 et tag tag_len) \<noteq> -1 \<and> mem_ok)"

lemma create_fails:
  "\<not> chunk_opens io meta_ok mem_ok opened et tag tag_len \<Longrightarrow>
     flb_input_chunk_create io H onig sds_ok now meta_ok mem_ok opened n et tag tag_len s = Some (None, s)"
  by (auto simp: chunk_opens_def flb_input_chunk_create_def split: option.splits prod.splits if_splits)

lemma set_by_tag_total:
  assumes "\<forall>x\<in>set os. mask_valid (o_id x)" "mask_wf m"
  shows "\<exists>h' m'. set_by_tag_loop onig ok tag tag_len os (h, m) = Some (h', m')"
  using assms
proof (induction os arbitrary: h m)
  case (Cons x os)
  then show ?case using rmask.set_bit_law [of m "o_id x"] by fastforce
qed simp

definition new_chunk :: "(cstr \<Rightarrow> 64 word) \<Rightarrow> int \<Rightarrow> nat \<Rightarrow> int \<Rightarrow> cstr \<Rightarrow> int \<Rightarrow> 'c \<Rightarrow> routes_mask \<Rightarrow> 'c flb_engine \<Rightarrow> 'c flb_engine" where
  "new_chunk H now n et tag tag_len ch m s =
     in_upd n (\<lambda>i. ht_of_type et (\<lambda>ht. snd (flb_hash_table_add H now 0 True True ht (Some tag) tag_len (e_next s) [] 0))
        (i\<lparr>in_chunks := mk_list_add (e_next s) (in_chunks i)\<rparr>))
      (s\<lparr>e_chunk_heap := (e_chunk_heap s)(e_next s \<mapsto>
          \<lparr>ic_event_type = et, ic_fs_counted = False, ic_busy = False, ic_fs_backlog = False, ic_total_records = 0, ic_added_records = 0,
           ic_chunk = ch, ic_in = n, ic_task = None, ic_routes_mask = m\<rparr>), e_next := e_next s + 1\<rparr>)"

lemma chunk_create_split:
  assumes "\<forall>x\<in>set (e_outputs s). mask_valid (o_id x)" "meta_kept io" "meta_stored io" "tag_len \<le> FLB_INPUT_CHUNK_TAG_MAX"
  obtains "flb_input_chunk_create io H onig sds_ok now meta_ok mem_ok opened n et tag tag_len s = Some (None, s)"
      "\<not> chunk_opens io meta_ok mem_ok opened et tag tag_len"
  | ch m where "flb_input_chunk_create io H onig sds_ok now meta_ok mem_ok opened n et tag tag_len s =
        Some (Some (e_next s), new_chunk H now n et tag tag_len ch m s)"
      "tag_up io ch = Some (take (nat tag_len) tag)"
proof (cases "chunk_opens io meta_ok mem_ok opened et tag tag_len")
  case False
  then show ?thesis using that(1) create_fails by blast
next
  case True
  then obtain ch0 where o: "opened = Some ch0" by (auto simp: chunk_opens_def split: option.splits)
  obtain r ch1 where u: "(if cio_is_up io ch0 then (0, ch0) else cio_up_force io ch0) = (r, ch1)" by fastforce
  obtain ret ch2 where w: "input_chunk_write_header io meta_ok ch1 et tag tag_len = (ret, ch2)" by fastforce
  have t: "r \<noteq> -1" "ret \<noteq> -1" "mem_ok" using True o u w by (simp_all add: chunk_opens_def)
  obtain h m where m: "flb_routes_mask_set_by_tag onig sds_ok mask_zero tag tag_len (Some (map flb_output_instance.truncate (e_outputs s))) = Some (h, m)"
    using set_by_tag_total [of "map flb_output_instance.truncate (e_outputs s)" mask_zero onig sds_ok tag tag_len False] assms(1) rmask.wf_zero
    by (auto simp: flb_routes_mask_set_by_tag_def flb_output_instance.defs)
  have "(if cio_is_up io ch0 then (0, ch0, False) else case cio_up_force io ch0 of (r, c) \<Rightarrow> (r, c, True)) = (r, ch1, \<not> cio_is_up io ch0)"
    using u by (auto split: if_splits)
  then have "flb_input_chunk_create io H onig sds_ok now meta_ok mem_ok opened n et tag tag_len s =
      Some (Some (e_next s), new_chunk H now n et tag tag_len (if \<not> cio_is_up io ch0 then snd (cio_down io ch2) else ch2) m s)"
    using o w t m by (simp add: flb_input_chunk_create_def new_chunk_def Let_def)
  moreover have "tag_up io (if \<not> cio_is_up io ch0 then snd (cio_down io ch2) else ch2) = Some (take (nat tag_len) tag)"
    using write_header_tag [OF assms(3) w t(2) assms(4)] meta_keptD(3) [OF assms(2)] by simp
  ultimately show ?thesis by (rule that(2))
qed

lemma new_chunk_ok:
  assumes "base_ok io k (ctx, d)" "meta_kept io" "tables_but io H n et (take (nat tag_len) tag) (d_eng d)" "n < k" "tag_ok tag tag_len"
    "tag_up io ch = Some (take (nat tag_len) tag)" and s': "s' = new_chunk H now n et tag tag_len ch m (d_eng d)" and disp: "disp_ok (d\<lparr>d_eng := s'\<rparr>)"
  shows "stores_ok io H k (ctx, d\<lparr>d_eng := s'\<rparr>)" "open_ok s' (e_next (d_eng d))"
proof -
  define s a where "s = d_eng d" and "a = e_next s"
  have n: "n < length (e_inputs s)" "length (e_inputs s') = length (e_inputs s)" using assms(1,4) by (simp_all add: base_ok_def s_def s' new_chunk_def)
  have fresh: "a \<notin> dom (e_chunk_heap s)"
    using eng_invD(4) [OF disp_invD(1), of "{#}" "{#}" d] assms(1) by (auto simp: base_ok_def disp_ok_def lists_ok_def s_def a_def)
  have h: "dom (e_chunk_heap s') = insert a (dom (e_chunk_heap s))" "\<And>b. b \<noteq> a \<Longrightarrow> ic s' b = ic s b" "ic_in (ic s' a) = n" "ic_event_type (ic s' a) = et"
    "ic_chunk (ic s' a) = ch" "ic_task (ic s' a) = None" "e_outputs s' = e_outputs s"
    by (auto simp: s' new_chunk_def s_def a_def ic_def)
  have cf: "map in_conf (e_inputs s') = map in_conf (e_inputs s)" unfolding s' new_chunk_def by (subst in_conf_upd) (simp_all add: s_def)
  show "open_ok s' (e_next (d_eng d))" using h n by (simp add: open_ok_def a_def s_def)
  have keep: "filed io s' j e k v" if "filed io s j e k v" for j e k v using that h(1,2) fresh by (force simp: filed_def)
  have new: "filed io s' n et (take (nat tag_len) tag) (HRef a)" using h assms(6) by (simp add: filed_def)
  have "table_ok io H s' j e t" if j: "j < length (e_inputs s')" "chunk_table e (e_inputs s' ! j) = Some t" for j e t
  proof (cases "j = n \<and> e = et")
    case True
    obtain ht where ht: "chunk_table et (e_inputs s ! n) = Some ht" "t = snd (flb_hash_table_add H now 0 True True ht (Some tag) tag_len a [] 0)"
      using j True n by (auto simp: s' new_chunk_def s_def [symmetric] a_def [symmetric] chunk_table_of_type)
    have b: "ht_plain H ht" "\<And>k v. ht_abs ht k = Some v \<Longrightarrow> filed io s n et k v \<or> k = take (nat tag_len) tag"
      using assms(3) n(1) ht(1) unfolding tables_but_def s_def [symmetric] by blast+
    note p = plain_add [OF b(1) assms(5) ht(2)]
    have "filed io s' n et k v" if "ht_abs t k = Some v" for k v
      using that p(2) b(2) [of k v] keep [of n et k v] new by (cases "k = take (nat tag_len) tag") simp_all
    then show ?thesis using p(1) True by (simp add: table_ok_def)
  next
    case False
    have "chunk_table e (e_inputs s ! j) = Some t"
      using j n False by (cases "j = n") (auto simp: s' new_chunk_def s_def [symmetric] chunk_table_of_type in_upd_def)
    then show ?thesis using assms(3) j(1) n(2) False keep unfolding tables_but_def table_ok_def s_def [symmetric] by metis
  qed
  then have "tables_ok io H s'" by (simp add: tables_ok_def)
  moreover have "base_ok io k (ctx, d\<lparr>d_eng := s'\<rparr>)" by (rule base_ok_step [OF assms(1) disp]) (use cf h(7) in \<open>simp_all add: s_def\<close>)
  ultimately show "stores_ok io H k (ctx, d\<lparr>d_eng := s'\<rparr>)" using assms(2) by (simp add: stores_ok_base)
qed

text \<open>The first half of \<^verbatim>\<open>input_chunk_get\<close>. A corrupted chunk that is not deleted stays in the table until a new one
  takes its place, so that one of the two must happen.\<close>

definition creatable :: "'c cio_api \<Rightarrow> 'c ingest_env \<Rightarrow> int \<Rightarrow> cstr \<Rightarrow> int \<Rightarrow> bool" where
  "creatable io g et tag tag_len \<longleftrightarrow> chunk_opens io (g_meta_ok g) (g_mem_ok g) (g_opened g) et tag tag_len"

lemma open_chunk_ok:
  assumes "stores_ok io H k (ctx, d)" "n < k" "tag_ok tag tag_len"
  obtains r sd s' where "input_chunk_open io H g n et tag tag_len (d_eng d) = Some ((r, sd), s')"
    "\<And>b. r = Some b \<Longrightarrow> stores_ok io H k (ctx, d\<lparr>d_eng := s'\<rparr>) \<and> open_ok s' b"
    "r = None \<Longrightarrow> base_ok io k (ctx, d\<lparr>d_eng := s'\<rparr>) \<and> tables_but io H n et (take (nat tag_len) tag) s' \<and> (g_del_bad g \<longrightarrow> tables_ok io H s')"
proof -
  obtain v s1 where l: "input_chunk_lookup H (g_now g) n et tag tag_len (d_eng d) = (v, s1)" by fastforce
  note lk = lookup_ok [OF assms l]
  show ?thesis
  proof (cases v)
    case None
    have "input_chunk_open io H g n et tag tag_len (d_eng d) = Some ((None, False), s1)" using l None by (simp add: input_chunk_open_def)
    then show ?thesis by (rule that) (use lk(1) tables_ok_but in \<open>auto simp: stores_ok_base\<close>)
  next
    case (Some x)
    then obtain a where a: "v = Some (HRef a)" "filed io s1 n et (take (nat tag_len) tag) (HRef a)" using lk(2) by auto
    obtain r sd s' where f: "input_chunk_found io H (g_del_bad g) a (take (nat tag_len) tag) s1 = ((r, sd), s')" by (metis prod.exhaust)
    have "e_chunk_heap s1 a \<noteq> None" using a(2) by (auto simp: filed_def)
    then have "input_chunk_open io H g n et tag tag_len (d_eng d) = Some ((r, sd), s')" using l a(1) f by (simp add: input_chunk_open_def)
    then show ?thesis
      by (rule that) (use found_ok [OF lk(1) assms(2), of et "take (nat tag_len) tag" a "g_del_bad g" r sd s'] a(2) f in auto)
  qed
qed

lemma tag_ok_cut:
  assumes "tag_ok tag tag_len"
  shows "tag_ok tag (if tag_len > FLB_INPUT_CHUNK_TAG_MAX then FLB_INPUT_CHUNK_TAG_MAX else tag_len)"
proof (cases "tag_len > FLB_INPUT_CHUNK_TAG_MAX")
  case True
  then have "set (take (nat FLB_INPUT_CHUNK_TAG_MAX) tag) \<subseteq> set (take (nat tag_len) tag)" by (intro set_take_subset_set_take) simp
  moreover have "(0::int) < FLB_INPUT_CHUNK_TAG_MAX" by (simp add: FLB_INPUT_CHUNK_TAG_MAX_def)
  ultimately show ?thesis using assms True by (auto simp: tag_ok_def nul_free_def)
qed (use assms in simp)

text \<open>Creating a chunk when none was found.\<close>

lemma created_ok:
  assumes "base_ok io k (ctx, d)" "meta_kept io" "tables_but io H n et (take (nat len) tag) (d_eng d)" "g_del_bad g \<longrightarrow> tables_ok io H (d_eng d)"
    "n < k" "tag_ok tag len" "len \<le> FLB_INPUT_CHUNK_TAG_MAX" "meta_stored io" "g_del_bad g \<or> creatable io g et tag len"
  obtains r s' where "flb_input_chunk_create io H (g_onig g) (g_sds_ok g) (g_now g) (g_meta_ok g) (g_mem_ok g) (g_opened g) n et tag len (d_eng d) = Some (r, s')"
    "stores_ok io H k (ctx, d\<lparr>d_eng := s'\<rparr>)" "\<And>a. r = Some a \<Longrightarrow> open_ok s' a"
proof -
  have mv: "\<forall>x\<in>set (e_outputs (d_eng d)). mask_valid (o_id x)" using assms(1) by (simp add: base_ok_def)
  show ?thesis
  proof (cases rule: chunk_create_split [OF mv assms(2,8,7), of H "g_onig g" "g_sds_ok g" "g_now g" "g_meta_ok g" "g_mem_ok g" "g_opened g" n et tag])
    case 1
    then have "tables_ok io H (d_eng d)" using assms(4,9) by (simp add: creatable_def)
    then show ?thesis using that [OF 1(1)] assms(1,2) by (simp add: stores_ok_base)
  next
    case (2 ch m)
    have "disp_ok (d\<lparr>d_eng := new_chunk H (g_now g) n et tag len ch m (d_eng d)\<rparr>)"
      using chunk_create_ok [OF _ _ 2(1)] assms(1,5) by (simp add: base_ok_def)
    from new_chunk_ok [OF assms(1-3,5,6) 2(2) refl this] show ?thesis using that [OF 2(1)] by simp
  qed
qed

text \<open>Room for the data of a chunk can be asked for at any time; the chunk itself stays.\<close>

lemma input_chunk_place_ok:
  assumes "stores_ok io H k (ctx, d)" "g_sb_in g < k" "open_ok (d_eng d) a"
  obtains st' where "input_chunk_place io H g chunk_size is_new a (ctx, d) = Some (Some a, st')" "stores_ok io H k st'" "open_ok (d_eng (snd st')) a"
proof -
  define c where "c = ic (d_eng d) a"
  have op: "a \<in> dom (e_chunk_heap (d_eng d))" "ic_task c = None" "ic_in c < k"
    using assms(3) stores_okD(4) [OF assms(1)] by (simp_all add: open_ok_def c_def)
  have sp: "space_ok io H a c k (ctx, d)" using assms(1) op(1) by (simp add: space_ok_def c_def)
  obtain st1 where p: "flb_input_chunk_place_new_chunk io H (\<lambda>b. case b of None \<Rightarrow> 0 | Some x \<Rightarrow> g_count g x) (g_sb_in g) a chunk_size (ctx, d) =
      Some (\<not> flb_routes_mask_is_empty (ic_routes_mask c), st1)" "space_ok io H a c k st1"
    using place_new_chunk_ok [OF sp assms(2) op(3)] by blast
  have "open_ok (d_eng (snd st1)) a" using p(2) op by (simp add: space_ok_def open_ok_def stores_ok_def)
  then show ?thesis using that [of "(ctx, d)"] that [of st1] p assms(1,3)
    by (cases "flb_routes_mask_is_empty (ic_routes_mask c)") (auto simp: input_chunk_place_def c_def space_ok_def)
qed

text \<open>Getting a chunk: it never leaves the bounds of the model, keeps the invariants, and the chunk it gives can be written to.\<close>

lemma input_chunk_get_ok:
  assumes "stores_ok io H k st" "n < k" "g_sb_in g < k" "tag_ok tag tag_len" "meta_stored io"
    "g_del_bad g \<or> creatable io g et tag (if tag_len > FLB_INPUT_CHUNK_TAG_MAX then FLB_INPUT_CHUNK_TAG_MAX else tag_len)"
  obtains r sd st' where "input_chunk_get io H g n et tag tag_len chunk_size st = Some ((r, sd), st')" "stores_ok io H k st'"
    "\<And>a. r = Some a \<Longrightarrow> open_ok (d_eng (snd st')) a"
proof -
  define len where "len = (if tag_len > FLB_INPUT_CHUNK_TAG_MAX then FLB_INPUT_CHUNK_TAG_MAX else tag_len)"
  obtain ctx d where st: "st = (ctx, d)" by fastforce
  note ok = assms(1) [unfolded st] and mk = stores_okD(5) [OF assms(1) [unfolded st]]
  have tg: "tag_ok tag len" "len \<le> FLB_INPUT_CHUNK_TAG_MAX" unfolding len_def by (rule tag_ok_cut [OF assms(4)]) simp
  obtain found sd s1 where o: "input_chunk_open io H g n et tag len (d_eng d) = Some ((found, sd), s1)"
    "\<And>b. found = Some b \<Longrightarrow> stores_ok io H k (ctx, d\<lparr>d_eng := s1\<rparr>) \<and> open_ok s1 b"
    "found = None \<Longrightarrow> base_ok io k (ctx, d\<lparr>d_eng := s1\<rparr>) \<and> tables_but io H n et (take (nat len) tag) s1 \<and> (g_del_bad g \<longrightarrow> tables_ok io H s1)"
    using open_chunk_ok [OF ok assms(2) tg(1)] by blast
  define cr where "cr = (case found of Some a \<Rightarrow> Some (Some a, s1)
    | None \<Rightarrow> flb_input_chunk_create io H (g_onig g) (g_sds_ok g) (g_now g) (g_meta_ok g) (g_mem_ok g) (g_opened g) n et tag len s1)"
  have "\<exists>r s2. cr = Some (r, s2) \<and> stores_ok io H k (ctx, d\<lparr>d_eng := s2\<rparr>) \<and> (\<forall>a. r = Some a \<longrightarrow> open_ok s2 a)"
  proof (cases found)
    case None
    have b: "base_ok io k (ctx, d\<lparr>d_eng := s1\<rparr>)" "tables_but io H n et (take (nat len) tag) (d_eng (d\<lparr>d_eng := s1\<rparr>))"
      "g_del_bad g \<longrightarrow> tables_ok io H (d_eng (d\<lparr>d_eng := s1\<rparr>))" using o(3) [OF None] by simp_all
    show ?thesis
    proof (rule created_ok [OF b(1) mk b(2,3) assms(2) tg assms(5) assms(6) [folded len_def]])
      fix r s' assume "flb_input_chunk_create io H (g_onig g) (g_sds_ok g) (g_now g) (g_meta_ok g) (g_mem_ok g) (g_opened g) n et tag len
          (d_eng (d\<lparr>d_eng := s1\<rparr>)) = Some (r, s')"
        "stores_ok io H k (ctx, d\<lparr>d_eng := s1, d_eng := s'\<rparr>)" "\<And>a. r = Some a \<Longrightarrow> open_ok s' a"
      then show ?thesis using None by (simp add: cr_def)
    qed
  qed (use o(2) in \<open>simp add: cr_def\<close>)
  then obtain r s2 where r: "cr = Some (r, s2)" "stores_ok io H k (ctx, d\<lparr>d_eng := s2\<rparr>)" "\<And>a. r = Some a \<Longrightarrow> open_ok s2 a" by blast
  have unf: "input_chunk_get io H g n et tag tag_len chunk_size st = (case cr of
      None \<Rightarrow> None
    | Some (None, s2) \<Rightarrow> Some ((None, sd), st_upd (\<lambda>_. s2) st)
    | Some (Some a, s2) \<Rightarrow> map_option (\<lambda>(r, st'). ((r, sd), st')) (input_chunk_place io H g chunk_size (found = None) a (st_upd (\<lambda>_. s2) st)))"
    using o(1) unfolding st by (simp add: input_chunk_get_def cr_def len_def [symmetric])
  have st2: "st_upd (\<lambda>_. s2) st = (ctx, d\<lparr>d_eng := s2\<rparr>)" by (simp add: st_upd_def st eng_upd_def)
  show ?thesis
  proof (cases r)
    case None
    then show ?thesis using that [of None sd "(ctx, d\<lparr>d_eng := s2\<rparr>)"] r(1,2) unf st2 by simp
  next
    case (Some a)
    then have op: "open_ok (d_eng (d\<lparr>d_eng := s2\<rparr>)) a" using r(3) by simp
    obtain st' where "input_chunk_place io H g chunk_size (found = None) a (ctx, d\<lparr>d_eng := s2\<rparr>) = Some (Some a, st')"
        "stores_ok io H k st'" "open_ok (d_eng (snd st')) a"
      by (rule input_chunk_place_ok [OF r(2) assms(3) op])
    then show ?thesis using that [of "Some a" sd st'] r(1) unf st2 Some by simp
  qed
qed

section \<open>Appending keeps the invariants\<close>

lemma memrb_loop_ok:
  assumes "stores_ok io H k (ctx, d)" "n < k" "set as \<subseteq> set (in_chunks (e_inputs (d_eng d) ! n))" "distinct as"
  shows "stores_ok io H k (ctx, d\<lparr>d_eng := snd (snd (memrb_loop io H req as released removed (d_eng d)))\<rparr>)"
  using assms
proof (induction as arbitrary: d released removed)
  case (Cons a as)
  have n: "n < length (e_inputs (d_eng d))" using stores_okD(4) [OF Cons.prems(1)] Cons.prems(2) by simp
  have a: "a \<in> set (in_chunks (e_inputs (d_eng d) ! n))" using Cons.prems(3) by simp
  obtain g s1 where t: "turn_destroy io H a (d_eng d) = (g, s1)" by fastforce
  note ok = turn_destroy_ok [OF stores_okD(2) [OF Cons.prems(1)] n a t]
  have d1: "disp_ok (d\<lparr>d_eng := s1\<rparr>)" using disp_ok_engine [OF stores_okD(1) [OF Cons.prems(1)] ok(1)] by simp
  have "tables_ok io H s1" using turn_destroy_tables [OF stores_okD(5,6,3) [OF Cons.prems(1)] n a] t by simp
  then have st1: "stores_ok io H k (ctx, d\<lparr>d_eng := s1\<rparr>)"
    using stores_ok_step [OF Cons.prems(1) d1] turn_frameD(7,10) [OF ok(2)] by simp
  have "set as \<subseteq> set (in_chunks (e_inputs s1 ! n))" using turn_frameD(5) [OF ok(2) n] Cons.prems(3,4) by auto
  then have "stores_ok io H k (ctx, d\<lparr>d_eng := snd (snd (memrb_loop io H req as m j s1))\<rparr>)" for m j
    using Cons.IH [OF st1 Cons.prems(2)] Cons.prems(4) by simp
  moreover have "stores_ok io H k (ctx, d\<lparr>d_eng := snd (snd (memrb_loop io H req as released removed (d_eng d)))\<rparr>)"
    using Cons.IH [OF Cons.prems(1,2)] Cons.prems(3,4) by simp
  ultimately show ?case using st1 t by (simp add: Let_def split: prod.splits)
qed simp

lemma memrb_check_ok:
  assumes "stores_ok io H k (ctx, d)" "n < k"
  shows "stores_ok io H k (ctx, d\<lparr>d_eng := snd (memrb_check io H n buf_size (d_eng d))\<rparr>)"
proof -
  obtain m j s1 where l: "memrb_loop io H buf_size (in_chunks (e_inputs (d_eng d) ! n)) 0 0 (d_eng d) = (m, j, s1)" by (metis prod_cases3)
  have "distinct (in_chunks (e_inputs (d_eng d) ! n))"
    using eng_invD(4) [OF stores_okD(3) [OF assms(1)]] stores_okD(4) [OF assms(1)] assms(2) by (simp add: lists_ok_def)
  from memrb_loop_ok [OF assms subset_refl this, of buf_size 0 0] have st1: "stores_ok io H k (ctx, d\<lparr>d_eng := s1\<rparr>)" by (simp add: l)
  have "quiet io s1 (in_upd n (\<lambda>i. i\<lparr>in_cmt_memrb_dropped_chunks := in_cmt_memrb_dropped_chunks i + x,
      in_cmt_memrb_dropped_bytes := in_cmt_memrb_dropped_bytes i + y\<rparr>) s1)" for x y by (rule quiet_in_upd) (simp_all add: in_conf_def)
  then have "stores_ok io H k (ctx, d\<lparr>d_eng := in_upd n (\<lambda>i. i\<lparr>in_cmt_memrb_dropped_chunks := in_cmt_memrb_dropped_chunks i + x,
      in_cmt_memrb_dropped_bytes := in_cmt_memrb_dropped_bytes i + y\<rparr>) s1\<rparr>)" for x y
    using stores_ok_quiet [OF st1] by simp
  then show ?thesis using assms(1) st1 l by (simp add: memrb_check_def memrb_input_chunk_release_space_def)
qed

text \<open>The state of the whole path: the stores and, in the ring buffers, entries of their input with tags that the tables
  can hold.\<close>

definition raw_ok :: "nat \<Rightarrow> input_chunk_raw \<Rightarrow> bool" where
  "raw_ok n cr \<longleftrightarrow> cr_ins cr = n \<and> (case cr_tag cr of None \<Rightarrow> True | Some t \<Rightarrow> t \<noteq> [] \<and> nul_free t)"

definition sys_ok :: "'c cio_api \<Rightarrow> (cstr \<Rightarrow> 64 word) \<Rightarrow> nat \<Rightarrow> 'c flb_sys \<Rightarrow> bool" where
  "sys_ok io H k y \<longleftrightarrow> stores_ok io H k (y_sb y, y_disp y) \<and> (\<forall>n<k. \<forall>cr\<in>set (y_rb y n). raw_ok n cr)"

text \<open>What an append needs from outside: the backlog input, and a chunk to take the place of a corrupted one
  unless that is deleted.\<close>

definition env_ok :: "'c cio_api \<Rightarrow> nat \<Rightarrow> 'c ingest_env \<Rightarrow> bool" where
  "env_ok io k g \<longleftrightarrow> g_sb_in g < k \<and> (g_del_bad g \<or> (\<forall>et tag tag_len. creatable io g et tag tag_len))"

definition tag_given :: "cstr option \<Rightarrow> int \<Rightarrow> bool" where
  "tag_given tag tag_len \<longleftrightarrow> (case tag of None \<Rightarrow> True | Some t \<Rightarrow> tag_ok t tag_len)"

lemma default_tag_ok:
  assumes "named (in_conf i)" "tag_given tag0 tag_len0" "default_tag i tag0 tag_len0 = (tag, tag_len)"
  shows "tag_ok tag tag_len"
proof -
  have "strlen (in_name i) = length (in_name i)" using assms(1) by (simp add: named_def in_conf_def strlen_nul_free)
  then show ?thesis using assms by (auto simp: default_tag_def tag_given_def tag_ok_def named_def in_conf_def split: option.splits if_splits)
qed

lemma append_raw_ok:
  assumes "sys_ok io H k y" "n < k" "meta_stored io"
    "env_ok io k g" "tag_given tag0 tag_len0"
  obtains ret y' where "input_chunk_append_raw io H g n et n_records tag0 tag_len0 buf y = Some (ret, y')" "sys_ok io H k y'" "ret = 0 \<or> ret = -1"
    "y_rb y' = y_rb y" "y_flush_pending y' = y_flush_pending y"
proof -
  obtain go s1 where m: "memrb_check io H n (int (length buf)) (d_eng (y_disp y)) = (go, s1)" by fastforce
  define d1 where "d1 = (y_disp y)\<lparr>d_eng := s1\<rparr>"
  have ok1: "stores_ok io H k (y_sb y, d1)"
    using memrb_check_ok [of io H k "y_sb y" "y_disp y" n "int (length buf)"] assms(1,2) m by (simp add: sys_ok_def d1_def)
  define y1 where "y1 = sys_eng (\<lambda>_. s1) y"
  have y1: "y_sb y1 = y_sb y" "y_disp y1 = d1" "y_rb y1 = y_rb y" "y_flush_pending y1 = y_flush_pending y"
    by (simp_all add: y1_def sys_eng_def d1_def eng_upd_def)
  have ok1': "sys_ok io H k y1" using ok1 assms(1) by (simp add: sys_ok_def y1)
  show ?thesis
  proof (cases "\<not> go \<or> flb_input_buf_paused (e_inputs s1 ! n) \<or> buf = []")
    case True
    then have "input_chunk_append_raw io H g n et n_records tag0 tag_len0 buf y = Some (-1, y1)"
      by (auto simp: input_chunk_append_raw_def m y1_def Let_def)
    then show ?thesis using that [of "-1" y1] ok1' y1 by simp
  next
    case False
    obtain tag tag_len where t: "default_tag (e_inputs s1 ! n) tag0 tag_len0 = (tag, tag_len)" by fastforce
    have e: "tag_ok tag tag_len" using default_tag_ok [OF stores_okD(9) [OF ok1 assms(2)] assms(5)] t by (simp add: d1_def)
    obtain r sd st where g: "input_chunk_get io H g n et tag tag_len (int (length buf)) (y_sb y, d1) = Some ((r, sd), st)" "stores_ok io H k st"
      "\<And>a. r = Some a \<Longrightarrow> open_ok (d_eng (snd st)) a"
      using input_chunk_get_ok [OF ok1 assms(2) _ _ assms(3), of g tag tag_len et "int (length buf)"] e assms(4) unfolding env_ok_def by blast
    obtain ctx d where st: "st = (ctx, d)" by fastforce
    have unf: "input_chunk_append_raw io H g n et n_records tag0 tag_len0 buf y =
      (case r of None \<Rightarrow> Some (-1, y1\<lparr>y_sb := ctx, y_disp := d\<rparr>)
       | Some a \<Rightarrow> (case append_to_chunk io H g n et n_records tag tag_len buf a sd (y_filters y1) (d_eng d) of
           (ret, filters', s') \<Rightarrow> Some (ret, y1\<lparr>y_sb := ctx, y_disp := d\<lparr>d_eng := s'\<rparr>, y_filters := filters'\<rparr>)))"
      using False g(1) t m unfolding st by (simp add: input_chunk_append_raw_def y1_def [symmetric] y1 eng_upd_def split: option.splits)
    show ?thesis
    proof (cases r)
      case None
      then show ?thesis using that [of "-1" "y1\<lparr>y_sb := ctx, y_disp := d\<rparr>"] unf g(2) y1 assms(1) by (simp add: sys_ok_def st)
    next
      case (Some a)
      obtain ret f' s' where w: "append_to_chunk io H g n et n_records tag tag_len buf a sd (y_filters y1) (d_eng d) = (ret, f', s')" by (metis prod_cases3)
      note ac = append_to_chunk_ok [OF g(2) [unfolded st] _ w]
      have "open_ok (d_eng d) a" using g(3) [OF Some] by (simp add: st)
      then show ?thesis using that [of ret "y1\<lparr>y_sb := ctx, y_disp := d\<lparr>d_eng := s'\<rparr>, y_filters := f'\<rparr>"] unf Some w ac y1 assms(1) by (simp add: sys_ok_def)
    qed
  qed
qed

lemma raw_tag_given: "raw_ok n cr \<Longrightarrow> tag_given (cr_tag cr) (case cr_tag cr of None \<Rightarrow> 0 | Some t \<Rightarrow> int (length t))"
  by (auto simp: raw_ok_def tag_given_def tag_ok_def split: option.splits)

lemma append_to_ring_buffer_ok:
  assumes "sys_ok io H k y" "tag_given tag tag_len" "append_to_ring_buffer raw_ok' tag_ok' buf_ok ok n et records tag tag_len buf y = (ret, y')"
  shows "sys_ok io H k y'" "ret = 0 \<or> ret = -1"
proof -
  define cr where "cr = \<lparr>cr_ins = n, cr_event_type = et, cr_records = records,
    cr_tag = (if tag \<noteq> None \<and> tag_len > 0 then map_option (take (nat tag_len)) tag else None), cr_buf = buf\<rparr>"
  have cr: "raw_ok n cr" using assms(2) by (cases tag) (auto simp: raw_ok_def cr_def tag_given_def tag_ok_def)
  have c: "ret = -1 \<and> y' = y \<or> ret = 0 \<and> y' = y\<lparr>y_rb := (y_rb y)(n := mk_list_add cr (y_rb y n))\<rparr>"
    using assms(3) unfolding append_to_ring_buffer_def Let_def cr_def by (auto split: if_splits)
  then show "ret = 0 \<or> ret = -1" by blast
  show "sys_ok io H k y'" using c assms(1) cr by (auto simp: sys_ok_def split: if_splits)
qed

text \<open>Entries appended one after the other.\<close>

fun rb_appends ::
  "'c cio_api \<Rightarrow> (cstr \<Rightarrow> 64 word) \<Rightarrow> (nat \<Rightarrow> 'c ingest_env) \<Rightarrow> nat \<Rightarrow> input_chunk_raw list \<Rightarrow> 'c flb_sys \<Rightarrow> 'c flb_sys option" where
  "rb_appends io H g k [] y = Some y"
| "rb_appends io H g k (cr # crs) y =
     (case input_chunk_append_raw io H (g k) (cr_ins cr) (cr_event_type cr) (cr_records cr) (cr_tag cr)
             (case cr_tag cr of None \<Rightarrow> 0 | Some t \<Rightarrow> int (length t)) (cr_buf cr) y of
        None \<Rightarrow> None
      | Some (ret, y') \<Rightarrow> rb_appends io H g (k + 1) crs y')"

text \<open>The collector visited an input: it appended the entries \<open>taken\<close> from the front of the ring buffer, each while the input was
  not paused, left the others in the buffer, and there are others only if the input was paused then. Nothing else happened.\<close>

definition rb_paused :: "nat \<Rightarrow> 'c flb_sys \<Rightarrow> bool" where
  "rb_paused n y = flb_input_buf_paused (e_inputs (d_eng (y_disp y)) ! n)"

definition collected ::
  "'c cio_api \<Rightarrow> (cstr \<Rightarrow> 64 word) \<Rightarrow> (nat \<Rightarrow> 'c ingest_env) \<Rightarrow> nat \<Rightarrow> input_chunk_raw list \<Rightarrow> 'c flb_sys \<Rightarrow> 'c flb_sys \<Rightarrow> bool" where
  "collected io H g n taken y y' \<longleftrightarrow> (\<exists>y2 rest. rb_appends io H g 0 taken y = Some y2 \<and> y_rb y n = taken @ rest \<and>
     y' = y2\<lparr>y_rb := (y_rb y)(n := rest), y_flush_pending := (y_flush_pending y)(n := False)\<rparr> \<and> (rest = [] \<or> rb_paused n y2) \<and>
     (\<forall>j<length taken. \<exists>z. rb_appends io H g 0 (take j taken) y = Some z \<and> \<not> rb_paused n z))"

lemma rb_collect_ok:
  assumes "sys_ok io H k y" "n < k" "meta_stored io" "\<forall>j. env_ok io k (g j)" "\<forall>cr\<in>set crs. raw_ok n cr"
  shows "\<exists>y1 taken rest. rb_appends io H g j taken y = Some y1 \<and> rb_collect io H g n j crs y = Some (y1\<lparr>y_rb := (y_rb y)(n := rest)\<rparr>) \<and>
    sys_ok io H k (y1\<lparr>y_rb := (y_rb y)(n := rest)\<rparr>) \<and> crs = taken @ rest \<and> (rest = [] \<or> rb_paused n y1) \<and>
    y_flush_pending y1 = y_flush_pending y \<and> (\<forall>i<length taken. \<exists>z. rb_appends io H g j (take i taken) y = Some z \<and> \<not> rb_paused n z)"
  using assms(1,5)
proof (induction crs arbitrary: y j)
  case Nil
  have "sys_ok io H k (y\<lparr>y_rb := (y_rb y)(n := [])\<rparr>)" using Nil.prems(1) by (simp add: sys_ok_def)
  then show ?case by - (rule exI [of _ y], rule exI [of _ "[]"], rule exI [of _ "[]"], simp del: fun_upd_apply)
next
  case (Cons cr crs)
  have rb: "sys_ok io H k (y\<lparr>y_rb := (y_rb y)(n := cr # crs)\<rparr>)" using Cons.prems by (auto simp: sys_ok_def)
  show ?case
  proof (cases "rb_paused n y")
    case True
    then show ?thesis using rb by - (rule exI [of _ y], rule exI [of _ "[]"], rule exI [of _ "cr # crs"], simp add: rb_paused_def del: fun_upd_apply)
  next
    case False
    have cr: "raw_ok n cr" "cr_ins cr = n" using Cons.prems(2) by (simp_all add: raw_ok_def)
    obtain ret y0 where a: "input_chunk_append_raw io H (g j) n (cr_event_type cr) (cr_records cr) (cr_tag cr)
        (case cr_tag cr of None \<Rightarrow> 0 | Some t \<Rightarrow> int (length t)) (cr_buf cr) y = Some (ret, y0)"
      "sys_ok io H k y0" "y_rb y0 = y_rb y" "y_flush_pending y0 = y_flush_pending y"
      using append_raw_ok [OF Cons.prems(1) assms(2,3) _ raw_tag_given [OF cr(1)], of "g j" "cr_event_type cr" "cr_records cr" "cr_buf cr"] assms(4) by blast
    have first: "rb_appends io H g j (cr # xs) y = rb_appends io H g (j + 1) xs y0" for xs using a(1) cr(2) by simp
    have "\<forall>c\<in>set crs. raw_ok n c" using Cons.prems(2) by simp
    from Cons.IH [OF a(2) this, of "j + 1"] obtain y1 taken rest where t: "rb_appends io H g (j + 1) taken y0 = Some y1"
      "rb_collect io H g n (j + 1) crs y0 = Some (y1\<lparr>y_rb := (y_rb y)(n := rest)\<rparr>)" "sys_ok io H k (y1\<lparr>y_rb := (y_rb y)(n := rest)\<rparr>)" "crs = taken @ rest"
      "rest = [] \<or> rb_paused n y1" "y_flush_pending y1 = y_flush_pending y"
      "\<And>i. i < length taken \<Longrightarrow> \<exists>z. rb_appends io H g (j + 1) (take i taken) y0 = Some z \<and> \<not> rb_paused n z"
      unfolding a(3,4) by blast
    have "rb_collect io H g n j (cr # crs) y = Some (y1\<lparr>y_rb := (y_rb y)(n := rest)\<rparr>)"
      using t(2) False a(1) cr(2) by (simp add: rb_paused_def)
    moreover have "\<exists>z. rb_appends io H g j (take i (cr # taken)) y = Some z \<and> \<not> rb_paused n z" if "i < length (cr # taken)" for i
      using that False t(7) first by (cases i) auto
    moreover have "rb_appends io H g j (cr # taken) y = Some y1" using t(1) first by (simp only:)
    moreover have "cr # crs = (cr # taken) @ rest" using t(4) by simp
    ultimately show ?thesis using t(3,5,6) by blast
  qed
qed

lemma collect_inputs_append:
  "collect_inputs io H g (ns @ ms) y = (case collect_inputs io H g ns y of None \<Rightarrow> None | Some y1 \<Rightarrow> collect_inputs io H g ms y1)"
  by (induction ns arbitrary: y) (simp_all split: option.splits)

lemma collect_one_ok:
  assumes "sys_ok io H k y" "meta_stored io" "\<forall>n j. env_ok io k (g n j)" "n < k"
  shows "\<exists>taken y'. collect_inputs io H g [n] y = Some y' \<and> sys_ok io H k y' \<and> collected io H (g n) n taken y y'"
proof -
  have "\<forall>cr\<in>set (y_rb y n). raw_ok n cr" using assms(1,4) by (auto simp: sys_ok_def)
  then obtain y2 taken rest where y2: "rb_appends io H (g n) 0 taken y = Some y2"
    "rb_collect io H (g n) n 0 (y_rb y n) y = Some (y2\<lparr>y_rb := (y_rb y)(n := rest)\<rparr>)" "sys_ok io H k (y2\<lparr>y_rb := (y_rb y)(n := rest)\<rparr>)"
    "y_rb y n = taken @ rest" "rest = [] \<or> rb_paused n y2" "y_flush_pending y2 = y_flush_pending y"
    "\<forall>i<length taken. \<exists>z. rb_appends io H (g n) 0 (take i taken) y = Some z \<and> \<not> rb_paused n z"
    using rb_collect_ok [OF assms(1,4,2), of "g n" "y_rb y n" 0] assms(3) by blast
  define y' where "y' = y2\<lparr>y_rb := (y_rb y)(n := rest), y_flush_pending := (y_flush_pending y)(n := False)\<rparr>"
  have "collect_inputs io H g [n] y = Some y'" using y2(2,6) by (simp add: y'_def)
  moreover have "sys_ok io H k y'" using y2(3) by (simp add: sys_ok_def y'_def)
  moreover have "collected io H (g n) n taken y y'" unfolding collected_def y'_def using y2(1,4,5,7) by blast
  ultimately show ?thesis by blast
qed

lemma collect_inputs_ok:
  assumes "sys_ok io H k y" "meta_stored io" "\<forall>n j. env_ok io k (g n j)" "j \<le> k"
  shows "\<exists>Y taken. Y 0 = y \<and> collect_inputs io H g [0..<j] y = Some (Y j) \<and> sys_ok io H k (Y j) \<and>
    (\<forall>n<j. collected io H (g n) n (taken n) (Y n) (Y (Suc n)) \<and> y_rb y n = taken n @ y_rb (Y j) n) \<and> (\<forall>n. j \<le> n \<longrightarrow> y_rb (Y j) n = y_rb y n)"
  using assms(4)
proof (induction j)
  case 0
  then show ?case using assms(1) by (intro exI [of _ "\<lambda>_. y"]) simp
next
  case (Suc j)
  then have "j \<le> k" by simp
  from Suc.IH [OF this] obtain Y taken where Y: "Y 0 = y" "collect_inputs io H g [0..<j] y = Some (Y j)" "sys_ok io H k (Y j)"
    "\<forall>n<j. collected io H (g n) n (taken n) (Y n) (Y (Suc n)) \<and> y_rb y n = taken n @ y_rb (Y j) n" "\<forall>n. j \<le> n \<longrightarrow> y_rb (Y j) n = y_rb y n"
    by blast
  obtain t y' where y': "collect_inputs io H g [j] (Y j) = Some y'" "sys_ok io H k y'" "collected io H (g j) j t (Y j) y'"
    using collect_one_ok [OF Y(3) assms(2,3), of j] Suc.prems by auto
  define Z where "Z = Y(Suc j := y')"
  define T where "T = taken(j := t)"
  have rb: "y_rb (Y j) j = t @ y_rb y' j" "\<And>n. n \<noteq> j \<Longrightarrow> y_rb y' n = y_rb (Y j) n" using y'(3) by (auto simp: collected_def)
  have "collected io H (g n) n (T n) (Z n) (Z (Suc n)) \<and> y_rb y n = T n @ y_rb (Z (Suc j)) n" if "n < Suc j" for n
  proof (cases "n = j")
    case True
    then show ?thesis using y'(3) rb(1) Y(5) by (simp add: Z_def T_def)
  next
    case False
    then have n: "n < j" using that by simp
    have "y_rb y' n = y_rb (Y j) n" using rb(2) False by blast
    then show ?thesis using n Y(4) by (simp add: Z_def T_def)
  qed
  moreover have "collect_inputs io H g [0..<Suc j] y = Some (Z (Suc j))" using y'(1) by (simp add: collect_inputs_append Y(2) Z_def)
  moreover have "y_rb (Z (Suc j)) n = y_rb y n" if "Suc j \<le> n" for n using that rb(2) Y(5) by (simp add: Z_def)
  ultimately show ?case using Y(1) y'(2) by (intro exI [of _ Z] exI [of _ T]) (simp add: Z_def)
qed

section \<open>A corrupted chunk that is not deleted\<close>

lemma lookup_plain:
  assumes "chunk_table et (e_inputs s ! n) = Some ht" "ht_plain H ht" "tag_ok tag tag_len"
  obtains ht' where "input_chunk_lookup H now n et tag tag_len s = (ht_abs ht (take (nat tag_len) tag), in_upd n (ht_of_type et (\<lambda>_. ht')) s)"
    "ht_plain H ht'" "ht_abs ht' = ht_abs ht"
proof -
  obtain bid w ht' where g: "flb_hash_table_get H now ht (Some tag) tag_len = (bid, w, ht')" by (metis prod_cases3)
  note p = plain_get [OF assms(2,3) g]
  have "input_chunk_lookup H now n et tag tag_len s = (ht_abs ht (take (nat tag_len) tag), in_upd n (ht_of_type et (\<lambda>_. ht')) s)"
    using assms(1) g p(3) by (simp add: input_chunk_lookup_def)
  then show ?thesis using that p(1,2) by blast
qed

text \<open>The tables after a corrupted chunk was destroyed without deleting it: nothing was taken out.\<close>

lemma destroy_corrupted_keeps:
  assumes "n < length (e_inputs s)"
  shows "chunk_table et (e_inputs (flb_input_chunk_destroy_corrupted io H a tag False s) ! n) = chunk_table et (e_inputs s ! n)"
    "e_chunk_heap (flb_input_chunk_destroy_corrupted io H a tag False s) a = None"
    "length (e_inputs (flb_input_chunk_destroy_corrupted io H a tag False s)) = length (e_inputs s)"
  using assms by (cases "ic_in (ic s a) = n";
    auto simp: flb_input_chunk_destroy_corrupted_def chunk_release_def chunk_uncount_def Let_def in_upd_def ic_def split: option.splits)+

section \<open>The content of a chunk\<close>

text \<open>Documented behaviour of Chunk I/O: \<open>ct\<close> is the content of a chunk, in memory or in its file. Mapping, unmapping and locking keep it;
  a chunk is up after a successful \<^verbatim>\<open>cio_chunk_up_force\<close>; a write returns minus one, or zero for a chunk that is up, and then it
  appends to the content. The size of the content is its length while the chunk is up: for a chunk that is down
  \<^verbatim>\<open>cio_chunk_get_content_size\<close> returns zero, whatever the file holds, and nothing is assumed of it here.\<close>

definition content_kept :: "'c cio_api \<Rightarrow> ('c \<Rightarrow> cstr) \<Rightarrow> bool" where
  "content_kept io ct \<longleftrightarrow> (\<forall>ch. ct (snd (cio_up_force io ch)) = ct ch \<and> ct (snd (cio_down io ch)) = ct ch \<and> ct (cio_lock io ch) = ct ch \<and>
     (fst (cio_up_force io ch) = CIO_OK \<longrightarrow> cio_is_up io (snd (cio_up_force io ch))) \<and>
     (cio_is_up io ch \<longrightarrow> cio_content_size io ch = int (length (ct ch))) \<and>
     (\<forall>b. b \<noteq> [] \<longrightarrow> fst (cio_write io ch b) = -1 \<or>
        fst (cio_write io ch b) = CIO_OK \<and> cio_is_up io (snd (cio_write io ch b)) \<and> ct (snd (cio_write io ch b)) = ct ch @ b))"

lemma content_keptD:
  assumes "content_kept io ct"
  shows "ct (snd (cio_up_force io ch)) = ct ch" "ct (snd (cio_down io ch)) = ct ch" "ct (cio_lock io ch) = ct ch"
    "fst (cio_up_force io ch) = CIO_OK \<Longrightarrow> cio_is_up io (snd (cio_up_force io ch))"
    "cio_is_up io ch \<Longrightarrow> cio_content_size io ch = int (length (ct ch))"
    "b \<noteq> [] \<Longrightarrow> fst (cio_write io ch b) = -1 \<or>
       fst (cio_write io ch b) = CIO_OK \<and> cio_is_up io (snd (cio_write io ch b)) \<and> ct (snd (cio_write io ch b)) = ct ch @ b"
  using assms by (simp_all add: content_kept_def)

text \<open>Steps that leave the content and the records of the chunk alone.\<close>

definition holds :: "('c \<Rightarrow> cstr) \<Rightarrow> nat \<Rightarrow> addr \<Rightarrow> cstr \<Rightarrow> int \<Rightarrow> bool \<Rightarrow> 'c flb_engine \<Rightarrow> bool" where
  "holds ct n a b r p s \<longleftrightarrow> a \<in> dom (e_chunk_heap s) \<and> ct (ic_chunk (ic s a)) = b \<and> ic_total_records (ic s a) = r \<and>
     n < length (e_inputs s) \<and> in_routable (e_inputs s ! n) = p"

lemma holds_call:
  assumes "holds ct n a b r p s" "\<And>ch. ct (snd (f ch)) = ct ch"
  shows "holds ct n a b r p (snd (chunk_call f a s))"
  using assms by (auto simp: holds_def chunk_call_def case_prod_beta)

lemma holds_in_upd:
  assumes "holds ct n a b r p s" "\<And>i. in_routable (f i) = in_routable i"
  shows "holds ct n a b r p (in_upd m f s)"
  using assms by (cases "m = n") (auto simp: holds_def in_upd_def ic_def)

lemma holds_set_limits: "holds ct n a b r p s \<Longrightarrow> holds ct n a b r p (flb_input_chunk_set_limits io m s)"
  unfolding flb_input_chunk_set_limits_def Let_def by (rule holds_in_upd) (simp_all add: in_resume_def)

lemma holds_protect: "holds ct n a b r p s \<Longrightarrow> holds ct n a b r p (snd (flb_input_chunk_protect io m s))"
  by (auto simp: flb_input_chunk_protect_def Let_def flb_input_pause_def intro!: holds_in_upd split: if_splits)

lemma holds_update_outputs: "holds ct n a b r p s \<Longrightarrow> holds ct n a b r p (flb_input_chunk_update_output_instances a m s)"
  by (auto simp: holds_def flb_input_chunk_update_output_instances_def Let_def ic_def)

text \<open>The data that is written and the records the chunk then has.\<close>

definition append_data :: "'c ingest_env \<Rightarrow> int \<Rightarrow> int \<Rightarrow> int \<Rightarrow> cstr \<Rightarrow> int \<Rightarrow> cstr \<Rightarrow> flb_filter_instance list \<Rightarrow> cstr \<times> int" where
  "append_data g event_type n_records before tag tag_len buf filters =
     (if event_type = FLB_INPUT_LOGS
      then case flb_filter_do (g_onig g) (g_cb g) (g_count g) (g_ntag_ok g) n_records (before + n_records) buf tag tag_len filters of
             (data, records, _) \<Rightarrow> (data, records)
      else (buf, before + n_records))"

lemma append_write_holds:
  assumes "content_kept io ct" "holds ct n a b r p s" "append_data g et n_records r tag tag_len buf filters = (data, r')"
    "append_write io g n a et n_records tag tag_len buf filters s = (ret, filters', s')" "ret \<noteq> -1"
    and up: "data = [] \<Longrightarrow> cio_is_up io (ic_chunk (ic s a))"
  shows "holds ct n a (b @ data) r' p s' \<and> cio_is_up io (ic_chunk (ic s' a))"
proof -
  have r: "ic_total_records (ic s a) = r" using assms(2) by (simp add: holds_def)
  define s1 where "s1 = (if r + n_records > 0 then in_upd n (\<lambda>i. i\<lparr>in_cmt_records := in_cmt_records i + n_records,
      in_cmt_bytes := in_cmt_bytes i + int (length buf)\<rparr>) s else s)"
  obtain data0 tot' fs where f: "(if et = FLB_INPUT_LOGS
      then flb_filter_do (g_onig g) (g_cb g) (g_count g) (g_ntag_ok g) n_records (r + n_records) buf tag tag_len filters
      else (buf, r + n_records, filters)) = (data0, tot', fs)" by (metis prod_cases3)
  have d: "data0 = data" "tot' = r'" using f assms(3) by (auto simp: append_data_def split: if_splits)
  have h1: "holds ct n a b r p s1" using holds_in_upd [OF assms(2)] assms(2) by (simp add: s1_def)
  define s2 where "s2 = ic_upd a (\<lambda>c. c\<lparr>ic_added_records := n_records, ic_total_records := r'\<rparr>) s1"
  have h2: "holds ct n a b r' p s2" using h1 by (simp add: holds_def s2_def)
  obtain ret3 s3 where w: "(if length data > 0 then chunk_call (\<lambda>ch. cio_write io ch data) a s2 else (0, s2)) = (ret3, s3)" by fastforce
  have res: "ret = ret3" "s' = (if ret3 \<noteq> CIO_OK then ic_upd a (\<lambda>c. c\<lparr>ic_added_records := 0, ic_total_records := r\<rparr>) s3 else s3)"
    using assms(4) f w unfolding append_write_def Let_def r s1_def [symmetric] d s2_def by (simp, auto)
  have "ic_chunk (ic s2 a) = ic_chunk (ic s a)" by (simp add: s2_def s1_def ic_def in_upd_def ic_upd_def)
  then have "ret3 = CIO_OK \<and> holds ct n a (b @ data) r' p s3 \<and> cio_is_up io (ic_chunk (ic s3 a))"
  proof (cases "data = []")
    case True
    then show ?thesis using w h2 up \<open>ic_chunk (ic s2 a) = _\<close> by (auto simp: CIO_OK_def)
  next
    case False
    note c = content_keptD(6) [OF assms(1) False, of "ic_chunk (ic s2 a)"]
    have "ret3 = fst (cio_write io (ic_chunk (ic s2 a)) data)" "s3 = ic_upd a (\<lambda>x. x\<lparr>ic_chunk := snd (cio_write io (ic_chunk (ic s2 a)) data)\<rparr>) s2"
      using w False by (auto simp: chunk_call_def case_prod_beta)
    then show ?thesis using c h2 assms(5) res(1) by (auto simp: holds_def)
  qed
  then show ?thesis using res by simp
qed

lemma append_finish_holds:
  assumes "content_kept io ct" "holds ct n a b r p s" "cio_is_up io (ic_chunk (ic s a))"
  shows "if p \<and> b \<noteq> [] then holds ct n a b r p (append_finish io H n a set_down pre s)
    else a \<notin> dom (e_chunk_heap (append_finish io H n a set_down pre s))"
proof -
  note c = content_keptD [OF assms(1)]
  have sz: "cio_content_size io (ic_chunk (ic s a)) = 0 \<longleftrightarrow> b = []" using assms(2) c(5) [OF assms(3)] by (simp add: holds_def)
  define s1 where "s1 = (if to_size (cio_content_size io (ic_chunk (ic s a))) > FLB_INPUT_CHUNK_FS_MAX_SIZE
      then ic_upd a (\<lambda>c. c\<lparr>ic_chunk := cio_lock io (ic_chunk c)\<rparr>) s else s)"
  define s2 where "s2 = (if set_down then snd (chunk_call (cio_down io) a s1) else s1)"
  define s3 where "s3 = flb_input_chunk_set_limits io n s2"
  define s4 where "s4 = (if flb_input_chunk_is_mem_overlimit (e_inputs s3 ! n) \<and> in_stream_type (e_inputs s3 ! n) = FLB_STORAGE_FS \<and>
      cio_is_up io (ic_chunk (ic s3 a)) \<and> to_size (FLB_INPUT_CHUNK_FS_MAX_SIZE - cio_content_size io (ic_chunk (ic s3 a))) < 20480
      then snd (chunk_call (cio_down io) a s3) else s3)"
  define s5 where "s5 = (if flb_input_chunk_get_real_size io (ic s4 a) - pre \<noteq> 0
      then flb_input_chunk_update_output_instances a (flb_input_chunk_get_real_size io (ic s4 a) - pre) s4 else s4)"
  have h1: "holds ct n a b r p s1" using assms(2) c(3) by (simp add: s1_def holds_def)
  have h2: "holds ct n a b r p s2" using h1 holds_call [OF h1, of "cio_down io"] c(2) by (simp add: s2_def)
  have h3: "holds ct n a b r p s3" unfolding s3_def by (rule holds_set_limits [OF h2])
  have h4: "holds ct n a b r p s4" using h3 holds_call [OF h3, of "cio_down io"] c(2) by (simp add: s4_def)
  have h5: "holds ct n a b r p s5" using h4 holds_update_outputs [OF h4] by (simp add: s5_def)
  have gone: "a \<notin> dom (e_chunk_heap (flb_input_chunk_destroy io H a True x))" if "holds ct n a b r p x" for x
    using that chunk_destroy_heap [of a x io H True] by (simp add: holds_def)
  have lim: "dom (e_chunk_heap (flb_input_chunk_set_limits io n x)) = dom (e_chunk_heap x)" for x by (simp add: flb_input_chunk_set_limits_def Let_def)
  have p2: "in_routable (e_inputs s2 ! n) = p" using h2 by (simp add: holds_def)
  show ?thesis
    unfolding append_finish_def Let_def s1_def [symmetric] s2_def [symmetric] s3_def [symmetric] s4_def [symmetric] s5_def [symmetric] sz p2
    using gone [OF h1] gone [OF h2] lim holds_protect [OF h5] by (cases "b = []"; cases p) simp_all
qed

section \<open>Properties\<close>

text \<open>C5: appending records is safe. For every input, event type, tag and buffer, threaded or not, and whatever the allocations, the
  filters, the storage and the search for space do, \<^verbatim>\<open>flb_input_chunk_append_raw\<close> follows no reference to a chunk that is gone,
  returns zero or minus one, and leaves the engine, the backlog and the tables of open chunks in order: every entry of a table is a
  chunk that exists, of that input and event type, with the tag it is filed under. Tags are C strings that are not empty; Chunk I/O
  keeps metadata; and either corrupted chunks are deleted or a new chunk can be created.\<close>

theorem flb_input_chunk_append_raw_safe:
  assumes "sys_ok io H k y" "n < k" "meta_stored io" "env_ok io k g" "tag_given tag tag_len"
  shows "\<exists>ret y'. flb_input_chunk_append_raw io H g entry_ok tag_alloc_ok buf_ok ok n event_type records tag tag_len buf y = Some (ret, y') \<and>
    (ret = 0 \<or> ret = -1) \<and> sys_ok io H k y'"
proof (cases "in_threaded (e_inputs (d_eng (y_disp y)) ! n)")
  case True
  obtain ret y' where a: "append_to_ring_buffer entry_ok tag_alloc_ok buf_ok ok n event_type records tag tag_len buf y = (ret, y')" by fastforce
  show ?thesis using True a append_to_ring_buffer_ok [OF assms(1,5) a] by (simp add: flb_input_chunk_append_raw_def)
next
  case False
  obtain ret y' where "input_chunk_append_raw io H g n event_type records tag tag_len buf y = Some (ret, y')" "sys_ok io H k y'" "ret = 0 \<or> ret = -1"
    using append_raw_ok [OF assms] by blast
  then show ?thesis using False by (simp add: flb_input_chunk_append_raw_def)
qed

text \<open>C12: the collector of the ring buffers is total and loses nothing. It ends and keeps the invariants. Its result is reached input by
  input, from \<open>Y 0\<close>, the state before, to \<open>Y k\<close>, the result: for every input it runs \<^verbatim>\<open>input_chunk_append_raw\<close> on the
  entries of its ring buffer, one by one from the oldest on and each while the input is not paused, and all the collector changes besides
  is to remove these entries from the buffer and to reset the flag that a flush is pending. What is left of a buffer is the end of what there
  was, and it is empty unless the input was paused after the last entry that was taken.\<close>

theorem flb_input_chunk_ring_buffer_collector_drains:
  assumes "sys_ok io H k y" "meta_stored io" "\<forall>n j. env_ok io k (g n j)"
  shows "\<exists>Y taken. Y 0 = y \<and> flb_input_chunk_ring_buffer_collector io H g y = Some (Y k) \<and> sys_ok io H k (Y k) \<and>
    (\<forall>n<k. collected io H (g n) n (taken n) (Y n) (Y (Suc n)) \<and> y_rb y n = taken n @ y_rb (Y k) n)"
proof -
  have "length (e_inputs (d_eng (y_disp y))) = k" using assms(1) by (simp add: sys_ok_def stores_ok_def)
  then show ?thesis using collect_inputs_ok [OF assms order_refl] unfolding flb_input_chunk_ring_buffer_collector_def by blast
qed

text \<open>C11: what a chunk holds after an append. When \<^verbatim>\<open>input_chunk_append_raw\<close> has a chunk, up or down, and returns zero, the chunk
  holds what it held before followed by what the filters left of the buffer, and counts its records; it is destroyed exactly
  when that is nothing, or when the input has no route. Chunk I/O is taken to append what is written and to keep the
  content of a chunk whether it is mapped or not; the size it reports is the length of the content only for a chunk that is up. When the
  filters leave nothing of the buffer, so that nothing is written, a chunk that is down must come up or fail with
  \<^verbatim>\<open>CIO_ERROR\<close>, the one failure the code tests.\<close>

theorem append_to_chunk_exact:
  assumes "content_kept io ct" "a \<in> dom (e_chunk_heap s)" "n < length (e_inputs s)"
    "append_data g event_type n_records (ic_total_records (ic s a)) tag tag_len buf filters = (data, records)"
    "data = [] \<longrightarrow> cio_is_up io (ic_chunk (ic s a)) \<or> fst (cio_up_force io (ic_chunk (ic s a))) \<in> {CIO_OK, CIO_ERROR}"
    "append_to_chunk io H g n event_type n_records tag tag_len buf a set_down filters s = (0, filters', s')"
  shows "if in_routable (e_inputs s ! n) \<and> ct (ic_chunk (ic s a)) @ data \<noteq> []
    then a \<in> dom (e_chunk_heap s') \<and> ct (ic_chunk (ic s' a)) = ct (ic_chunk (ic s a)) @ data \<and> ic_total_records (ic s' a) = records
    else a \<notin> dom (e_chunk_heap s')"
proof -
  define b r p where "b = ct (ic_chunk (ic s a))" and "r = ic_total_records (ic s a)" and "p = in_routable (e_inputs s ! n)"
  have h: "holds ct n a b r p s" using assms(2,3) by (simp add: holds_def b_def r_def p_def)
  define up where "up = flb_input_chunk_is_up io s a"
  obtain x s1 where 1: "(if up then (0, s) else chunk_call (cio_up_force io) a s) = (x, s1)" by fastforce
  have h1: "holds ct n a b r p s1" using 1 h holds_call [OF h, of "cio_up_force io"] content_keptD(1) [OF assms(1)] by (auto split: if_splits)
  obtain ret f0 s2 where w: "append_write io g n a event_type n_records tag tag_len buf filters s1 = (ret, f0, s2)" by (metis prod_cases3)
  have ok: "ret \<noteq> -1" "\<exists>sd pre. s' = append_finish io H n a sd pre s2" "up \<or> x \<noteq> -1"
    using assms(6) unfolding append_to_chunk_def Let_def up_def [symmetric] 1 prod.case w by (auto split: if_splits)
  obtain sd pre where s': "s' = append_finish io H n a sd pre s2" using ok(2) by blast
  have "cio_is_up io (ic_chunk (ic s1 a))" if "data = []"
  proof (cases up)
    case True
    then show ?thesis using 1 by (simp add: up_def flb_input_chunk_is_up_def)
  next
    case False
    then have x: "x = fst (cio_up_force io (ic_chunk (ic s a)))" "ic_chunk (ic s1 a) = snd (cio_up_force io (ic_chunk (ic s a)))"
      using 1 by (auto simp: chunk_call_def case_prod_beta)
    have "x = CIO_OK" using assms(5) that False ok(3) by (auto simp: x(1) up_def flb_input_chunk_is_up_def CIO_ERROR_def)
    then show ?thesis using content_keptD(4) [OF assms(1)] x by simp
  qed
  then have "holds ct n a (b @ data) records p s2 \<and> cio_is_up io (ic_chunk (ic s2 a))"
    using assms(4) by (intro append_write_holds [OF assms(1) h1 _ w ok(1)]) (simp_all add: r_def)
  then show ?thesis using append_finish_holds [OF assms(1), of n a "b @ data" records p s2 H sd pre]
    unfolding b_def [symmetric] p_def [symmetric] s' by (auto simp: holds_def split: if_splits)
qed

text \<open>C39: a corrupted chunk that is not deleted stays in the table after it is freed. When the chunk of a tag cannot be brought up
  because it is corrupted and \<^verbatim>\<open>storage.delete_irrecoverable_chunks\<close> is off, \<^verbatim>\<open>input_chunk_get\<close> frees it without taking it out of the
  table of its input. If no new chunk can be created to take its place, the next call for the same tag reads the chunk that was
  freed, whatever the data.\<close>

theorem input_chunk_get_corrupted_dangles:
  assumes "n < length (e_inputs (d_eng (snd st)))" "chunk_table et (e_inputs (d_eng (snd st)) ! n) = Some ht" "ht_plain H ht"
    "ht_abs ht (take (nat tag_len) tag) = Some (HRef a)" "a \<in> dom (e_chunk_heap (d_eng (snd st)))" "tag_ok tag tag_len" "tag_len \<le> FLB_INPUT_CHUNK_TAG_MAX"
    "\<not> ic_busy (ic (d_eng (snd st)) a)" "\<not> cio_is_locked io (ic_chunk (ic (d_eng (snd st)) a))" "\<not> cio_is_up io (ic_chunk (ic (d_eng (snd st)) a))"
    "fst (cio_up_force io (ic_chunk (ic (d_eng (snd st)) a))) = CIO_CORRUPTED" "\<not> g_del_bad g" "\<not> creatable io g et tag tag_len"
  shows "\<exists>st'. input_chunk_get io H g n et tag tag_len chunk_size st = Some ((None, True), st') \<and>
    (\<forall>g' chunk_size'. input_chunk_get io H g' n et tag tag_len chunk_size' st' = None)"
proof -
  define s where "s = d_eng (snd st)"
  have len: "(if tag_len > FLB_INPUT_CHUNK_TAG_MAX then FLB_INPUT_CHUNK_TAG_MAX else tag_len) = tag_len" using assms(7) by simp
  obtain ht1 where l1: "input_chunk_lookup H (g_now g) n et tag tag_len s = (Some (HRef a), in_upd n (ht_of_type et (\<lambda>_. ht1)) s)"
    "ht_plain H ht1" "ht_abs ht1 = ht_abs ht"
    using lookup_plain [OF assms(2,3,6), of "g_now g"] assms(4) unfolding s_def by metis
  define s1 where "s1 = in_upd n (ht_of_type et (\<lambda>_. ht1)) s"
  define s2 where "s2 = snd (chunk_call (cio_up_force io) a s1)"
  define s3 where "s3 = flb_input_chunk_destroy_corrupted io H a (Some (take (nat tag_len) tag)) False s2"
  have ic1: "ic s1 a = ic s a" "e_chunk_heap s1 a \<noteq> None" using assms(5) by (auto simp: s1_def s_def)
  have c: "chunk_call (cio_up_force io) a s1 = (CIO_CORRUPTED, s2)"
    using assms(11) ic1(1) by (simp add: chunk_call_def s2_def s_def case_prod_beta)
  have f: "input_chunk_found io H False a (take (nat tag_len) tag) s1 = ((None, True), s3)"
    using assms(8-10) c ic1(1) by (simp add: input_chunk_found_def s3_def s_def)
  have o: "input_chunk_open io H g n et tag tag_len s = Some ((None, True), s3)"
    using l1(1) f ic1(2) assms(12) by (simp add: input_chunk_open_def s1_def [symmetric])
  have get1: "input_chunk_get io H g n et tag tag_len chunk_size st = Some ((None, True), st_upd (\<lambda>_. s3) st)"
    unfolding input_chunk_get_def Let_def len s_def [symmetric]
    using o create_fails [of io "g_meta_ok g" "g_mem_ok g" "g_opened g" et tag tag_len] assms(13) by (simp add: creatable_def)
  have e2: "e_inputs s2 = e_inputs s1" by (simp add: s2_def chunk_call_def case_prod_beta)
  have n2: "n < length (e_inputs s2)" using assms(1) by (simp add: e2 s1_def s_def)
  have t3: "chunk_table et (e_inputs s3 ! n) = Some ht1"
    using destroy_corrupted_keeps(1) [OF n2, of et io H a] assms(1,2) by (simp add: s3_def e2 s1_def s_def chunk_table_of_type)
  have h3: "e_chunk_heap s3 a = None" using destroy_corrupted_keeps(2) [OF n2] by (simp add: s3_def)
  have "input_chunk_get io H g' n et tag tag_len chunk_size' (st_upd (\<lambda>_. s3) st) = None" for g' chunk_size'
  proof -
    obtain ht2 where "input_chunk_lookup H (g_now g') n et tag tag_len s3 = (Some (HRef a), in_upd n (ht_of_type et (\<lambda>_. ht2)) s3)"
      using lookup_plain [OF t3 l1(2) assms(6), of "g_now g'"] l1(3) assms(4) by metis
    then have "input_chunk_open io H g' n et tag tag_len s3 = None" using h3 by (simp add: input_chunk_open_def)
    then show ?thesis unfolding input_chunk_get_def Let_def len by (simp add: st_upd_def)
  qed
  then show ?thesis using get1 by blast
qed

section \<open>Witnesses\<close>

definition demo_ingest_env :: "bool \<Rightarrow> demo_chunk option \<Rightarrow> demo_chunk ingest_env" where
  "demo_ingest_env del opened = \<lparr>g_onig = (\<lambda>_ _. 0), g_sds_ok = (\<lambda>_. True), g_now = 5, g_meta_ok = True, g_mem_ok = True, g_opened = opened,
     g_del_bad = del, g_sb_in = 0, g_cb = (\<lambda>_ _ _. (0, [])), g_count = (\<lambda>b. int (length b)), g_ntag_ok = True\<rparr>"

definition demo_raw :: input_chunk_raw where
  "demo_raw = \<lparr>cr_ins = 0, cr_event_type = FLB_INPUT_LOGS, cr_records = 1, cr_tag = Some ''app'', cr_buf = ''xy''\<rparr>"

definition demo_sys :: "input_chunk_raw list \<Rightarrow> demo_chunk flb_sys" where
  "demo_sys crs = \<lparr>y_sb = None, y_disp = demo_start, y_filters = [], y_rb = (\<lambda>_. crs), y_flush_pending = (\<lambda>_. True)\<rparr>"

lemma demo_meta_stored: "meta_stored demo_io"
  by (auto simp: meta_stored_def demo_io_def brought_up_def)

lemma demo_env_ok: "env_ok demo_io 1 (demo_ingest_env False (Some (True, 0, None)))"
  by (simp add: env_ok_def demo_ingest_env_def creatable_def chunk_opens_def demo_io_def input_chunk_write_header_def Let_def)

lemma demo_sys_ok: "sys_ok demo_io (\<lambda>_. 0) 1 (demo_sys [])" "sys_ok demo_io (\<lambda>_. 0) 1 (demo_sys [demo_raw])"
  using demo_stores by (simp_all add: sys_ok_def demo_sys_def demo_raw_def raw_ok_def nul_free_def)

theorem flb_input_chunk_append_raw_safe_witness:
  "\<exists>ret y'. flb_input_chunk_append_raw demo_io (\<lambda>_. 0) (demo_ingest_env False (Some (True, 0, None))) True True True (\<lambda>_. True) 0 FLB_INPUT_LOGS 1
     (Some ''app'') 3 ''xy'' (demo_sys []) = Some (ret, y') \<and> (ret = 0 \<or> ret = -1) \<and> sys_ok demo_io (\<lambda>_. 0) 1 y'"
  by (rule flb_input_chunk_append_raw_safe [OF demo_sys_ok(1) _ demo_meta_stored demo_env_ok]) (simp_all add: tag_given_def tag_ok_def nul_free_def)

theorem flb_input_chunk_ring_buffer_collector_drains_witness:
  "\<exists>y' y2 ret. flb_input_chunk_ring_buffer_collector demo_io (\<lambda>_. 0) (\<lambda>_ _. demo_ingest_env False (Some (True, 0, None))) (demo_sys [demo_raw]) = Some y' \<and>
     input_chunk_append_raw demo_io (\<lambda>_. 0) (demo_ingest_env False (Some (True, 0, None))) 0 FLB_INPUT_LOGS 1 (Some ''app'') 3 ''xy''
       (demo_sys [demo_raw]) = Some (ret, y2) \<and>
     y_disp y' = y_disp y2 \<and> y_rb y' 0 = [] \<and> \<not> y_flush_pending y' 0"
proof -
  let ?g = "demo_ingest_env False (Some (True, 0, None))"
  have "\<exists>Y taken. Y 0 = demo_sys [demo_raw] \<and>
    flb_input_chunk_ring_buffer_collector demo_io (\<lambda>_. 0) (\<lambda>_ _. ?g) (demo_sys [demo_raw]) = Some (Y 1) \<and>
    sys_ok demo_io (\<lambda>_. 0) 1 (Y 1) \<and> (\<forall>n<1. collected demo_io (\<lambda>_. 0) (\<lambda>_. ?g) n (taken n) (Y n) (Y (Suc n)) \<and>
      y_rb (demo_sys [demo_raw]) n = taken n @ y_rb (Y 1) n)"
    using flb_input_chunk_ring_buffer_collector_drains [OF demo_sys_ok(2) demo_meta_stored, of "\<lambda>_ _. ?g"] demo_env_ok by blast
  then obtain Y taken where Y: "Y 0 = demo_sys [demo_raw]"
    "flb_input_chunk_ring_buffer_collector demo_io (\<lambda>_. 0) (\<lambda>_ _. ?g) (demo_sys [demo_raw]) = Some (Y 1)"
    and c: "\<forall>n<1. collected demo_io (\<lambda>_. 0) (\<lambda>_. ?g) n (taken n) (Y n) (Y (Suc n)) \<and> y_rb (demo_sys [demo_raw]) n = taken n @ y_rb (Y 1) n"
    by blast
  have "collected demo_io (\<lambda>_. 0) (\<lambda>_. ?g) 0 (taken 0) (Y 0) (Y 1)" using c [rule_format, of 0] by simp
  then obtain y2 rest where y2: "rb_appends demo_io (\<lambda>_. 0) (\<lambda>_. ?g) 0 (taken 0) (demo_sys [demo_raw]) = Some y2" "[demo_raw] = taken 0 @ rest"
    "Y 1 = y2\<lparr>y_rb := (y_rb (demo_sys [demo_raw]))(0 := rest), y_flush_pending := (y_flush_pending (demo_sys [demo_raw]))(0 := False)\<rparr>"
    "rest = [] \<or> rb_paused 0 y2"
    unfolding collected_def Y(1) by (auto simp: demo_sys_def)
  have "\<not> rb_paused 0 (demo_sys [demo_raw])"
    by (simp add: rb_paused_def demo_sys_def demo_start_fields demo_input_def flb_input_buf_paused_def)
  then have t: "taken 0 = [demo_raw]" "rest = []" using y2(1,2,4) by (auto simp: Cons_eq_append_conv)
  then have "\<exists>ret. input_chunk_append_raw demo_io (\<lambda>_. 0) ?g 0 FLB_INPUT_LOGS 1 (Some ''app'') 3 ''xy'' (demo_sys [demo_raw]) = Some (ret, y2)"
    using y2(1) by (auto simp: demo_raw_def split: option.splits)
  then show ?thesis using Y(2) y2(3) t(2) by auto
qed

text \<open>A chunk of Chunk I/O that is its content and whether it is up; while it is down its content has size zero and cannot be written.\<close>

definition demo_content_io :: "(bool \<times> cstr) cio_api" where
  "demo_content_io = \<lparr>cio_is_up = fst, cio_up = (\<lambda>(u, c). (0, (True, c))), cio_up_force = (\<lambda>(u, c). (0, (True, c))),
     cio_down = (\<lambda>(u, c). (0, (False, c))), cio_content_size = (\<lambda>(u, c). if u then int (length c) else 0),
     cio_real_size = (\<lambda>(u, c). int (length c)), cio_meta_size = (\<lambda>c. 0),
     cio_meta_read = (\<lambda>c. None), cio_meta_write = (\<lambda>c b. (0, c)), cio_lock = (\<lambda>c. c), cio_is_locked = (\<lambda>c. False),
     cio_get_content = (\<lambda>(u, c). if u then Some (Some c) else None), cio_write = (\<lambda>(u, c) b. if u then (0, (u, c @ b)) else (-1, (u, c))),
     cio_truncate = (\<lambda>(u, c) k. (0, (u, take (nat k) c))),
     cio_tx_rollback = (\<lambda>c. c), cio_error_get = (\<lambda>c. 0), cio_total_chunks_up = 1, cio_max_chunks_up = 128\<rparr>"

definition demo_content :: "(bool \<times> cstr) flb_engine" where
  "demo_content = \<lparr>e_inputs = [demo_input 0], e_outputs = [],
     e_chunk_heap = [0 \<mapsto> \<lparr>ic_event_type = 1, ic_fs_counted = False, ic_busy = False, ic_fs_backlog = False, ic_total_records = 2,
        ic_added_records = 0, ic_chunk = (False, ''ab''), ic_in = 0, ic_task = None, ic_routes_mask = mask_zero\<rparr>],
     e_task_heap = Map.empty, e_retry_heap = Map.empty, e_tasks_map = [], e_sched = demo_sched, e_next = 1, e_is_running = True,
     e_is_ingestion_active = True\<rparr>"

definition demo_content_env :: "(bool \<times> cstr) ingest_env" where
  "demo_content_env = \<lparr>g_onig = (\<lambda>_ _. 0), g_sds_ok = (\<lambda>_. True), g_now = 5, g_meta_ok = True, g_mem_ok = True, g_opened = None,
     g_del_bad = True, g_sb_in = 0, g_cb = (\<lambda>_ _ _. (0, [])), g_count = (\<lambda>b. int (length b)), g_ntag_ok = True\<rparr>"

theorem append_to_chunk_exact_witness:
  "snd (ic_chunk (ic (snd (snd (append_to_chunk demo_content_io (\<lambda>_. 0) demo_content_env 0 FLB_INPUT_METRICS 1 ''t'' 1 ''c'' 0 False [] demo_content))) 0)) =
     ''abc''"
proof -
  have k: "content_kept demo_content_io snd" by (auto simp: content_kept_def demo_content_io_def CIO_OK_def split: if_splits)
  have f: "ic demo_content 0 = \<lparr>ic_event_type = 1, ic_fs_counted = False, ic_busy = False, ic_fs_backlog = False, ic_total_records = 2,
        ic_added_records = 0, ic_chunk = (False, ''ab''), ic_in = 0, ic_task = None, ic_routes_mask = mask_zero\<rparr>" "e_inputs demo_content = [demo_input 0]"
    "0 \<in> dom (e_chunk_heap demo_content)" by (simp_all add: demo_content_def ic_def)
  have d: "append_data demo_content_env FLB_INPUT_METRICS 1 (ic_total_records (ic demo_content 0)) ''t'' 1 ''c'' [] = (''c'', 3)"
    by (simp add: append_data_def f FLB_INPUT_METRICS_def FLB_INPUT_LOGS_def)
  obtain ret fs s' where r: "append_to_chunk demo_content_io (\<lambda>_. 0) demo_content_env 0 FLB_INPUT_METRICS 1 ''t'' 1 ''c'' 0 False [] demo_content = (ret, fs, s')"
    by (metis prod_cases3)
  have "ret = 0" using r
    by (simp add: append_to_chunk_def append_write_def chunk_call_def flb_input_chunk_is_up_def demo_content_io_def Let_def f
        FLB_INPUT_METRICS_def FLB_INPUT_LOGS_def split: prod.splits if_splits)
  then show ?thesis using append_to_chunk_exact [OF k f(3) _ d, of 0 "\<lambda>_. 0" False fs s'] r f by (simp add: demo_input_def)
qed

definition demo_corrupt_io :: "demo_chunk cio_api" where
  "demo_corrupt_io = demo_io\<lparr>cio_up_force := \<lambda>ch. (CIO_CORRUPTED, ch)\<rparr>"

definition demo_corrupt :: "demo_chunk space_st" where
  "demo_corrupt = (None, demo_start\<lparr>d_eng := (d_eng demo_start)\<lparr>
     e_inputs := [(demo_input 100)\<lparr>in_ht_log_chunks := snd (flb_hash_table_add (\<lambda>_. 0) 5 0 True True demo_ht (Some ''t'') 1 0 [] 0)\<rparr>],
     e_chunk_heap := [0 \<mapsto> (demo_chunk_of True 100)\<lparr>ic_chunk := (False, 100, Some ''t'')\<rparr>]\<rparr>\<rparr>)"

theorem input_chunk_get_corrupted_dangles_witness:
  "\<exists>st'. input_chunk_get demo_corrupt_io (\<lambda>_. 0) (demo_ingest_env False None) 0 FLB_INPUT_LOGS ''t'' 1 10 demo_corrupt = Some ((None, True), st') \<and>
     input_chunk_get demo_corrupt_io (\<lambda>_. 0) (demo_ingest_env True (Some (True, 0, None))) 0 FLB_INPUT_LOGS ''t'' 1 10 st' = None"
proof -
  have t: "tag_ok ''t'' 1" by (simp add: tag_ok_def nul_free_def)
  note h = plain_add [OF demo_ht_plain [of "\<lambda>_. 0"] t refl, of 5 0]
  have f: "e_inputs (d_eng (snd demo_corrupt)) = [(demo_input 100)\<lparr>in_ht_log_chunks := snd (flb_hash_table_add (\<lambda>_. 0) 5 0 True True demo_ht (Some ''t'') 1 0 [] 0)\<rparr>]"
    "ic (d_eng (snd demo_corrupt)) 0 = (demo_chunk_of True 100)\<lparr>ic_chunk := (False, 100, Some ''t'')\<rparr>" "dom (e_chunk_heap (d_eng (snd demo_corrupt))) = {0}"
    by (simp_all add: demo_corrupt_def ic_def)
  have "\<exists>st'. input_chunk_get demo_corrupt_io (\<lambda>_. 0) (demo_ingest_env False None) 0 FLB_INPUT_LOGS ''t'' 1 10 demo_corrupt = Some ((None, True), st') \<and>
    (\<forall>g' chunk_size'. input_chunk_get demo_corrupt_io (\<lambda>_. 0) g' 0 FLB_INPUT_LOGS ''t'' 1 chunk_size' st' = None)"
    by (rule input_chunk_get_corrupted_dangles [where ht = "snd (flb_hash_table_add (\<lambda>_. 0) 5 0 True True demo_ht (Some ''t'') 1 0 [] 0)" and a = 0])
      (use h t in \<open>simp_all add: f chunk_table_def demo_chunk_of_def demo_corrupt_io_def demo_io_def demo_ingest_env_def creatable_def chunk_opens_def
         FLB_INPUT_CHUNK_TAG_MAX_def\<close>)
  then show ?thesis by blast
qed

end
