(* ===== verification/Spec2Isabelle.thy ===== *)
theory Spec2Isabelle
  imports Flb_Routes_Mask Flb_Hash_Table Flb_Base64 Flb_Bucket_Queue Flb_Engine_Loop
    Flb_Ingest
begin

text \<open>
  A verification library for the core of Fluent Bit 3.2.2: the way of a record from the input that
  collected it to the outputs that deliver it.

  \<^bold>\<open>The program.\<close> An input hands records with a tag to the engine. They pass the chain of filters
  (\<^verbatim>\<open>src/flb_filter.c\<close>) and are written to a \<^emph>\<open>chunk\<close> (\<^verbatim>\<open>src/flb_input_chunk.c\<close>), a buffer
  of the vendored Chunk I/O library whose metadata holds the tag; the hash table of the input
  (\<^verbatim>\<open>src/flb_hash_table.c\<close>) finds the open chunk of a tag, and the routes mask of a chunk
  (\<^verbatim>\<open>src/flb_routes_mask.c\<close>, \<^verbatim>\<open>src/flb_router.c\<close>) says which outputs it is for. A flush timer
  makes the engine (\<^verbatim>\<open>src/flb_engine_dispatch.c\<close>) turn every chunk into a \<^emph>\<open>task\<close>
  (\<^verbatim>\<open>src/flb_task.c\<close>) with one route per output, and hand the task to its outputs
  (\<^verbatim>\<open>src/flb_output.c\<close>), which run one flush per coroutine or worker. The end of a flush is an
  event on a pipe, a number that packs the result, the task and the output; the loop of the engine
  (\<^verbatim>\<open>src/flb_engine.c\<close>) reads it, counts the records and retries, drops or releases the task.
  Retries wait in the scheduler (\<^verbatim>\<open>src/flb_scheduler.c\<close>). Chunks an earlier run left on disk come
  back through the input \<^verbatim>\<open>plugins/in_storage_backlog/sb.c\<close>. When the process is asked to stop, the
  loop waits for its tasks during a grace period.

  \<^bold>\<open>The theories\<close>, in the order of their imports:

  \<^item> \<open>Flb_Prelude\<close>: C strings, linked lists and machine integers, and the lemmas the components share.
  \<^item> \<open>Flb_Config\<close>: the instances of \<^verbatim>\<open>flb_input.h\<close> and \<^verbatim>\<open>flb_output.h\<close> as far as routing reads
    them, event types, output ids (\<^verbatim>\<open>instance_id\<close>, \<^verbatim>\<open>flb_output_get_instance\<close>).
  \<^item> \<open>Flb_Router\<close>: \<^verbatim>\<open>flb_router.c\<close>. The matcher accepts exactly the language of the pattern; the
    static routes connect exactly the matching pairs.
  \<^item> \<open>Flb_Routes_Mask\<close>: \<^verbatim>\<open>flb_routes_mask.c\<close> on four 64-bit words, with the index of every access. The
    locale \<open>bit_field\<close> states what chunks and tasks rely on and is interpreted on the model. The mask of
    a tag holds exactly the accepting outputs; the accessors leave the array exactly at the value 256.
  \<^item> \<open>Flb_Hash_Table\<close>: \<^verbatim>\<open>flb_hash_table.c\<close> over a store of entries. The locale \<open>string_map\<close> states the map
    a client sees; lookups return what was added until it expires or is evicted, the capacity holds, deletion is exact.
  \<^item> \<open>Flb_Scheduler\<close>: \<^verbatim>\<open>flb_scheduler.c\<close>: the back-off and its bounds, requests, timers and timer coroutines.
    A request waits for exactly the back-off it was given. The locale \<open>retry_bag\<close> states that a scheduled retry is
    pending until it fires or is cancelled.
  \<^item> \<open>Flb_Engine_State\<close>: the structures of chunks, tasks, routes, retries, inputs and outputs over stores
    indexed by address, and the record \<open>cio_api\<close> of the Chunk I/O operations, an argument throughout.
  \<^item> \<open>Flb_Input_Chunk\<close>: \<^verbatim>\<open>flb_input_chunk.c\<close> as far as it does not call task code: header, creation,
    destruction, counters of the outputs, memory limits, pause and resume (\<^verbatim>\<open>flb_input.c\<close>).
  \<^item> \<open>Flb_Task\<close>: \<^verbatim>\<open>flb_task.c\<close> and the inline functions of \<^verbatim>\<open>flb_task.h\<close>: ids, creation, destruction, users,
    routes, retries, the packed number.
  \<^item> \<open>Flb_Output\<close>: the part of \<^verbatim>\<open>flb_output.c\<close> and \<^verbatim>\<open>flb_output.h\<close> that flushes tasks, with the queue of
    synchronous outputs.
  \<^item> \<open>Flb_Engine\<close>: \<^verbatim>\<open>flb_engine_dispatch.c\<close>, \<^verbatim>\<open>handle_output_event\<close> of \<^verbatim>\<open>flb_engine.c\<close> and
    \<^verbatim>\<open>flb_sched_event_handler\<close>.
  \<^item> \<open>Flb_Engine_Inv\<close>, \<open>Flb_Engine_Tokens\<close>, \<open>Flb_Engine_Handlers\<close>, \<open>Flb_Engine_Dispatch\<close>: the invariant of the
    engine and that every operation keeps it. Its heart is the account of \<^emph>\<open>tokens\<close>: a flush, a waiting entry or an
    unread event is a token for a task and an output, and the users of a task cover its tokens.
  \<^item> \<open>Flb_Engine_Safety\<close>: the engine as the transition system \<open>engine_step\<close>, whose steps are the functions above,
    and what holds in every reachable state: no dangling reference, one delivery of a task to an output at a time,
    every pending event is handled, every record is counted once, a task is retried as often as its output allows.
  \<^item> \<open>Flb_Engine_Loop\<close>: the core events of the loop of \<^verbatim>\<open>flb_engine_start\<close> and the shutdown; it ends within the grace
    period.
  \<^item> \<open>Flb_Storage_Backlog\<close>: \<^verbatim>\<open>plugins/in_storage_backlog/sb.c\<close> and \<^verbatim>\<open>flb_input_chunk_map\<close>: segregation of the chunks
    on disk into one queue per output, release of the queues, and the drain that hands every chunk over to the engine.
  \<^item> \<open>Flb_Chunk_Tables\<close>: the hash tables in which an input keeps the open chunk of every tag: each entry is a chunk that exists and
    carries the tag. Destroying chunks and tasks keeps this.
  \<^item> \<open>Flb_Chunk_Space\<close>: the part of \<^verbatim>\<open>flb_input_chunk.c\<close> that makes room for an output or a ring buffer: the oldest
    chunks go first, no more than needed, and every invariant is kept.
  \<^item> \<open>Flb_Filter\<close>: \<^verbatim>\<open>flb_filter_do\<close> and the record count of \<^verbatim>\<open>flb_mp.c\<close>.
  \<^item> \<open>Flb_Ingest\<close>: \<^verbatim>\<open>input_chunk_get\<close>, \<^verbatim>\<open>input_chunk_append_raw\<close> and the ring buffers of threaded inputs, over all the
    theories above: records are appended without following a stale reference, all invariants are kept, the chunk ends with
    exactly the bytes the filters left, and the collector drains the ring buffers in order.
  \<^item> \<open>Flb_Bucket_Queue\<close>: the priority queue of the event loop (\<^verbatim>\<open>flb_bucket_queue.h\<close>, \<^verbatim>\<open>flb_event_loop.h\<close>) against a
    stable sort, through the locale \<open>prio_fifo\<close>.
  \<^item> \<open>Flb_Base64\<close>: \<^verbatim>\<open>flb_base64.c\<close>, round trip and bounds of the decoder.

  \<^bold>\<open>Correspondence.\<close> Definitions keep the names of the C functions and types. A structure is a record with the
  fields that the modelled code reads or writes; fields of chunks have the prefix \<open>ic_\<close>, of tasks \<open>tk_\<close>, of routes
  \<open>tr_\<close>, of retries \<open>rt_\<close>, of inputs \<open>in_\<close>, of outputs \<open>o_\<close>, of the engine (\<^verbatim>\<open>struct flb_config\<close>) \<open>e_\<close>, of the
  dispatch state with queues, flushes and events \<open>d_\<close>. An operation takes the state last and returns it with its
  result. What comes from outside is an argument: outcomes of allocations and of writes, random numbers, times, the
  regular expression engine, Chunk I/O, the callbacks of plugins. A result \<open>None\<close> is a call the code does not
  survive (a freed or NULL reference, an access out of bounds), so a theorem that the result is \<open>Some\<close> says
  that this does not happen. Mutual recursion and loops of the code are total functions.

  \<^bold>\<open>Assumptions.\<close> The transition system lets the environment choose everything except that
  \<^verbatim>\<open>flb_event_chunk_create\<close> succeeds: when it fails the code keeps a freed task in its map, as the
  theory of the tasks shows. Rescheduling retries at a shutdown is outside of the transition
  system, because it can schedule a retry whose flush runs, as the theory of the loop shows. The tables of open chunks are
  right as long as the metadata of a chunk can be read again after it was unmapped (\<open>meta_kept\<close>, \<open>meta_stored\<close>),
  the tables can allocate an entry, and a corrupted chunk is deleted or replaced. Unmapping a chunk keeps the size of its file
  (\<open>keeps_size\<close>, \<open>map_keeps_size\<close>), which holds unless \<^verbatim>\<open>storage.trim_files\<close> is on; the size of the content is known
  only while a chunk is up (\<open>content_kept\<close>). Records enter the transition system as new chunks
  (\<^verbatim>\<open>flb_input_chunk_create\<close>); the whole of an append, with the release of space, is the subject of \<open>Flb_Ingest\<close>, which
  shows that it keeps the same invariant. The ring buffer of a threaded input is read as it was when the collector reached
  the input; entries that its thread writes meanwhile are not modelled.

  \<^bold>\<open>Bounds and fuel.\<close> A routes mask has 256 bits, \<^verbatim>\<open>tasks_map\<close> 2048 entries, an output id 14 bits and a task id 14
  bits of the packed number, as in the code. \<open>rand_loop\<close> is a partial function, since \<^verbatim>\<open>random_uniform\<close> draws
  until a value is usable; the bounds of the back-off are stated for sequences in which one is. \<open>queue_loop\<close> of
  the backlog takes a number of rounds, because the code's loop can run for ever;
  it is shown there that one round per queued entry and one more are enough where chunks can be
  brought up. \<open>mp_count_loop\<close> takes the length of the buffer, which is enough because an object has at least one byte.
  Byte counters are unbounded integers; the comparisons in which the code's \<^verbatim>\<open>size_t\<close> matters are written out.

  \<^bold>\<open>Not modelled.\<close> Reading configuration, plugins other than \<^verbatim>\<open>in_storage_backlog\<close>, threads and the event loop
  library, sockets, TLS and HTTP, parsers, processors and the stream processor, metrics export, start-up and the release
  of components after the loop: they are input and output, callbacks, or vendored code; where the modelled code
  calls them, their results are arguments. Counters that the modelled operations change are kept.
\<close>

end
